(* ===== verification/LRS_Prelude.thy ===== *)
theory LRS_Prelude
  imports Main "HOL-Library.Word"
begin

unbundle bit_operations_syntax

text \<open>
  Shared vocabulary of the development.

  \<^item> Machine integers (\<open>u8\<close> to \<open>u64\<close>) and the faults a C program can run into
    (\<open>c_fault\<close>); a computation that can fault has type \<open>'a res\<close>.
  \<^item> C strings are \<open>string\<close> values without the terminating NUL; a pointer that may be NULL is
    an \<open>option\<close>. The parts of \<^verbatim>\<open><ctype.h>\<close>, \<^verbatim>\<open><string.h>\<close>, \<open>printf\<close> and \<open>scanf\<close> that the sources
    use are modelled here (C locale).
  \<^item> Named collections: \<open>c_simps\<close> (evaluation of the C library model) and
    \<open>res_simps\<close> (the result monad).
\<close>

named_theorems c_simps \<open>evaluation rules for the C library model\<close>
named_theorems res_simps \<open>rules for computations that may fault\<close>

section \<open>Machine integers and faults\<close>

type_synonym u8 = "8 word"
type_synonym u16 = "16 word"
type_synonym u32 = "32 word"
type_synonym u64 = "64 word"

datatype c_fault =
    NullDeref      \<comment> \<open>a NULL pointer is read or written\<close>
  | BufOverflow    \<comment> \<open>a write past the end of a fixed buffer\<close>
  | OutOfBounds    \<comment> \<open>a read past the end of a buffer\<close>
  | DivByZero      \<comment> \<open>an integer is divided by 0\<close>
  | Exit nat       \<comment> \<open>the process calls \<open>exit\<close> with this status\<close>

type_synonym 'a res = "c_fault + 'a"

definition bind_res :: "'e + 'a \<Rightarrow> ('a \<Rightarrow> 'e + 'b) \<Rightarrow> 'e + 'b" where
  "bind_res m f = (case m of Inl e \<Rightarrow> Inl e | Inr x \<Rightarrow> f x)"

lemma bind_res_simps [simp, res_simps]:
  "bind_res (Inl e) f = Inl e"
  "bind_res (Inr x) f = f x"
  by (simp_all add: bind_res_def)

lemma bind_res_Inr_iff [res_simps]:
  "bind_res m f = Inr y \<longleftrightarrow> (\<exists>x. m = Inr x \<and> f x = Inr y)"
  by (cases m) auto

lemma bind_res_cong [fundef_cong]:
  "m = m' \<Longrightarrow> (\<And>x. m' = Inr x \<Longrightarrow> f x = f' x) \<Longrightarrow> bind_res m f = bind_res m' f'"
  by (cases m') auto

lemma bind_res_assoc: "bind_res (bind_res m f) g = bind_res m (\<lambda>x. bind_res (f x) g)"
  by (cases m) auto

text \<open>Computations that may also run for ever: \<open>None\<close> is not returning.\<close>

type_synonym 'a run = "'a res option"

definition bind_run :: "'a run \<Rightarrow> ('a \<Rightarrow> 'b run) \<Rightarrow> 'b run" where
  "bind_run m f = (case m of None \<Rightarrow> None | Some (Inl e) \<Rightarrow> Some (Inl e) | Some (Inr x) \<Rightarrow> f x)"

definition ret_run :: "'a \<Rightarrow> 'a run" where
  "ret_run x = Some (Inr x)"

lemma bind_run_simps [simp, res_simps]:
  "bind_run None f = None"
  "bind_run (Some (Inl e)) f = Some (Inl e)"
  "bind_run (Some (Inr x)) f = f x"
  "bind_run (ret_run x) f = f x"
  by (simp_all add: bind_run_def ret_run_def)

section \<open>Characters\<close>

abbreviation NUL :: char where "NUL \<equiv> CHR 0x00"
abbreviation NL :: char where "NL \<equiv> CHR 0x0A"

definition isspace :: "char \<Rightarrow> bool" where
  "isspace c \<longleftrightarrow> c = CHR '' '' \<or> (9 \<le> (of_char c :: nat) \<and> (of_char c :: nat) \<le> 13)"

definition isdigit :: "char \<Rightarrow> bool" where
  "isdigit c \<longleftrightarrow> 48 \<le> (of_char c :: nat) \<and> (of_char c :: nat) \<le> 57"

definition isupper :: "char \<Rightarrow> bool" where
  "isupper c \<longleftrightarrow> 65 \<le> (of_char c :: nat) \<and> (of_char c :: nat) \<le> 90"

definition islower :: "char \<Rightarrow> bool" where
  "islower c \<longleftrightarrow> 97 \<le> (of_char c :: nat) \<and> (of_char c :: nat) \<le> 122"

definition tolower :: "char \<Rightarrow> char" where
  "tolower c = (if isupper c then char_of ((of_char c :: nat) + 32) else c)"

definition toupper :: "char \<Rightarrow> char" where
  "toupper c = (if islower c then char_of ((of_char c :: nat) - 32) else c)"

lemma tolower_idem [simp]: "tolower (tolower c) = tolower c"
  by (auto simp: tolower_def isupper_def)

lemma isspace_tolower [simp]: "isspace (tolower c) = isspace c"
proof (cases "isupper c")
  case True
  then have "(of_char (tolower c) :: nat) = of_char c + 32"
    by (simp add: tolower_def isupper_def)
  with True have "\<not> isspace (tolower c)" "\<not> isspace c"
    by (auto simp: isspace_def isupper_def)
  then show ?thesis by simp
qed (simp add: tolower_def)

lemma isdigit_not_isspace: "isdigit c \<Longrightarrow> \<not> isspace c"
  by (auto simp: isdigit_def isspace_def)

lemma not_isspace_NUL [simp]: "\<not> isspace NUL"
  by (simp add: isspace_def)

section \<open>C strings\<close>

text \<open>The string a NUL-terminated buffer holds.\<close>

definition cstr :: "string \<Rightarrow> string" where
  "cstr b = takeWhile (\<lambda>c. c \<noteq> NUL) b"

lemma cstr_ident [simp]: "NUL \<notin> set s \<Longrightarrow> cstr s = s"
  by (auto simp: cstr_def takeWhile_eq_all_conv)

lemma NUL_notin_cstr [simp]: "NUL \<notin> set (cstr s)"
  by (auto simp: cstr_def dest: set_takeWhileD)

lemma length_cstr [simp]: "length (cstr s) \<le> length s"
  by (simp add: cstr_def length_takeWhile_le)

lemma cstr_append_NUL [simp]: "NUL \<notin> set s \<Longrightarrow> cstr (s @ NUL # r) = s"
  by (auto simp: cstr_def takeWhile_append)

fun strstr :: "string \<Rightarrow> string \<Rightarrow> string option" where
  "strstr [] pat = (if pat = [] then Some [] else None)"
| "strstr (c # cs) pat =
     (if take (length pat) (c # cs) = pat then Some (c # cs) else strstr cs pat)"

lemma strstr_hit: "strstr (pat @ r) pat = Some (pat @ r)"
proof (cases "pat @ r")
  case (Cons c cs)
  then have "take (length pat) (c # cs) = pat" by (metis append_eq_conv_conj)
  with Cons show ?thesis by simp
qed simp

lemma strstr_Some_decomp: "strstr s pat = Some r \<Longrightarrow> \<exists>pre suf. s = pre @ r \<and> r = pat @ suf"
proof (induction s)
  case Nil
  then show ?case by (auto split: if_splits)
next
  case (Cons c cs)
  show ?case
  proof (cases "take (length pat) (c # cs) = pat")
    case True
    with Cons.prems have "r = c # cs" by simp
    then show ?thesis by (metis True append_Nil append_take_drop_id)
  next
    case False
    with Cons obtain pre suf where "cs = pre @ r" "r = pat @ suf" by auto
    then show ?thesis by (metis append_Cons)
  qed
qed

text \<open>Skipping a prefix whose characters cannot start the pattern.\<close>

lemma strstr_skip:
  "\<forall>c \<in> set pre. c \<noteq> p \<Longrightarrow> strstr (pre @ s) (p # ps) = strstr s (p # ps)"
  by (induction pre) auto

text \<open>Where a pattern is first met at the end of a text, it is met at the same place in any continuation.\<close>

lemma strstr_extend: "strstr (a @ pat) pat = Some pat \<Longrightarrow> strstr (a @ pat @ r) pat = Some (pat @ r)"
proof (induction a)
  case Nil
  then show ?case using strstr_hit by simp
next
  case (Cons c a)
  have "take (length pat) (c # a @ pat) \<noteq> pat"
  proof
    assume "take (length pat) (c # a @ pat) = pat"
    with Cons.prems have "c # a @ pat = pat" by simp
    then show False by (metis append_Cons append_self_conv2 list.distinct(1))
  qed
  moreover have "take (length pat) (c # a @ pat @ r) = take (length pat) (c # a @ pat)"
    using take_append [of "length pat" "c # a @ pat" r] by simp
  ultimately show ?case using Cons by simp
qed

definition strchr :: "string \<Rightarrow> char \<Rightarrow> string option" where
  "strchr s c = (case dropWhile (\<lambda>x. x \<noteq> c) s of [] \<Rightarrow> None | r \<Rightarrow> Some r)"

lemma strchr_None_iff [simp]: "strchr s c = None \<longleftrightarrow> c \<notin> set s"
  by (induction s) (auto simp: strchr_def)

text \<open>\<open>strrchr\<close>: what is before and after the last occurrence.\<close>

fun strrchr_split :: "string \<Rightarrow> char \<Rightarrow> (string \<times> string) option" where
  "strrchr_split [] c = None"
| "strrchr_split (x # xs) c =
     (case strrchr_split xs c of
        Some (a, b) \<Rightarrow> Some (x # a, b)
      | None \<Rightarrow> if x = c then Some ([], xs) else None)"

lemma strrchr_split_None [simp]: "strrchr_split s c = None \<longleftrightarrow> c \<notin> set s"
  by (induction s) (auto split: option.splits)

lemma strrchr_split_append [simp]:
  "c \<notin> set b \<Longrightarrow> strrchr_split (a @ c # b) c = Some (a, b)"
proof (induction a)
  case Nil
  then have "strrchr_split b c = None" by simp
  then show ?case by (simp del: strrchr_split_None)
next
  case (Cons x a)
  then show ?case by simp
qed

lemma strrchr_split_Some: "strrchr_split s c = Some (a, b) \<Longrightarrow> s = a @ c # b \<and> c \<notin> set b"
proof (induction s arbitrary: a b)
  case Nil
  then show ?case by simp
next
  case (Cons x xs)
  show ?case
  proof (cases "strrchr_split xs c")
    case None
    with Cons.prems show ?thesis by (auto split: if_splits)
  next
    case (Some ab)
    obtain a' b' where ab: "ab = (a', b')" by (cases ab)
    with Some Cons.prems have "a = x # a'" "b = b'" by auto
    with Cons.IH [of a' b'] Some ab show ?thesis by simp
  qed
qed

text \<open>\<open>snprintf\<close> into a buffer with room \<open>n\<close>: at most \<open>n - 1\<close> characters.\<close>

definition snprintf :: "nat \<Rightarrow> string \<Rightarrow> string" where
  "snprintf n s = take (n - 1) s"

text \<open>\<open>strcpy\<close> into a buffer of \<open>n\<close> bytes.\<close>

definition strcpy :: "nat \<Rightarrow> string \<Rightarrow> string res" where
  "strcpy n s = (if length s < n then Inr s else Inl BufOverflow)"

section \<open>Numbers in text\<close>

definition digit_char :: "nat \<Rightarrow> char" where
  "digit_char n = char_of (48 + n)"

definition digit_val :: "char \<Rightarrow> nat" where
  "digit_val c = of_char c - 48"

lemma isdigit_digit_char [simp]: "n < 10 \<Longrightarrow> isdigit (digit_char n)"
  by (simp add: isdigit_def digit_char_def)

lemma digit_val_digit_char [simp]: "n < 10 \<Longrightarrow> digit_val (digit_char n) = n"
  by (simp add: digit_val_def digit_char_def)

text \<open>The \<open>%u\<close> and \<open>%d\<close> conversions of \<open>printf\<close>.\<close>

fun show_nat :: "nat \<Rightarrow> string" where
  "show_nat n = (if n < 10 then [digit_char n] else show_nat (n div 10) @ [digit_char (n mod 10)])"

declare show_nat.simps [simp del]

definition show_int :: "int \<Rightarrow> string" where
  "show_int i = (if i < 0 then CHR ''-'' # show_nat (nat (- i)) else show_nat (nat i))"

text \<open>Zero padding, as in \<open>%03d\<close>, and left justification, as in \<open>%-30s\<close>.\<close>

definition pad0 :: "nat \<Rightarrow> string \<Rightarrow> string" where
  "pad0 w s = replicate (w - length s) (CHR ''0'') @ s"

definition ljust :: "nat \<Rightarrow> string \<Rightarrow> string" where
  "ljust w s = s @ replicate (w - length s) (CHR '' '')"

definition rjust :: "nat \<Rightarrow> string \<Rightarrow> string" where
  "rjust w s = replicate (w - length s) (CHR '' '') @ s"

text \<open>The digits at the front of a string, as a number after an accumulator.\<close>

fun scan_digits :: "nat \<Rightarrow> string \<Rightarrow> nat \<times> string" where
  "scan_digits a [] = (a, [])"
| "scan_digits a (c # cs) =
     (if isdigit c then scan_digits (10 * a + digit_val c) cs else (a, c # cs))"

definition clamp32 :: "int \<Rightarrow> int" where
  "clamp32 i = max (- (2 ^ 31)) (min i (2 ^ 31 - 1))"

text \<open>
  \<open>%d\<close> of \<open>scanf\<close>: leading blanks, an optional sign, digits; the value saturates at the
  bounds of \<open>int\<close>, as \<open>strtol\<close> does. \<open>None\<close> is a matching failure. \<open>atoi\<close> is 0 on failure.
\<close>

definition scan_int :: "string \<Rightarrow> (int \<times> string) option" where
  "scan_int s =
     (case dropWhile isspace s of
        [] \<Rightarrow> None
      | c # cs \<Rightarrow>
          if isdigit c then (let (n, r) = scan_digits 0 (c # cs) in Some (clamp32 (int n), r))
          else if (c = CHR ''-'' \<or> c = CHR ''+'') \<and> cs \<noteq> [] \<and> isdigit (hd cs)
          then (let (n, r) = scan_digits 0 cs
                in Some (clamp32 (if c = CHR ''-'' then - int n else int n), r))
          else None)"

definition atoi :: "string \<Rightarrow> int" where
  "atoi s = (case scan_int s of None \<Rightarrow> 0 | Some (i, _) \<Rightarrow> i)"

definition no_digit_head :: "string \<Rightarrow> bool" where
  "no_digit_head r \<longleftrightarrow> (case r of [] \<Rightarrow> True | c # _ \<Rightarrow> \<not> isdigit c)"

lemma no_digit_head_simps [simp]:
  "no_digit_head []" "no_digit_head (c # r) \<longleftrightarrow> \<not> isdigit c"
  by (simp_all add: no_digit_head_def)

lemma scan_digits_append:
  "\<forall>c \<in> set s. isdigit c \<Longrightarrow> scan_digits a (s @ r) = scan_digits (fst (scan_digits a s)) r"
  by (induction s arbitrary: a) auto

lemma show_nat_digits: "c \<in> set (show_nat n) \<Longrightarrow> isdigit c"
proof (induction n rule: show_nat.induct)
  case (1 n)
  then show ?case
    by (subst (asm) (2) show_nat.simps) (auto split: if_splits)
qed

lemma show_nat_nonempty [simp]: "show_nat n \<noteq> []"
  by (subst show_nat.simps) simp

lemma scan_digits_stop: "no_digit_head r \<Longrightarrow> scan_digits a r = (a, r)"
  by (cases r) auto

lemma fst_scan_digits_show_nat: "scan_digits 0 (show_nat n) = (n, [])"
proof (induction n rule: show_nat.induct)
  case (1 n)
  show ?case
  proof (cases "n < 10")
    case True
    then show ?thesis by (subst show_nat.simps) simp
  next
    case False
    with "1.IH" have IH: "scan_digits 0 (show_nat (n div 10)) = (n div 10, [])" by simp
    have "scan_digits 0 (show_nat (n div 10) @ [digit_char (n mod 10)])
            = scan_digits (n div 10) [digit_char (n mod 10)]"
      by (subst scan_digits_append) (auto simp: IH dest: show_nat_digits)
    with False show ?thesis by (subst show_nat.simps) simp
  qed
qed

lemma scan_digits_show_nat:
  "no_digit_head r \<Longrightarrow> scan_digits 0 (show_nat n @ r) = (n, r)"
  by (subst scan_digits_append)
     (auto simp: fst_scan_digits_show_nat scan_digits_stop dest: show_nat_digits)

lemma show_nat_cases:
  obtains c cs where "show_nat n = c # cs" "isdigit c" "\<not> isspace c"
  by (metis isdigit_not_isspace list.exhaust list.set_intros(1) show_nat_digits show_nat_nonempty)

text \<open>What \<open>printf\<close> writes with \<open>%d\<close>, \<open>scanf\<close> reads back.\<close>

lemma scan_int_show_nat:
  assumes "no_digit_head r" "int n < 2 ^ 31"
  shows "scan_int (show_nat n @ r) = Some (int n, r)"
proof -
  obtain c cs where c: "show_nat n = c # cs" "isdigit c" "\<not> isspace c" by (rule show_nat_cases)
  have d: "scan_digits 0 (c # cs @ r) = (n, r)"
    using scan_digits_show_nat [OF assms(1), of n] c by simp
  from c assms(2) show ?thesis
    by (simp add: scan_int_def d clamp32_def del: scan_digits.simps)
qed

lemma isdigit_minus [simp]: "\<not> isdigit (CHR ''-'')" "\<not> isspace (CHR ''-'')"
  by (simp_all add: isdigit_def isspace_def)

lemma scan_int_show_int:
  assumes "no_digit_head r" "- (2 ^ 31) \<le> i" "i < 2 ^ 31"
  shows "scan_int (show_int i @ r) = Some (i, r)"
proof (cases "i < 0")
  case False
  with assms scan_int_show_nat [OF assms(1), of "nat i"] show ?thesis by (simp add: show_int_def)
next
  case True
  obtain c cs where c: "show_nat (nat (- i)) = c # cs" "isdigit c" "\<not> isspace c"
    by (rule show_nat_cases)
  have d: "scan_digits 0 (c # cs @ r) = (nat (- i), r)"
    using scan_digits_show_nat [OF assms(1), of "nat (- i)"] c by simp
  from c True assms show ?thesis
    by (simp add: show_int_def scan_int_def d clamp32_def del: scan_digits.simps)
qed

text \<open>The text of a 32-bit integer has at most 11 characters.\<close>

lemma length_show_nat: "0 < k \<Longrightarrow> n < 10 ^ k \<Longrightarrow> length (show_nat n) \<le> k"
proof (induction n arbitrary: k rule: show_nat.induct)
  case (1 n)
  show ?case
  proof (cases "n < 10")
    case True
    with "1.prems" show ?thesis by (subst show_nat.simps) auto
  next
    case False
    then have k: "1 < k" using "1.prems" by (cases k) (auto simp: less_Suc_eq)
    then obtain j where j: "k = Suc j" "0 < j" by (cases k) auto
    with "1.prems" have "n div 10 < 10 ^ j" by (simp add: less_mult_imp_div_less mult.commute)
    from "1.IH" [OF False j(2) this] False j show ?thesis by (subst show_nat.simps) simp
  qed
qed

lemma length_show_int_sint: "length (show_int (sint (w :: u32))) \<le> 11"
proof -
  have s: "- (2 ^ 31) \<le> sint w" "sint w < 2 ^ 31"
    using sint_greater_eq [of w] sint_lt [of w] by simp_all
  have "length (show_nat n) \<le> 10" if "n \<le> 2 ^ 31" for n :: nat
    using that by (intro length_show_nat) auto
  moreover have "nat (- sint w) \<le> 2 ^ 31" "nat (sint w) \<le> 2 ^ 31" using s by auto
  ultimately have "length (show_nat (nat (- sint w))) \<le> 10" "length (show_nat (nat (sint w))) \<le> 10" by blast+
  then show ?thesis by (simp add: show_int_def)
qed

section \<open>Reading text files\<close>

text \<open>\<open>fgets(buf, n, f)\<close> on the rest of a file: the line read and what follows it.\<close>

fun fgets_loop :: "nat \<Rightarrow> string \<Rightarrow> string \<times> string" where
  "fgets_loop 0 s = ([], s)"
| "fgets_loop (Suc n) [] = ([], [])"
| "fgets_loop (Suc n) (c # cs) =
     (if c = NL then ([c], cs) else (let (l, r) = fgets_loop n cs in (c # l, r)))"

lemma fgets_loop_append: "fgets_loop n s = (l, r) \<Longrightarrow> s = l @ r"
  by (induction n s arbitrary: l r rule: fgets_loop.induct) (auto split: prod.splits if_splits)

lemma fgets_loop_length: "fgets_loop n s = (l, r) \<Longrightarrow> length l \<le> n"
  by (induction n s arbitrary: l r rule: fgets_loop.induct) (auto split: prod.splits if_splits)

lemma fgets_loop_progress: "0 < n \<Longrightarrow> s \<noteq> [] \<Longrightarrow> length (snd (fgets_loop n s)) < length s"
proof (induction n s rule: fgets_loop.induct)
  case (3 n c cs)
  then show ?case
    by (auto split: prod.splits dest!: fgets_loop_append)
qed auto

lemma fgets_loop_line:
  "NL \<notin> set l \<Longrightarrow> length l < n \<Longrightarrow> fgets_loop n (l @ NL # r) = (l @ [NL], r)"
proof (induction l arbitrary: n)
  case Nil
  then show ?case by (cases n) auto
next
  case (Cons c l)
  then obtain m where "n = Suc m" by (cases n) auto
  with Cons show ?case by auto
qed

text \<open>The successive results of \<open>fgets\<close> until the end of the file.\<close>

function fgets_all :: "nat \<Rightarrow> string \<Rightarrow> string list" where
  "fgets_all n s =
     (if s = [] \<or> n < 2 then []
      else fst (fgets_loop (n - 1) s) # fgets_all n (snd (fgets_loop (n - 1) s)))"
  by pat_completeness auto
termination
  by (relation "measure (\<lambda>(n, s). length s)") (auto simp: fgets_loop_progress)

declare fgets_all.simps [simp del]

lemma fgets_all_Nil [simp]: "fgets_all n [] = []"
  by (subst fgets_all.simps) simp

lemma fgets_all_length: "l \<in> set (fgets_all n s) \<Longrightarrow> length l < n"
proof (induction n s rule: fgets_all.induct)
  case (1 n s)
  show ?case
  proof (cases "s = [] \<or> n < 2")
    case True
    with "1.prems" show ?thesis by (subst (asm) fgets_all.simps) simp
  next
    case False
    then have "length (fst (fgets_loop (n - 1) s)) \<le> n - 1"
      using fgets_loop_length by (metis prod.collapse)
    with False "1" show ?thesis
      by (subst (asm) (2) fgets_all.simps) (auto dest!: set_ConsD)
  qed
qed

lemma fgets_all_line:
  assumes "NL \<notin> set l" "length l + 1 < n"
  shows "fgets_all n (l @ NL # r) = (l @ [NL]) # fgets_all n r"
proof -
  have "fgets_loop (n - 1) (l @ NL # r) = (l @ [NL], r)"
    using assms by (intro fgets_loop_line) auto
  with assms(2) show ?thesis by (subst fgets_all.simps) auto
qed

lemma fgets_loop_last: "NL \<notin> set l \<Longrightarrow> length l \<le> n \<Longrightarrow> fgets_loop n l = (l, [])"
proof (induction l arbitrary: n)
  case Nil
  then show ?case by (cases n) auto
next
  case (Cons c l)
  then obtain m where "n = Suc m" by (cases n) auto
  with Cons show ?case by auto
qed

lemma fgets_all_last:
  assumes "NL \<notin> set l" "l \<noteq> []" "length l < n"
  shows "fgets_all n l = [l]"
proof -
  have "fgets_loop (n - 1) l = (l, [])" using assms by (intro fgets_loop_last) auto
  moreover have "\<not> n < 2" using assms(2,3) by (cases l) auto
  ultimately show ?thesis using assms(2) by (subst fgets_all.simps) auto
qed

text \<open>\<open>scanf\<close> directives: a scan set \<open>%[...]\<close>, a literal character, a word \<open>%Ns\<close>.\<close>

definition scan_set :: "(char \<Rightarrow> bool) \<Rightarrow> string \<Rightarrow> (string \<times> string) option" where
  "scan_set p s = (let m = takeWhile p s in if m = [] then None else Some (m, dropWhile p s))"

definition scan_char :: "char \<Rightarrow> string \<Rightarrow> string option" where
  "scan_char c s = (case s of [] \<Rightarrow> None | x # xs \<Rightarrow> if x = c then Some xs else None)"

lemma scan_char_simps [simp]:
  "scan_char c [] = None" "scan_char c (x # xs) = (if x = c then Some xs else None)"
  by (simp_all add: scan_char_def)

fun scan_lit :: "string \<Rightarrow> string \<Rightarrow> string option" where
  "scan_lit [] s = Some s"
| "scan_lit (c # cs) s = (case scan_char c s of None \<Rightarrow> None | Some r \<Rightarrow> scan_lit cs r)"

lemma scan_lit_append [simp]: "scan_lit p (p @ s) = Some s"
  by (induction p) auto

definition scan_word :: "nat \<Rightarrow> string \<Rightarrow> (string \<times> string) option" where
  "scan_word n s =
     (let t = dropWhile isspace s; w = take n (takeWhile (\<lambda>c. \<not> isspace c) t)
      in if w = [] then None else Some (w, drop (length w) t))"

section \<open>Signed and unsigned words\<close>

definition is_int32 :: "int \<Rightarrow> bool" where
  "is_int32 i \<longleftrightarrow> - (2 ^ 31) \<le> i \<and> i < 2 ^ 31"

lemma sint_of_int_small: "is_int32 i \<Longrightarrow> sint (of_int i :: u32) = i"
  by (simp add: is_int32_def sint_sbintrunc' signed_take_bit_int_eq_self)

lemma sint_of_nat_small:
  assumes "n < 2 ^ 31"
  shows "sint (of_nat n :: u32) = int n"
proof -
  have "(of_nat n :: u32) = of_int (int n)" by simp
  moreover have "is_int32 (int n)" using assms by (simp add: is_int32_def)
  ultimately show ?thesis by (simp only: sint_of_int_small)
qed

lemma unat_of_nat_small: "n < 2 ^ 32 \<Longrightarrow> unat (of_nat n :: u32) = n"
  by (simp add: unat_of_nat take_bit_eq_mod)

lemma unat_add_of_nat64:
  assumes "unat (w :: u64) + n < 2 ^ 64"
  shows "unat (w + of_nat n) = unat w + n"
proof -
  have "w + of_nat n = of_nat (unat w + n)" by simp
  then have "unat (w + of_nat n) = (unat w + n) mod 2 ^ 64"
    by (simp only: unat_of_nat take_bit_eq_mod) simp
  with assms show ?thesis by simp
qed

section \<open>Integers in memory\<close>

text \<open>The bytes of an unsigned integer, least significant first, and back.\<close>

fun le_bytes :: "nat \<Rightarrow> nat \<Rightarrow> string" where
  "le_bytes 0 x = []"
| "le_bytes (Suc n) x = char_of x # le_bytes n (x div 256)"

fun le_nat :: "string \<Rightarrow> nat" where
  "le_nat [] = 0"
| "le_nat (c # cs) = of_char c + 256 * le_nat cs"

lemma length_le_bytes [simp]: "length (le_bytes n x) = n"
  by (induction n arbitrary: x) auto

lemma le_nat_le_bytes: "le_nat (le_bytes n x) = x mod 256 ^ n"
  by (induction n arbitrary: x) (auto simp: mod_mult2_eq mult.commute)

lemma le_nat_less: "le_nat s < 256 ^ length s"
proof (induction s)
  case (Cons c s)
  have "(of_char c :: nat) < 256" by simp
  then have "le_nat (c # s) < 256 * (le_nat s + 1)" by (simp del: nat_of_char_less_256)
  also have "\<dots> \<le> 256 * 256 ^ length s" using Cons by (intro mult_le_mono2) simp
  finally show ?case by simp
qed simp

lemma le_bytes_le_nat: "le_bytes (length s) (le_nat s) = s"
proof (induction s)
  case (Cons c s)
  have c: "(of_char c :: nat) < 256" by simp
  then have d: "(of_char c + 256 * le_nat s) div 256 = le_nat s" by (simp del: nat_of_char_less_256)
  have "char_of (of_char c + 256 * le_nat s) = (char_of ((of_char c + 256 * le_nat s) mod 256) :: char)"
    by (simp only: char_of_mod_256)
  also have "(of_char c + 256 * le_nat s) mod 256 = of_char c" using c by (simp del: nat_of_char_less_256)
  finally have "char_of (of_char c + 256 * le_nat s) = c" by simp
  with Cons d show ?case by simp
qed simp

text \<open>A string that starts at the front of a buffer and must end in it.\<close>

definition buffer_str :: "string \<Rightarrow> string res" where
  "buffer_str b = (if NUL \<in> set b then Inr (cstr b) else Inl OutOfBounds)"

lemma le_nat_zeros: "le_nat (replicate n NUL) = 0"
  by (induction n) auto

end
