(* ===== verification/Strlib.thy ===== *)
theory Strlib
  imports LRS_Prelude
begin

text \<open>
  \<^verbatim>\<open>server/admin/strlib.c\<close>: the string helpers the configuration parser uses. Each
  returns a static buffer of \<open>ASCIILINESZ + 1\<close> bytes; a copy that does not fit is a
  \<open>BufOverflow\<close>. The loops are modelled as the code writes them and proved equal to their
  list-level meaning.
\<close>

definition ASCIILINESZ :: nat where "ASCIILINESZ = 1024"

section \<open>The routines\<close>

fun strlwc_loop :: "nat \<Rightarrow> string \<Rightarrow> string" where
  "strlwc_loop i [] = []"
| "strlwc_loop i (c # s) =
     (if i < ASCIILINESZ then tolower c # strlwc_loop (Suc i) s else [])"

definition strlwc :: "string option \<Rightarrow> string option" where
  "strlwc s = (case s of None \<Rightarrow> None | Some s \<Rightarrow> Some (strlwc_loop 0 s))"

fun strupc_loop :: "nat \<Rightarrow> string \<Rightarrow> string" where
  "strupc_loop i [] = []"
| "strupc_loop i (c # s) =
     (if i < ASCIILINESZ then toupper c # strupc_loop (Suc i) s else [])"

definition strupc :: "string option \<Rightarrow> string option" where
  "strupc s = (case s of None \<Rightarrow> None | Some s \<Rightarrow> Some (strupc_loop 0 s))"

fun skip_spaces :: "string \<Rightarrow> string" where
  "skip_spaces [] = []"
| "skip_spaces (c # s) = (if isspace c \<and> c \<noteq> NUL then skip_spaces s else c # s)"

definition strskp :: "string option \<Rightarrow> string option" where
  "strskp s = (case s of None \<Rightarrow> None | Some s \<Rightarrow> Some (skip_spaces s))"

text \<open>The backward loop: the pointer \<open>last\<close> as an index into \<open>l\<close>.\<close>

fun crop_loop :: "string \<Rightarrow> nat \<Rightarrow> nat" where
  "crop_loop l 0 = 0"
| "crop_loop l (Suc n) = (if \<not> isspace (l ! n) then Suc n else crop_loop l n)"

definition strcrop :: "string option \<Rightarrow> string option res" where
  "strcrop s =
     (case s of
        None \<Rightarrow> Inr None
      | Some s \<Rightarrow> bind_res (strcpy (ASCIILINESZ + 1) s)
          (\<lambda>l. Inr (Some (take (crop_loop l (length l)) l))))"

definition strstrip :: "string option \<Rightarrow> string option res" where
  "strstrip s =
     (case s of
        None \<Rightarrow> Inr None
      | Some s \<Rightarrow> bind_res (strcpy (ASCIILINESZ + 1) (skip_spaces s))
          (\<lambda>l. Inr (Some (take (crop_loop l (length l)) l))))"

section \<open>What they compute\<close>

text \<open>A string without its trailing blanks.\<close>

definition rtrim :: "string \<Rightarrow> string" where
  "rtrim s = rev (dropWhile isspace (rev s))"

lemma strlwc_loop_eq: "strlwc_loop i s = map tolower (take (ASCIILINESZ - i) s)"
proof (induction i s rule: strlwc_loop.induct)
  case (2 i c s)
  show ?case
  proof (cases "i < ASCIILINESZ")
    case True
    then have "ASCIILINESZ - i = Suc (ASCIILINESZ - Suc i)" by simp
    with True "2.IH" show ?thesis by simp
  qed simp
qed simp

lemma strupc_loop_eq: "strupc_loop i s = map toupper (take (ASCIILINESZ - i) s)"
proof (induction i s rule: strupc_loop.induct)
  case (2 i c s)
  show ?case
  proof (cases "i < ASCIILINESZ")
    case True
    then have "ASCIILINESZ - i = Suc (ASCIILINESZ - Suc i)" by simp
    with True "2.IH" show ?thesis by simp
  qed simp
qed simp

lemma strlwc_Some [simp]:
  "strlwc (Some s) = Some (map tolower (take ASCIILINESZ s))"
  "strlwc None = None"
  by (simp_all add: strlwc_def strlwc_loop_eq)

lemma skip_spaces_eq: "skip_spaces s = dropWhile isspace s"
  by (induction s) auto

lemma strskp_Some [simp]: "strskp (Some s) = Some (dropWhile isspace s)"
  by (simp add: strskp_def skip_spaces_eq)

lemma crop_loop_le: "crop_loop l n \<le> n"
  by (induction n) auto

lemma take_crop_loop: "n \<le> length l \<Longrightarrow> take (crop_loop l n) l = rtrim (take n l)"
proof (induction n)
  case 0
  then show ?case by (simp add: rtrim_def)
next
  case (Suc n)
  then have "take (Suc n) l = take n l @ [l ! n]" by (simp add: take_Suc_conv_app_nth)
  with Suc show ?case by (simp add: rtrim_def)
qed

lemma strcrop_Some:
  "strcrop (Some s) =
     (if length s \<le> ASCIILINESZ then Inr (Some (rtrim s)) else Inl BufOverflow)"
  using take_crop_loop [of "length s" s] by (simp add: strcrop_def strcpy_def)

lemma strstrip_Some:
  "strstrip (Some s) =
     (if length (dropWhile isspace s) \<le> ASCIILINESZ
      then Inr (Some (rtrim (dropWhile isspace s))) else Inl BufOverflow)"
  using take_crop_loop [of "length (dropWhile isspace s)" "dropWhile isspace s"]
  by (simp add: strstrip_def strcpy_def skip_spaces_eq)

lemma rtrim_length [simp]: "length (rtrim s) \<le> length s"
  by (simp add: rtrim_def) (metis length_dropWhile_le length_rev)

lemma rtrim_prefix: "\<exists>w. s = rtrim s @ w \<and> (\<forall>c \<in> set w. isspace c)"
proof -
  have "rev s = takeWhile isspace (rev s) @ dropWhile isspace (rev s)" by simp
  then have "s = rev (dropWhile isspace (rev s)) @ rev (takeWhile isspace (rev s))"
    by (metis rev_append rev_rev_ident)
  then show ?thesis by (metis rtrim_def set_rev set_takeWhileD)
qed

lemma rtrim_last: "rtrim s \<noteq> [] \<Longrightarrow> \<not> isspace (last (rtrim s))"
  by (simp add: rtrim_def last_rev hd_dropWhile)

lemma rtrim_ident: "s = [] \<or> \<not> isspace (last s) \<Longrightarrow> rtrim s = s"
  by (cases s rule: rev_cases) (auto simp: rtrim_def)

lemma rtrim_append_spaces: "\<forall>c \<in> set w. isspace c \<Longrightarrow> rtrim (s @ w) = rtrim s"
  by (simp add: rtrim_def) (metis dropWhile_append2 set_rev)

lemma rtrim_idem [simp]: "rtrim (rtrim s) = rtrim s"
  using rtrim_last rtrim_ident by blast

text \<open>
  (\<open>strstrip\<close>): on any string that fits the static buffer the result is the unique
  factor of the input with no blank at either end whose removed prefix and suffix are blank;
  an input that does not fit once its leading blanks are skipped overflows the buffer.
\<close>

theorem strstrip_spec:
  "strstrip (Some s) = Inl BufOverflow \<and> ASCIILINESZ < length (dropWhile isspace s) \<or>
   (\<exists>t a b. strstrip (Some s) = Inr (Some t) \<and> s = a @ t @ b \<and>
      list_all isspace a \<and> list_all isspace b \<and>
      (t = [] \<or> \<not> isspace (hd t) \<and> \<not> isspace (last t)))"
proof (cases "length (dropWhile isspace s) \<le> ASCIILINESZ")
  case True
  let ?d = "dropWhile isspace s"
  obtain w where w: "?d = rtrim ?d @ w" "\<forall>c \<in> set w. isspace c" using rtrim_prefix by blast
  have s: "s = takeWhile isspace s @ rtrim ?d @ w" using w(1) by (metis takeWhile_dropWhile_id)
  have "rtrim ?d = [] \<or> \<not> isspace (hd (rtrim ?d))"
    by (metis hd_append2 hd_dropWhile w(1) Nil_is_append_conv)
  moreover have "rtrim ?d = [] \<or> \<not> isspace (last (rtrim ?d))" using rtrim_last by blast
  moreover have "strstrip (Some s) = Inr (Some (rtrim ?d))" using True by (simp add: strstrip_Some)
  moreover have "list_all isspace (takeWhile isspace s)" by (auto simp: list_all_iff dest: set_takeWhileD)
  moreover have "list_all isspace w" using w(2) by (simp add: list_all_iff)
  ultimately show ?thesis using s by blast
next
  case False
  then show ?thesis by (simp add: strstrip_Some)
qed

end
