(* ===== verification/Dictionary.thy ===== *)
theory Dictionary
  imports LRS_Prelude
begin

text \<open>
  \<^verbatim>\<open>server/admin/dictionary.c\<close>: the string dictionary that holds the configuration. It is three
  parallel arrays (values, keys, hashes) with empty slots marked by a NULL key, searched linearly
  and doubled when full. The theory holds the operations on that record, its invariant, the map it
  represents and the interface the configuration parser relies on.
\<close>

section \<open>Data\<close>

definition DICTMINSZ :: nat where "DICTMINSZ = 128"

record dictionary =
  d_n :: nat
  d_size :: nat
  d_val :: "string option list"
  d_key :: "string option list"
  d_hash :: "u32 list"

text \<open>A \<open>char *\<close> result: NULL, a string, or the sentinel \<open>DICT_INVALID_KEY\<close>.\<close>

datatype cptr = Null | Str string | Invalid_key

definition cptr_of :: "string option \<Rightarrow> cptr" where
  "cptr_of v = (case v of None \<Rightarrow> Null | Some s \<Rightarrow> Str s)"

section \<open>Operations\<close>

text \<open>\<open>char\<close> is signed, so the cast to \<open>unsigned\<close> extends its sign.\<close>

definition char_to_unsigned :: "char \<Rightarrow> u32" where
  "char_to_unsigned c = scast (of_char c :: u8)"

definition hash_step :: "u32 \<Rightarrow> char \<Rightarrow> u32" where
  "hash_step h c =
     (let h = h + char_to_unsigned c; h = h + push_bit 10 h in h XOR drop_bit 6 h)"

definition dictionary_hash :: "string \<Rightarrow> u32" where
  "dictionary_hash key =
     (let h = foldl hash_step 0 key; h = h + push_bit 3 h; h = h XOR drop_bit 11 h
      in h + push_bit 15 h)"

text \<open>The old contents followed by as many cleared entries.\<close>

definition mem_double :: "'a \<Rightarrow> 'a list \<Rightarrow> 'a list" where
  "mem_double zero xs = xs @ replicate (length xs) zero"

definition dictionary_new :: "nat \<Rightarrow> dictionary" where
  "dictionary_new sz =
     (let sz = (if sz < DICTMINSZ then DICTMINSZ else sz)
      in \<lparr>d_n = 0, d_size = sz, d_val = replicate sz None, d_key = replicate sz None,
          d_hash = replicate sz 0\<rparr>)"

text \<open>
  The guard of the lookup loop tests the array \<open>d->key\<close>, not the slot \<open>d->key[i]\<close>: where the
  hash of the key equals the hash of an empty slot, \<open>strcmp\<close> reads a NULL pointer.
\<close>

fun get_loop :: "dictionary \<Rightarrow> u32 \<Rightarrow> string \<Rightarrow> cptr \<Rightarrow> nat list \<Rightarrow> cptr res" where
  "get_loop d h key def [] = Inr def"
| "get_loop d h key def (i # is) =
     (if h = d_hash d ! i
      then (case d_key d ! i of
              None \<Rightarrow> Inl NullDeref
            | Some k \<Rightarrow> if key = k then Inr (cptr_of (d_val d ! i)) else get_loop d h key def is)
      else get_loop d h key def is)"

definition dictionary_get :: "dictionary \<Rightarrow> string \<Rightarrow> cptr \<Rightarrow> cptr res" where
  "dictionary_get d key def = get_loop d (dictionary_hash key) key def [0..<d_size d]"

text \<open>\<open>v[0]\<close>, which is the terminator of an empty string.\<close>

definition dictionary_getchar :: "dictionary \<Rightarrow> string \<Rightarrow> char \<Rightarrow> char res" where
  "dictionary_getchar d key def =
     bind_res (dictionary_get d key Invalid_key) (\<lambda>v. case v of
         Invalid_key \<Rightarrow> Inr def
       | Null \<Rightarrow> Inl NullDeref
       | Str s \<Rightarrow> Inr (case s of [] \<Rightarrow> NUL | c # _ \<Rightarrow> c))"

definition dictionary_getint :: "dictionary \<Rightarrow> string \<Rightarrow> int \<Rightarrow> int res" where
  "dictionary_getint d key def =
     bind_res (dictionary_get d key Invalid_key) (\<lambda>v. case v of
         Invalid_key \<Rightarrow> Inr def
       | Null \<Rightarrow> Inl NullDeref
       | Str s \<Rightarrow> Inr (atoi s))"

text \<open>The slot of a key, searched with the guard on the slot itself (used by set and unset).\<close>

fun find_loop :: "dictionary \<Rightarrow> u32 \<Rightarrow> string \<Rightarrow> nat list \<Rightarrow> nat option" where
  "find_loop d h key [] = None"
| "find_loop d h key (i # is) =
     (case d_key d ! i of
        None \<Rightarrow> find_loop d h key is
      | Some k \<Rightarrow> if h = d_hash d ! i \<and> key = k then Some i else find_loop d h key is)"

fun free_slot :: "string option list \<Rightarrow> nat list \<Rightarrow> nat option" where
  "free_slot ks [] = None"
| "free_slot ks (i # is) = (if ks ! i = None then Some i else free_slot ks is)"

definition dict_grow :: "dictionary \<Rightarrow> dictionary" where
  "dict_grow d =
     (if d_n d = d_size d
      then d\<lparr>d_val := mem_double None (d_val d), d_key := mem_double None (d_key d),
             d_hash := mem_double 0 (d_hash d), d_size := d_size d * 2\<rparr>
      else d)"

definition dict_insert :: "dictionary \<Rightarrow> u32 \<Rightarrow> string \<Rightarrow> string option \<Rightarrow> dictionary res" where
  "dict_insert d h key v =
     (case free_slot (d_key d) [0..<d_size d] of
        None \<Rightarrow> Inl OutOfBounds
      | Some i \<Rightarrow> Inr (d\<lparr>d_key := (d_key d)[i := Some key], d_val := (d_val d)[i := v],
                          d_hash := (d_hash d)[i := h], d_n := d_n d + 1\<rparr>))"

definition dictionary_set_key :: "dictionary \<Rightarrow> string \<Rightarrow> string option \<Rightarrow> dictionary res" where
  "dictionary_set_key d key v =
     (let h = dictionary_hash key
      in case (if d_n d > 0 then find_loop d h key [0..<d_size d] else None) of
           Some i \<Rightarrow> Inr (d\<lparr>d_val := (d_val d)[i := v]\<rparr>)
         | None \<Rightarrow> dict_insert (dict_grow d) h key v)"

definition dictionary_set ::
    "dictionary option \<Rightarrow> string option \<Rightarrow> string option \<Rightarrow> dictionary option res" where
  "dictionary_set d key v =
     (case (d, key) of
        (Some d, Some key) \<Rightarrow> bind_res (dictionary_set_key d key v) (\<lambda>d. Inr (Some d))
      | _ \<Rightarrow> Inr d)"

definition dictionary_unset :: "dictionary \<Rightarrow> string \<Rightarrow> dictionary" where
  "dictionary_unset d key =
     (case find_loop d (dictionary_hash key) key [0..<d_size d] of
        None \<Rightarrow> d
      | Some i \<Rightarrow> d\<lparr>d_key := (d_key d)[i := None], d_val := (d_val d)[i := None],
                     d_hash := (d_hash d)[i := 0], d_n := d_n d - 1\<rparr>)"

definition dictionary_setint :: "dictionary option \<Rightarrow> string option \<Rightarrow> int \<Rightarrow> dictionary option res" where
  "dictionary_setint d key v = dictionary_set d key (Some (show_int v))"

text \<open>The text \<open>dictionary_dump\<close> prints.\<close>

definition dictionary_dump :: "dictionary option \<Rightarrow> string" where
  "dictionary_dump d =
     (case d of
        None \<Rightarrow> []
      | Some d \<Rightarrow>
          if d_n d < 1 then ''empty dictionary'' @ [NL]
          else concat (map (\<lambda>i. case d_key d ! i of
                    None \<Rightarrow> []
                  | Some k \<Rightarrow> rjust 20 k @ [CHR 0x09] @ ''['' @
                      (case d_val d ! i of None \<Rightarrow> ''UNDEF'' | Some v \<Rightarrow> v) @ '']'' @ [NL])
                [0..<d_size d]))"

section \<open>Invariant and abstraction\<close>

definition slots :: "dictionary \<Rightarrow> nat set" where
  "slots d = {i. i < d_size d \<and> d_key d ! i \<noteq> None}"

definition slot_ok :: "dictionary \<Rightarrow> nat \<Rightarrow> bool" where
  "slot_ok d i \<longleftrightarrow>
     (case d_key d ! i of
        None \<Rightarrow> d_val d ! i = None \<and> d_hash d ! i = 0
      | Some k \<Rightarrow> d_hash d ! i = dictionary_hash k)"

definition dict_inv :: "dictionary \<Rightarrow> bool" where
  "dict_inv d \<longleftrightarrow>
     0 < d_size d \<and> length (d_key d) = d_size d \<and> length (d_val d) = d_size d \<and>
     length (d_hash d) = d_size d \<and> d_n d = card (slots d) \<and>
     (\<forall>i < d_size d. slot_ok d i) \<and> inj_on (\<lambda>i. d_key d ! i) (slots d)"

text \<open>The map a dictionary represents: from keys to values, which may be NULL.\<close>

definition dict_abs :: "dictionary \<Rightarrow> string \<rightharpoonup> string option" where
  "dict_abs d = map_of [(k, d_val d ! i). i \<leftarrow> [0..<d_size d], k \<leftarrow> (case d_key d ! i of None \<Rightarrow> [] | Some k \<Rightarrow> [k])]"

lemma map_of_concat_slots:
  "map_of (concat (map (\<lambda>i. map (\<lambda>k. (k, v ! i)) (case ks ! i of None \<Rightarrow> [] | Some k \<Rightarrow> [k])) is)) x =
     map_option (\<lambda>i. v ! i) (find (\<lambda>i. ks ! i = Some x) is)"
  by (induction "is") (auto split: option.splits)

lemma dict_abs_find: "dict_abs d x = map_option (\<lambda>i. d_val d ! i) (find (\<lambda>i. d_key d ! i = Some x) [0..<d_size d])"
  by (simp add: dict_abs_def map_of_concat_slots)


lemma find_upt_Some_iff:
  assumes "\<And>j. j < n \<Longrightarrow> P j \<Longrightarrow> j = i" "i < n" "P i"
  shows "find P [0..<n] = Some i"
proof -
  have "\<not> P j" if "j < i" for j
    using assms(1) [of j] assms(2) that by (cases "P j") auto
  with assms(2,3) show ?thesis
    unfolding find_Some_iff by (intro exI [of _ i]) simp
qed

lemma find_upt_None_iff: "find P [0..<n] = None \<longleftrightarrow> (\<forall>i < n. \<not> P i)"
  by (auto simp: find_None_iff)

lemma inv_keys_unique:
  "dict_inv d \<Longrightarrow> i < d_size d \<Longrightarrow> j < d_size d \<Longrightarrow> d_key d ! i = Some k \<Longrightarrow> d_key d ! j = Some k \<Longrightarrow> j = i"
  unfolding dict_inv_def by (rule inj_onD [of "\<lambda>i. d_key d ! i" "slots d"]) (auto simp: slots_def)

lemma inv_slot_ok: "dict_inv d \<Longrightarrow> i < d_size d \<Longrightarrow> slot_ok d i"
  by (simp add: dict_inv_def)

lemma inv_hash_Some: "dict_inv d \<Longrightarrow> i < d_size d \<Longrightarrow> d_key d ! i = Some k \<Longrightarrow> d_hash d ! i = dictionary_hash k"
  using inv_slot_ok [of d i] by (simp add: slot_ok_def)

lemma inv_hash_None:
  "dict_inv d \<Longrightarrow> i < d_size d \<Longrightarrow> d_key d ! i = None \<Longrightarrow> d_hash d ! i = 0 \<and> d_val d ! i = None"
  using inv_slot_ok [of d i] by (simp add: slot_ok_def)

lemma dict_abs_at:
  assumes "dict_inv d" "i < d_size d" "d_key d ! i = Some k"
  shows "dict_abs d k = Some (d_val d ! i)"
proof -
  have "find (\<lambda>i. d_key d ! i = Some k) [0..<d_size d] = Some i"
    by (rule find_upt_Some_iff) (use assms inv_keys_unique in blast)+
  then show ?thesis by (simp add: dict_abs_find)
qed

lemma dict_abs_None_iff: "dict_abs d k = None \<longleftrightarrow> (\<forall>i < d_size d. d_key d ! i \<noteq> Some k)"
  by (simp add: dict_abs_find find_upt_None_iff)

lemma dict_abs_Some_iff:
  "dict_inv d \<Longrightarrow> dict_abs d k = Some v \<longleftrightarrow> (\<exists>i < d_size d. d_key d ! i = Some k \<and> d_val d ! i = v)"
  by (metis dict_abs_None_iff dict_abs_at not_None_eq option.inject)

subsection \<open>Searching\<close>

lemma find_loop_find:
  "dict_inv d \<Longrightarrow> \<forall>i \<in> set is. i < d_size d \<Longrightarrow>
   find_loop d (dictionary_hash k) k is = find (\<lambda>i. d_key d ! i = Some k) is"
  by (induction "is") (auto simp: inv_hash_Some split: option.splits)

lemma find_loop_Some:
  assumes "dict_inv d" "find_loop d (dictionary_hash k) k [0..<d_size d] = Some i"
  shows "i < d_size d" "d_key d ! i = Some k"
  using assms by (auto simp: find_loop_find find_Some_iff)

lemma find_loop_None:
  "dict_inv d \<Longrightarrow> find_loop d (dictionary_hash k) k [0..<d_size d] = None \<longleftrightarrow> dict_abs d k = None"
  by (simp add: find_loop_find dict_abs_find)

lemma get_loop_find:
  assumes "dict_inv d" "\<forall>i \<in> set is. i < d_size d"
    "dictionary_hash k \<noteq> 0 \<or> (\<forall>i \<in> set is. d_key d ! i \<noteq> None)"
  shows "get_loop d (dictionary_hash k) k def is =
      Inr (case find (\<lambda>i. d_key d ! i = Some k) is of None \<Rightarrow> def | Some i \<Rightarrow> cptr_of (d_val d ! i))"
  using assms(2,3)
proof (induction "is")
  case (Cons i js)
  then show ?case
    using assms(1) inv_hash_None [of d i] inv_hash_Some [of d i] by (auto split: option.splits)
qed simp

lemma dictionary_get_abs:
  assumes "dict_inv d" "dictionary_hash k \<noteq> 0 \<or> d_n d = d_size d"
  shows "dictionary_get d k def = Inr (case dict_abs d k of None \<Rightarrow> def | Some v \<Rightarrow> cptr_of v)"
proof -
  have "d_n d = d_size d \<Longrightarrow> \<forall>i \<in> set [0..<d_size d]. d_key d ! i \<noteq> None"
  proof
    fix i assume "d_n d = d_size d" "i \<in> set [0..<d_size d]"
    then have "card (slots d) = card {..<d_size d}" using assms(1) by (simp add: dict_inv_def)
    then have "slots d = {..<d_size d}" by (intro card_subset_eq) (auto simp: slots_def)
    with \<open>i \<in> set [0..<d_size d]\<close> have "i \<in> slots d" by simp
    then show "d_key d ! i \<noteq> None" by (simp add: slots_def)
  qed
  with assms have "dictionary_get d k def =
      Inr (case find (\<lambda>i. d_key d ! i = Some k) [0..<d_size d] of None \<Rightarrow> def | Some i \<Rightarrow> cptr_of (d_val d ! i))"
    unfolding dictionary_get_def by (intro get_loop_find) auto
  then show ?thesis by (auto simp: dict_abs_find split: option.splits)
qed

subsection \<open>Creation and growth\<close>

lemma dict_inv_new: "dict_inv (dictionary_new n)"
proof -
  have "slots (dictionary_new n) = {}" by (auto simp: slots_def dictionary_new_def Let_def)
  then show ?thesis
    by (auto simp: dict_inv_def slot_ok_def dictionary_new_def DICTMINSZ_def Let_def)
qed

lemma dict_abs_new [simp]: "dict_abs (dictionary_new n) = Map.empty"
  by (auto simp: fun_eq_iff dict_abs_None_iff dictionary_new_def Let_def)

lemma nth_mem_double: "i < 2 * length xs \<Longrightarrow> mem_double z xs ! i = (if i < length xs then xs ! i else z)"
  by (auto simp: mem_double_def nth_append)

lemma length_mem_double [simp]: "length (mem_double z xs) = 2 * length xs"
  by (simp add: mem_double_def)

lemma slots_grow: "dict_inv d \<Longrightarrow> slots (dict_grow d) = slots d"
  by (auto simp: slots_def dict_grow_def dict_inv_def nth_mem_double mult.commute split: if_splits)

lemma dict_grow_nth:
  assumes "dict_inv d" "i < d_size (dict_grow d)"
  shows "d_key (dict_grow d) ! i = (if i < d_size d then d_key d ! i else None)"
    "d_val (dict_grow d) ! i = (if i < d_size d then d_val d ! i else None)"
    "d_hash (dict_grow d) ! i = (if i < d_size d then d_hash d ! i else 0)"
  using assms by (auto simp: dict_grow_def dict_inv_def nth_mem_double mult.commute split: if_splits)

lemma dict_grow_sizes:
  assumes "dict_inv d"
  shows "d_size d \<le> d_size (dict_grow d)" "length (d_key (dict_grow d)) = d_size (dict_grow d)"
    "length (d_val (dict_grow d)) = d_size (dict_grow d)"
    "length (d_hash (dict_grow d)) = d_size (dict_grow d)" "d_n (dict_grow d) = d_n d"
  using assms by (auto simp: dict_grow_def dict_inv_def)

lemma card_slots_le: "card (slots d) \<le> d_size d"
  using card_mono [of "{..<d_size d}" "slots d"] by (auto simp: slots_def)

lemma dict_grow_room: "dict_inv d \<Longrightarrow> d_n d < d_size (dict_grow d)"
  using card_slots_le [of d] by (auto simp: dict_grow_def dict_inv_def)

lemma dict_inv_grow:
  assumes "dict_inv d"
  shows "dict_inv (dict_grow d)"
proof -
  note sz = dict_grow_sizes [OF assms] and nth = dict_grow_nth [OF assms]
  have "0 < d_size (dict_grow d)" using sz(1) assms by (simp add: dict_inv_def)
  moreover have "d_n (dict_grow d) = card (slots (dict_grow d))"
    using assms sz(5) slots_grow [OF assms] by (simp add: dict_inv_def)
  moreover have "slot_ok (dict_grow d) i" if "i < d_size (dict_grow d)" for i
    using inv_slot_ok [OF assms, of i] that nth [OF that] by (auto simp: slot_ok_def split: option.splits)
  moreover have "inj_on (\<lambda>i. d_key (dict_grow d) ! i) (slots d)"
  proof -
    have "inj_on (\<lambda>i. d_key d ! i) (slots d)" using assms by (simp add: dict_inv_def)
    moreover have "d_key (dict_grow d) ! i = d_key d ! i" if "i \<in> slots d" for i
      using that nth(1) [of i] sz(1) by (auto simp: slots_def)
    ultimately show ?thesis by (simp add: inj_on_def)
  qed
  ultimately show ?thesis using sz slots_grow [OF assms] by (simp add: dict_inv_def)
qed

lemma dict_abs_grow: "dict_inv d \<Longrightarrow> dict_abs (dict_grow d) = dict_abs d"
proof
  fix k assume inv: "dict_inv d"
  note inv' = dict_inv_grow [OF inv] and nth = dict_grow_nth [OF inv] and sz = dict_grow_sizes [OF inv]
  show "dict_abs (dict_grow d) k = dict_abs d k"
  proof (cases "dict_abs d k")
    case None
    then have "dict_abs (dict_grow d) k = None" by (auto simp: dict_abs_None_iff nth)
    with None show ?thesis by simp
  next
    case (Some v)
    then obtain i where "i < d_size d" "d_key d ! i = Some k" "d_val d ! i = v"
      using dict_abs_Some_iff [OF inv] by blast
    then have "dict_abs (dict_grow d) k = Some v"
      unfolding dict_abs_Some_iff [OF inv'] using nth sz(1) by (intro exI [of _ i]) auto
    with Some show ?thesis by simp
  qed
qed

subsection \<open>Insertion and removal\<close>

lemma free_slot_find: "free_slot ks is = find (\<lambda>i. ks ! i = None) is"
  by (induction "is") auto

lemma dict_inv_room:
  assumes "dict_inv d" "d_n d < d_size d"
  obtains i where "free_slot (d_key d) [0..<d_size d] = Some i" "i < d_size d" "d_key d ! i = None"
proof -
  have "slots d \<noteq> {..<d_size d}" using assms by (auto simp: dict_inv_def)
  then obtain j where "j < d_size d" "d_key d ! j = None" by (auto simp: slots_def)
  then obtain i where "free_slot (d_key d) [0..<d_size d] = Some i"
    by (cases "free_slot (d_key d) [0..<d_size d]") (auto simp: free_slot_find find_upt_None_iff)
  moreover from this have "i < d_size d" "d_key d ! i = None"
    by (auto simp: free_slot_find find_Some_iff)
  ultimately show ?thesis by (rule that)
qed

text \<open>Writing one slot.\<close>

definition put_slot :: "dictionary \<Rightarrow> nat \<Rightarrow> string option \<Rightarrow> string option \<Rightarrow> nat \<Rightarrow> dictionary" where
  "put_slot d i k v n =
     d\<lparr>d_key := (d_key d)[i := k], d_val := (d_val d)[i := v],
       d_hash := (d_hash d)[i := (case k of None \<Rightarrow> 0 | Some k \<Rightarrow> dictionary_hash k)], d_n := n\<rparr>"

lemma put_slot_nth:
  assumes "dict_inv d" "j < d_size d"
  shows "d_key (put_slot d i k v n) ! j = (if j = i then k else d_key d ! j)"
    "d_val (put_slot d i k v n) ! j = (if j = i then v else d_val d ! j)"
    "d_hash (put_slot d i k v n) ! j =
       (if j = i then (case k of None \<Rightarrow> 0 | Some k \<Rightarrow> dictionary_hash k) else d_hash d ! j)"
  using assms by (auto simp: put_slot_def dict_inv_def)

lemma put_slot_sizes [simp]:
  "d_size (put_slot d i k v n) = d_size d" "d_n (put_slot d i k v n) = n"
  "length (d_key (put_slot d i k v n)) = length (d_key d)"
  "length (d_val (put_slot d i k v n)) = length (d_val d)"
  "length (d_hash (put_slot d i k v n)) = length (d_hash d)"
  by (simp_all add: put_slot_def)

lemma slots_put_slot:
  "dict_inv d \<Longrightarrow> i < d_size d \<Longrightarrow>
   slots (put_slot d i k v n) = (if k = None then slots d - {i} else insert i (slots d))"
  by (auto simp: slots_def put_slot_nth split: if_splits)

lemma dict_inv_put_slot:
  assumes inv: "dict_inv d" and i: "i < d_size d" and v: "k = None \<longrightarrow> v = None"
    and n: "n = card (slots (put_slot d i k v n))"
    and fresh: "\<And>j k'. k = Some k' \<Longrightarrow> j < d_size d \<Longrightarrow> d_key d ! j = Some k' \<Longrightarrow> j = i"
  shows "dict_inv (put_slot d i k v n)"
proof -
  let ?d = "put_slot d i k v n"
  have "slot_ok ?d j" if "j < d_size d" for j
    using inv_slot_ok [OF inv that] put_slot_nth [OF inv that, of i k v n] v
    by (auto simp: slot_ok_def split: option.splits)
  moreover have "j = l" if mem: "j \<in> slots ?d" "l \<in> slots ?d" and eq: "d_key ?d ! j = d_key ?d ! l" for j l
  proof -
    from mem have jl: "j < d_size d" "l < d_size d" "d_key ?d ! j \<noteq> None" by (auto simp: slots_def)
    obtain k' where k': "d_key ?d ! j = Some k'" "d_key ?d ! l = Some k'" using jl(3) eq by auto
    show ?thesis
    proof (cases "j = i \<or> l = i")
      case True
      then show ?thesis using k' fresh jl put_slot_nth(1) [OF inv, of _ i k v n]
        by (metis (no_types, lifting))
    next
      case False
      then show ?thesis
        using k' jl inv_keys_unique [OF inv, of j l k'] by (simp add: put_slot_nth [OF inv])
    qed
  qed
  then have "inj_on (\<lambda>i. d_key ?d ! i) (slots ?d)" by (auto intro: inj_onI)
  ultimately show ?thesis using inv n unfolding dict_inv_def put_slot_sizes by blast
qed

lemma dict_abs_put_slot:
  assumes inv: "dict_inv d" and inv': "dict_inv (put_slot d i k v n)" and i: "i < d_size d"
  shows "dict_abs (put_slot d i k v n) x =
     (if k = Some x then Some v else if d_key d ! i = Some x then None else dict_abs d x)"
proof -
  let ?d = "put_slot d i k v n"
  note nth = put_slot_nth [OF inv, of _ i k v n]
  consider "k = Some x" | "k \<noteq> Some x" "d_key d ! i = Some x" | "k \<noteq> Some x" "d_key d ! i \<noteq> Some x"
    by blast
  then show ?thesis
  proof cases
    case 1
    then have "d_key ?d ! i = Some x" "d_val ?d ! i = v" using nth [OF i] by simp_all
    then show ?thesis using dict_abs_at [OF inv', of i x] i 1 by simp
  next
    case 2
    then have "\<forall>j < d_size d. d_key ?d ! j \<noteq> Some x"
      using inv_keys_unique [OF inv i] by (auto simp: nth)
    with 2 show ?thesis using dict_abs_None_iff [of ?d x] by simp
  next
    case 3
    show ?thesis
    proof (cases "dict_abs d x")
      case None
      then have "dict_abs ?d x = None" using 3 by (auto simp: dict_abs_None_iff nth)
      with 3 None show ?thesis by simp
    next
      case (Some w)
      then obtain j where j: "j < d_size d" "d_key d ! j = Some x" "d_val d ! j = w"
        using dict_abs_Some_iff [OF inv] by blast
      with 3 have "d_key ?d ! j = Some x" "d_val ?d ! j = w" by (auto simp: nth)
      then show ?thesis using dict_abs_at [OF inv', of j x] j(1) 3 Some by simp
    qed
  qed
qed

lemma dict_insert_put_slot:
  "free_slot (d_key d) [0..<d_size d] = Some i \<Longrightarrow>
   dict_insert d (dictionary_hash k) k v = Inr (put_slot d i (Some k) v (d_n d + 1))"
  by (simp add: dict_insert_def put_slot_def)

lemma set_found_put_slot:
  assumes "dict_inv d" "i < d_size d" "d_key d ! i = Some k"
  shows "d\<lparr>d_val := (d_val d)[i := v]\<rparr> = put_slot d i (Some k) v (d_n d)"
proof -
  have "(d_key d)[i := Some k] = d_key d" using assms(3) by (metis list_update_id)
  moreover have "(d_hash d)[i := dictionary_hash k] = d_hash d"
    using inv_hash_Some [OF assms] by (metis list_update_id)
  ultimately show ?thesis by (cases d) (simp add: put_slot_def)
qed

lemma dict_insert_abs:
  assumes inv: "dict_inv d" and room: "d_n d < d_size d" and k: "dict_abs d k = None"
  shows "\<exists>d'. dict_insert d (dictionary_hash k) k v = Inr d' \<and> dict_inv d' \<and>
           dict_abs d' = (dict_abs d)(k \<mapsto> v)"
proof -
  obtain i where i: "free_slot (d_key d) [0..<d_size d] = Some i" "i < d_size d" "d_key d ! i = None"
    using dict_inv_room [OF inv room] by blast
  let ?d = "put_slot d i (Some k) v (d_n d + 1)"
  have "i \<notin> slots d" "finite (slots d)" using i(3) by (auto simp: slots_def)
  then have n: "d_n d + 1 = card (slots ?d)"
    using slots_put_slot [OF inv i(2), of "Some k" v "d_n d + 1"] inv by (simp add: dict_inv_def)
  have inv': "dict_inv ?d"
    by (rule dict_inv_put_slot [OF inv i(2) _ n]) (use k in \<open>auto simp: dict_abs_None_iff\<close>)
  have "dict_abs ?d = (dict_abs d)(k \<mapsto> v)"
    using dict_abs_put_slot [OF inv inv' i(2)] i(3) by (auto simp: fun_eq_iff)
  with inv' show ?thesis using dict_insert_put_slot [OF i(1)] by blast
qed

lemma slots_empty_abs: "dict_inv d \<Longrightarrow> d_n d = 0 \<Longrightarrow> dict_abs d k = None"
proof -
  assume "dict_inv d" "d_n d = 0"
  then have "slots d = {}" by (auto simp: dict_inv_def slots_def)
  then show ?thesis by (auto simp: dict_abs_None_iff slots_def)
qed

lemma dictionary_set_key_abs:
  assumes inv: "dict_inv d"
  shows "\<exists>d'. dictionary_set_key d k v = Inr d' \<and> dict_inv d' \<and> dict_abs d' = (dict_abs d)(k \<mapsto> v)"
proof (cases "if d_n d > 0 then find_loop d (dictionary_hash k) k [0..<d_size d] else None")
  case None
  then have "dict_abs d k = None"
    using find_loop_None [OF inv] slots_empty_abs [OF inv] by (auto split: if_splits)
  then have "dict_abs (dict_grow d) k = None" by (simp add: dict_abs_grow [OF inv])
  then have "\<exists>d'. dict_insert (dict_grow d) (dictionary_hash k) k v = Inr d' \<and> dict_inv d' \<and>
           dict_abs d' = (dict_abs (dict_grow d))(k \<mapsto> v)"
    using dict_insert_abs [OF dict_inv_grow [OF inv]] dict_grow_room [OF inv] dict_grow_sizes [OF inv]
    by simp
  with None show ?thesis by (simp add: dictionary_set_key_def Let_def dict_abs_grow [OF inv])
next
  case (Some i)
  then have i: "i < d_size d" "d_key d ! i = Some k"
    using find_loop_Some [OF inv] by (auto split: if_splits)
  let ?d = "put_slot d i (Some k) v (d_n d)"
  have "insert i (slots d) = slots d" using i by (auto simp: slots_def)
  then have n: "d_n d = card (slots ?d)"
    using slots_put_slot [OF inv i(1), of "Some k" v "d_n d"] inv by (simp add: dict_inv_def)
  have inv': "dict_inv ?d"
    by (rule dict_inv_put_slot [OF inv i(1) _ n]) (use i inv_keys_unique [OF inv] in auto)
  have "dict_abs ?d = (dict_abs d)(k \<mapsto> v)"
    using dict_abs_put_slot [OF inv inv' i(1)] i(2) by (auto simp: fun_eq_iff)
  with inv' Some show ?thesis
    by (simp add: dictionary_set_key_def Let_def set_found_put_slot [OF inv i])
qed

lemma dictionary_unset_abs:
  assumes inv: "dict_inv d"
  shows "dict_inv (dictionary_unset d k) \<and> dict_abs (dictionary_unset d k) = (dict_abs d)(k := None)"
proof (cases "find_loop d (dictionary_hash k) k [0..<d_size d]")
  case None
  then have "dictionary_unset d k = d" by (simp add: dictionary_unset_def)
  moreover from None have "dict_abs d k = None" using find_loop_None [OF inv] by blast
  ultimately show ?thesis using inv by (auto simp: fun_eq_iff)
next
  case (Some i)
  note i = find_loop_Some [OF inv Some]
  let ?d = "put_slot d i None None (d_n d - 1)"
  have d: "dictionary_unset d k = ?d" using Some by (simp add: dictionary_unset_def put_slot_def)
  have "i \<in> slots d" "finite (slots d)" using i by (auto simp: slots_def)
  then have n: "d_n d - 1 = card (slots ?d)"
    using slots_put_slot [OF inv i(1), of None None "d_n d - 1"] inv by (simp add: dict_inv_def)
  have inv': "dict_inv ?d" by (rule dict_inv_put_slot [OF inv i(1) _ n]) auto
  moreover have "dict_abs ?d = (dict_abs d)(k := None)"
    using dict_abs_put_slot [OF inv inv' i(1)] i(2) by (auto simp: fun_eq_iff)
  ultimately show ?thesis by (simp add: d)
qed

section \<open>The interface of a string map\<close>

text \<open>Storing a list of bindings, left to right, stopping at a fault.\<close>

primrec set_all :: "('m \<Rightarrow> 'k \<Rightarrow> 'v \<Rightarrow> 'e + 'm) \<Rightarrow> ('k \<times> 'v) list \<Rightarrow> 'm \<Rightarrow> 'e + 'm" where
  "set_all f [] m = Inr m"
| "set_all f (kv # kvs) m = bind_res (f m (fst kv) (snd kv)) (set_all f kvs)"

locale string_map =
  fixes empty_map :: "'m"
    and set_key :: "'m \<Rightarrow> 'k \<Rightarrow> 'v \<Rightarrow> 'e + 'm"
    and unset_key :: "'m \<Rightarrow> 'k \<Rightarrow> 'm"
    and map_abs :: "'m \<Rightarrow> 'k \<rightharpoonup> 'v"
    and map_inv :: "'m \<Rightarrow> bool"
  assumes inv_empty: "map_inv empty_map"
    and abs_empty: "map_abs empty_map = Map.empty"
    and set_total: "map_inv m \<Longrightarrow> \<exists>m'. set_key m k v = Inr m' \<and> map_inv m' \<and> map_abs m' = (map_abs m)(k \<mapsto> v)"
    and inv_unset: "map_inv m \<Longrightarrow> map_inv (unset_key m k)"
    and abs_unset: "map_inv m \<Longrightarrow> map_abs (unset_key m k) = (map_abs m)(k := None)"
begin

lemma set_all_total:
  "map_inv m \<Longrightarrow>
   \<exists>m'. set_all set_key kvs m = Inr m' \<and> map_inv m' \<and> map_abs m' = map_abs m ++ map_of (rev kvs)"
proof (induction kvs arbitrary: m)
  case (Cons kv kvs)
  obtain m1 where m1: "set_key m (fst kv) (snd kv) = Inr m1" "map_inv m1"
    "map_abs m1 = (map_abs m)(fst kv \<mapsto> snd kv)" using set_total [OF Cons.prems] by blast
  obtain m2 where "set_all set_key kvs m1 = Inr m2" "map_inv m2" "map_abs m2 = map_abs m1 ++ map_of (rev kvs)"
    using Cons.IH [OF m1(2)] by blast
  moreover have "map_abs m1 ++ map_of (rev kvs) = map_abs m ++ map_of (rev (kv # kvs))"
    using m1(3) by (cases kv) (auto simp: map_add_def fun_eq_iff split: option.splits)
  ultimately show ?case using m1 by auto
qed simp

lemma unset_after_set:
  "map_inv m \<Longrightarrow> set_key m k v = Inr m' \<Longrightarrow> map_abs (unset_key m' k) = (map_abs m)(k := None)"
  using set_total [of m k v] abs_unset by auto

end

interpretation dict: string_map "dictionary_new n" dictionary_set_key dictionary_unset dict_abs dict_inv
  for n
  by unfold_locales
     (simp_all add: dict_inv_new dictionary_set_key_abs dictionary_unset_abs)

section \<open>Properties\<close>

text \<open>
  C36 (\<open>dictionary_set\<close>, \<open>dictionary_get\<close>, \<open>dictionary_unset\<close>): on a well-formed dictionary,
  setting a key never faults, keeps the dictionary well formed (growing it when full), makes a
  later lookup of that key return the value and leaves every other key's binding; deleting the key
  removes exactly that binding. Lookups are stated for keys whose hash is not 0 (see the next
  property).
\<close>

theorem dictionary_refines_map:
  assumes "dict_inv d"
  shows "\<exists>d'. dictionary_set (Some d) (Some k) v = Inr (Some d') \<and> dict_inv d' \<and>
     dict_abs d' = (dict_abs d)(k \<mapsto> v) \<and>
     (\<forall>x def. dictionary_hash x \<noteq> 0 \<longrightarrow>
        dictionary_get d' x def =
          Inr (if x = k then cptr_of v else case dict_abs d x of None \<Rightarrow> def | Some w \<Rightarrow> cptr_of w)) \<and>
     dict_inv (dictionary_unset d' k) \<and> dict_abs (dictionary_unset d' k) = (dict_abs d)(k := None)"
proof -
  obtain d' where d': "dictionary_set_key d k v = Inr d'" "dict_inv d'"
      "dict_abs d' = (dict_abs d)(k \<mapsto> v)"
    using dictionary_set_key_abs [OF assms] by blast
  have "dictionary_set (Some d) (Some k) v = Inr (Some d')" by (simp add: dictionary_set_def d'(1))
  moreover have "dictionary_get d' x def =
       Inr (if x = k then cptr_of v else case dict_abs d x of None \<Rightarrow> def | Some w \<Rightarrow> cptr_of w)"
    if "dictionary_hash x \<noteq> 0" for x def
    using dictionary_get_abs [OF d'(2), of x def] that d'(3) by simp
  ultimately show ?thesis
    using d'(2,3) dict.inv_unset [OF d'(2)] dict.unset_after_set [OF assms d'(1)] by blast
qed

theorem dictionary_refines_map_witness:
  "\<exists>d'. dictionary_set (Some (dictionary_new 0)) (Some ''basedir'') (Some ''/tftpboot'') = Inr (Some d') \<and>
     dictionary_get d' ''basedir'' Null = Inr (Str ''/tftpboot'') \<and>
     dictionary_get d' ''key'' Null = Inr Null"
proof -
  have "dictionary_hash ''basedir'' \<noteq> 0" "dictionary_hash ''key'' \<noteq> 0" by code_simp+
  then show ?thesis
    using dictionary_refines_map [OF dict_inv_new, of 0 "''basedir''" "Some ''/tftpboot''"]
    by (fastforce simp: cptr_of_def)
qed

lemma get_loop_fault:
  assumes "dict_inv d" "\<forall>i \<in> set is. i < d_size d"
  shows "get_loop d (dictionary_hash k) k def is = Inl e \<longleftrightarrow>
     e = NullDeref \<and> dictionary_hash k = 0 \<and>
     (\<exists>i \<in> set (takeWhile (\<lambda>i. d_key d ! i \<noteq> Some k) is). d_key d ! i = None)"
  using assms(2)
proof (induction "is")
  case (Cons i js)
  then show ?case
    using inv_hash_None [OF assms(1), of i] inv_hash_Some [OF assms(1), of i]
    by (auto split: option.splits)
qed simp

lemma set_takeWhile_upt: "i \<in> set (takeWhile P [0..<n]) \<longleftrightarrow> i < n \<and> (\<forall>j \<le> i. P j)"
  by (induction n) (auto simp: takeWhile_append less_Suc_eq)

text \<open>
  (\<open>dictionary_get\<close>): a lookup in a well-formed dictionary reads a NULL key, which crashes the
  program, exactly when the key hashes to 0 and an empty slot precedes its entry. The guard of the
  loop tests the array pointer where it means the slot.
\<close>

theorem dictionary_get_fault_iff:
  assumes "dict_inv d"
  shows "dictionary_get d k def = Inl e \<longleftrightarrow>
     e = NullDeref \<and> dictionary_hash k = 0 \<and>
     (\<exists>i < d_size d. d_key d ! i = None \<and> (\<forall>j < i. d_key d ! j \<noteq> Some k))"
  unfolding dictionary_get_def
  by (subst get_loop_fault [OF assms]) (auto simp: set_takeWhile_upt le_less)

theorem dictionary_get_fault_iff_witness:
  "dict_inv (dictionary_new 0) \<and> dictionary_get (dictionary_new 0) [] Null = Inl NullDeref"
proof -
  have inv: "dict_inv (dictionary_new 0)" by (rule dict_inv_new)
  have "dictionary_hash [] = 0" "0 < d_size (dictionary_new 0)" "d_key (dictionary_new 0) ! 0 = None"
    by (simp_all add: dictionary_hash_def dictionary_new_def DICTMINSZ_def Let_def)
  then show ?thesis using inv dictionary_get_fault_iff [OF inv, of "[]" Null NullDeref] by blast
qed

end
