(* ===== verification/Iniparser.thy ===== *)
theory Iniparser
  imports Strlib Dictionary
begin

text \<open>
  \<^verbatim>\<open>server/admin/iniparser.c\<close>: the parser for ini files, on top of \<open>Strlib\<close> and \<open>Dictionary\<close>. A key
  of section \<open>s\<close> is stored as \<open>s:key\<close>, a section as its own name with a NULL value. The buffers of
  the code have their sizes; every copy into one is checked. The theory proves that loading never
  overruns them, that it computes the map of an abstract reading of the file, and that a file of
  plain assignments is read back.
\<close>

section \<open>Building keys\<close>

definition iniparser_add_entry ::
    "dictionary \<Rightarrow> string \<Rightarrow> string option \<Rightarrow> string option \<Rightarrow> dictionary res" where
  "iniparser_add_entry d sec key v =
     bind_res (strcpy (2 * ASCIILINESZ + 1)
                 (case key of Some key \<Rightarrow> sec @ '':'' @ key | None \<Rightarrow> sec))
       (\<lambda>longkey. dictionary_set_key d longkey v)"

section \<open>Sections and dumps\<close>

definition is_section_key :: "string option \<Rightarrow> bool" where
  "is_section_key k = (case k of None \<Rightarrow> False | Some k \<Rightarrow> strchr k (CHR '':'') = None)"

definition iniparser_getnsec :: "dictionary option \<Rightarrow> int" where
  "iniparser_getnsec d =
     (case d of
        None \<Rightarrow> -1
      | Some d \<Rightarrow> int (length (filter (\<lambda>i. is_section_key (d_key d ! i)) [0..<d_size d])))"

text \<open>The loop stops at the first index where more than \<open>n\<close> sections have been seen.\<close>

fun secname_loop :: "dictionary \<Rightarrow> nat \<Rightarrow> nat \<Rightarrow> nat list \<Rightarrow> string option" where
  "secname_loop d n found [] = None"
| "secname_loop d n found (i # is) =
     (if is_section_key (d_key d ! i)
      then (if n < found + 1 then d_key d ! i else secname_loop d n (found + 1) is)
      else secname_loop d n found is)"

definition iniparser_getsecname :: "dictionary option \<Rightarrow> int \<Rightarrow> string option" where
  "iniparser_getsecname d n =
     (case d of
        None \<Rightarrow> None
      | Some d \<Rightarrow> if n < 0 then None else secname_loop d (nat n) 0 [0..<d_size d])"

definition iniparser_dump :: "dictionary option \<Rightarrow> string" where
  "iniparser_dump d =
     (case d of
        None \<Rightarrow> []
      | Some d \<Rightarrow> concat (map (\<lambda>i. case d_key d ! i of
            None \<Rightarrow> []
          | Some k \<Rightarrow> (case d_val d ! i of
                Some v \<Rightarrow> ''['' @ k @ '']=['' @ v @ '']'' @ [NL]
              | None \<Rightarrow> ''['' @ k @ '']=UNDEF'' @ [NL])) [0..<d_size d]))"

text \<open>One section of the saved file: its title and the keys that start with \<open>secname:\<close>.\<close>

definition dump_section :: "dictionary \<Rightarrow> string option \<Rightarrow> string res" where
  "dump_section d sec =
     (case sec of
        None \<Rightarrow> Inl NullDeref
      | Some secname \<Rightarrow>
          bind_res (strcpy (ASCIILINESZ + 1) (secname @ '':'')) (\<lambda>keym.
            Inr ([NL] @ ''['' @ secname @ '']'' @ [NL] @
              concat (map (\<lambda>j. case d_key d ! j of
                  None \<Rightarrow> []
                | Some k \<Rightarrow>
                    if take (length secname + 1) k = take (length secname + 1) keym
                    then ljust 30 (drop (length secname + 1) k) @ '' = '' @
                      (case d_val d ! j of Some v \<Rightarrow> v | None \<Rightarrow> []) @ [NL]
                    else []) [0..<d_size d]))))"

fun dump_sections :: "dictionary \<Rightarrow> nat list \<Rightarrow> string res" where
  "dump_sections d [] = Inr [NL]"
| "dump_sections d (i # is) =
     bind_res (dump_section d (iniparser_getsecname (Some d) (int i))) (\<lambda>s.
       bind_res (dump_sections d is) (\<lambda>t. Inr (s @ t)))"

text \<open>With no section every key is printed as it is; \<open>%s\<close> of NULL prints \<open>(null)\<close>.\<close>

definition iniparser_dump_ini :: "dictionary option \<Rightarrow> string res" where
  "iniparser_dump_ini d =
     (case d of
        None \<Rightarrow> Inr []
      | Some d' \<Rightarrow>
          let nsec = iniparser_getnsec d
          in if nsec < 1
             then Inr (concat (map (\<lambda>i. case d_key d' ! i of
                    None \<Rightarrow> []
                  | Some k \<Rightarrow> k @ '' = '' @ (case d_val d' ! i of Some v \<Rightarrow> v | None \<Rightarrow> ''(null)'') @ [NL])
                [0..<d_size d']))
             else dump_sections d' [0..<nat nsec])"

section \<open>Queries\<close>

definition iniparser_getstring :: "dictionary option \<Rightarrow> string option \<Rightarrow> cptr \<Rightarrow> cptr res" where
  "iniparser_getstring d key def =
     (case (d, strlwc key) of
        (Some d, Some lc_key) \<Rightarrow> dictionary_get d lc_key def
      | _ \<Rightarrow> Inr def)"

definition iniparser_getstr :: "dictionary option \<Rightarrow> string option \<Rightarrow> cptr res" where
  "iniparser_getstr d key = iniparser_getstring d key Null"

definition iniparser_getint :: "dictionary option \<Rightarrow> string option \<Rightarrow> int \<Rightarrow> int res" where
  "iniparser_getint d key notfound =
     bind_res (iniparser_getstring d key Invalid_key) (\<lambda>str. case str of
         Invalid_key \<Rightarrow> Inr notfound
       | Null \<Rightarrow> Inl NullDeref
       | Str s \<Rightarrow> Inr (atoi s))"

definition iniparser_getboolean :: "dictionary option \<Rightarrow> string option \<Rightarrow> int \<Rightarrow> int res" where
  "iniparser_getboolean d key notfound =
     bind_res (iniparser_getstring d key Invalid_key) (\<lambda>c. case c of
         Invalid_key \<Rightarrow> Inr notfound
       | Null \<Rightarrow> Inl NullDeref
       | Str s \<Rightarrow>
           (let c0 = (case s of [] \<Rightarrow> NUL | x # _ \<Rightarrow> x)
            in if c0 \<in> set ''yY1tT'' then Inr 1
               else if c0 \<in> set ''nN0fF'' then Inr 0
               else Inr notfound))"

definition iniparser_find_entry :: "dictionary option \<Rightarrow> string option \<Rightarrow> int res" where
  "iniparser_find_entry ini entry =
     bind_res (iniparser_getstring ini entry Invalid_key)
       (\<lambda>p. Inr (if p \<noteq> Invalid_key then 1 else 0))"

definition iniparser_setstr ::
    "dictionary option \<Rightarrow> string option \<Rightarrow> string option \<Rightarrow> (dictionary option \<times> int) res" where
  "iniparser_setstr ini entry v =
     bind_res (dictionary_set ini (strlwc entry) v) (\<lambda>d. Inr (d, 0))"

definition iniparser_unset :: "dictionary \<Rightarrow> string \<Rightarrow> dictionary" where
  "iniparser_unset ini entry = dictionary_unset ini (the (strlwc (Some entry)))"

section \<open>Loading\<close>

definition scan_section :: "string \<Rightarrow> string option" where
  "scan_section s =
     (case scan_char (CHR ''['') s of
        None \<Rightarrow> None
      | Some r \<Rightarrow> map_option fst (scan_set (\<lambda>c. c \<noteq> CHR '']'') r))"

text \<open>The key, the equals sign and the blanks around it: what the three formats share.\<close>

definition scan_key :: "string \<Rightarrow> (string \<times> string) option" where
  "scan_key s =
     (case scan_set (\<lambda>c. c \<noteq> CHR ''='') s of
        None \<Rightarrow> None
      | Some (k, r) \<Rightarrow>
          (case scan_char (CHR ''='') (dropWhile isspace r) of
             None \<Rightarrow> None
           | Some r \<Rightarrow> Some (k, dropWhile isspace r)))"

definition scan_quoted :: "char \<Rightarrow> string \<Rightarrow> (string \<times> string) option" where
  "scan_quoted q s =
     (case scan_key s of
        None \<Rightarrow> None
      | Some (k, r) \<Rightarrow>
          (case scan_char q r of
             None \<Rightarrow> None
           | Some r \<Rightarrow> map_option (\<lambda>(v, _). (k, v)) (scan_set (\<lambda>c. c \<noteq> q) r)))"

definition scan_plain :: "string \<Rightarrow> (string \<times> string) option" where
  "scan_plain s =
     (case scan_key s of
        None \<Rightarrow> None
      | Some (k, r) \<Rightarrow>
          map_option (\<lambda>(v, _). (k, v)) (scan_set (\<lambda>c. c \<noteq> CHR '';'' \<and> c \<noteq> CHR ''#'') r))"

definition scan_keyval :: "string \<Rightarrow> (string \<times> string) option" where
  "scan_keyval s =
     (case scan_quoted (CHR 0x22) s of
        Some kv \<Rightarrow> Some kv
      | None \<Rightarrow>
          (case scan_quoted (CHR 0x27) s of
             Some kv \<Rightarrow> Some kv
           | None \<Rightarrow> scan_plain s))"

definition quote2 :: string where "quote2 = [CHR 0x22, CHR 0x22]"
definition apos2 :: string where "apos2 = [CHR 0x27, CHR 0x27]"

text \<open>The body of the loop on one line, with the current section in its buffer.\<close>

definition load_line :: "dictionary \<times> string \<Rightarrow> string \<Rightarrow> (dictionary \<times> string) res" where
  "load_line st lin =
     (case st of (d, sec) \<Rightarrow>
       let where = the (strskp (Some lin))
       in case where of
            [] \<Rightarrow> Inr (d, sec)
          | c # _ \<Rightarrow>
              if c = CHR '';'' \<or> c = CHR ''#'' then Inr (d, sec)
              else (case scan_section where of
                 Some s \<Rightarrow>
                   bind_res (strcpy (ASCIILINESZ + 1) (the (strlwc (Some s)))) (\<lambda>sec.
                     bind_res (iniparser_add_entry d sec None None) (\<lambda>d. Inr (d, sec)))
               | None \<Rightarrow>
                   (case scan_keyval where of
                      None \<Rightarrow> Inr (d, sec)
                    | Some (key, v) \<Rightarrow>
                        bind_res (strcrop (Some key)) (\<lambda>k.
                        bind_res (strcpy (ASCIILINESZ + 1) (the (strlwc k))) (\<lambda>key.
                        bind_res (if v = quote2 \<or> v = apos2 then Inr (Some []) else strcrop (Some v)) (\<lambda>v.
                        bind_res (iniparser_add_entry d sec (Some key) v) (\<lambda>d. Inr (d, sec))))))))"

fun load_lines :: "dictionary \<times> string \<Rightarrow> string list \<Rightarrow> (dictionary \<times> string) res" where
  "load_lines st [] = Inr st"
| "load_lines st (l # ls) = bind_res (load_line st (cstr l)) (\<lambda>st. load_lines st ls)"

text \<open>The argument is the contents of the file, \<open>None\<close> when it cannot be opened.\<close>

definition iniparser_load :: "string option \<Rightarrow> dictionary option res" where
  "iniparser_load ini =
     (case ini of
        None \<Rightarrow> Inr None
      | Some f \<Rightarrow>
          bind_res (load_lines (dictionary_new 0, []) (fgets_all ASCIILINESZ f))
            (\<lambda>(d, _). Inr (Some d)))"

section \<open>The reading of a file\<close>

text \<open>
  What a line means: the bindings it adds and the section that is current after it. This is the
  specification of the loader, without buffers and without the dictionary.
\<close>

definition join_key :: "string \<Rightarrow> string \<Rightarrow> string" where
  "join_key sec key = sec @ '':'' @ key"

definition read_value :: "string \<Rightarrow> string" where
  "read_value v = (if v = quote2 \<or> v = apos2 then [] else rtrim v)"

definition read_line :: "string \<Rightarrow> string \<Rightarrow> (string \<times> string option) list \<times> string" where
  "read_line sec lin =
     (let where = dropWhile isspace lin
      in if where = [] \<or> hd where \<in> {CHR '';'', CHR ''#''} then ([], sec)
         else case scan_section where of
             Some s \<Rightarrow> ([(map tolower s, None)], map tolower s)
           | None \<Rightarrow>
               (case scan_keyval where of
                  None \<Rightarrow> ([], sec)
                | Some (k, v) \<Rightarrow>
                    ([(join_key sec (map tolower (rtrim k)), Some (read_value v))], sec)))"

fun read_lines :: "string \<Rightarrow> string list \<Rightarrow> (string \<times> string option) list" where
  "read_lines sec [] = []"
| "read_lines sec (l # ls) =
     fst (read_line sec (cstr l)) @ read_lines (snd (read_line sec (cstr l))) ls"

text \<open>The bindings of a file, in order: lines longer than the buffer are read in pieces.\<close>

definition read_ini :: "string \<Rightarrow> (string \<times> string option) list" where
  "read_ini f = read_lines [] (fgets_all ASCIILINESZ f)"

subsection \<open>Bounds\<close>

lemma scan_set_Some: "scan_set p s = Some (m, r) \<Longrightarrow> s = m @ r \<and> m \<noteq> [] \<and> (\<forall>c \<in> set m. p c)"
  by (auto simp: scan_set_def Let_def split: if_splits dest: set_takeWhileD)

lemma scan_char_Some: "scan_char c s = Some r \<Longrightarrow> s = c # r"
  by (cases s) (auto split: if_splits)

lemma scan_set_length: "scan_set p s = Some (m, r) \<Longrightarrow> length s = length m + length r"
  using scan_set_Some by fastforce

lemma scan_char_length: "scan_char c s = Some r \<Longrightarrow> length s = Suc (length r)"
  using scan_char_Some by fastforce

lemma scan_section_length:
  assumes "scan_section s = Some t"
  shows "length t < length s"
proof -
  from assms obtain r r' where "scan_char (CHR ''['') s = Some r"
    "scan_set (\<lambda>c. c \<noteq> CHR '']'') r = Some (t, r')"
    by (auto simp: scan_section_def split: option.splits)
  then show ?thesis by (auto dest!: scan_char_length scan_set_length)
qed

lemma scan_key_length:
  assumes "scan_key s = Some (k, r)"
  shows "length k + length r < length s"
proof -
  from assms obtain r1 r2 where r: "scan_set (\<lambda>c. c \<noteq> CHR ''='') s = Some (k, r1)"
    "scan_char (CHR ''='') (dropWhile isspace r1) = Some r2" "r = dropWhile isspace r2"
    by (auto simp: scan_key_def split: option.splits)
  from scan_set_length [OF r(1)] scan_char_length [OF r(2)]
    length_dropWhile_le [of isspace r1] length_dropWhile_le [of isspace r2]
  show ?thesis unfolding r(3) by linarith
qed

lemma scan_quoted_length:
  assumes "scan_quoted q s = Some (k, v)"
  shows "length k < length s \<and> length v < length s"
proof -
  from assms obtain r r1 r2 where "scan_key s = Some (k, r)" "scan_char q r = Some r1"
    "scan_set (\<lambda>c. c \<noteq> q) r1 = Some (v, r2)"
    by (auto simp: scan_quoted_def split: option.splits)
  then show ?thesis by (auto dest!: scan_key_length scan_char_length scan_set_length)
qed

lemma scan_plain_length:
  assumes "scan_plain s = Some (k, v)"
  shows "length k < length s \<and> length v < length s"
proof -
  from assms obtain r r2 where "scan_key s = Some (k, r)"
    "scan_set (\<lambda>c. c \<noteq> CHR '';'' \<and> c \<noteq> CHR ''#'') r = Some (v, r2)"
    by (auto simp: scan_plain_def split: option.splits)
  then show ?thesis by (auto dest!: scan_key_length scan_set_length)
qed

lemma scan_keyval_length:
  "scan_keyval s = Some (k, v) \<Longrightarrow> length k < length s \<and> length v < length s"
  using scan_quoted_length scan_plain_length by (auto simp: scan_keyval_def split: option.splits)

lemma read_line_section_length:
  "length lin \<le> n \<Longrightarrow> length sec \<le> n \<Longrightarrow> length (snd (read_line sec lin)) \<le> n"
  using length_dropWhile_le [of isspace lin]
  by (auto simp: read_line_def Let_def split: option.splits prod.splits dest!: scan_section_length)

lemma dictionary_set_total:
  "dict_inv d \<Longrightarrow> \<exists>d'. dictionary_set_key d k v = Inr d' \<and> dict_inv d' \<and> dict_abs d' = (dict_abs d)(k \<mapsto> v)"
  by (rule dict.set_total)

subsection \<open>The loader implements the reading\<close>

text \<open>Lines of at most 1023 characters never overrun a buffer.\<close>

lemma load_line_read:
  assumes lin: "length lin < ASCIILINESZ" and sec: "length sec < ASCIILINESZ"
  shows "load_line (d, sec) lin =
     bind_res (set_all dictionary_set_key (fst (read_line sec lin)) d) (\<lambda>d. Inr (d, snd (read_line sec lin)))"
proof -
  let ?w = "dropWhile isspace lin"
  have w: "length ?w < ASCIILINESZ" using lin length_dropWhile_le [of isspace lin] by linarith
  show ?thesis
  proof (cases "?w = [] \<or> hd ?w \<in> {CHR '';'', CHR ''#''}")
    case True
    then show ?thesis
      by (auto simp: load_line_def read_line_def Let_def simp del: dropWhile_eq_Nil_conv split: list.splits)
  next
    case False
    then obtain c cs where c: "?w = c # cs" "c \<noteq> CHR '';''" "c \<noteq> CHR ''#''" by (cases ?w) auto
    show ?thesis
    proof (cases "scan_section ?w")
      case (Some s)
      with w have "length s < ASCIILINESZ" by (auto dest: scan_section_length)
      with Some c show ?thesis
        by (simp add: load_line_def read_line_def Let_def strcpy_def iniparser_add_entry_def bind_res_assoc)
    next
      case None
      show ?thesis
      proof (cases "scan_keyval ?w")
        case None': None
        with None c show ?thesis by (simp add: load_line_def read_line_def Let_def)
      next
        case (Some kv)
        obtain k v where kv: "kv = (k, v)" by (cases kv)
        with Some w have l: "length k < ASCIILINESZ" "length v < ASCIILINESZ"
          by (auto dest: scan_keyval_length)
        have r: "length (rtrim k) < ASCIILINESZ" using l(1) rtrim_length [of k] by linarith
        have lk: "length sec + length (rtrim k) < 2 * ASCIILINESZ" using sec r by linarith
        from Some None c kv l r lk show ?thesis
          by (simp add: load_line_def read_line_def Let_def strcpy_def iniparser_add_entry_def
              strcrop_Some read_value_def join_key_def bind_res_assoc)
      qed
    qed
  qed
qed

lemma set_all_append: "set_all f (xs @ ys) m = bind_res (set_all f xs m) (set_all f ys)"
proof (induction xs arbitrary: m)
  case (Cons x xs)
  then have "set_all f (xs @ ys) = (\<lambda>m. bind_res (set_all f xs m) (set_all f ys))" by blast
  then show ?case by (simp add: bind_res_assoc)
qed simp

lemma load_lines_read:
  "\<forall>l \<in> set ls. length l < ASCIILINESZ \<Longrightarrow> length sec < ASCIILINESZ \<Longrightarrow>
   bind_res (load_lines (d, sec) ls) (\<lambda>(d, _). Inr d) = set_all dictionary_set_key (read_lines sec ls) d"
proof (induction ls arbitrary: d sec)
  case (Cons l ls)
  have l: "length (cstr l) < ASCIILINESZ" using Cons.prems(1) le_less_trans [OF length_cstr] by simp
  have s: "length (snd (read_line sec (cstr l))) < ASCIILINESZ"
    using read_line_section_length [of "cstr l" "ASCIILINESZ - 1" sec] l Cons.prems(2)
    by (simp add: ASCIILINESZ_def)
  show ?case
    using Cons.IH [OF _ s] Cons.prems(1)
    by (simp add: load_line_read [OF l Cons.prems(2)] set_all_append bind_res_assoc)
qed simp

section \<open>Written files\<close>

text \<open>Sections and assignments as a file writes them, one per line.\<close>

datatype ini_item = Sect string | Assign string string

fun print_item :: "ini_item \<Rightarrow> string" where
  "print_item (Sect s) = ''['' @ s @ '']'' @ [NL]"
| "print_item (Assign k v) = k @ '' = '' @ v @ [NL]"

definition plain_key :: "string \<Rightarrow> bool" where
  "plain_key k \<longleftrightarrow> k \<noteq> [] \<and> set k \<inter> {CHR ''='', NUL, NL} = {} \<and> \<not> isspace (hd k) \<and> \<not> isspace (last k) \<and>
     hd k \<notin> {CHR '';'', CHR ''#'', CHR ''[''}"

definition plain_value :: "string \<Rightarrow> bool" where
  "plain_value v \<longleftrightarrow> v \<noteq> [] \<and> set v \<inter> {CHR '';'', CHR ''#'', NUL, NL} = {} \<and> \<not> isspace (hd v) \<and>
     \<not> isspace (last v) \<and> hd v \<notin> {CHR 0x22, CHR 0x27}"

fun item_ok :: "ini_item \<Rightarrow> bool" where
  "item_ok (Sect s) \<longleftrightarrow> s \<noteq> [] \<and> set s \<inter> {CHR '']'', NUL, NL} = {} \<and> length s + 3 < ASCIILINESZ"
| "item_ok (Assign k v) \<longleftrightarrow> plain_key k \<and> plain_value v \<and> length k + length v + 4 < ASCIILINESZ"

fun bindings :: "string \<Rightarrow> ini_item list \<Rightarrow> (string \<times> string option) list" where
  "bindings sec [] = []"
| "bindings sec (Sect s # is) = (map tolower s, None) # bindings (map tolower s) is"
| "bindings sec (Assign k v # is) = (join_key sec (map tolower k), Some v) # bindings sec is"

lemma takeWhile_all_append:
  "\<forall>c \<in> set a. P c \<Longrightarrow> \<not> P b \<Longrightarrow> takeWhile P (a @ b # r) = a \<and> dropWhile P (a @ b # r) = b # r"
  by (simp add: takeWhile_append2 dropWhile_append2)

lemma scan_set_all: "\<forall>c \<in> set s. p c \<Longrightarrow> s \<noteq> [] \<Longrightarrow> scan_set p s = Some (s, [])"
  by (auto simp: scan_set_def Let_def takeWhile_eq_all_conv [THEN iffD2])

lemma scan_set_stop:
  "\<forall>c \<in> set s. p c \<Longrightarrow> s \<noteq> [] \<Longrightarrow> \<not> p b \<Longrightarrow> scan_set p (s @ b # r) = Some (s, b # r)"
  using takeWhile_all_append [of s p b r] by (simp add: scan_set_def Let_def)

lemma isspace_consts [simp]:
  "isspace (CHR '' '')" "isspace NL" "\<not> isspace (CHR ''='')" "\<not> isspace (CHR ''['')"
  by (simp_all add: isspace_def)

lemma scan_key_plain:
  assumes "plain_key k" "r \<noteq> []" "\<not> isspace (hd r)"
  shows "scan_key (k @ '' = '' @ r) = Some (k @ '' '', r)"
proof -
  have "takeWhile (\<lambda>c. c \<noteq> CHR ''='') ((k @ '' '') @ CHR ''='' # CHR '' '' # r) = k @ '' '' \<and>
    dropWhile (\<lambda>c. c \<noteq> CHR ''='') ((k @ '' '') @ CHR ''='' # CHR '' '' # r) = CHR ''='' # CHR '' '' # r"
    using assms(1) by (intro takeWhile_all_append) (auto simp: plain_key_def)
  with assms(2,3) show ?thesis by (cases r) (simp_all add: scan_key_def scan_set_def Let_def)
qed

lemma dropWhile_plain_key: "plain_key k \<Longrightarrow> dropWhile isspace (k @ r) = k @ r"
  by (cases k) (auto simp: plain_key_def)

lemma scan_section_plain_key: "plain_key k \<Longrightarrow> scan_section (k @ r) = None"
  by (cases k) (auto simp: plain_key_def scan_section_def)

lemma rtrim_plain: "\<not> isspace (last k) \<Longrightarrow> rtrim (k @ '' '') = k" "\<not> isspace (last k) \<Longrightarrow> rtrim (k @ [NL]) = k"
  by (simp_all add: rtrim_append_spaces rtrim_ident)

lemma plain_key_line:
  assumes "plain_key k" "scan_keyval (k @ r) = Some (k @ '' '', v)"
  shows "read_line sec (k @ r) = ([(join_key sec (map tolower k), Some (read_value v))], sec)"
proof -
  have "k \<noteq> []" "hd k \<notin> {CHR '';'', CHR ''#''}" "rtrim (k @ '' '') = k"
    using assms(1) by (auto simp: plain_key_def rtrim_plain)
  with assms show ?thesis
    by (simp add: read_line_def dropWhile_plain_key scan_section_plain_key)
qed

lemma read_line_assign:
  assumes k: "plain_key k" and v: "plain_value v"
  shows "read_line sec (k @ '' = '' @ v @ [NL]) = ([(join_key sec (map tolower k), Some v)], sec)"
proof -
  have key: "scan_key (k @ '' = '' @ (v @ [NL])) = Some (k @ '' '', v @ [NL])"
    using v by (intro scan_key_plain [OF k]) (auto simp: plain_value_def)
  obtain x w where x: "v = x # w" "x \<noteq> CHR 0x22" "x \<noteq> CHR 0x27"
    using v by (cases v) (auto simp: plain_value_def)
  have "scan_set (\<lambda>c. c \<noteq> CHR '';'' \<and> c \<noteq> CHR ''#'') (v @ [NL]) = Some (v @ [NL], [])"
    using v by (intro scan_set_all) (auto simp: plain_value_def)
  with x key have "scan_keyval (k @ '' = '' @ (v @ [NL])) = Some (k @ '' '', v @ [NL])"
    by (simp add: scan_keyval_def scan_quoted_def scan_plain_def)
  moreover have "read_value (v @ [NL]) = v"
    using v x by (simp add: read_value_def quote2_def apos2_def plain_value_def rtrim_plain(2) [of "x # w", simplified])
  ultimately show ?thesis using plain_key_line [OF k, of "'' = '' @ (v @ [NL])"] by simp
qed

lemma read_line_section:
  assumes "s \<noteq> []" "CHR '']'' \<notin> set s"
  shows "read_line sec (''['' @ s @ '']'' @ [NL]) = ([(map tolower s, None)], map tolower s)"
proof -
  have "scan_set (\<lambda>c. c \<noteq> CHR '']'') (s @ CHR '']'' # [NL]) = Some (s, CHR '']'' # [NL])"
    using assms by (intro scan_set_stop) auto
  then show ?thesis by (simp add: read_line_def scan_section_def)
qed

text \<open>Each item is one line of the file.\<close>

lemma print_item_line:
  assumes "item_ok i"
  shows "fgets_all ASCIILINESZ (print_item i @ r) = print_item i # fgets_all ASCIILINESZ r \<and> NUL \<notin> set (print_item i)"
proof (cases i)
  case (Sect s)
  with assms show ?thesis
    using fgets_all_line [of "''['' @ s @ '']''" ASCIILINESZ r] by auto
next
  case (Assign k v)
  with assms show ?thesis
    using fgets_all_line [of "k @ '' = '' @ v" ASCIILINESZ r] by (auto simp: plain_key_def plain_value_def)
qed

lemma read_lines_items:
  "\<forall>i \<in> set is. item_ok i \<Longrightarrow>
   read_lines sec (fgets_all ASCIILINESZ (concat (map print_item is))) = bindings sec is"
proof (induction "is" arbitrary: sec)
  case (Cons i js)
  then have i: "item_ok i" by simp
  show ?case
    using Cons print_item_line [OF i, of "concat (map print_item js)"]
    by (cases i) (auto simp: read_line_assign [simplified] read_line_section [simplified])
qed simp

section \<open>Properties\<close>

lemma load_reads:
  "\<exists>d. iniparser_load (Some f) = Inr (Some d) \<and> dict_inv d \<and> dict_abs d = map_of (rev (read_ini f))"
proof -
  have ls: "\<forall>l \<in> set (fgets_all ASCIILINESZ f). length l < ASCIILINESZ"
    using fgets_all_length by blast
  obtain d where d: "set_all dictionary_set_key (read_ini f) (dictionary_new 0) = Inr d"
      "dict_inv d" "dict_abs d = map_of (rev (read_ini f))"
    using dict.set_all_total [OF dict_inv_new, of "read_ini f" 0] by auto
  have "bind_res (load_lines (dictionary_new 0, []) (fgets_all ASCIILINESZ f)) (\<lambda>(d, _). Inr d) = Inr d"
    using load_lines_read [OF ls, of "[]" "dictionary_new 0"] d(1)
    by (simp add: read_ini_def ASCIILINESZ_def)
  then have "iniparser_load (Some f) = Inr (Some d)"
    by (auto simp: iniparser_load_def bind_res_Inr_iff)
  with d show ?thesis by blast
qed

text \<open>
  C32 (\<open>iniparser_load\<close>): loading any file succeeds, whatever its contents and the length of its
  lines: no copy overruns one of the fixed buffers. The dictionary is well formed and represents
  the bindings of the file, a later binding of a key replacing an earlier one.
\<close>

theorem iniparser_load_correct:
  "\<exists>d. iniparser_load (Some f) = Inr (Some d) \<and> dict_inv d \<and> dict_abs d = map_of (rev (read_ini f))"
  by (rule load_reads)

text \<open>
  C33 (\<open>iniparser_load\<close>, \<open>iniparser_getstring\<close>): a file of section lines \<open>[s]\<close> and assignments
  \<open>k = v\<close>, with plain names and values and lines that fit the buffer, is read back: a query for
  \<open>sec:key\<close>, in any case, returns the value of the last assignment to that key, and the default
  when there is none.
\<close>

theorem ini_roundtrip:
  assumes "\<forall>i \<in> set is. item_ok i"
  shows "\<exists>d. iniparser_load (Some (concat (map print_item is))) = Inr (Some d) \<and>
     (\<forall>key def. length key \<le> ASCIILINESZ \<longrightarrow> dictionary_hash (map tolower key) \<noteq> 0 \<longrightarrow>
        iniparser_getstring (Some d) (Some key) def =
          Inr (case map_of (rev (bindings [] is)) (map tolower key) of None \<Rightarrow> def | Some v \<Rightarrow> cptr_of v))"
proof -
  obtain d where d: "iniparser_load (Some (concat (map print_item is))) = Inr (Some d)" "dict_inv d"
      "dict_abs d = map_of (rev (bindings [] is))"
    using load_reads read_lines_items [OF assms, of "[]"] unfolding read_ini_def by metis
  moreover have "iniparser_getstring (Some d) (Some key) def =
          Inr (case map_of (rev (bindings [] is)) (map tolower key) of None \<Rightarrow> def | Some v \<Rightarrow> cptr_of v)"
    if "length key \<le> ASCIILINESZ" "dictionary_hash (map tolower key) \<noteq> 0" for key def
    using dictionary_get_abs [OF d(2), of "map tolower key" def] that d(3)
    by (simp add: iniparser_getstring_def)
  ultimately show ?thesis by blast
qed

theorem ini_roundtrip_witness:
  "\<exists>d. iniparser_load (Some (''[Main]'' @ [NL] @ ''BaseDir = /tftpboot'' @ [NL])) = Inr (Some d) \<and>
     iniparser_getstring (Some d) (Some ''main:basedir'') Null = Inr (Str ''/tftpboot'')"
proof -
  let ?is = "[Sect ''Main'', Assign ''BaseDir'' ''/tftpboot'']"
  have ok: "\<forall>i \<in> set ?is. item_ok i"
    by (simp add: plain_key_def plain_value_def isspace_def ASCIILINESZ_def)
  have h: "dictionary_hash (map tolower ''main:basedir'') \<noteq> 0" by code_simp
  have b: "map_of (rev (bindings [] ?is)) (map tolower ''main:basedir'') = Some (Some ''/tftpboot'')"
    by code_simp
  have l: "length ''main:basedir'' \<le> ASCIILINESZ" by (simp add: ASCIILINESZ_def)
  obtain d where d: "iniparser_load (Some (concat (map print_item ?is))) = Inr (Some d)"
      "\<forall>key def. length key \<le> ASCIILINESZ \<longrightarrow> dictionary_hash (map tolower key) \<noteq> 0 \<longrightarrow>
        iniparser_getstring (Some d) (Some key) def =
          Inr (case map_of (rev (bindings [] ?is)) (map tolower key) of None \<Rightarrow> def | Some v \<Rightarrow> cptr_of v)"
    using ini_roundtrip [OF ok] by blast
  have "iniparser_getstring (Some d) (Some ''main:basedir'') Null = Inr (Str ''/tftpboot'')"
    using d(2) [rule_format, OF l h, of Null] b by (simp only: option.case cptr_of_def)
  with d(1) show ?thesis by (intro exI [of _ d]) simp
qed

lemma read_empty_quotes:
  assumes "plain_key k"
  shows "read_line sec (k @ '' = '' @ quote2 @ [NL]) = ([(join_key sec (map tolower k), Some quote2)], sec) \<and>
     read_line sec (k @ '' = '' @ quote2) = ([(join_key sec (map tolower k), Some [])], sec)"
proof -
  have sp: "\<not> isspace (CHR 0x22)" by (simp add: isspace_def)
  have "scan_key (k @ '' = '' @ (quote2 @ t)) = Some (k @ '' '', quote2 @ t)" for t
    by (rule scan_key_plain [OF assms]) (simp_all add: quote2_def sp)
  then have "scan_keyval (k @ '' = '' @ (quote2 @ t)) = Some (k @ '' '', quote2 @ t)" if "t = [] \<or> t = [NL]" for t
    using that by (auto simp: scan_keyval_def scan_quoted_def scan_plain_def scan_set_def quote2_def)
  from this [of "[]"] this [of "[NL]"] show ?thesis
    using plain_key_line [OF assms, of "'' = '' @ quote2" quote2] plain_key_line [OF assms, of "'' = '' @ quote2 @ [NL]" "quote2 @ [NL]"]
      rtrim_plain(2) [of quote2] sp
    by (simp add: read_value_def quote2_def apos2_def)
qed

text \<open>
  (\<open>iniparser_load\<close>): an empty value written as two double quotes is recognised only on a last
  line without newline. On any other line the scan set keeps the newline, the comparison with the
  two quotes fails, and the stored value is the two quote characters themselves.
\<close>

theorem ini_empty_quotes:
  assumes k: "plain_key k" and len: "length k + 6 < ASCIILINESZ"
  shows "\<exists>d d'. iniparser_load (Some (k @ '' = '' @ quote2 @ [NL])) = Inr (Some d) \<and>
     dict_abs d (CHR '':'' # map tolower k) = Some (Some quote2) \<and>
     iniparser_load (Some (k @ '' = '' @ quote2)) = Inr (Some d') \<and>
     dict_abs d' (CHR '':'' # map tolower k) = Some (Some [])"
proof -
  have nl: "NL \<notin> set (k @ '' = '' @ quote2)" "NUL \<notin> set (k @ '' = '' @ quote2)"
    using k by (auto simp: plain_key_def quote2_def)
  have l: "length (k @ '' = '' @ quote2) + 1 < ASCIILINESZ" using len by (simp add: quote2_def)
  have "read_ini (k @ '' = '' @ quote2 @ [NL]) = [(CHR '':'' # map tolower k, Some quote2)]"
    using fgets_all_line [OF nl(1) l, of "[]"] nl(2) read_empty_quotes [OF k, of "[]"]
    by (simp add: read_ini_def join_key_def)
  moreover have "read_ini (k @ '' = '' @ quote2) = [(CHR '':'' # map tolower k, Some [])]"
    using fgets_all_last [OF nl(1)] l nl(2) read_empty_quotes [OF k, of "[]"]
    by (simp add: read_ini_def join_key_def)
  ultimately show ?thesis
    using load_reads [of "k @ '' = '' @ quote2 @ [NL]"] load_reads [of "k @ '' = '' @ quote2"] by fastforce
qed

theorem ini_empty_quotes_witness:
  "\<exists>d. iniparser_load (Some (''a'' @ '' = '' @ quote2 @ [NL])) = Inr (Some d) \<and> dict_abs d '':a'' = Some (Some quote2)"
  using ini_empty_quotes [of "''a''"]
  by (auto simp: plain_key_def isspace_def tolower_def isupper_def ASCIILINESZ_def)

end
