(* ===== verification/Lrsd.thy ===== *)
theory Lrsd
  imports Iniparser
begin

text \<open>
  \<^verbatim>\<open>server/admin/lrsd.c\<close>: the server daemon that answers the packets of the boot clients. Its
  globals are a configuration and a record of buffers and static variables; what it does to the
  world is a list of effects. The receive buffer keeps the bytes of earlier, longer packets, and a
  string read from it must meet a NUL before its end. Integers are those of the 32-bit target:
  \<open>time_t\<close> and \<open>unsigned\<close> are 32-bit words.
\<close>

section \<open>State, environment and effects\<close>

definition BUFLEN :: nat where "BUFLEN = 1532"
definition PORT :: nat where "PORT = 1001"

datatype priority = LOG_ERR | LOG_INFO | LOG_DEBUG

datatype effect =
    Syslog priority string
  | System string
  | AppendFile string string
  | WriteFile string string
  | SendTo string
  | CloseStream

record lrsd_config =
  basedir :: string
  logtxt :: string
  etherpath :: string
  lic_key :: string
  lic_number :: int
  lic_mac :: string
  lic_eth :: string

record lrsd =
  gBuff :: string
  pktbuf :: string
  lastfile :: u32
  lasttime :: u32

text \<open>
  What a packet meets: its sender, two successive readings of the clock, the current time as
  \<open>ctime\<close> prints it (without newline), which files can be opened for writing, and the contents
  of the \<open>ether\<close> file and of the ARP cache (\<open>None\<close> when they cannot be opened).
\<close>

record env =
  sin_addr :: string
  sin_port :: nat
  time1 :: u32
  time2 :: u32
  ctime :: string
  openable :: "string \<Rightarrow> bool"
  ether :: "string option"
  proc_net_arp :: "string option"

section \<open>Logging and commands\<close>

text \<open>A string formatted into a buffer with \<open>snprintf\<close> and used as a C string.\<close>

definition fmt :: "nat \<Rightarrow> string \<Rightarrow> string" where
  "fmt n s = cstr (snprintf n s)"

definition mysyslog :: "lrsd_config \<Rightarrow> env \<Rightarrow> string \<Rightarrow> priority \<Rightarrow> string \<Rightarrow> effect list" where
  "mysyslog cf e smac prio msg =
     (let buf = fmt 1023 msg;
          path = fmt 255 (basedir cf @ ''/images/'' @ smac @ ''/log'')
      in if openable e path
         then
           let entry = ctime e @ '': '' @ buf @ [NL];
               restored = strstr buf ''restoration comp'' \<noteq> None;
               path2 = fmt 255 (basedir cf @ ''/images/'' @ smac @ ''/log.lastrestore'')
           in [AppendFile path entry]
              @ (if restored \<and> openable e path2 then [WriteFile path2 entry] else [])
              @ [Syslog prio buf,
                 System (fmt 1023 (basedir cf @ ''/bin/rotatelog '' @ (if restored then path2 else path)))]
         else [Syslog prio buf])"

definition hex_digit :: "nat \<Rightarrow> u8 option" where
  "hex_digit c =
     (if 65 \<le> c \<and> c \<le> 70 then Some (of_nat (c - 65 + 10))
      else if 97 \<le> c \<and> c \<le> 102 then Some (of_nat (c - 97 + 10))
      else if 48 \<le> c \<and> c \<le> 57 then Some (of_nat (c - 48))
      else None)"

definition hex2char :: "char \<Rightarrow> char \<Rightarrow> u8" where
  "hex2char p0 p1 =
     (case hex_digit (of_char p1) of
        None \<Rightarrow> 0
      | Some v \<Rightarrow> (case hex_digit (of_char p0) of
            None \<Rightarrow> 0
          | Some w \<Rightarrow> v + 16 * w))"

text \<open>\<open>diep\<close> logs its message and leaves with status 1.\<close>

definition diep :: "string \<Rightarrow> 'a res" where
  "diep s = Inl (Exit 1)"

definition mysystem :: "lrsd_config \<Rightarrow> string \<Rightarrow> effect list" where
  "mysystem cf s =
     [System (fmt 1023 (''echo '' @ [CHR 0x22] @ ''`date`: '' @ take 900 s @ [CHR 0x22] @ '' 1>>'' @ logtxt cf @ '' 2>&1'')),
      System (fmt 1023 (take 900 s @ '' 1>>'' @ logtxt cf @ '' 2>&1''))]"

section \<open>The table of known hosts\<close>

definition entry_line :: "string \<Rightarrow> bool" where
  "entry_line buf \<longleftrightarrow> hd (buf @ [NUL]) \<noteq> CHR ''#'' \<and> hd (buf @ [NUL]) \<noteq> CHR '';'' \<and> 10 < length buf"

definition getentries :: "string option \<Rightarrow> nat" where
  "getentries file =
     (case file of
        None \<Rightarrow> 0
      | Some f \<Rightarrow> length (filter (\<lambda>l. entry_line (cstr l)) (fgets_all 100 f)))"

text \<open>\<open>sscanf(buf, "%19s%*s%32s", mac, name) == 2\<close>\<close>

definition scan_entry :: "string \<Rightarrow> (string \<times> string) option" where
  "scan_entry buf =
     (case scan_word 19 buf of
        None \<Rightarrow> None
      | Some (mac, r) \<Rightarrow>
          (case scan_word (length r) r of
             None \<Rightarrow> None
           | Some (_, r) \<Rightarrow> map_option (\<lambda>(name, _). (mac, name)) (scan_word 32 r)))"

definition strncasecmp_eq :: "nat \<Rightarrow> string \<Rightarrow> string \<Rightarrow> bool" where
  "strncasecmp_eq n a b \<longleftrightarrow> map tolower (take n a) = map tolower (take n b)"

fun getentry_loop :: "string list \<Rightarrow> string \<Rightarrow> string option" where
  "getentry_loop [] pktmac = None"
| "getentry_loop (l # ls) pktmac =
     (let buf = cstr l
      in if entry_line buf
         then (case scan_entry buf of
                 Some (mac, name) \<Rightarrow>
                   if strncasecmp_eq 17 mac pktmac then Some name else getentry_loop ls pktmac
               | None \<Rightarrow> getentry_loop ls pktmac)
         else getentry_loop ls pktmac)"

text \<open>The name found is left in the global buffer.\<close>

definition put_cstr :: "string \<Rightarrow> string \<Rightarrow> string" where
  "put_cstr g s = s @ [NUL] @ drop (length s + 1) g"

definition getentry :: "string option \<Rightarrow> string \<Rightarrow> string \<Rightarrow> nat \<times> string" where
  "getentry file pktmac g =
     (case file of
        None \<Rightarrow> (0, g)
      | Some f \<Rightarrow>
          (case getentry_loop (fgets_all 100 f) pktmac of
             None \<Rightarrow> (0, g)
           | Some name \<Rightarrow> (1, put_cstr g name)))"

section \<open>Finding the sender's MAC address\<close>

text \<open>
  The ARP cache is read line by line into \<open>gBuff\<close>; the result is an offset into it. The address
  is two characters before the first colon of the line that has the IP address followed by a
  blank.
\<close>

fun getmac_loop :: "string list \<Rightarrow> string \<Rightarrow> string \<Rightarrow> (nat option \<times> string) res" where
  "getmac_loop [] straddr g = Inr (None, g)"
| "getmac_loop (l # ls) straddr g =
     (let g = put_cstr g l
      in if strstr (cstr g) straddr \<noteq> None
         then let i = length (takeWhile (\<lambda>c. c \<noteq> CHR '':'') (cstr g))
              in if i = length (cstr g) then Inl NullDeref
                 else if i < 2 then Inl OutOfBounds
                 else if 80 \<le> i - 2 + 17 then Inl BufOverflow
                 else Inr (Some (i - 2), g[i - 2 + 17 := NUL])
         else getmac_loop ls straddr g)"

definition getmac :: "env \<Rightarrow> string \<Rightarrow> (nat option \<times> string) res" where
  "getmac e g =
     (case proc_net_arp e of
        None \<Rightarrow> Inl NullDeref
      | Some f \<Rightarrow> getmac_loop (fgets_all 80 f) (sin_addr e @ '' '') g)"

text \<open>\<open>strncpy\<close>: copies up to a NUL and pads with NULs.\<close>

definition strncpy :: "nat \<Rightarrow> string \<Rightarrow> string" where
  "strncpy n s = (let c = cstr (take n s) in c @ replicate (n - length c) NUL)"

definition getmacfrompkt :: "string \<Rightarrow> nat \<Rightarrow> string \<Rightarrow> string option" where
  "getmacfrompkt buf l g =
     (if l \<le> 20 then None
      else if buf ! (l - 20) = CHR ''M'' \<and> buf ! (l - 19) = CHR ''c'' \<and> buf ! (l - 18) = CHR '':''
        \<and> buf ! (l - 15) = CHR '':'' \<and> buf ! (l - 12) = CHR '':'' \<and> buf ! (l - 9) = CHR '':''
        \<and> buf ! (l - 6) = CHR '':'' \<and> buf ! (l - 3) = CHR '':''
      then Some (strncpy 17 (drop (l - 17) buf) @ [NUL] @ drop 18 g)
      else None)"

section \<open>The handlers\<close>

text \<open>The string that starts at offset \<open>k\<close> of the receive buffer.\<close>

definition buf_str :: "string \<Rightarrow> nat \<Rightarrow> string res" where
  "buf_str buf k = (if NUL \<in> set (drop k buf) then Inr (cstr (drop k buf)) else Inl OutOfBounds)"

definition packet_note :: "env \<Rightarrow> string \<Rightarrow> string \<Rightarrow> string" where
  "packet_note e mac body =
     ''>>>Packet from '' @ sin_addr e @ '':'' @ show_nat (sin_port e) @ [NL] @ ''MAC Address:'' @ mac @ [NL] @
     body @ [NL] @ ''<<<'' @ [NL]"

text \<open>Hardware inventory (0xAA).\<close>

definition handle_hwinfo :: "lrsd_config \<Rightarrow> env \<Rightarrow> string \<Rightarrow> string \<Rightarrow> string \<Rightarrow> effect list res" where
  "handle_hwinfo cf e buf mac smac =
     (let command = fmt 255 (basedir cf @ ''/bin/update_menu '' @ smac);
          name = fmt 255 (basedir cf @ ''/log/'' @ smac @ ''.inf'')
      in if \<not> openable e name then Inl NullDeref
         else bind_res (buf_str buf 1) (\<lambda>body.
           Inr (mysystem cf command @ [WriteFile name (packet_note e mac body)] @
                mysystem cf (fmt 255 (basedir cf @ ''/bin/info '' @ basedir cf @ ''/log/'' @ smac @ ''.inf '' @
                                      basedir cf @ ''/log/'' @ smac @ ''.ini'')))))"

text \<open>
  Identification (0xAD): the last colon splits the body into host name and password, each copied
  into 256 bytes. Without a colon the pointer that is written through is NULL.
\<close>

definition handle_ident :: "lrsd_config \<Rightarrow> env \<Rightarrow> string \<Rightarrow> string \<Rightarrow> effect list res" where
  "handle_ident cf e buf mac =
     (let name = fmt 255 (basedir cf @ ''/log/ID.log'')
      in if \<not> openable e name then Inl NullDeref
         else bind_res (buf_str buf 0) (\<lambda>body.
              bind_res (buf_str buf 3) (\<lambda>s.
              case strrchr_split s (CHR '':'') of
                None \<Rightarrow> Inl NullDeref
              | Some (host, pw) \<Rightarrow>
                  bind_res (strcpy 256 pw) (\<lambda>pass.
                  bind_res (strcpy 256 host) (\<lambda>hostname.
                    Inr ([AppendFile name (packet_note e mac body)] @
                         mysystem cf (fmt 255 (basedir cf @ ''/bin/check_add_host '' @ mac @ '' '' @ hostname @ '' '' @ pass))))))))"

text \<open>Before a save (0xEC) and change of the default menu entry (0xCD).\<close>

definition handle_save :: "lrsd_config \<Rightarrow> string \<Rightarrow> string \<Rightarrow> effect list" where
  "handle_save cf buf smac = mysystem cf (fmt 255 (basedir cf @ ''/bin/update_dir '' @ smac @ '' '' @ [buf ! 1]))"

definition byte_at :: "string \<Rightarrow> nat \<Rightarrow> nat" where
  "byte_at buf i = of_char (buf ! i)"

definition handle_default :: "lrsd_config \<Rightarrow> env \<Rightarrow> string \<Rightarrow> string \<Rightarrow> string \<Rightarrow> effect list" where
  "handle_default cf e buf mac smac =
     mysystem cf (fmt 255 (basedir cf @ ''/bin/set_default '' @ smac @ '' '' @ show_nat (byte_at buf 1))) @
     mysyslog cf e smac LOG_INFO (mac @ '' default set to '' @ show_nat (byte_at buf 1))"

text \<open>Log requests ('L'): a message with an optional detail after a dash.\<close>

definition log_detail :: "lrsd_config \<Rightarrow> env \<Rightarrow> string \<Rightarrow> string \<Rightarrow> string \<Rightarrow> string \<Rightarrow> effect list res" where
  "log_detail cf e buf mac smac what =
     (if buf ! 2 = CHR ''-''
      then bind_res (buf_str buf 3) (\<lambda>d. Inr (mysyslog cf e smac LOG_INFO (mac @ '' '' @ what @ '' ('' @ d @ '')'')))
      else Inr (mysyslog cf e smac LOG_INFO (mac @ '' '' @ what)))"

definition scan_lit_int :: "string \<Rightarrow> string \<Rightarrow> int option" where
  "scan_lit_int lit s = (case scan_lit lit s of None \<Rightarrow> None | Some r \<Rightarrow> map_option fst (scan_int r))"

text \<open>After a backup the image's files are given to root.\<close>

definition backup_chown :: "lrsd_config \<Rightarrow> string \<Rightarrow> string \<Rightarrow> effect list" where
  "backup_chown cf smac d =
     (case scan_lit_int ''Local-'' d of
        Some bn \<Rightarrow> [System (fmt 255 (''chown -R 0:0 '' @ basedir cf @ ''/images/'' @ smac @ ''/Local-'' @ show_int bn))]
      | None \<Rightarrow>
          (case scan_lit_int ''Base-'' d of
             Some bn \<Rightarrow> [System (fmt 255 (''chown -R 0:0 '' @ basedir cf @ ''/imgbase/Base-'' @ show_int bn))]
           | None \<Rightarrow> []))"

definition handle_log :: "lrsd_config \<Rightarrow> env \<Rightarrow> string \<Rightarrow> string \<Rightarrow> string \<Rightarrow> lrsd \<Rightarrow> (lrsd \<times> effect list) res" where
  "handle_log cf e buf mac smac st =
     (let c = buf ! 1;
          info = mysyslog cf e smac LOG_INFO
      in if c = CHR ''0'' then Inr (st, info (mac @ '' booted''))
         else if c = CHR ''1'' then Inr (st, info (mac @ '' executing menu entry '' @ show_nat (byte_at buf 2)))
         else if c = CHR ''2'' then
           bind_res (log_detail cf e buf mac smac ''restoration started'') (\<lambda>es. Inr (st, es))
         else if c = CHR ''3'' then
           bind_res (log_detail cf e buf mac smac ''restoration completed'')
             (\<lambda>es. Inr (st\<lparr>lasttime := 0, lastfile := 0\<rparr>, es))
         else if c = CHR ''4'' then
           bind_res (log_detail cf e buf mac smac ''backup started'') (\<lambda>es. Inr (st, es))
         else if c = CHR ''5'' then
           bind_res (log_detail cf e buf mac smac ''backup completed'') (\<lambda>es.
             if buf ! 2 = CHR ''-''
             then bind_res (buf_str buf 3) (\<lambda>d. Inr (st, es @ backup_chown cf smac d))
             else Inr (st, es))
         else if c = CHR ''6'' then Inr (st, info (mac @ '' postinstall started''))
         else if c = CHR ''7'' then Inr (st, info (mac @ '' postinstall completed''))
         else if c = CHR ''8'' then Inr (st, info (mac @ '' critical error''))
         else Inr (st, []))"

text \<open>The name of the client (0x1A).\<close>

definition handle_name :: "env \<Rightarrow> string \<Rightarrow> lrsd \<Rightarrow> lrsd \<times> effect list" where
  "handle_name e mac st =
     (case getentry (ether e) mac (gBuff st) of
        (r, g) \<Rightarrow> if r \<noteq> 0 then (st\<lparr>gBuff := g\<rparr>, [SendTo (cstr g @ [NUL])]) else (st, []))"

text \<open>
  Time synchronisation ('T'): the barrier that makes the clients of a multicast transfer start a
  file together. Files are ordered by partition letter and block number.
\<close>

definition scan_sync :: "string \<Rightarrow> (char \<times> int \<times> int) option" where
  "scan_sync s =
     (case scan_lit ''T;'' s of
        None \<Rightarrow> None
      | Some [] \<Rightarrow> None
      | Some (pnum # r) \<Rightarrow>
          (case scan_int r of
             None \<Rightarrow> None
           | Some (bnum, r) \<Rightarrow>
               (case scan_char (CHR '';'') r of
                  None \<Rightarrow> None
                | Some r \<Rightarrow> map_option (\<lambda>(t, _). (pnum, bnum, t)) (scan_int r))))"

definition file_id :: "char \<Rightarrow> int \<Rightarrow> u32" where
  "file_id pnum bnum = push_bit 16 (char_to_unsigned pnum) + of_int bnum"

definition time_barrier :: "u32 \<Rightarrow> int \<Rightarrow> u32 \<Rightarrow> u32 \<Rightarrow> lrsd \<Rightarrow> lrsd \<times> int" where
  "time_barrier fil t now1 now2 st =
     (let st = (if 3600 < now1 - lasttime st then st\<lparr>lasttime := 0, lastfile := 0\<rparr> else st)
      in if fil = lastfile st
         then (st, max 0 (sint (of_int t + (lasttime st - now2) :: u32)))
         else if fil < lastfile st then (st, 0)
         else (st\<lparr>lastfile := fil, lasttime := now2\<rparr>,
               sint (of_int (if lasttime st = 0 then t + 10 else t) :: u32)))"

definition handle_time :: "env \<Rightarrow> string \<Rightarrow> lrsd \<Rightarrow> (lrsd \<times> effect list) option" where
  "handle_time e s st =
     (case scan_sync s of
        None \<Rightarrow> None
      | Some (pnum, bnum, t) \<Rightarrow>
          (case time_barrier (file_id pnum bnum) t (time1 e) (time2 e) st of
             (st, w) \<Rightarrow> Some (st\<lparr>pktbuf := put_cstr (pktbuf st) (show_int w)\<rparr>, [SendTo (show_int w)])))"

section \<open>Processing a packet\<close>

definition hex_char :: "nat \<Rightarrow> char" where
  "hex_char n = (if n < 10 then char_of (48 + n) else char_of (87 + n))"

definition hex2 :: "nat \<Rightarrow> string" where
  "hex2 b = [hex_char (b div 16), hex_char (b mod 16)]"

definition packet_log :: "env \<Rightarrow> string \<Rightarrow> string \<Rightarrow> effect list" where
  "packet_log e buf mac =
     (if byte_at buf 0 \<noteq> 0x4C \<and> byte_at buf 0 \<noteq> 0xCD
      then [Syslog LOG_DEBUG (''Packet from '' @ sin_addr e @ '':'' @ show_nat (sin_port e) @ '', MAC Address:'' @ mac @
              '', Command: '' @ hex2 (byte_at buf 0) @ [NL])]
      else [])"

text \<open>The state after the packet, the effects and the return value; the first byte selects the handler.\<close>

definition process_packet ::
    "lrsd_config \<Rightarrow> env \<Rightarrow> string \<Rightarrow> string \<Rightarrow> lrsd \<Rightarrow> (lrsd \<times> effect list \<times> int) res" where
  "process_packet cf e mac smac st =
     (let buf = pktbuf st; c = byte_at buf 0; log = packet_log e buf mac
      in if c = 0xAA then bind_res (handle_hwinfo cf e buf mac smac) (\<lambda>es. Inr (st, log @ es, 0))
         else if c = 0xAD then bind_res (handle_ident cf e buf mac) (\<lambda>es.
                Inr (st\<lparr>pktbuf := buf[3 + length (fst (the (strrchr_split (cstr (drop 3 buf)) (CHR '':'')))) := NUL]\<rparr>,
                     log @ es, 0))
         else if c = 0xEC then Inr (st, log @ handle_save cf buf smac, 0)
         else if c = 0xCD then Inr (st, log @ handle_default cf e buf mac smac, 0)
         else if c = 0x4C then bind_res (handle_log cf e buf mac smac st) (\<lambda>(st, es). Inr (st, log @ es, 0))
         else if c = 0x1A then (case handle_name e mac st of (st, es) \<Rightarrow> Inr (st, log @ es, 0))
         else if c = 0x54 then bind_res (buf_str buf 0) (\<lambda>s.
                case handle_time e s st of
                  Some (st, es) \<Rightarrow> Inr (st, log @ es, 0)
                | None \<Rightarrow> Inr (st, log, 1))
         else Inr (st, log, 1))"

section \<open>Starting and serving\<close>

text \<open>A configuration value: a missing key, or one without value, ends the daemon.\<close>

definition conf_str :: "dictionary option \<Rightarrow> string \<Rightarrow> string \<Rightarrow> string res" where
  "conf_str ini key msg =
     bind_res (iniparser_getstr ini (Some key)) (\<lambda>v. case v of Str s \<Rightarrow> Inr s | _ \<Rightarrow> diep msg)"

text \<open>
  The first part of \<open>main\<close>. \<open>lic_key\<close> and \<open>lic_number\<close> start from the values given, since
  \<open>strncpy\<close> of a long key leaves it unterminated and a failing \<open>sscanf\<close> leaves the number
  unchanged; \<open>lic_mac\<close> and \<open>lic_eth\<close> overwrite the front of their initial values.
\<close>

definition overlay :: "nat \<Rightarrow> string \<Rightarrow> string \<Rightarrow> string" where
  "overlay n s old = strncpy n s @ drop n old"

definition read_config :: "string \<Rightarrow> dictionary option \<Rightarrow> lrsd_config res" where
  "read_config key0 ini =
     (case ini of
        None \<Rightarrow> diep ''cannot parse file /etc/lbs.conf''
      | Some _ \<Rightarrow>
          bind_res (conf_str ini '':basedir'' ''Basedir not found in lbs.conf'') (\<lambda>b.
          let bd = cstr (overlay 254 b (replicate 255 NUL))
          in bind_res (strcpy 256 (take 220 bd @ ''/log/Response.log'')) (\<lambda>lt.
          bind_res (conf_str ini '':key'' ''No license key found...'') (\<lambda>k.
          bind_res (conf_str ini '':license'' ''No 'license' keyword found...'') (\<lambda>n.
          bind_res (conf_str ini '':hwmac'' ''No 'hwmac' keyword found...'') (\<lambda>hm.
          bind_res (conf_str ini '':iface'' ''No 'iface' keyword found...'') (\<lambda>ifc.
          bind_res (strcpy 255 (bd @ ''/etc/ether'')) (\<lambda>ep.
            Inr \<lparr>basedir = bd, logtxt = lt, etherpath = ep, lic_key = overlay 63 k key0,
                 lic_number = (case scan_int n of None \<Rightarrow> 0 | Some (i, _) \<Rightarrow> i),
                 lic_mac = cstr (overlay 17 hm (''00:00:00:00:00:00'' @ [NUL])),
                 lic_eth = cstr (overlay 5 ifc (''eth0'' @ replicate 4 NUL))\<rparr>))))))))"

text \<open>
  One turn of the service loop. \<open>TcpIn None\<close> is an \<open>accept\<close> that fails, a packet \<open>None\<close> a
  \<open>recvfrom\<close> that fails. The sender of the packet is in the environment.
\<close>

datatype event = NoEvent | TcpIn "string option option" | UdpIn "string option"

definition recv :: "string \<Rightarrow> lrsd \<Rightarrow> lrsd" where
  "recv pkt st = st\<lparr>pktbuf := take BUFLEN pkt @ drop (length pkt) (pktbuf st)\<rparr>"

text \<open>The short form of the address: its hexadecimal digits without the colons.\<close>

definition short_mac :: "string \<Rightarrow> string" where
  "short_mac mac = cstr (map (\<lambda>i. mac ! i) [0, 1, 3, 4, 6, 7, 9, 10, 12, 13, 15, 16])"

definition find_mac :: "env \<Rightarrow> nat \<Rightarrow> lrsd \<Rightarrow> (nat \<times> lrsd \<times> effect list) res" where
  "find_mac e plen st =
     (case getmacfrompkt (pktbuf st) plen (gBuff st) of
        Some g \<Rightarrow> Inr (0, st\<lparr>gBuff := g\<rparr>, [])
      | None \<Rightarrow>
          bind_res (getmac e (gBuff st)) (\<lambda>(p, g).
            let warn = [Syslog LOG_INFO (''Warning: MAC not found in packet'' @ [NL])]
            in case p of
                 Some i \<Rightarrow> Inr (i, st\<lparr>gBuff := g\<rparr>, warn)
               | None \<Rightarrow> Inr (0, st\<lparr>gBuff := put_cstr g ''?''\<rparr>, warn)))"

definition serve_packet :: "lrsd_config \<Rightarrow> env \<Rightarrow> bool \<Rightarrow> string \<Rightarrow> lrsd \<Rightarrow> (lrsd \<times> effect list) res" where
  "serve_packet cf e tcp pkt st =
     (let st = recv pkt st; done = (if tcp then [CloseStream] else [])
      in bind_res (find_mac e (min BUFLEN (length pkt)) st) (\<lambda>(p, st, warn).
           if sin_port e \<noteq> PORT then Inr (st, warn @ done)
           else let mac = drop p (gBuff st)
                in bind_res (process_packet cf e (cstr mac) (short_mac mac) st)
                     (\<lambda>(st, es, _). Inr (st, warn @ es @ done))))"

definition serve :: "lrsd_config \<Rightarrow> env \<times> event \<Rightarrow> lrsd \<Rightarrow> (lrsd \<times> effect list) res" where
  "serve cf ev st =
     (case ev of (e, i) \<Rightarrow> case i of
        NoEvent \<Rightarrow> Inr (st, [])
      | TcpIn None \<Rightarrow> Inr (st, [])
      | TcpIn (Some None) \<Rightarrow> diep ''recvfrom()''
      | TcpIn (Some (Some pkt)) \<Rightarrow> serve_packet cf e True pkt st
      | UdpIn None \<Rightarrow> diep ''recvfrom()''
      | UdpIn (Some pkt) \<Rightarrow> serve_packet cf e False pkt st)"

fun serve_all :: "lrsd_config \<Rightarrow> (env \<times> event) list \<Rightarrow> lrsd \<Rightarrow> (lrsd \<times> effect list) res" where
  "serve_all cf [] st = Inr (st, [])"
| "serve_all cf (ev # evs) st =
     bind_res (serve cf ev st) (\<lambda>(st, es). bind_res (serve_all cf evs st) (\<lambda>(st, es'). Inr (st, es @ es')))"

definition lrsd_init :: lrsd where
  "lrsd_init = \<lparr>gBuff = replicate 80 NUL, pktbuf = replicate BUFLEN NUL, lastfile = 0, lasttime = 0\<rparr>"

section \<open>Well-formed states\<close>

definition lrsd_ok :: "lrsd \<Rightarrow> bool" where
  "lrsd_ok st \<longleftrightarrow> length (gBuff st) = 80 \<and> length (pktbuf st) = BUFLEN"

lemma length_put_cstr: "length s < length g \<Longrightarrow> length (put_cstr g s) = length g"
  by (simp add: put_cstr_def)

lemma length_strncpy [simp]: "length (strncpy n s) = n"
proof -
  have "length (cstr (take n s)) \<le> n" using length_cstr [of "take n s"] by simp
  then show ?thesis by (simp add: strncpy_def Let_def)
qed

lemma getmacfrompkt_length: "getmacfrompkt buf l g = Some g' \<Longrightarrow> length g = 80 \<Longrightarrow> length g' = 80"
  by (auto simp: getmacfrompkt_def split: if_splits)

lemma getmac_loop_ok:
  "getmac_loop ls a g = Inr (p, g') \<Longrightarrow> \<forall>l \<in> set ls. length l < 80 \<Longrightarrow> length g = 80 \<Longrightarrow>
   length g' = 80 \<and> (\<forall>i. p = Some i \<longrightarrow> i + 17 < 80)"
proof (induction ls arbitrary: g)
  case (Cons l ls)
  have "length (put_cstr g l) = 80" using Cons.prems(2,3) by (simp add: length_put_cstr)
  with Cons show ?case by (auto simp: Let_def split: if_splits)
qed simp

lemma find_mac_ok:
  assumes "lrsd_ok st" "find_mac e l st = Inr (p, st', es)"
  shows "lrsd_ok st' \<and> p + 17 < 80"
proof (cases "getmacfrompkt (pktbuf st) l (gBuff st)")
  case (Some g)
  with assms show ?thesis by (auto simp: find_mac_def lrsd_ok_def dest: getmacfrompkt_length)
next
  case None
  with assms(2) obtain p' g where g: "getmac e (gBuff st) = Inr (p', g)"
    and st': "case p' of Some i \<Rightarrow> p = i \<and> st' = st\<lparr>gBuff := g\<rparr> | None \<Rightarrow> p = 0 \<and> st' = st\<lparr>gBuff := put_cstr g ''?''\<rparr>"
    by (auto simp: find_mac_def bind_res_Inr_iff Let_def split: option.splits)
  from g assms(1) have "length g = 80 \<and> (\<forall>i. p' = Some i \<longrightarrow> i + 17 < 80)"
    by (auto simp: getmac_def lrsd_ok_def split: option.splits dest!: getmac_loop_ok intro: fgets_all_length)
  with st' assms(1) show ?thesis by (auto simp: lrsd_ok_def length_put_cstr split: option.splits)
qed

lemma recv_ok: "lrsd_ok st \<Longrightarrow> lrsd_ok (recv pkt st)"
  by (auto simp: lrsd_ok_def recv_def)

lemma scan_word_Some: "scan_word n s = Some (w, r) \<Longrightarrow> length w \<le> n \<and> w \<noteq> [] \<and> (\<forall>c \<in> set w. \<not> isspace c)"
  by (auto simp: scan_word_def Let_def split: if_splits dest!: in_set_takeD dest: set_takeWhileD)

lemma getentry_loop_length: "getentry_loop ls m = Some name \<Longrightarrow> length name \<le> 32"
  by (induction ls) (auto simp: Let_def scan_entry_def split: if_splits option.splits dest: scan_word_Some)

lemma getentry_ok: "getentry f m g = (r, g') \<Longrightarrow> length g = 80 \<Longrightarrow> length g' = 80"
  by (auto simp: getentry_def length_put_cstr split: option.splits dest!: getentry_loop_length)

lemma time_barrier_reply:
  assumes "time_barrier f t n1 n2 st = (st', w)"
  shows "length (show_int w) \<le> 11 \<and> gBuff st' = gBuff st \<and> pktbuf st' = pktbuf st"
proof -
  have "length (show_int 0) \<le> 11" by code_simp
  then show ?thesis
    using assms length_show_int_sint
    by (auto simp: time_barrier_def Let_def max_def split: if_splits)
qed

lemma handle_time_ok: "handle_time e s st = Some (st', es) \<Longrightarrow> lrsd_ok st \<Longrightarrow> lrsd_ok st'"
  by (auto simp: handle_time_def lrsd_ok_def length_put_cstr BUFLEN_def split: option.splits prod.splits
           dest!: time_barrier_reply)

lemma handle_log_ok: "handle_log cf e buf mac smac st = Inr (st', es) \<Longrightarrow> lrsd_ok st \<Longrightarrow> lrsd_ok st'"
  by (auto simp: handle_log_def Let_def bind_res_Inr_iff lrsd_ok_def split: if_splits)

lemma process_packet_ok:
  assumes "process_packet cf e mac smac st = Inr (st', es, r)" "lrsd_ok st"
  shows "lrsd_ok st'"
  using assms
  by (auto simp: process_packet_def Let_def bind_res_Inr_iff handle_name_def
           split: if_splits prod.splits option.splits
           intro: handle_log_ok handle_time_ok)
     (auto simp: lrsd_ok_def dest: getentry_ok)

lemma serve_ok:
  assumes "serve cf ev st = Inr (st', es)" "lrsd_ok st"
  shows "lrsd_ok st'"
proof -
  have "lrsd_ok st'" if "serve_packet cf e tcp pkt st = Inr (st', es)" for e tcp pkt
    using that find_mac_ok [OF recv_ok [OF assms(2)]] process_packet_ok
    by (fastforce simp: serve_packet_def Let_def bind_res_Inr_iff split: if_splits)
  then show ?thesis using assms by (auto simp: serve_def diep_def split: prod.splits event.splits option.splits)
qed

section \<open>The time barrier\<close>

text \<open>The request a client sends, and its reading.\<close>

definition sync_request :: "char \<Rightarrow> int \<Rightarrow> int \<Rightarrow> string" where
  "sync_request pnum bnum t = ''T;'' @ [pnum] @ show_int bnum @ '';'' @ show_int t"

lemma scan_sync_request:
  assumes "is_int32 b" "is_int32 t"
  shows "scan_sync (sync_request p b t) = Some (p, b, t)"
proof -
  have "scan_int (show_int b @ CHR '';'' # show_int t) = Some (b, CHR '';'' # show_int t)"
    using assms by (intro scan_int_show_int) (auto simp: is_int32_def isdigit_def)
  moreover have "scan_int (show_int t) = Some (t, [])"
    using scan_int_show_int [of "[]" t] assms by (auto simp: is_int32_def)
  ultimately show ?thesis by (simp add: scan_sync_def sync_request_def)
qed

text \<open>The state has an open barrier for \<open>fil\<close> since \<open>t0\<close>.\<close>

definition barrier_at :: "u32 \<Rightarrow> u32 \<Rightarrow> lrsd \<Rightarrow> bool" where
  "barrier_at fil t0 st \<longleftrightarrow> lastfile st = fil \<and> lasttime st = t0"

text \<open>Both readings of the clock fall in the hour that follows \<open>t0\<close>.\<close>

definition in_hour :: "u32 \<Rightarrow> env \<Rightarrow> bool" where
  "in_hour t0 e \<longleftrightarrow> t0 \<le> time1 e \<and> unat (time1 e) \<le> unat t0 + 3600 \<and>
     t0 \<le> time2 e \<and> unat (time2 e) \<le> unat t0 + 3600"

lemma unat_diff: "(a :: u32) \<le> b \<Longrightarrow> unat (b - a) = unat b - unat a"
  by (simp add: unat_sub word_le_nat_alt)

lemma barrier_wait:
  assumes "a \<le> (b :: u32)" "unat b \<le> unat a + 3600" "0 \<le> t" "t < 2 ^ 31"
  shows "sint (of_int t + (a - b) :: u32) = t - int (unat b - unat a)"
proof -
  have "a - b = - (b - a)" by simp
  also have "b - a = of_nat (unat (b - a))" by simp
  finally have "of_int t + (a - b) = (of_int (t - int (unat b - unat a)) :: u32)"
    by (simp add: unat_diff assms(1))
  moreover have "is_int32 (t - int (unat b - unat a))" using assms by (simp add: is_int32_def)
  ultimately show ?thesis by (simp only: sint_of_int_small)
qed

lemma time_barrier_join:
  assumes st: "barrier_at fil t0 st" and e: "in_hour t0 e" and t: "0 \<le> t" "t < 2 ^ 31"
  shows "time_barrier fil t (time1 e) (time2 e) st = (st, max 0 (t - int (unat (time2 e) - unat t0)))"
proof -
  have "unat (time1 e - t0) \<le> 3600" using e by (auto simp: in_hour_def unat_diff)
  then have "\<not> 3600 < time1 e - t0" by (simp add: word_less_nat_alt)
  then show ?thesis using st e t barrier_wait [of t0 "time2 e" t]
    by (simp add: time_barrier_def barrier_at_def in_hour_def)
qed

lemma time_barrier_open:
  assumes "lastfile st < fil" "is_int32 (t + 10)" "is_int32 t"
  shows "time_barrier fil t n1 n2 st =
     (st\<lparr>lastfile := fil, lasttime := n2\<rparr>,
      if lasttime st = 0 \<or> 3600 < n1 - lasttime st then t + 10 else t)"
proof -
  have "0 < fil" using assms(1) by (rule le_less_trans [rotated]) simp
  with assms(1) have "0 < fil" "fil \<noteq> 0" "fil \<noteq> lastfile st" "\<not> fil < lastfile st" by auto
  then show ?thesis using assms by (auto simp: time_barrier_def Let_def sint_of_int_small [simplified])
qed

text \<open>The waiting times a sequence of requests for one file gets.\<close>

fun sync_waits :: "string \<Rightarrow> env list \<Rightarrow> lrsd \<Rightarrow> effect list list" where
  "sync_waits s [] st = []"
| "sync_waits s (e # es) st =
     (case handle_time e s st of
        None \<Rightarrow> [] # sync_waits s es st
      | Some (st, ef) \<Rightarrow> ef # sync_waits s es st)"

lemma sync_waits_open:
  assumes "is_int32 b" "0 \<le> t" "t < 2 ^ 31"
  shows "barrier_at (file_id p b) t0 st \<Longrightarrow> \<forall>e \<in> set es. in_hour t0 e \<Longrightarrow>
   sync_waits (sync_request p b t) es st =
     map (\<lambda>e. [SendTo (show_int (max 0 (t - int (unat (time2 e) - unat t0))))]) es"
proof (induction es arbitrary: st)
  case (Cons e es)
  have t: "is_int32 t" using assms by (simp add: is_int32_def)
  let ?st = "st\<lparr>pktbuf := put_cstr (pktbuf st) (show_int (max 0 (t - int (unat (time2 e) - unat t0))))\<rparr>"
  have "handle_time e (sync_request p b t) st =
      Some (?st, [SendTo (show_int (max 0 (t - int (unat (time2 e) - unat t0))))])"
    using time_barrier_join [OF Cons.prems(1) _ assms(2,3)] Cons.prems(2)
    by (simp add: handle_time_def scan_sync_request [OF assms(1) t])
  moreover have "barrier_at (file_id p b) t0 ?st" using Cons.prems(1) by (simp add: barrier_at_def)
  ultimately show ?case using Cons by simp
qed simp

section \<open>Properties\<close>

text \<open>
  C18 (\<open>process_packet\<close>, time synchronisation): when the first request for a new file opens the
  barrier at the clock reading \<open>t0\<close>, every later request for the same file within the hour, in
  any number and order, is told to wait until \<open>t0 + t\<close> and not at all after that moment: its
  arrival time plus the waiting time it gets is the same for all clients.
\<close>

theorem mtftp_barrier:
  assumes "is_int32 b" "0 \<le> t" "t + 10 < 2 ^ 31" "lastfile st < file_id p b"
    and "\<forall>e \<in> set es. in_hour (time2 e0) e"
  shows "sync_waits (sync_request p b t) (e0 # es) st =
     [SendTo (show_int (if lasttime st = 0 \<or> 3600 < time1 e0 - lasttime st then t + 10 else t))] #
     map (\<lambda>e. [SendTo (show_int (max 0 (int (unat (time2 e0)) + t - int (unat (time2 e)))))]) es"
proof -
  have t: "is_int32 t" "is_int32 (t + 10)" using assms by (auto simp: is_int32_def)
  have arrive: "\<forall>e \<in> set es. int (unat (time2 e0)) + t - int (unat (time2 e)) = t - int (unat (time2 e) - unat (time2 e0))"
    using assms(5) by (auto simp: in_hour_def word_le_nat_alt simp del: uint_nat)
  obtain st' w where w: "time_barrier (file_id p b) t (time1 e0) (time2 e0) st = (st', w)"
      "w = (if lasttime st = 0 \<or> 3600 < time1 e0 - lasttime st then t + 10 else t)"
      "barrier_at (file_id p b) (time2 e0) st'"
    using time_barrier_open [OF assms(4) t(2,1)] by (auto simp: barrier_at_def)
  then have "barrier_at (file_id p b) (time2 e0) (st'\<lparr>pktbuf := x\<rparr>)" for x by (simp add: barrier_at_def)
  from sync_waits_open [OF assms(1,2) _ this assms(5)] w(1,2) assms(3)
  have "sync_waits (sync_request p b t) (e0 # es) st =
     [SendTo (show_int (if lasttime st = 0 \<or> 3600 < time1 e0 - lasttime st then t + 10 else t))] #
     map (\<lambda>e. [SendTo (show_int (max 0 (t - int (unat (time2 e) - unat (time2 e0)))))]) es"
    by (simp add: handle_time_def scan_sync_request [OF assms(1) t(1)])
  moreover have "map (\<lambda>e. [SendTo (show_int (max 0 (t - int (unat (time2 e) - unat (time2 e0)))))]) es =
      map (\<lambda>e. [SendTo (show_int (max 0 (int (unat (time2 e0)) + t - int (unat (time2 e)))))]) es"
    using arrive by (intro map_cong refl) (simp only: )
  ultimately show ?thesis by (simp only: )
qed

definition sample_env :: "u32 \<Rightarrow> env" where
  "sample_env t = \<lparr>sin_addr = ''10.0.0.7'', sin_port = 1001, time1 = t, time2 = t, ctime = ''now'',
     openable = (\<lambda>_. True), ether = None, proc_net_arp = None\<rparr>"

theorem mtftp_barrier_witness:
  "sync_waits (sync_request (CHR ''a'') 0 30) [sample_env 100000, sample_env 100004, sample_env 100020, sample_env 100040]
     (lrsd_init\<lparr>lastfile := 5, lasttime := 99000\<rparr>) =
     [[SendTo (show_int 30)], [SendTo (show_int 26)], [SendTo (show_int 10)], [SendTo (show_int 0)]]"
  using mtftp_barrier [of 0 30 "lrsd_init\<lparr>lastfile := 5, lasttime := 99000\<rparr>" "CHR ''a''"
      "[sample_env 100004, sample_env 100020, sample_env 100040]" "sample_env 100000"]
  by (simp add: is_int32_def in_hour_def sample_env_def lrsd_init_def file_id_def char_to_unsigned_def)



definition sample_config :: lrsd_config where
  "sample_config = \<lparr>basedir = ''/tftpboot'', logtxt = ''/tftpboot/log/Response.log'', etherpath = ''/tftpboot/etc/ether'',
     lic_key = ''k'', lic_number = 1, lic_mac = ''00:00:00:00:00:00'', lic_eth = ''eth0''\<rparr>"

definition sample_packet :: string where
  "sample_packet = [CHR 0xEC, CHR ''1'', NUL] @ ''Mc:00:11:22:33:44:55''"

lemma sample_packet_served:
  "\<exists>st' es. serve_all sample_config [(sample_env 100000, UdpIn (Some sample_packet))] lrsd_init = Inr (st', es)"
  by (simp add: serve_def serve_packet_def sample_packet_def lrsd_init_def recv_def BUFLEN_def find_mac_def
      getmacfrompkt_def sample_env_def PORT_def process_packet_def byte_at_def Let_def)


text \<open>
  (\<open>hex2char\<close>): two hexadecimal digits, in lower case as \<open>%02x\<close> prints them, are read back
  as the byte.
\<close>

theorem hex2char_hex2: "hex2char (hex_char (unat (b :: u8) div 16)) (hex_char (unat b mod 16)) = b"
proof -
  have d: "hex_digit (of_char (hex_char n)) = Some (of_nat n)" if "n < 16" for n
    using that by (auto simp: hex_char_def hex_digit_def)
  have "unat b < 2 ^ LENGTH(8)" by (rule unsigned_less)
  then have "unat b < 256" by simp
  then have "unat b div 16 < 16" "unat b mod 16 < 16" by auto
  then have "hex2char (hex_char (unat b div 16)) (hex_char (unat b mod 16)) =
      of_nat (unat b mod 16) + 16 * of_nat (unat b div 16)"
    by (simp add: hex2char_def d)
  also have "\<dots> = of_nat (unat b mod 16 + 16 * (unat b div 16))" by (simp only: of_nat_add of_nat_mult of_nat_numeral)
  also have "\<dots> = b" by simp
  finally show ?thesis .
qed


end
