(* ===== verification/Easy_Sock.thy ===== *)
theory Easy_Sock
  imports LRS_Prelude
begin

text \<open>
  \<^verbatim>\<open>client/revimage/easy_sock.c\<close>: typed reads and writes on a stream socket, the transport of the
  calls from the imaging tools to the user interface. A socket is the sequence of chunks still to
  be read (data or an error), what has been written and how the next writes end. The code takes
  whatever one \<open>read\<close> returns; where a value arrives in two pieces, the missing bytes are those
  the variable had, which the model takes as an argument \<open>junk\<close>. Integers are little-endian, 4
  bytes for \<open>int\<close>, \<open>long\<close> and \<open>size_t\<close>; a \<open>float\<close> or \<open>double\<close> is its bit pattern.
\<close>

section \<open>Sockets\<close>

definition ES_MAX_SHORT :: nat where "ES_MAX_SHORT = 8"
definition ES_MAX_INT :: nat where "ES_MAX_INT = 16"
definition ES_MAX_LONG :: nat where "ES_MAX_LONG = 16"
definition ES_MAX_LEN :: nat where "ES_MAX_LEN = ES_MAX_INT"
definition EASY_SOCK_ERR_MSG_LEN :: nat where "EASY_SOCK_ERR_MSG_LEN = 50"

datatype chunk = Data string | RErr int
datatype wevent = Wrote nat | WErr int

text \<open>
  \<open>close_on_error\<close> tells which handler is installed: the one of the server closes the socket.
  Every call of the handler is recorded in \<open>handled\<close>.
\<close>

record sock =
  rx :: "chunk list"
  tx :: string
  wq :: "wevent list"
  is_open :: bool
  close_on_error :: bool
  handled :: "int list"
  es_err :: int
  es_msg :: string

definition EBADF :: int where "EBADF = 9"

definition feed :: "string \<Rightarrow> chunk list \<Rightarrow> chunk list" where
  "feed bs cs = (if bs = [] then cs else Data bs # cs)"

text \<open>\<open>read(sock, p, n)\<close>: \<open>Inl\<close> an errno, \<open>Inr\<close> the bytes (none at the end of the stream).\<close>

definition sock_read :: "nat \<Rightarrow> sock \<Rightarrow> (int + string) \<times> sock" where
  "sock_read n st =
     (if \<not> is_open st then (Inl EBADF, st)
      else case rx st of
          [] \<Rightarrow> (Inr [], st)
        | RErr e # cs \<Rightarrow> (Inl e, st\<lparr>rx := cs\<rparr>)
        | Data bs # cs \<Rightarrow> (Inr (take n bs), st\<lparr>rx := feed (drop n bs) cs\<rparr>))"

definition sock_write :: "string \<Rightarrow> sock \<Rightarrow> (int + nat) \<times> sock" where
  "sock_write bs st =
     (if \<not> is_open st then (Inl EBADF, st)
      else case wq st of
          [] \<Rightarrow> (Inr (length bs), st\<lparr>tx := tx st @ bs\<rparr>)
        | WErr e # q \<Rightarrow> (Inl e, st\<lparr>wq := q\<rparr>)
        | Wrote k # q \<Rightarrow> (Inr (min k (length bs)), st\<lparr>tx := tx st @ take k bs, wq := q\<rparr>))"

section \<open>Errors\<close>

text \<open>The message is printed into 50 bytes, whatever its length.\<close>

definition set_msg :: "string \<Rightarrow> sock \<Rightarrow> sock res" where
  "set_msg m st = bind_res (strcpy EASY_SOCK_ERR_MSG_LEN m) (\<lambda>m. Inr (st\<lparr>es_msg := m\<rparr>))"

definition err_handler :: "int \<Rightarrow> sock \<Rightarrow> sock" where
  "err_handler e st = st\<lparr>handled := handled st @ [e], is_open := is_open st \<and> \<not> close_on_error st\<rparr>"

definition EOF :: int where "EOF = -1"

definition read_eof :: "string \<Rightarrow> sock \<Rightarrow> sock res" where
  "read_eof what st =
     bind_res (set_msg (''End of file reached reading '' @ what @ ''.'' @ [NL]) st) (\<lambda>st. Inr (err_handler EOF st))"

definition read_error :: "(int \<Rightarrow> string) \<Rightarrow> string \<Rightarrow> int \<Rightarrow> sock \<Rightarrow> sock res" where
  "read_error strerror what e st =
     bind_res (set_msg (''Error reading '' @ what @ '': '' @ show_int e @ '' - '' @ strerror e @ [NL]) (st\<lparr>es_err := e\<rparr>))
       (\<lambda>st. Inr (err_handler e st))"

text \<open>A write that writes nothing, and one that fails (its value is the negated errno).\<close>

definition write_none :: "string \<Rightarrow> sock \<Rightarrow> (int \<times> sock) res" where
  "write_none what st = bind_res (set_msg (''No '' @ what @ '' written: why?'' @ [NL]) (st\<lparr>es_err := 0\<rparr>)) (\<lambda>st. Inr (0, st))"

definition write_error :: "(int \<Rightarrow> string) \<Rightarrow> string \<Rightarrow> int \<Rightarrow> sock \<Rightarrow> (int \<times> sock) res" where
  "write_error strerror what e st =
     bind_res (set_msg (''Error writing '' @ what @ '': '' @ show_int e @ '' - '' @ strerror e @ [NL]) (st\<lparr>es_err := e\<rparr>))
       (\<lambda>st. Inr (if e \<le> 0 then e else - e, st))"

section \<open>Binary values\<close>

text \<open>
  The body the readers of fixed-size values share: one \<open>read\<close> of the size of the variable, whose
  earlier bytes \<open>junk\<close> remain where nothing is read.
\<close>

definition read_bytes :: "(int \<Rightarrow> string) \<Rightarrow> string \<Rightarrow> string \<Rightarrow> sock \<Rightarrow> (string \<times> sock) res" where
  "read_bytes strerror what junk st =
     (case sock_read (length junk) st of
        (Inr [], st) \<Rightarrow> bind_res (read_eof what st) (\<lambda>st. Inr (junk, st))
      | (Inl e, st) \<Rightarrow> bind_res (read_error strerror what e st) (\<lambda>st. Inr (junk, st))
      | (Inr bs, st) \<Rightarrow> Inr (bs @ drop (length bs) junk, st))"

definition read_word :: "(int \<Rightarrow> string) \<Rightarrow> string \<Rightarrow> nat \<Rightarrow> 'a::len word \<Rightarrow> sock \<Rightarrow> ('a word \<times> sock) res" where
  "read_word strerror what n junk st =
     bind_res (read_bytes strerror what (le_bytes n (unat junk)) st) (\<lambda>(bs, st). Inr (of_nat (le_nat bs), st))"

definition read_char :: "(int \<Rightarrow> string) \<Rightarrow> u8 \<Rightarrow> sock \<Rightarrow> (u8 \<times> sock) res" where
  "read_char strerror c st = read_word strerror ''char'' 1 c st"

definition read_short :: "(int \<Rightarrow> string) \<Rightarrow> u16 \<Rightarrow> sock \<Rightarrow> (u16 \<times> sock) res" where
  "read_short strerror s st = read_word strerror ''short'' 2 s st"

definition read_int :: "(int \<Rightarrow> string) \<Rightarrow> u32 \<Rightarrow> sock \<Rightarrow> (u32 \<times> sock) res" where
  "read_int strerror i st = read_word strerror ''int'' 4 i st"

definition read_long :: "(int \<Rightarrow> string) \<Rightarrow> u32 \<Rightarrow> sock \<Rightarrow> (u32 \<times> sock) res" where
  "read_long strerror l st = read_word strerror ''long'' 4 l st"

definition read_float :: "(int \<Rightarrow> string) \<Rightarrow> u32 \<Rightarrow> sock \<Rightarrow> (u32 \<times> sock) res" where
  "read_float strerror f st = read_word strerror ''float'' 4 f st"

definition read_double :: "(int \<Rightarrow> string) \<Rightarrow> u64 \<Rightarrow> sock \<Rightarrow> (u64 \<times> sock) res" where
  "read_double strerror d st = read_word strerror ''double'' 8 d st"

text \<open>
  A string is its length and its bytes; the result \<open>None\<close> is NULL. The buffer of \<open>len + 1\<close> bytes
  is cleared, so a short read leaves NULs at the end; for the largest length the size wraps to 0.
  Allocation succeeds.
\<close>

definition read_string :: "(int \<Rightarrow> string) \<Rightarrow> string \<Rightarrow> sock \<Rightarrow> (string option \<times> sock) res" where
  "read_string strerror junk st =
     (case sock_read 4 st of
        (Inr [], st) \<Rightarrow> bind_res (read_eof ''string length'' st) (\<lambda>st. Inr (None, st))
      | (Inl e, st) \<Rightarrow> bind_res (read_error strerror ''string length'' e st) (\<lambda>st. Inr (None, st))
      | (Inr bs, st) \<Rightarrow>
          let len = le_nat (bs @ drop (length bs) junk)
          in if len = 0 then Inr (None, st)
             else if 2 ^ 32 \<le> len + 1 then Inl BufOverflow
             else case sock_read len st of
                 (Inr [], st) \<Rightarrow> bind_res (read_eof ''string'' st) (\<lambda>st. Inr (None, st))
               | (Inl e, st) \<Rightarrow> bind_res (read_error strerror ''string'' e st) (\<lambda>st. Inr (None, st))
               | (Inr s, st) \<Rightarrow> Inr (Some (cstr s), st))"

definition write_bytes :: "(int \<Rightarrow> string) \<Rightarrow> string \<Rightarrow> string \<Rightarrow> sock \<Rightarrow> (int \<times> sock) res" where
  "write_bytes strerror what bs st =
     (case sock_write bs st of
        (Inr 0, st) \<Rightarrow> write_none what st
      | (Inl e, st) \<Rightarrow> write_error strerror what e st
      | (Inr n, st) \<Rightarrow> Inr (int n, st))"

definition write_char :: "(int \<Rightarrow> string) \<Rightarrow> u8 \<Rightarrow> sock \<Rightarrow> (int \<times> sock) res" where
  "write_char strerror c st = write_bytes strerror ''char'' (le_bytes 1 (unat c)) st"

definition write_short :: "(int \<Rightarrow> string) \<Rightarrow> u16 \<Rightarrow> sock \<Rightarrow> (int \<times> sock) res" where
  "write_short strerror s st = write_bytes strerror ''short'' (le_bytes 2 (unat s)) st"

definition write_int :: "(int \<Rightarrow> string) \<Rightarrow> u32 \<Rightarrow> sock \<Rightarrow> (int \<times> sock) res" where
  "write_int strerror i st = write_bytes strerror ''int'' (le_bytes 4 (unat i)) st"

definition write_long :: "(int \<Rightarrow> string) \<Rightarrow> u32 \<Rightarrow> sock \<Rightarrow> (int \<times> sock) res" where
  "write_long strerror l st = write_bytes strerror ''long'' (le_bytes 4 (unat l)) st"

definition write_float :: "(int \<Rightarrow> string) \<Rightarrow> u32 \<Rightarrow> sock \<Rightarrow> (int \<times> sock) res" where
  "write_float strerror f st = write_bytes strerror ''float'' (le_bytes 4 (unat f)) st"

definition write_double :: "(int \<Rightarrow> string) \<Rightarrow> u64 \<Rightarrow> sock \<Rightarrow> (int \<times> sock) res" where
  "write_double strerror d st = write_bytes strerror ''double'' (le_bytes 8 (unat d)) st"

definition write_string :: "(int \<Rightarrow> string) \<Rightarrow> string \<Rightarrow> sock \<Rightarrow> (int \<times> sock) res" where
  "write_string strerror s st =
     (case sock_write (le_bytes 4 (length s)) st of
        (Inr 0, st) \<Rightarrow> write_none ''string length'' st
      | (Inl e, st) \<Rightarrow> write_error strerror ''string length'' e st
      | (Inr _, st) \<Rightarrow> write_bytes strerror ''string'' s st)"

section \<open>Values as text\<close>

text \<open>
  The digits are read one character at a time into a cleared array of \<open>n\<close> bytes, up to a NUL or a
  newline. A character that is no digit is reported and leaves its place cleared. The reader of a
  string length gives up (\<open>None\<close>) on an error or at the end of the stream; the others go on with
  the character they had.
\<close>

definition report_nondigit :: "string \<Rightarrow> char \<Rightarrow> sock \<Rightarrow> sock res" where
  "report_nondigit what c st =
     (if isdigit c \<or> c = NUL \<or> c = NL then Inr st
      else bind_res (set_msg (''Error reading '' @ what @ '': isdigit('' @ [c] @ '') == FALSE'' @ [NL]) st)
             (\<lambda>st. Inr (err_handler (1000 + sint (of_char c :: u8)) st)))"

fun read_digits :: "(int \<Rightarrow> string) \<Rightarrow> string \<Rightarrow> string \<Rightarrow> nat \<Rightarrow> char \<Rightarrow> sock \<Rightarrow> (string \<times> sock) res" where
  "read_digits strerror what eofwhat 0 c st = Inr ([], st)"
| "read_digits strerror what eofwhat (Suc n) c st =
     (if c = NUL \<or> c = NL then Inr (replicate (Suc n) NUL, st)
      else bind_res
        (case sock_read 1 st of
           (Inr [], st) \<Rightarrow> bind_res (read_eof eofwhat st) (\<lambda>st. Inr (c, st))
         | (Inl e, st) \<Rightarrow> bind_res (read_error strerror what e st) (\<lambda>st. Inr (c, st))
         | (Inr (c # _), st) \<Rightarrow> Inr (c, st))
        (\<lambda>(c, st). bind_res (report_nondigit what c st) (\<lambda>st.
           bind_res (read_digits strerror what eofwhat n c st) (\<lambda>(b, st).
             Inr ((if isdigit c then c else NUL) # b, st)))))"

definition read_char_c :: "(int \<Rightarrow> string) \<Rightarrow> u8 \<Rightarrow> sock \<Rightarrow> (u8 \<times> sock) res" where
  "read_char_c strerror c st = read_char strerror c st"

definition atoi_buffer :: "string \<Rightarrow> int res" where
  "atoi_buffer b = bind_res (buffer_str b) (\<lambda>s. Inr (atoi s))"

definition read_short_c :: "(int \<Rightarrow> string) \<Rightarrow> sock \<Rightarrow> (u16 \<times> sock) res" where
  "read_short_c strerror st =
     bind_res (read_digits strerror ''short'' ''short'' ES_MAX_SHORT (CHR ''S'') st) (\<lambda>(b, st).
       bind_res (atoi_buffer b) (\<lambda>i. Inr (of_int i, st)))"

definition read_int_c :: "(int \<Rightarrow> string) \<Rightarrow> sock \<Rightarrow> (u32 \<times> sock) res" where
  "read_int_c strerror st =
     bind_res (read_digits strerror ''int'' ''short'' ES_MAX_INT (CHR ''I'') st) (\<lambda>(b, st).
       bind_res (atoi_buffer b) (\<lambda>i. Inr (of_int i, st)))"

definition read_long_c :: "(int \<Rightarrow> string) \<Rightarrow> sock \<Rightarrow> (u32 \<times> sock) res" where
  "read_long_c strerror st =
     bind_res (read_digits strerror ''long'' ''long'' ES_MAX_LONG (CHR ''L'') st) (\<lambda>(b, st).
       bind_res (atoi_buffer b) (\<lambda>i. Inr (of_int i, st)))"

fun read_len_digits :: "(int \<Rightarrow> string) \<Rightarrow> nat \<Rightarrow> char \<Rightarrow> sock \<Rightarrow> (string option \<times> sock) res" where
  "read_len_digits strerror 0 c st = Inr (Some [], st)"
| "read_len_digits strerror (Suc n) c st =
     (if c = NUL \<or> c = NL then Inr (Some (replicate (Suc n) NUL), st)
      else case sock_read 1 st of
           (Inr [], st) \<Rightarrow> bind_res (read_eof ''string length'' st) (\<lambda>st. Inr (None, st))
         | (Inl e, st) \<Rightarrow> bind_res (read_error strerror ''string length'' e st) (\<lambda>st. Inr (None, st))
         | (Inr (c # _), st) \<Rightarrow>
             bind_res (report_nondigit ''string length'' c st) (\<lambda>st.
             bind_res (read_len_digits strerror n c st) (\<lambda>(b, st).
               Inr (map_option (\<lambda>b. (if isdigit c then c else NUL) # b) b, st))))"

definition read_string_c :: "(int \<Rightarrow> string) \<Rightarrow> sock \<Rightarrow> (string option \<times> sock) res" where
  "read_string_c strerror st =
     bind_res (read_len_digits strerror ES_MAX_LEN (CHR ''T'') st) (\<lambda>(slen, st).
       case slen of
         None \<Rightarrow> Inr (None, st)
       | Some b \<Rightarrow>
           bind_res (atoi_buffer b) (\<lambda>len.
             case sock_read (unat (of_int len :: u32)) st of
                 (Inr [], st) \<Rightarrow> bind_res (read_eof ''string'' st) (\<lambda>st. Inr (None, st))
               | (Inl e, st) \<Rightarrow> bind_res (read_error strerror ''string'' e st) (\<lambda>st. Inr (None, st))
               | (Inr s, st) \<Rightarrow> Inr (Some (cstr s), st)))"

text \<open>The writers send the text one character at a time; \<open>None\<close> means that every one was sent.\<close>

fun write_chars :: "(int \<Rightarrow> string) \<Rightarrow> string \<Rightarrow> string \<Rightarrow> sock \<Rightarrow> (int option \<times> sock) res" where
  "write_chars strerror what [] st = Inr (None, st)"
| "write_chars strerror what (c # cs) st =
     (case sock_write [c] st of
        (Inr 0, st) \<Rightarrow> bind_res (write_none what st) (\<lambda>(r, st). Inr (Some r, st))
      | (Inl e, st) \<Rightarrow> bind_res (write_error strerror what e st) (\<lambda>(r, st). Inr (Some r, st))
      | (Inr _, st) \<Rightarrow> write_chars strerror what cs st)"

definition write_line :: "(int \<Rightarrow> string) \<Rightarrow> string \<Rightarrow> string \<Rightarrow> string \<Rightarrow> sock \<Rightarrow> (int \<times> sock) res" where
  "write_line strerror what endwhat s st =
     bind_res (write_chars strerror what s st) (\<lambda>(r, st). case r of
         Some r \<Rightarrow> Inr (r, st)
       | None \<Rightarrow>
           (case sock_write [NL] st of
              (Inr 0, st) \<Rightarrow> write_none endwhat st
            | (Inl e, st) \<Rightarrow> write_error strerror what e st
            | (Inr n, st) \<Rightarrow> Inr (int n, st)))"

definition write_char_c :: "(int \<Rightarrow> string) \<Rightarrow> u8 \<Rightarrow> sock \<Rightarrow> (int \<times> sock) res" where
  "write_char_c strerror c st = write_char strerror c st"

definition write_short_c :: "(int \<Rightarrow> string) \<Rightarrow> u16 \<Rightarrow> sock \<Rightarrow> (int \<times> sock) res" where
  "write_short_c strerror s st =
     bind_res (strcpy ES_MAX_SHORT (show_int (sint s))) (\<lambda>ss. write_line strerror ''short'' ''short-end'' ss st)"

definition write_int_c :: "(int \<Rightarrow> string) \<Rightarrow> u32 \<Rightarrow> sock \<Rightarrow> (int \<times> sock) res" where
  "write_int_c strerror j st =
     bind_res (strcpy ES_MAX_INT (show_int (sint j))) (\<lambda>si. write_line strerror ''int'' ''int-end'' si st)"

definition write_long_c :: "(int \<Rightarrow> string) \<Rightarrow> u32 \<Rightarrow> sock \<Rightarrow> (int \<times> sock) res" where
  "write_long_c strerror l st =
     bind_res (strcpy ES_MAX_LONG (show_int (sint l))) (\<lambda>sl. write_line strerror ''long'' ''long-end'' sl st)"

definition write_string_c :: "(int \<Rightarrow> string) \<Rightarrow> string \<Rightarrow> sock \<Rightarrow> (int \<times> sock) res" where
  "write_string_c strerror s st =
     bind_res (strcpy ES_MAX_LEN (show_int (sint (of_nat (length s) :: u32)))) (\<lambda>slen.
     bind_res (write_chars strerror ''string length'' slen st) (\<lambda>(r, st). case r of
         Some r \<Rightarrow> Inr (r, st)
       | None \<Rightarrow>
           (case sock_write [NL] st of
              (Inr 0, st) \<Rightarrow> write_none ''string-length-end'' st
            | (Inl e, st) \<Rightarrow> write_error strerror ''string length'' e st
            | (Inr _, st) \<Rightarrow> write_bytes strerror ''string'' s st)))"

section \<open>The interface of a transmitted value\<close>

definition writable :: "sock \<Rightarrow> bool" where
  "writable st \<longleftrightarrow> is_open st \<and> wq st = []"

lemma feed_Nil [simp]: "feed [] cs = cs"
  by (simp add: feed_def)

text \<open>
  What a writer and a reader promise together: the writer appends the encoding of a good value to
  the stream, and the reader takes the encoding off a stream and returns the value (as \<open>out\<close>
  presents it), leaving what follows.
\<close>

primrec put_all :: "('v \<Rightarrow> sock \<Rightarrow> (int \<times> sock) res) \<Rightarrow> 'v list \<Rightarrow> sock \<Rightarrow> sock res" where
  "put_all put [] st = Inr st"
| "put_all put (v # vs) st = bind_res (put v st) (\<lambda>(_, st). put_all put vs st)"

primrec get_all :: "(sock \<Rightarrow> ('r \<times> sock) res) \<Rightarrow> nat \<Rightarrow> sock \<Rightarrow> ('r list \<times> sock) res" where
  "get_all get 0 st = Inr ([], st)"
| "get_all get (Suc n) st =
     bind_res (get st) (\<lambda>(v, st). bind_res (get_all get n st) (\<lambda>(vs, st). Inr (v # vs, st)))"

locale wire_value =
  fixes put :: "'v \<Rightarrow> sock \<Rightarrow> (int \<times> sock) res"
    and get :: "sock \<Rightarrow> ('r \<times> sock) res"
    and enc :: "'v \<Rightarrow> string"
    and out :: "'v \<Rightarrow> 'r"
    and good :: "'v \<Rightarrow> bool"
  assumes put_enc: "good v \<Longrightarrow> writable st \<Longrightarrow> \<exists>r > 0. put v st = Inr (r, st\<lparr>tx := tx st @ enc v\<rparr>)"
    and get_enc: "good v \<Longrightarrow> is_open st \<Longrightarrow> rx st = feed (enc v @ rest) cs \<Longrightarrow> get st = Inr (out v, st\<lparr>rx := feed rest cs\<rparr>)"
begin

lemma put_all_enc:
  "\<forall>v \<in> set vs. good v \<Longrightarrow> writable st \<Longrightarrow> put_all put vs st = Inr (st\<lparr>tx := tx st @ concat (map enc vs)\<rparr>)"
proof (induction vs arbitrary: st)
  case (Cons v vs)
  obtain r where "put v st = Inr (r, st\<lparr>tx := tx st @ enc v\<rparr>)"
    using put_enc [of v st] Cons.prems by auto
  moreover have "writable (st\<lparr>tx := tx st @ enc v\<rparr>)" using Cons.prems(2) by (simp add: writable_def)
  ultimately show ?case using Cons by simp
qed simp

lemma get_all_enc:
  "\<forall>v \<in> set vs. good v \<Longrightarrow> is_open st \<Longrightarrow> rx st = feed (concat (map enc vs) @ rest) cs \<Longrightarrow>
   get_all get (length vs) st = Inr (map out vs, st\<lparr>rx := feed rest cs\<rparr>)"
proof (induction vs arbitrary: st)
  case (Cons v vs)
  have "get st = Inr (out v, st\<lparr>rx := feed (concat (map enc vs) @ rest) cs\<rparr>)"
    using Cons.prems by (intro get_enc) auto
  with Cons show ?case by simp
qed simp

text \<open>A sequence of values arrives as it was sent.\<close>

lemma transmit:
  assumes "\<forall>v \<in> set vs. good v" "writable a" "tx a = []" "is_open b"
  shows "\<exists>a'. put_all put vs a = Inr a' \<and>
     get_all get (length vs) (b\<lparr>rx := feed (tx a') []\<rparr>) = Inr (map out vs, b\<lparr>rx := []\<rparr>)"
  using put_all_enc [OF assms(1,2)] get_all_enc [OF assms(1), of "b\<lparr>rx := feed (concat (map enc vs)) []\<rparr>" "[]" "[]"] assms(3,4)
  by simp

end

subsection \<open>Binary values\<close>

lemma sock_read_feed:
  "is_open st \<Longrightarrow> rx st = feed (bs @ rest) cs \<Longrightarrow> bs \<noteq> [] \<Longrightarrow>
   sock_read (length bs) st = (Inr bs, st\<lparr>rx := feed rest cs\<rparr>)"
  by (auto simp: sock_read_def feed_def)

lemma sock_write_ok: "writable st \<Longrightarrow> sock_write bs st = (Inr (length bs), st\<lparr>tx := tx st @ bs\<rparr>)"
  by (simp add: sock_write_def writable_def)

lemma write_bytes_ok:
  "writable st \<Longrightarrow> bs \<noteq> [] \<Longrightarrow> write_bytes f what bs st = Inr (int (length bs), st\<lparr>tx := tx st @ bs\<rparr>)"
  by (cases bs) (simp_all add: write_bytes_def sock_write_ok)

lemma read_bytes_ok:
  assumes "is_open st" "rx st = feed (bs @ rest) cs" "length junk = length bs" "bs \<noteq> []"
  shows "read_bytes f what junk st = Inr (bs, st\<lparr>rx := feed rest cs\<rparr>)"
  using sock_read_feed [OF assms(1,2,4)] assms(3,4)
  by (cases bs) (simp_all add: read_bytes_def)

lemma read_word_ok:
  fixes w junk :: "'a::len word"
  assumes "is_open st" "rx st = feed (le_bytes n (unat w) @ rest) cs" "LENGTH('a) \<le> 8 * n" "0 < n"
  shows "read_word f what n junk st = Inr (w, st\<lparr>rx := feed rest cs\<rparr>)"
proof -
  have "le_bytes n (unat w) \<noteq> []" using assms(4) by (metis length_greater_0_conv length_le_bytes)
  moreover have "unat w < 256 ^ n"
  proof -
    have "unat w < 2 ^ LENGTH('a)" by (rule unsigned_less)
    also have "\<dots> \<le> 2 ^ (8 * n)" using assms(3) by (rule power_increasing) simp
    finally show ?thesis by (simp add: power_mult)
  qed
  ultimately show ?thesis
    using read_bytes_ok [OF assms(1,2)] by (simp add: read_word_def le_nat_le_bytes)
qed

lemma write_word_ok:
  "writable st \<Longrightarrow> 0 < n \<Longrightarrow>
   \<exists>r > 0. write_bytes f what (le_bytes n x) st = Inr (r, st\<lparr>tx := tx st @ le_bytes n x\<rparr>)"
  by (subst write_bytes_ok) (auto simp: neq_Nil_conv gr0_conv_Suc)

interpretation wchar: wire_value "write_char f" "read_char f j" "\<lambda>w. le_bytes 1 (unat w)" "\<lambda>w. w" "\<lambda>_. True"
  for f j
  unfolding write_char_def read_char_def
  by unfold_locales (simp_all add: write_word_ok read_word_ok del: le_bytes.simps One_nat_def)

interpretation wshort: wire_value "write_short f" "read_short f j" "\<lambda>w. le_bytes 2 (unat w)" "\<lambda>w. w" "\<lambda>_. True"
  for f j
  unfolding write_short_def read_short_def
  by unfold_locales (simp_all add: write_word_ok read_word_ok)

interpretation wint: wire_value "write_int f" "read_int f j" "\<lambda>w. le_bytes 4 (unat w)" "\<lambda>w. w" "\<lambda>_. True"
  for f j
  unfolding write_int_def read_int_def
  by unfold_locales (simp_all add: write_word_ok read_word_ok)

interpretation wlong: wire_value "write_long f" "read_long f j" "\<lambda>w. le_bytes 4 (unat w)" "\<lambda>w. w" "\<lambda>_. True"
  for f j
  unfolding write_long_def read_long_def
  by unfold_locales (simp_all add: write_word_ok read_word_ok)

interpretation wfloat: wire_value "write_float f" "read_float f j" "\<lambda>w. le_bytes 4 (unat w)" "\<lambda>w. w" "\<lambda>_. True"
  for f j
  unfolding write_float_def read_float_def
  by unfold_locales (simp_all add: write_word_ok read_word_ok)

interpretation wdouble: wire_value "write_double f" "read_double f j" "\<lambda>w. le_bytes 8 (unat w)" "\<lambda>w. w" "\<lambda>_. True"
  for f j
  unfolding write_double_def read_double_def
  by unfold_locales (simp_all add: write_word_ok read_word_ok)

subsection \<open>Strings\<close>

definition good_string :: "string \<Rightarrow> bool" where
  "good_string s \<longleftrightarrow> s \<noteq> [] \<and> NUL \<notin> set s \<and> length s + 1 < 2 ^ 32"

definition enc_string :: "string \<Rightarrow> string" where
  "enc_string s = le_bytes 4 (length s) @ s"

lemma write_string_ok:
  assumes "s \<noteq> []" "writable st"
  shows "write_string f s st = Inr (int (length s), st\<lparr>tx := tx st @ enc_string s\<rparr>)"
proof -
  have "writable (st\<lparr>tx := tx st @ le_bytes 4 (length s)\<rparr>)" using assms(2) by (simp add: writable_def)
  with assms show ?thesis by (simp add: write_string_def sock_write_ok write_bytes_ok enc_string_def)
qed

lemma read_string_ok:
  assumes "good_string s" "is_open st" "rx st = feed (enc_string s @ rest) cs" "length junk = 4"
  shows "read_string f junk st = Inr (Some s, st\<lparr>rx := feed rest cs\<rparr>)"
proof -
  obtain b bs where b: "le_bytes 4 (length s) = b # bs" by (metis length_le_bytes list.exhaust list.size(3) zero_neq_numeral)
  have len: "le_nat (b # bs) = length s"
    using assms(1) by (simp flip: b add: le_nat_le_bytes good_string_def)
  have one: "sock_read 4 st = (Inr (b # bs), st\<lparr>rx := feed (s @ rest) cs\<rparr>)"
    using sock_read_feed [OF assms(2), of "b # bs" "s @ rest" cs] assms(3) b length_le_bytes [of 4 "length s"]
    by (simp add: enc_string_def)
  have two: "sock_read (length s) (st\<lparr>rx := feed (s @ rest) cs\<rparr>) = (Inr s, st\<lparr>rx := feed rest cs\<rparr>)"
    using sock_read_feed [of "st\<lparr>rx := feed (s @ rest) cs\<rparr>" s rest cs] assms(1,2) by (simp add: good_string_def)
  have "length (b # bs) = 4" using b length_le_bytes by metis
  with assms(4) have j: "b # bs @ drop (length (b # bs)) junk = b # bs" by simp
  obtain c t where "s = c # t" using assms(1) by (cases s) (auto simp: good_string_def)
  with one two j len assms(1) show ?thesis by (simp add: read_string_def good_string_def del: le_nat.simps)
qed

interpretation wstring: wire_value "write_string f" "read_string f (le_bytes 4 (unat j))" enc_string Some good_string
  for f and j :: u32
  by unfold_locales (auto simp: write_string_ok good_string_def intro: read_string_ok)

subsection \<open>Values as text\<close>

lemma write_chars_ok: "writable st \<Longrightarrow> write_chars f what s st = Inr (None, st\<lparr>tx := tx st @ s\<rparr>)"
  by (induction s arbitrary: st) (simp_all add: sock_write_ok writable_def)

lemma write_line_ok:
  "writable st \<Longrightarrow> write_line f what e s st = Inr (1, st\<lparr>tx := tx st @ s @ [NL]\<rparr>)"
  by (simp add: write_line_def write_chars_ok sock_write_ok writable_def)

lemma isdigit_NL [simp]: "\<not> isdigit NL" "\<not> isdigit NUL"
  by (simp_all add: isdigit_def)

lemma sock_read_one: "is_open st \<Longrightarrow> rx st = feed (c # rest) cs \<Longrightarrow> sock_read 1 st = (Inr [c], st\<lparr>rx := feed rest cs\<rparr>)"
  using sock_read_feed [of st "[c]" rest cs] by simp

lemma read_digits_ok:
  "\<forall>c \<in> set ds. isdigit c \<Longrightarrow> length ds < n \<Longrightarrow> c \<noteq> NUL \<Longrightarrow> c \<noteq> NL \<Longrightarrow> is_open st \<Longrightarrow>
   rx st = feed (ds @ NL # rest) cs \<Longrightarrow>
   read_digits f what ew n c st = Inr (ds @ replicate (n - length ds) NUL, st\<lparr>rx := feed rest cs\<rparr>)"
proof (induction ds arbitrary: n c st)
  case Nil
  then obtain m where m: "n = Suc m" by (cases n) auto
  have "read_digits f what ew m NL (st\<lparr>rx := feed rest cs\<rparr>) = Inr (replicate m NUL, st\<lparr>rx := feed rest cs\<rparr>)"
    by (cases m) auto
  with Nil m show ?case by (simp add: sock_read_one [of _ NL rest cs] report_nondigit_def del: One_nat_def)
next
  case (Cons d ds)
  then obtain m where m: "n = Suc m" by (cases n) auto
  have d: "isdigit d" "d \<noteq> NUL" "d \<noteq> NL" using Cons.prems(1) by auto
  have "read_digits f what ew m d (st\<lparr>rx := feed (ds @ NL # rest) cs\<rparr>) =
      Inr (ds @ replicate (m - length ds) NUL, st\<lparr>rx := feed rest cs\<rparr>)"
    using Cons.IH [of m d "st\<lparr>rx := feed (ds @ NL # rest) cs\<rparr>"] Cons.prems m d by simp
  with Cons.prems m d show ?case
    by (simp add: sock_read_one [of _ d "ds @ NL # rest" cs] report_nondigit_def del: One_nat_def)
qed

lemma atoi_buffer_digits:
  assumes "int n < 2 ^ 31" "0 < k"
  shows "atoi_buffer (show_nat n @ replicate k NUL) = Inr (int n)"
proof -
  have nul: "NUL \<notin> set (show_nat n)" using show_nat_digits [of NUL n] by auto
  obtain j where "k = Suc j" using assms(2) by (cases k) auto
  with nul have "buffer_str (show_nat n @ replicate k NUL) = Inr (show_nat n)"
    by (simp add: buffer_str_def)
  then show ?thesis
    using scan_int_show_nat [of "[]" n] assms(1) by (simp add: atoi_buffer_def atoi_def)
qed

lemma read_digits_show:
  assumes "int n < 2 ^ 31" "length (show_nat n) < k" "c \<noteq> NUL" "c \<noteq> NL" "is_open st"
    "rx st = feed (show_nat n @ NL # rest) cs"
  shows "bind_res (read_digits f what ew k c st) (\<lambda>(b, st). bind_res (atoi_buffer b) (\<lambda>i. Inr (g i, st))) =
     Inr (g (int n), st\<lparr>rx := feed rest cs\<rparr>)"
proof -
  have "\<forall>c \<in> set (show_nat n). isdigit c" using show_nat_digits by blast
  from read_digits_ok [OF this assms(2-6)] show ?thesis
    using atoi_buffer_digits [OF assms(1), of "k - length (show_nat n)"] assms(2) by simp
qed

text \<open>Non-negative integers survive the text form.\<close>

definition enc_line :: "int \<Rightarrow> string" where
  "enc_line i = show_int i @ [NL]"

lemma sint16_bounds: "- (2 ^ 15) \<le> sint (w :: u16)" "sint w < 2 ^ 15"
  using sint_greater_eq [of w] sint_lt [of w] by simp_all

lemma sint32_bounds: "- (2 ^ 31) \<le> sint (w :: u32)" "sint w < 2 ^ 31"
  using sint_greater_eq [of w] sint_lt [of w] by simp_all

lemma length_show_int_short: "length (show_int (sint (w :: u16))) < ES_MAX_SHORT"
proof -
  have "length (show_nat n) \<le> 5" if "n \<le> 2 ^ 15" for n :: nat
    using that by (intro length_show_nat) auto
  moreover have "nat (- sint w) \<le> 2 ^ 15" "nat (sint w) \<le> 2 ^ 15" using sint16_bounds [of w] by auto
  ultimately have "length (show_nat (nat (- sint w))) \<le> 5" "length (show_nat (nat (sint w))) \<le> 5" by blast+
  then show ?thesis by (simp add: show_int_def ES_MAX_SHORT_def)
qed

lemma length_show_int_int: "length (show_int (sint (w :: u32))) < ES_MAX_INT"
  using length_show_int_sint [of w] by (simp add: ES_MAX_INT_def)

lemma write_text_ok:
  "length s < n \<Longrightarrow> writable st \<Longrightarrow>
   \<exists>r > 0. bind_res (strcpy n s) (\<lambda>b. write_line f what e b st) = Inr (r, st\<lparr>tx := tx st @ s @ [NL]\<rparr>)"
  by (simp add: strcpy_def write_line_ok)

lemma read_text_ok:
  assumes "0 \<le> i" "i < 2 ^ 31" "length (show_int i) < k" "c \<noteq> NUL" "c \<noteq> NL" "is_open st"
    "rx st = feed (enc_line i @ rest) cs"
  shows "bind_res (read_digits f what ew k c st) (\<lambda>(b, st). bind_res (atoi_buffer b) (\<lambda>i. Inr (g i, st))) =
     Inr (g i, st\<lparr>rx := feed rest cs\<rparr>)"
  using read_digits_show [of "nat i" k c st rest cs f what ew g] assms
  by (simp add: enc_line_def show_int_def)

interpretation wshort_c: wire_value "write_short_c f" "read_short_c f" "\<lambda>w. enc_line (sint w)" "\<lambda>w. w" "\<lambda>w. 0 \<le> sint w"
  for f
proof unfold_locales
  fix w :: u16 and st
  assume "writable st"
  then show "\<exists>r > 0. write_short_c f w st = Inr (r, st\<lparr>tx := tx st @ enc_line (sint w)\<rparr>)"
    unfolding write_short_c_def enc_line_def by (intro write_text_ok length_show_int_short)
next
  fix w :: u16 and st :: sock and rest cs
  assume "0 \<le> sint w" "is_open st" "rx st = feed (enc_line (sint w) @ rest) cs"
  then show "read_short_c f st = Inr (w, st\<lparr>rx := feed rest cs\<rparr>)"
    unfolding read_short_c_def
    using read_text_ok [of "sint w" ES_MAX_SHORT "CHR ''S''" st rest cs f "''short''" "''short''" "of_int :: int \<Rightarrow> u16"]
      sint16_bounds [of w] length_show_int_short [of w] by simp
qed

interpretation wint_c: wire_value "write_int_c f" "read_int_c f" "\<lambda>w. enc_line (sint w)" "\<lambda>w. w" "\<lambda>w. 0 \<le> sint w"
  for f
proof unfold_locales
  fix w :: u32 and st
  assume "writable st"
  then show "\<exists>r > 0. write_int_c f w st = Inr (r, st\<lparr>tx := tx st @ enc_line (sint w)\<rparr>)"
    unfolding write_int_c_def enc_line_def by (intro write_text_ok length_show_int_int)
next
  fix w :: u32 and st :: sock and rest cs
  assume "0 \<le> sint w" "is_open st" "rx st = feed (enc_line (sint w) @ rest) cs"
  then show "read_int_c f st = Inr (w, st\<lparr>rx := feed rest cs\<rparr>)"
    unfolding read_int_c_def
    using read_text_ok [of "sint w" ES_MAX_INT "CHR ''I''" st rest cs f "''int''" "''short''" "of_int :: int \<Rightarrow> u32"]
      sint32_bounds [of w] length_show_int_int [of w] by simp
qed

interpretation wlong_c: wire_value "write_long_c f" "read_long_c f" "\<lambda>w. enc_line (sint w)" "\<lambda>w. w" "\<lambda>w. 0 \<le> sint w"
  for f
proof unfold_locales
  fix w :: u32 and st
  assume "writable st"
  then show "\<exists>r > 0. write_long_c f w st = Inr (r, st\<lparr>tx := tx st @ enc_line (sint w)\<rparr>)"
    unfolding write_long_c_def enc_line_def
    by (intro write_text_ok) (simp_all add: ES_MAX_LONG_def length_show_int_int [unfolded ES_MAX_INT_def])
next
  fix w :: u32 and st :: sock and rest cs
  assume "0 \<le> sint w" "is_open st" "rx st = feed (enc_line (sint w) @ rest) cs"
  then show "read_long_c f st = Inr (w, st\<lparr>rx := feed rest cs\<rparr>)"
    unfolding read_long_c_def
    using read_text_ok [of "sint w" ES_MAX_LONG "CHR ''L''" st rest cs f "''long''" "''long''" "of_int :: int \<Rightarrow> u32"]
      sint32_bounds [of w] length_show_int_int [of w] by (simp add: ES_MAX_LONG_def ES_MAX_INT_def)
qed

section \<open>Properties\<close>


definition fresh_sock :: sock where
  "fresh_sock = \<lparr>rx = [], tx = [], wq = [], is_open = True, close_on_error = False, handled = [], es_err = 0, es_msg = []\<rparr>"


lemma read_digits_sign:
  assumes "\<forall>c \<in> set ds. isdigit c" "length ds + 1 < n" "is_open st" "\<not> close_on_error st" "c \<noteq> NUL" "c \<noteq> NL"
    "rx st = feed (CHR ''-'' # ds @ NL # rest) cs" "length what \<le> 5"
  shows "\<exists>st'. read_digits f what ew n c st = Inr (NUL # ds @ replicate (n - 1 - length ds) NUL, st') \<and>
     handled st' = handled st @ [1045] \<and> rx st' = feed rest cs"
proof -
  obtain m where m: "n = Suc m" using assms(2) by (cases n) auto
  have nd: "\<not> isdigit (CHR ''-'')" by simp
  have msg: "length (''Error reading '' @ what @ '': isdigit('' @ [CHR ''-''] @ '') == FALSE'' @ [NL]) < EASY_SOCK_ERR_MSG_LEN"
    using assms(8) by (simp add: EASY_SOCK_ERR_MSG_LEN_def)
  let ?st = "err_handler 1045 (st\<lparr>rx := feed (ds @ NL # rest) cs,
      es_msg := ''Error reading '' @ what @ '': isdigit('' @ [CHR ''-''] @ '') == FALSE'' @ [NL]\<rparr>)"
  have rep: "report_nondigit what (CHR ''-'') (st\<lparr>rx := feed (ds @ NL # rest) cs\<rparr>) = Inr ?st"
    using msg nd by (simp add: report_nondigit_def set_msg_def strcpy_def)
  have "read_digits f what ew m (CHR ''-'') ?st = Inr (ds @ replicate (m - length ds) NUL, ?st\<lparr>rx := feed rest cs\<rparr>)"
    using assms m by (intro read_digits_ok) (auto simp: err_handler_def)
  with m rep nd assms(3,5-7) show ?thesis
    by (simp add: sock_read_one [of _ "CHR ''-''" "ds @ NL # rest" cs] err_handler_def del: One_nat_def)
qed

text \<open>
  (\<open>write_int_c\<close>, \<open>read_int_c\<close>): an integer sent as text is read back when it is not negative.
  For a negative one the sign is reported to the error handler and clears the first place of the
  array, so the value read is 0.
\<close>

theorem int_c_transmitted:
  assumes "is_open b" "\<not> close_on_error b" "rx b = feed (enc_line (sint w) @ rest) cs"
  shows "\<exists>b'. read_int_c f b = Inr (if 0 \<le> sint w then w else 0, b') \<and> rx b' = feed rest cs \<and>
     handled b' = handled b @ (if 0 \<le> sint w then [] else [1045])"
proof (cases "0 \<le> sint w")
  case True
  then show ?thesis using wint_c.get_enc [OF True assms(1,3), of f] by simp
next
  case False
  let ?n = "nat (- sint w)"
  have s: "show_int (sint w) = CHR ''-'' # show_nat ?n" using False by (simp add: show_int_def)
  have dig: "\<forall>c \<in> set (show_nat ?n). isdigit c" using show_nat_digits by blast
  have "length (show_nat ?n) + 1 < ES_MAX_INT" using length_show_int_int [of w] s by simp
  from read_digits_sign [OF dig this assms(1,2), of "CHR ''I''" rest cs "''int''" f "''short''"] assms(3) s
  obtain b' where b': "read_digits f ''int'' ''short'' ES_MAX_INT (CHR ''I'') b =
      Inr (NUL # show_nat ?n @ replicate (ES_MAX_INT - 1 - length (show_nat ?n)) NUL, b')"
      "handled b' = handled b @ [1045]" "rx b' = feed rest cs"
    by (auto simp: enc_line_def)
  moreover have "atoi_buffer (NUL # x) = Inr 0" for x
    by (simp add: atoi_buffer_def buffer_str_def cstr_def atoi_def scan_int_def)
  ultimately show ?thesis using False by (simp add: read_int_c_def)
qed

theorem int_c_transmitted_witness:
  "\<exists>b'. read_int_c (\<lambda>_. []) (fresh_sock\<lparr>rx := [Data (''-5'' @ [NL])]\<rparr>) = Inr (0, b') \<and> handled b' = [1045]"
proof -
  have s: "sint (- 5 :: u32) = - 5" by simp
  have "show_nat 5 = ''5''" by code_simp
  then have "enc_line (sint (- 5 :: u32)) = ''-5'' @ [NL]" by (simp only: s) (simp add: enc_line_def show_int_def)
  with int_c_transmitted [of "fresh_sock\<lparr>rx := [Data (''-5'' @ [NL])]\<rparr>" "- 5" "[]" "[]" "\<lambda>_. []"] s
  show ?thesis by (auto simp: fresh_sock_def feed_def)
qed

end
