(* ===== verification/Rpc.thy ===== *)
theory Rpc
  imports Easy_Sock
begin

text \<open>
  \<^verbatim>\<open>client/revimage/client.c\<close> and \<^verbatim>\<open>server.c\<close>: the remote calls between the imaging tools and the
  user interface. A call sends the command, the number of its arguments and the arguments; the
  server looks the command up in its table and sends the result back. Both sides use the
  transport of \<open>Easy_Sock\<close>.
\<close>

section \<open>The client\<close>

text \<open>
  The static variables of \<open>ui_send\<close>: the descriptor (\<open>-1\<close> closed, \<open>-2\<close> given up), the flag
  \<open>cnx\<close> and the socket itself when there is one.
\<close>

record ui_state =
  ui_fd :: int
  ui_cnx :: bool
  ui_sock :: sock

definition ui_connect :: "sock option \<Rightarrow> ui_state \<Rightarrow> ui_state \<times> string" where
  "ui_connect connect st =
     (if ui_fd st = -1
      then (case connect of
              None \<Rightarrow> (st\<lparr>ui_fd := -2\<rparr>, ''Can't connect ! '' @ es_msg (ui_sock st))
            | Some s \<Rightarrow> (st\<lparr>ui_fd := 0, ui_cnx := True, ui_sock := s\<rparr>, []))
      else (st, []))"

definition send_args :: "(int \<Rightarrow> string) \<Rightarrow> string list \<Rightarrow> sock \<Rightarrow> sock res" where
  "send_args strerror args s = put_all (write_string strerror) args s"

definition send_call :: "(int \<Rightarrow> string) \<Rightarrow> string \<Rightarrow> string list \<Rightarrow> sock \<Rightarrow> sock res" where
  "send_call strerror command args s =
     bind_res (write_string strerror command s) (\<lambda>(_, s).
     bind_res (write_int strerror (of_nat (length args)) s) (\<lambda>(_, s). send_args strerror args s))"

text \<open>
  The result is the returned buffer, the text printed and the state. \<open>connect\<close> is the outcome of
  \<open>easy_tcp_connect\<close>. A connection is closed once a reply has come.
\<close>

definition ui_send ::
    "(int \<Rightarrow> string) \<Rightarrow> u32 \<Rightarrow> sock option \<Rightarrow> string \<Rightarrow> string list \<Rightarrow> ui_state \<Rightarrow> (string \<times> string \<times> ui_state) res" where
  "ui_send strerror junk connect command args st =
     (case ui_connect connect st of (st, msg) \<Rightarrow>
        if ui_cnx st
        then bind_res (send_call strerror command args (ui_sock st)) (\<lambda>s.
             bind_res (read_string strerror (le_bytes 4 (unat junk)) s) (\<lambda>(r, s).
               case r of
                 Some r \<Rightarrow> Inr (take 1023 r, msg, st\<lparr>ui_fd := -1, ui_cnx := False, ui_sock := s\<lparr>is_open := False\<rparr>\<rparr>)
               | None \<Rightarrow> Inr ([], msg, st\<lparr>ui_sock := s\<rparr>)))
        else Inr ([], msg @ ''DATA: '' @ command @ '' '' @ show_nat (length args) @
                      concat (map (\<lambda>a. '' '' @ [CHR 0x27] @ a @ [CHR 0x27]) args) @ [NL], st))"

section \<open>The server\<close>

type_synonym command_table = "(string \<times> (string option list \<Rightarrow> string option)) list"

text \<open>
  The arguments go into an array of 255 pointers; the count comes from the packet. The errors of
  the transport close the connection (\<open>onError\<close>), and the loop goes on reading.
\<close>

function read_args ::
    "(int \<Rightarrow> string) \<Rightarrow> u32 \<Rightarrow> int \<Rightarrow> int \<Rightarrow> sock \<Rightarrow> (string option list \<times> sock) res" where
  "read_args strerror junk i args s =
     (if i \<ge> args then Inr ([], s)
      else if i \<ge> 255 then Inl BufOverflow
      else bind_res (read_string strerror (le_bytes 4 (unat junk)) s) (\<lambda>(a, s).
           bind_res (read_args strerror junk (i + 1) args s) (\<lambda>(as, s). Inr (a # as, s))))"
  by pat_completeness auto
termination
  by (relation "measure (\<lambda>(f, j, i, args, s). nat (args - i))") auto

declare read_args.simps [simp del]

text \<open>The search compares each name of the table with the command, which may be NULL.\<close>

fun run_command :: "(int \<Rightarrow> string) \<Rightarrow> command_table \<Rightarrow> string option \<Rightarrow> string option list \<Rightarrow> sock \<Rightarrow> sock res" where
  "run_command strerror [] cmd arg s = Inr s"
| "run_command strerror ((name, func) # tab) cmd arg s =
     (case cmd of
        None \<Rightarrow> Inl NullDeref
      | Some c \<Rightarrow>
          if name = c
          then (case func arg of
                  None \<Rightarrow> Inl NullDeref
                | Some ret \<Rightarrow> bind_res (write_string strerror ret s) (\<lambda>(_, s). Inr s))
          else run_command strerror tab cmd arg s)"

text \<open>One connection, from \<open>accept\<close> to \<open>close\<close>.\<close>

definition server_turn :: "(int \<Rightarrow> string) \<Rightarrow> u32 \<Rightarrow> command_table \<Rightarrow> sock \<Rightarrow> sock res" where
  "server_turn strerror junk commands s =
     bind_res (read_string strerror (le_bytes 4 (unat junk)) s) (\<lambda>(cmd, s).
       if \<not> is_open s then Inr s
       else bind_res (read_int strerror junk s) (\<lambda>(args, s).
         if \<not> is_open s then Inr s
         else bind_res (read_args strerror junk 0 (sint args) s) (\<lambda>(arg, s).
              bind_res (run_command strerror commands cmd arg s) (\<lambda>s. Inr (s\<lparr>is_open := False\<rparr>)))))"

section \<open>A call arrives\<close>

definition enc_call :: "string \<Rightarrow> string list \<Rightarrow> string" where
  "enc_call cmd args = enc_string cmd @ le_bytes 4 (length args) @ concat (map enc_string args)"

lemma send_call_ok:
  assumes "writable s" "good_string cmd" "\<forall>a \<in> set args. good_string a" "length args < 2 ^ 32"
  shows "send_call f cmd args s = Inr (s\<lparr>tx := tx s @ enc_call cmd args\<rparr>)"
proof -
  have w: "writable (s\<lparr>tx := x\<rparr>)" for x using assms(1) by (simp add: writable_def)
  have "write_string f cmd s = Inr (int (length cmd), s\<lparr>tx := tx s @ enc_string cmd\<rparr>)"
    using assms by (simp add: write_string_ok good_string_def)
  moreover obtain r where "write_int f (of_nat (length args)) (s\<lparr>tx := tx s @ enc_string cmd\<rparr>) =
      Inr (r, s\<lparr>tx := (tx s @ enc_string cmd) @ le_bytes 4 (length args)\<rparr>)"
    using wint.put_enc [OF TrueI w, of f "of_nat (length args)" "tx s @ enc_string cmd"] assms(4)
    by (auto simp: unat_of_nat_small)
  ultimately show ?thesis
    using wstring.put_all_enc [OF assms(3) w, of f] by (simp add: send_call_def send_args_def enc_call_def)
qed

lemma read_args_ok:
  assumes "\<forall>a \<in> set args. good_string a" "is_open s" "rx s = feed (concat (map enc_string args) @ rest) cs"
    "0 \<le> i" "i + int (length args) \<le> 255"
  shows "read_args f j i (i + int (length args)) s = Inr (map Some args, s\<lparr>rx := feed rest cs\<rparr>)"
  using assms
proof (induction args arbitrary: i s)
  case Nil
  then show ?case by (simp add: read_args.simps)
next
  case (Cons a args)
  have "read_string f (le_bytes 4 (unat j)) s = Inr (Some a, s\<lparr>rx := feed (concat (map enc_string args) @ rest) cs\<rparr>)"
    using Cons.prems by (intro wstring.get_enc) auto
  moreover have "read_args f j (i + 1) (i + 1 + int (length args)) (s\<lparr>rx := feed (concat (map enc_string args) @ rest) cs\<rparr>) =
      Inr (map Some args, s\<lparr>rx := feed rest cs\<rparr>)"
    using Cons.IH [of "s\<lparr>rx := feed (concat (map enc_string args) @ rest) cs\<rparr>" "i + 1"] Cons.prems by simp
  ultimately show ?case using Cons.prems by (subst read_args.simps) (simp add: algebra_simps)
qed

lemma run_command_ok:
  assumes "map_of tab cmd = Some func" "func arg = Some ret" "good_string ret" "writable s"
  shows "run_command f tab (Some cmd) arg s = Inr (s\<lparr>tx := tx s @ enc_string ret\<rparr>)"
  using assms(1)
proof (induction tab)
  case (Cons nf tab)
  then show ?case using assms(2-4) by (cases nf) (auto simp: write_string_ok good_string_def split: if_splits)
qed simp

lemma server_turn_ok:
  assumes "good_string cmd" "\<forall>a \<in> set args. good_string a" "length args \<le> 255"
    "map_of tab cmd = Some func" "func (map Some args) = Some ret" "good_string ret"
    "writable s" "rx s = feed (enc_call cmd args) []"
  shows "server_turn f j tab s = Inr (s\<lparr>rx := [], tx := tx s @ enc_string ret, is_open := False\<rparr>)"
proof -
  let ?s1 = "s\<lparr>rx := feed (le_bytes 4 (length args) @ concat (map enc_string args)) []\<rparr>"
  let ?s2 = "s\<lparr>rx := feed (concat (map enc_string args)) []\<rparr>"
  have op: "is_open s" using assms(7) by (simp add: writable_def)
  have 1: "read_string f (le_bytes 4 (unat j)) s = Inr (Some cmd, ?s1)"
    using assms(8) op by (intro wstring.get_enc [OF assms(1)]) (auto simp: enc_call_def)
  have 2: "read_int f j ?s1 = Inr (of_nat (length args), ?s2)"
    using wint.get_enc [of ?s1 "of_nat (length args)" "concat (map enc_string args)" "[]" f j] op assms(3)
    by (simp add: unat_of_nat_small)
  have n: "sint (of_nat (length args) :: u32) = 0 + int (length args)"
    using assms(3) by (simp add: sint_of_nat_small)
  have 3: "read_args f j 0 (0 + int (length args)) ?s2 = Inr (map Some args, s\<lparr>rx := []\<rparr>)"
    using read_args_ok [OF assms(2), of ?s2 "[]" "[]" 0 f j] op assms(3) by simp
  have 4: "run_command f tab (Some cmd) (map Some args) (s\<lparr>rx := []\<rparr>) = Inr (s\<lparr>rx := [], tx := tx s @ enc_string ret\<rparr>)"
    using run_command_ok [OF assms(4-6), of "s\<lparr>rx := []\<rparr>" f] assms(7) by (simp add: writable_def)
  from 1 2 3 4 n op show ?thesis by (simp add: server_turn_def)
qed

section \<open>Properties\<close>



lemma read_args_too_many:
  assumes "\<forall>a \<in> set args. good_string a" "is_open s" "rx s = feed (concat (map enc_string args) @ rest) cs"
    "0 \<le> i" "i \<le> 255" "i + int (length args) \<ge> 255" "255 < n"
  shows "read_args f j i n s = Inl BufOverflow"
  using assms
proof (induction args arbitrary: i s)
  case Nil
  then show ?case by (simp add: read_args.simps)
next
  case (Cons a args)
  show ?case
  proof (cases "i = 255")
    case True
    with Cons.prems show ?thesis by (simp add: read_args.simps)
  next
    case False
    have "read_string f (le_bytes 4 (unat j)) s = Inr (Some a, s\<lparr>rx := feed (concat (map enc_string args) @ rest) cs\<rparr>)"
      using Cons.prems by (intro wstring.get_enc) auto
    moreover have "read_args f j (i + 1) n (s\<lparr>rx := feed (concat (map enc_string args) @ rest) cs\<rparr>) = Inl BufOverflow"
      using Cons.IH [of "s\<lparr>rx := feed (concat (map enc_string args) @ rest) cs\<rparr>" "i + 1"] Cons.prems False by simp
    ultimately show ?thesis using Cons.prems False by (subst read_args.simps) simp
  qed
qed

text \<open>
  (\<open>server_loop\<close>): the number of arguments is taken from the connection unchecked. A call that
  announces more than 255 arguments and sends them overruns the array of pointers.
\<close>

theorem rpc_args_overflow:
  assumes "good_string cmd" "\<forall>a \<in> set args. good_string a" "255 < length args" "length args < 2 ^ 31"
    and "is_open s" "rx s = feed (enc_call cmd args) []"
  shows "server_turn f j tab s = Inl BufOverflow"
proof -
  let ?s1 = "s\<lparr>rx := feed (le_bytes 4 (length args) @ concat (map enc_string args)) []\<rparr>"
  let ?s2 = "s\<lparr>rx := feed (concat (map enc_string args)) []\<rparr>"
  have 1: "read_string f (le_bytes 4 (unat j)) s = Inr (Some cmd, ?s1)"
    using assms(6) by (intro wstring.get_enc [OF assms(1) assms(5)]) (auto simp: enc_call_def)
  have 2: "read_int f j ?s1 = Inr (of_nat (length args), ?s2)"
    using wint.get_enc [of ?s1 "of_nat (length args)" "concat (map enc_string args)" "[]" f j] assms(4,5)
    by (simp add: unat_of_nat_small)
  have n: "sint (of_nat (length args) :: u32) = int (length args)"
    using assms(4) by (rule sint_of_nat_small)
  have "read_args f j 0 (int (length args)) ?s2 = Inl BufOverflow"
    using read_args_too_many [OF assms(2), of ?s2 "[]" "[]" 0 "int (length args)"] assms(3,5) by simp
  with 1 2 n assms(5) show ?thesis by (simp add: server_turn_def)
qed

theorem rpc_args_overflow_witness:
  "server_turn (\<lambda>_. []) 0 [] (fresh_sock\<lparr>rx := feed (enc_call ''x'' (replicate 256 ''y'')) []\<rparr>) = Inl BufOverflow"
  by (rule rpc_args_overflow) (simp_all add: good_string_def fresh_sock_def)

end
