(* ===== verification/Zlib.thy ===== *)
theory Zlib
  imports LRS_Prelude
begin

text \<open>
  The interface of zlib that the image tools use. The library is a parameter: its functions are
  fields of a record and what the tools rely on are named hypotheses that state its documented
  behaviour. A stream is followed from its initialisation by the inductive predicates
  \<open>deflate_run\<close> and \<open>inflate_run\<close>, with the bytes consumed and produced so far. A simple stored
  format at the end shows that the hypotheses can hold.
\<close>

section \<open>The interface\<close>

datatype flush = Z_NO_FLUSH | Z_SYNC_FLUSH | Z_FULL_FLUSH | Z_FINISH
datatype zret = Z_OK | Z_STREAM_END | Z_ERROR int

text \<open>
  \<open>zdeflate zl z inp room fl\<close> is one call with the input \<open>inp\<close> and \<open>room\<close> bytes of output space:
  the new state, the number of bytes consumed, the bytes produced and the return code.
\<close>

record ('z, 'i) zlib =
  deflateInit :: "int \<Rightarrow> 'z"
  zdeflate :: "'z \<Rightarrow> string \<Rightarrow> nat \<Rightarrow> flush \<Rightarrow> 'z \<times> nat \<times> string \<times> zret"
  inflateInit :: "'i"
  zinflate :: "'i \<Rightarrow> string \<Rightarrow> nat \<Rightarrow> flush \<Rightarrow> 'i \<times> nat \<times> string \<times> zret"
  adler32 :: "u32 \<Rightarrow> string \<Rightarrow> u32"

section \<open>Streams\<close>

text \<open>
  Once a finishing call has been made, only finishing calls follow, with the input that is left;
  after the end of the stream, only empty ones. \<open>full\<close> tells that the last call left no output
  space.
\<close>

datatype phase = Open | Finishing string | Finished

definition call_allowed :: "phase \<Rightarrow> string \<Rightarrow> flush \<Rightarrow> bool" where
  "call_allowed ph inp fl \<longleftrightarrow>
     (case ph of Open \<Rightarrow> True | Finishing r \<Rightarrow> inp = r \<and> fl = Z_FINISH | Finished \<Rightarrow> inp = [] \<and> fl = Z_FINISH)"

definition next_phase :: "flush \<Rightarrow> zret \<Rightarrow> string \<Rightarrow> phase" where
  "next_phase fl ret r = (if ret = Z_STREAM_END then Finished else if fl = Z_FINISH then Finishing r else Open)"

text \<open>\<open>deflateInit\<close> accepts the levels from -1 (the default) to 9; after any other one there is no stream.\<close>

definition valid_level :: "int \<Rightarrow> bool" where
  "valid_level lev \<longleftrightarrow> - 1 \<le> lev \<and> lev \<le> 9"

inductive deflate_run :: "('z, 'i) zlib \<Rightarrow> 'z \<Rightarrow> string \<Rightarrow> string \<Rightarrow> bool \<Rightarrow> phase \<Rightarrow> bool" for zl where
  deflate_start: "valid_level lev \<Longrightarrow> deflate_run zl (deflateInit zl lev) [] [] False Open"
| deflate_step: "deflate_run zl z ins outs full ph \<Longrightarrow> call_allowed ph inp fl \<Longrightarrow>
    zdeflate zl z inp room fl = (z', k, out, ret) \<Longrightarrow> ret = Z_OK \<or> ret = Z_STREAM_END \<Longrightarrow>
    deflate_run zl z' (ins @ take k inp) (outs @ out) (length out = room) (next_phase fl ret (drop k inp))"

inductive inflate_run :: "('z, 'i) zlib \<Rightarrow> 'i \<Rightarrow> string \<Rightarrow> string \<Rightarrow> bool \<Rightarrow> bool" for zl where
  inflate_start: "inflate_run zl (inflateInit zl) [] [] False"
| inflate_step: "inflate_run zl z c p False \<Longrightarrow> zinflate zl z inp room fl = (z', k, out, ret) \<Longrightarrow>
    ret = Z_OK \<or> ret = Z_STREAM_END \<Longrightarrow>
    inflate_run zl z' (c @ take k inp) (p @ out) (ret = Z_STREAM_END)"

section \<open>What the tools rely on\<close>

text \<open>
  A useful call (there is input, or the stream is being finished, or the last call ran out of
  space) succeeds; it stops only when the input is empty or the output space is used up; a
  finishing call with enough space ends the stream.
\<close>

definition deflate_call_ok :: "('z, 'i) zlib \<Rightarrow> bool" where
  "deflate_call_ok zl \<longleftrightarrow>
     (\<forall>z ins outs full ph inp room fl z' k out ret.
        deflate_run zl z ins outs full ph \<longrightarrow> 0 < room \<longrightarrow> call_allowed ph inp fl \<longrightarrow>
        inp \<noteq> [] \<or> full \<or> fl = Z_FINISH \<longrightarrow> zdeflate zl z inp room fl = (z', k, out, ret) \<longrightarrow>
        k \<le> length inp \<and> length out \<le> room \<and> (ret = Z_OK \<or> ret = Z_STREAM_END) \<and>
        (ret = Z_STREAM_END \<longrightarrow> fl = Z_FINISH \<and> k = length inp) \<and>
        (length out < room \<longrightarrow> k = length inp \<and> (fl = Z_FINISH \<longrightarrow> ret = Z_STREAM_END)))"

text \<open>
  A finite input does not fill the output space for ever. The manual warns that a flush may be repeated
  when there are six bytes of space or less, so nothing is assumed then.
\<close>

definition deflate_finite :: "('z, 'i) zlib \<Rightarrow> bool" where
  "deflate_finite zl \<longleftrightarrow>
     (\<exists>mu :: 'z \<Rightarrow> string \<Rightarrow> flush \<Rightarrow> nat.
        \<forall>z ins outs full ph inp room fl z' k out ret.
          deflate_run zl z ins outs full ph \<longrightarrow> 6 < room \<longrightarrow> call_allowed ph inp fl \<longrightarrow> zdeflate zl z inp room fl = (z', k, out, ret) \<longrightarrow>
          length out = room \<longrightarrow> mu z' (drop k inp) fl < mu z inp fl)"

text \<open>
  \<open>inflate_ok zl enc D\<close>: decoding \<open>enc\<close>, in pieces of any size, makes progress with every call and
  gives \<open>D\<close>; after the end a finishing call reports the end again.
\<close>

definition inflate_ok :: "('z, 'i) zlib \<Rightarrow> string \<Rightarrow> string \<Rightarrow> bool" where
  "inflate_ok zl enc D \<longleftrightarrow>
     (\<forall>z c p inp later room z' k out ret.
        inflate_run zl z c p False \<longrightarrow> c @ inp @ later = enc \<longrightarrow> 0 < room \<longrightarrow> inp \<noteq> [] \<or> later = [] \<longrightarrow>
        zinflate zl z inp room Z_SYNC_FLUSH = (z', k, out, ret) \<longrightarrow>
        k \<le> length inp \<and> length out \<le> room \<and> (\<exists>rest. D = p @ out @ rest \<and> (ret = Z_STREAM_END \<longrightarrow> rest = [])) \<and>
        (ret = Z_STREAM_END \<or> ret = Z_OK \<and> 0 < k + length out)) \<and>
     (\<forall>z c p room inp. inflate_run zl z c p True \<longrightarrow> 0 < room \<longrightarrow>
        (\<exists>z'. zinflate zl z inp room Z_FINISH = (z', 0, [], Z_STREAM_END)))"

definition zlib_ok :: "('z, 'i) zlib \<Rightarrow> bool" where
  "zlib_ok zl \<longleftrightarrow> deflate_call_ok zl \<and> deflate_finite zl \<and>
     (\<forall>z ins outs full. deflate_run zl z ins outs full Finished \<longrightarrow> inflate_ok zl outs ins)"

lemma deflate_callD:
  assumes "zlib_ok zl" "deflate_run zl z ins outs full ph" "0 < room" "call_allowed ph inp fl"
    "inp \<noteq> [] \<or> full \<or> fl = Z_FINISH" "zdeflate zl z inp room fl = (z', k, out, ret)"
  shows "k \<le> length inp" "length out \<le> room" "ret = Z_OK \<or> ret = Z_STREAM_END"
    "ret = Z_STREAM_END \<Longrightarrow> fl = Z_FINISH \<and> k = length inp"
    "length out < room \<Longrightarrow> k = length inp" "length out < room \<Longrightarrow> fl = Z_FINISH \<Longrightarrow> ret = Z_STREAM_END"
  using assms unfolding zlib_ok_def deflate_call_ok_def by blast+

lemma inflate_callD:
  assumes "inflate_ok zl enc D" "inflate_run zl z c p False" "c @ inp @ later = enc" "0 < room" "inp \<noteq> [] \<or> later = []"
    "zinflate zl z inp room Z_SYNC_FLUSH = (z', k, out, ret)"
  shows "k \<le> length inp" "length out \<le> room" "\<exists>rest. D = p @ out @ rest \<and> (ret = Z_STREAM_END \<longrightarrow> rest = [])"
    "ret = Z_STREAM_END \<or> ret = Z_OK \<and> 0 < k + length out"
  using assms unfolding inflate_ok_def by blast+

lemma inflate_finishD:
  "inflate_ok zl enc D \<Longrightarrow> inflate_run zl z c p True \<Longrightarrow> 0 < room \<Longrightarrow>
   \<exists>z'. zinflate zl z inp room Z_FINISH = (z', 0, [], Z_STREAM_END)"
  unfolding inflate_ok_def by blast

lemma zlib_inflate: "zlib_ok zl \<Longrightarrow> deflate_run zl z ins outs full Finished \<Longrightarrow> inflate_ok zl outs ins"
  unfolding zlib_ok_def by blast

section \<open>A stored format\<close>

text \<open>Each byte is preceded by 1 and the end is marked by 0; output that does not fit is kept.\<close>

definition stored_enc :: "string \<Rightarrow> string" where
  "stored_enc s = concat (map (\<lambda>c. [CHR 0x01, c]) s)"

definition stored_deflate :: "string \<times> bool \<Rightarrow> string \<Rightarrow> nat \<Rightarrow> flush \<Rightarrow> (string \<times> bool) \<times> nat \<times> string \<times> zret" where
  "stored_deflate z inp room fl =
     (case z of (pend, fin) \<Rightarrow>
        let q = pend @ stored_enc inp @ (if fl = Z_FINISH \<and> \<not> fin then [NUL] else [])
        in ((drop room q, fin \<or> fl = Z_FINISH), length inp, take room q,
            if fl = Z_FINISH \<and> length q \<le> room then Z_STREAM_END else Z_OK))"

text \<open>The decoder takes one byte of input at a time: a mark (0), a byte (1), nothing (2).\<close>

definition stored_inflate :: "nat \<Rightarrow> string \<Rightarrow> nat \<Rightarrow> flush \<Rightarrow> nat \<times> nat \<times> string \<times> zret" where
  "stored_inflate st inp room fl =
     (if st = 2 then (2, 0, [], Z_STREAM_END)
      else case inp of
          [] \<Rightarrow> (st, 0, [], Z_ERROR (-5))
        | c # _ \<Rightarrow> if st = 1 then (0, 1, [c], Z_OK)
                   else if c = NUL then (2, 1, [], Z_STREAM_END)
                   else (1, 1, [], Z_OK))"

definition stored_zlib :: "(string \<times> bool, nat) zlib" where
  "stored_zlib = \<lparr>deflateInit = (\<lambda>_. ([], False)), zdeflate = stored_deflate, inflateInit = 0,
     zinflate = stored_inflate, adler32 = (\<lambda>a _. a)\<rparr>"

lemma stored_enc_append [simp]: "stored_enc (a @ b) = stored_enc a @ stored_enc b"
  by (simp add: stored_enc_def)

lemma stored_enc_simps [simp]: "stored_enc [] = []" "stored_enc (c # s) = CHR 0x01 # c # stored_enc s"
  by (simp_all add: stored_enc_def)

lemma stored_run:
  "deflate_run stored_zlib z ins outs full ph \<Longrightarrow>
   outs @ fst z = stored_enc ins @ (if snd z then [NUL] else []) \<and>
   (case ph of Open \<Rightarrow> \<not> snd z | Finishing r \<Rightarrow> snd z \<and> r = [] | Finished \<Rightarrow> snd z \<and> fst z = [])"
proof (induction rule: deflate_run.induct)
  case (deflate_start lev)
  then show ?case by (simp add: stored_zlib_def)
next
  case (deflate_step z ins outs full ph inp fl room z' k out ret)
  obtain pend fin where z: "z = (pend, fin)" by (cases z)
  define q where "q = pend @ stored_enc inp @ (if fl = Z_FINISH \<and> \<not> fin then [NUL] else [])"
  have r: "z' = (drop room q, fin \<or> fl = Z_FINISH)" "k = length inp" "out = take room q"
      "ret = (if fl = Z_FINISH \<and> length q \<le> room then Z_STREAM_END else Z_OK)"
    using deflate_step.hyps(3) z by (simp_all add: stored_zlib_def stored_deflate_def q_def Let_def)
  have fin: "fin \<Longrightarrow> inp = [] \<and> fl = Z_FINISH"
    using deflate_step.IH deflate_step.hyps(2) z by (cases ph) (auto simp: call_allowed_def)
  have "outs @ q = stored_enc (ins @ inp) @ (if fin \<or> fl = Z_FINISH then [NUL] else [])"
    using deflate_step.IH z fin by (cases fin) (auto simp: q_def)
  moreover have "outs @ out @ drop room q = outs @ q" by (simp add: r(3))
  ultimately show ?case using r fin by (auto simp: next_phase_def)
qed

lemma stored_deflate_call: "deflate_call_ok stored_zlib"
  by (auto simp: deflate_call_ok_def stored_zlib_def stored_deflate_def Let_def split: if_splits)

lemma stored_deflate_finite: "deflate_finite stored_zlib"
  unfolding deflate_finite_def
proof (intro exI [of _ "\<lambda>z inp fl. length (fst z) + length (stored_enc inp) + (if snd z then 0 else 1)"] allI impI)
  fix z :: "string \<times> bool" and inp room fl z' k out ret
  assume room: "6 < room" and c: "zdeflate stored_zlib z inp room fl = (z', k, out, ret)" and full: "length out = room"
  obtain pend fin where z: "z = (pend, fin)" by (cases z)
  define q where "q = pend @ stored_enc inp @ (if fl = Z_FINISH \<and> \<not> fin then [NUL] else [])"
  have "z' = (drop room q, fin \<or> fl = Z_FINISH)" "k = length inp" "out = take room q"
    using c z by (simp_all add: stored_zlib_def stored_deflate_def q_def Let_def)
  moreover have "room \<le> length q" using full \<open>out = take room q\<close> by auto
  ultimately show "length (fst z') + length (stored_enc (drop k inp)) + (if snd z' then 0 else 1)
      < length (fst z) + length (stored_enc inp) + (if snd z then 0 else 1)"
    using room z by (auto simp: q_def)
qed

lemma stored_enc_Cons_iff: "CHR 0x01 # w = stored_enc s @ [NUL] \<longleftrightarrow> (\<exists>x t. s = x # t \<and> w = x # stored_enc t @ [NUL])"
  by (cases s) auto

lemma stored_inflate_run:
  "inflate_run stored_zlib z c p fin \<Longrightarrow> c @ w = stored_enc D @ [NUL] \<Longrightarrow>
   \<exists>rest. D = p @ rest \<and>
     (if fin then z = 2 \<and> rest = [] \<and> w = []
      else if z = 1 then (\<exists>x t. rest = x # t \<and> w = x # stored_enc t @ [NUL])
      else z = 0 \<and> w = stored_enc rest @ [NUL])"
proof (induction arbitrary: w rule: inflate_run.induct)
  case inflate_start
  then show ?case by (simp add: stored_zlib_def)
next
  case (inflate_step z c p inp room fl z' k out ret)
  have call: "stored_inflate z inp room fl = (z', k, out, ret)" using inflate_step.hyps(2) by (simp add: stored_zlib_def)
  obtain rest where IH: "D = p @ rest"
      "if z = 1 then (\<exists>x t. rest = x # t \<and> take k inp @ w = x # stored_enc t @ [NUL])
       else z = 0 \<and> take k inp @ w = stored_enc rest @ [NUL]"
    using inflate_step.IH [of "take k inp @ w"] inflate_step.prems by auto
  show ?case
  proof (cases inp)
    case Nil
    with call inflate_step.hyps(3) IH show ?thesis by (auto simp: stored_inflate_def split: if_splits)
  next
    case (Cons x xs)
    with call IH show ?thesis
      by (cases rest) (auto simp: stored_inflate_def split: if_splits)
  qed
qed

lemma stored_finished: "inflate_run stored_zlib z c p fin \<Longrightarrow> fin \<Longrightarrow> z = 2"
  by (cases rule: inflate_run.cases, assumption)
     (auto simp: stored_zlib_def stored_inflate_def split: if_splits list.splits)

lemma stored_inflate_ok: "inflate_ok stored_zlib (stored_enc D @ [NUL]) D"
  unfolding inflate_ok_def
proof (intro conjI allI impI)
  fix z c p inp later room z' k out ret
  assume run: "inflate_run stored_zlib z c p False" and enc: "c @ inp @ later = stored_enc D @ [NUL]"
    and "0 < room" and more: "inp \<noteq> [] \<or> later = []"
    and call: "zinflate stored_zlib z inp room Z_SYNC_FLUSH = (z', k, out, ret)"
  obtain rest where rest: "D = p @ rest" "if z = 1 then (\<exists>x t. rest = x # t \<and> inp @ later = x # stored_enc t @ [NUL])
      else z = 0 \<and> inp @ later = stored_enc rest @ [NUL]"
    using stored_inflate_run [OF run enc] by auto
  then obtain x xs where x: "inp = x # xs" using more by (cases inp) (auto split: if_splits)
  have *: "stored_inflate z inp room Z_SYNC_FLUSH = (z', k, out, ret)" using call by (simp add: stored_zlib_def)
  show "k \<le> length inp" "length out \<le> room" "ret = Z_STREAM_END \<or> ret = Z_OK \<and> 0 < k + length out"
    using * x rest(2) \<open>0 < room\<close> by (auto simp: stored_inflate_def split: if_splits)
  show "\<exists>rest. D = p @ out @ rest \<and> (ret = Z_STREAM_END \<longrightarrow> rest = [])"
    using * x rest by (cases rest) (auto simp: stored_inflate_def split: if_splits)
next
  fix z c p and room :: nat and inp
  assume "inflate_run stored_zlib z c p True"
  then have "z = 2" using stored_finished by blast
  then show "\<exists>z'. zinflate stored_zlib z inp room Z_FINISH = (z', 0, [], Z_STREAM_END)"
    by (simp add: stored_zlib_def stored_inflate_def)
qed

lemma stored_zlib_ok: "zlib_ok stored_zlib"
  unfolding zlib_ok_def
proof (intro conjI allI impI)
  fix z ins outs full
  assume "deflate_run stored_zlib z ins outs full Finished"
  from stored_run [OF this] have "outs = stored_enc ins @ [NUL]" by auto
  then show "inflate_ok stored_zlib outs ins" using stored_inflate_ok by simp
qed (rule stored_deflate_call stored_deflate_finite)+

end
