(* ===== verification/Compress.thy ===== *)
theory Compress
  imports Zlib
begin

text \<open>
  \<^verbatim>\<open>client/revimage/compress.c\<close>, \<^verbatim>\<open>compress.h\<close> and \<^verbatim>\<open>compress-loop.h\<close>: saving the used sectors of a
  volume as a sequence of compressed files. Each file starts with a header of 2048 bytes and its
  part of the bitmap (22016 bytes, one bit per sector); the used sectors follow. The theory models
  the buffering in front of zlib, the walk over the bitmap and the files that result.
\<close>

section \<open>Constants and the compressor\<close>

definition OUTBUFF :: nat where "OUTBUFF = 8192"
definition HEADERLG :: nat where "HEADERLG = 2048"
definition TOTALLG :: nat where "TOTALLG = 24064"
definition ALLOCLG :: nat where "ALLOCLG = TOTALLG - HEADERLG"
definition BLOCKFLUSH :: nat where "BLOCKFLUSH = 10"

record 'z compress =
  zptr :: 'z
  outbuff :: string
  c_end :: bool
  c_state :: flush
  c_header :: bool
  crc :: u32
  compressed_blocks :: nat
  c_block :: nat
  c_offset :: u32
  cbytes :: u64

text \<open>The level comes from \<^verbatim>\<open>/etc/complevel\<close> when it can be opened; it stays 3 if no number is there.\<close>

definition complevel :: "string option \<Rightarrow> int" where
  "complevel f = (case f of None \<Rightarrow> 3 | Some s \<Rightarrow> (case scan_int s of None \<Rightarrow> 3 | Some (i, _) \<Rightarrow> i))"

text \<open>The number in the file is not checked, and the result of \<open>deflateInit\<close> is not looked at.\<close>

definition level_ok :: "string option \<Rightarrow> bool" where
  "level_ok f \<longleftrightarrow> valid_level (complevel f)"

definition compress_init :: "('z, 'i) zlib \<Rightarrow> string option \<Rightarrow> nat \<Rightarrow> u64 \<Rightarrow> 'z compress" where
  "compress_init zl lev block bytes =
     \<lparr>zptr = deflateInit zl (complevel lev), outbuff = [], c_end = False, c_state = Z_NO_FLUSH, c_header = True,
      crc = adler32 zl 0 [], compressed_blocks = BLOCKFLUSH, c_block = block, c_offset = 0, cbytes = bytes\<rparr>"

text \<open>
  The files are written with \<open>stdio\<close> to a disk that has room for a number of bytes (\<open>None\<close>: enough for
  anything). After \<open>n\<close> bytes of a file the last \<open>hold n\<close> of them are still in the buffer of the stream. When
  \<open>fwrite\<close> fails the program reports it and exits (\<open>compress_write_error\<close>). The result of \<open>fclose\<close>, which writes
  the rest, is not looked at: what does not fit is lost.
\<close>

type_synonym space = "nat \<times> (nat \<Rightarrow> nat)"

definition compress_write_error :: "'a res" where
  "compress_write_error = Inl (Exit 1)"

definition fwrite :: "space option \<Rightarrow> string \<Rightarrow> string \<Rightarrow> string res" where
  "fwrite cap out bs =
     (let n = length out + length bs
      in if bs = [] \<or> (case cap of None \<Rightarrow> True | Some (room, hold) \<Rightarrow> n - hold n \<le> room) then Inr (out @ bs)
         else compress_write_error)"

definition fclose :: "space option \<Rightarrow> string \<Rightarrow> string" where
  "fclose cap out = (case cap of None \<Rightarrow> out | Some (room, hold) \<Rightarrow> take room out)"

definition space_left :: "space option \<Rightarrow> string \<Rightarrow> space option" where
  "space_left cap f = map_option (\<lambda>(room, hold). (room - length f, hold)) cap"

lemma fclose_None [simp]: "fclose None out = out"
  by (simp add: fclose_def)

lemma space_left_None [simp]: "space_left None f = None"
  by (simp add: space_left_def)

definition flush_outbuff :: "('z, 'i) zlib \<Rightarrow> space option \<Rightarrow> 'z compress \<Rightarrow> string \<Rightarrow> ('z compress \<times> string) res" where
  "flush_outbuff zl cap c out =
     bind_res (fwrite cap out (outbuff c)) (\<lambda>out.
       Inr (c\<lparr>crc := adler32 zl (crc c) (outbuff c), outbuff := []\<rparr>, out))"

text \<open>
  The loop around \<open>deflate\<close>: it is repeated while the output buffer comes back full, and until
  all input is taken or, at the end, the stream is finished.
\<close>

partial_function (option) deflate_loop ::
    "('z, 'i) zlib \<Rightarrow> space option \<Rightarrow> bool \<Rightarrow> string \<Rightarrow> 'z compress \<Rightarrow> string \<Rightarrow> ('z compress \<times> string) run" where
  "deflate_loop zl cap fin inp c out =
     (case zdeflate zl (zptr c) inp (OUTBUFF - length (outbuff c)) (if fin then Z_FINISH else c_state c) of
        (z, k, bs, ret) \<Rightarrow>
          (let c = c\<lparr>zptr := z, outbuff := outbuff c @ bs\<rparr>; inp = drop k inp
           in if length (outbuff c) = OUTBUFF
              then (case flush_outbuff zl cap c out of
                      Inl e \<Rightarrow> Some (Inl e)
                    | Inr (c, out) \<Rightarrow>
                        deflate_loop zl cap fin inp (c\<lparr>c_offset := c_offset c + of_nat OUTBUFF\<rparr>) out)
              else
                (let c = (if c_state c \<noteq> Z_NO_FLUSH \<and> inp = [] then c\<lparr>c_state := Z_NO_FLUSH\<rparr> else c)
                 in if ret = Z_STREAM_END then Some (flush_outbuff zl cap c out)
                    else if ret \<noteq> Z_OK then Some (Inl (Exit 1))
                    else if inp \<noteq> [] \<or> fin then deflate_loop zl cap fin inp c out
                    else Some (Inr (c, out)))))"

definition compress_data ::
    "('z, 'i) zlib \<Rightarrow> space option \<Rightarrow> string \<Rightarrow> bool \<Rightarrow> 'z compress \<Rightarrow> string \<Rightarrow> u64 \<Rightarrow> ('z compress \<times> string \<times> u64) run" where
  "compress_data zl cap data fin c out dn =
     (let c = c\<lparr>compressed_blocks := compressed_blocks c + 1\<rparr>;
          c = (if BLOCKFLUSH \<le> compressed_blocks c then c\<lparr>compressed_blocks := 0, c_state := Z_FULL_FLUSH\<rparr> else c);
          c = (if fin then c\<lparr>c_end := True\<rparr> else c);
          dn = (if c_header c then dn else dn + of_nat (length data));
          c = (if c_header c then c else c\<lparr>cbytes := cbytes c + of_nat (length data)\<rparr>);
          c = c\<lparr>c_header := False\<rparr>
      in bind_run (deflate_loop zl cap fin data c out) (\<lambda>(c, out). ret_run (c, out, dn)))"

definition compress_end ::
    "('z, 'i) zlib \<Rightarrow> space option \<Rightarrow> 'z compress \<Rightarrow> string \<Rightarrow> u64 \<Rightarrow> (u64 \<times> string \<times> u64) run" where
  "compress_end zl cap c out dn =
     bind_run (if outbuff c \<noteq> [] \<or> \<not> c_end c then compress_data zl cap [] True c out dn else ret_run (c, out, dn))
       (\<lambda>(c, out, dn). ret_run (cbytes c, out, dn))"

section \<open>The header of a file\<close>

text \<open>
  The options of file number \<open>i\<close>: the first line that contains \<open>L\<close>, the number and a colon, without
  its first five characters and with its last character replaced by a bar.
\<close>

definition numline :: "nat \<Rightarrow> string" where
  "numline i = ''L'' @ pad0 3 (show_nat i) @ '':''"

fun options_loop :: "string \<Rightarrow> string list \<Rightarrow> string res" where
  "options_loop num [] = Inr []"
| "options_loop num (l # ls) =
     (let s = cstr l
      in if s = [] then Inl OutOfBounds
         else let lin = butlast s @ ''|''
              in if strstr lin num \<noteq> None then Inr (drop 5 lin) else options_loop num ls)"

definition filestring :: "string option \<Rightarrow> nat \<Rightarrow> string res" where
  "filestring opts i = (case opts of None \<Rightarrow> Inr [] | Some f \<Rightarrow> options_loop (numline i) (fgets_all 400 f))"

definition firststring :: "u64 \<Rightarrow> nat \<Rightarrow> string \<Rightarrow> string res" where
  "firststring nb_sect nb info =
     strcpy 200 (''SECTORS='' @ show_nat (unat nb_sect) @ ''|BLOCKS='' @ show_nat nb @ ''|'' @ info)"

definition header_text :: "string \<Rightarrow> string \<Rightarrow> nat \<Rightarrow> string" where
  "header_text first fs lg = first @ fs @ ''ALLOCTABLELG='' @ show_nat lg @ [NL]"

text \<open>The header block: the text and the bitmap, both padded with zeros.\<close>

definition image_header :: "string \<Rightarrow> string \<Rightarrow> string" where
  "image_header txt bm = txt @ replicate (HEADERLG - length txt) NUL @ bm @ replicate (ALLOCLG - length bm) NUL"

section \<open>Walking over the bitmap\<close>

definition byte_bits :: "char \<Rightarrow> bool list" where
  "byte_bits b = map (\<lambda>k. (of_char b :: nat) AND k \<noteq> 0) [1, 2, 4, 8, 16, 32, 64, 128]"

definition bits_of :: "string \<Rightarrow> bool list" where
  "bits_of bm = concat (map byte_bits bm)"

text \<open>
  The state of the walk: the position in the volume, the bytes to skip, the data buffer with its
  fill, the output file, the number of bytes done, the progress messages and the read errors
  reported (which do not stop the program).
\<close>

record 'z walk =
  w_pos :: nat
  w_skip :: nat
  w_buf :: string
  w_lg :: nat
  w_used :: nat
  w_c :: "'z compress"
  w_out :: string
  w_done :: u64
  w_ui :: "string list"
  w_errors :: nat

definition read_sector :: "string \<Rightarrow> 'z walk \<Rightarrow> 'z walk" where
  "read_sector disk w =
     (let bs = take 512 (drop (w_pos w) disk)
      in w\<lparr>w_buf := take (w_lg w) (w_buf w) @ bs @ drop (w_lg w + length bs) (w_buf w),
           w_pos := w_pos w + length bs, w_skip := 0, w_lg := w_lg w + 512, w_used := w_used w + 1,
           w_errors := w_errors w + (if length bs \<noteq> 512 then 1 else 0)\<rparr>)"

definition skip_sectors :: "'z walk \<Rightarrow> 'z walk" where
  "skip_sectors w =
     (if w_skip w \<noteq> 0
      then w\<lparr>w_pos := w_pos w + w_skip w, w_c := (w_c w)\<lparr>cbytes := cbytes (w_c w) + of_nat (w_skip w)\<rparr>\<rparr>
      else w)"

definition save_bit :: "('z, 'i) zlib \<Rightarrow> space option \<Rightarrow> string \<Rightarrow> bool \<Rightarrow> 'z walk \<Rightarrow> 'z walk run" where
  "save_bit zl cap disk b w =
     (if \<not> b then ret_run (w\<lparr>w_skip := w_skip w + 512\<rparr>)
      else let w = read_sector disk (skip_sectors w)
           in if w_lg w = TOTALLG
              then bind_run (compress_data zl cap (w_buf w) False (w_c w) (w_out w) (w_done w))
                     (\<lambda>(c, out, dn). ret_run (w\<lparr>w_c := c, w_out := out, w_done := dn, w_lg := 0\<rparr>))
              else ret_run w)"

fun save_bits :: "('z, 'i) zlib \<Rightarrow> space option \<Rightarrow> string \<Rightarrow> bool list \<Rightarrow> 'z walk \<Rightarrow> 'z walk run" where
  "save_bits zl cap disk [] w = ret_run w"
| "save_bits zl cap disk (b # bs) w = bind_run (save_bit zl cap disk b w) (save_bits zl cap disk bs)"

definition progress :: "nat \<Rightarrow> 'z walk \<Rightarrow> 'z walk" where
  "progress j w = (if j mod 200 = 0 then w\<lparr>w_ui := w_ui w @ [show_nat (unat (w_done w))]\<rparr> else w)"

fun save_bytes :: "('z, 'i) zlib \<Rightarrow> space option \<Rightarrow> string \<Rightarrow> nat \<Rightarrow> string \<Rightarrow> 'z walk \<Rightarrow> 'z walk run" where
  "save_bytes zl cap disk j [] w = ret_run w"
| "save_bytes zl cap disk j (b # bm) w =
     bind_run (save_bits zl cap disk (byte_bits b) (progress j w)) (save_bytes zl cap disk (j + 1) bm)"

section \<open>Files and volumes\<close>

text \<open>What goes from one file to the next.\<close>

record save_state =
  s_pos :: nat
  s_bytes :: u64
  s_done :: u64
  s_buf :: string
  s_ui :: "string list"
  s_errors :: nat

definition finish_file :: "('z, 'i) zlib \<Rightarrow> space option \<Rightarrow> 'z walk \<Rightarrow> (string \<times> save_state) run" where
  "finish_file zl cap w =
     bind_run (if 0 < w_lg w then compress_data zl cap (take (w_lg w) (w_buf w)) True (w_c w) (w_out w) (w_done w)
               else ret_run (w_c w, w_out w, w_done w)) (\<lambda>(c, out, dn).
     let w = skip_sectors (w\<lparr>w_c := c\<rparr>)
     in bind_run (compress_end zl cap (w_c w) out dn) (\<lambda>(bytes, out, dn).
        ret_run (out, \<lparr>s_pos = w_pos w, s_bytes = bytes, s_done = dn, s_buf = w_buf w, s_ui = w_ui w, s_errors = w_errors w\<rparr>)))"

definition save_file ::
    "('z, 'i) zlib \<Rightarrow> string option \<Rightarrow> string option \<Rightarrow> space option \<Rightarrow> string \<Rightarrow> nat \<Rightarrow> string \<Rightarrow> string \<Rightarrow> save_state \<Rightarrow> (string \<times> save_state) run" where
  "save_file zl lev opts cap disk i first bm s =
     bind_run (Some (filestring opts i)) (\<lambda>fs.
     bind_run (compress_data zl cap (image_header (header_text first fs (length bm)) bm) False
                 (compress_init zl lev i (s_bytes s)) [] (s_done s)) (\<lambda>(c, out, dn).
     bind_run (save_bytes zl cap disk 0 bm
                 \<lparr>w_pos = s_pos s, w_skip = 0, w_buf = s_buf s, w_lg = 0, w_used = 0, w_c = c, w_out = out, w_done = dn,
                  w_ui = s_ui s, w_errors = s_errors s\<rparr>) (finish_file zl cap)))"

fun save_files ::
    "('z, 'i) zlib \<Rightarrow> string option \<Rightarrow> string option \<Rightarrow> space option \<Rightarrow> string \<Rightarrow> nat \<Rightarrow> nat \<Rightarrow> string \<Rightarrow> string \<Rightarrow> save_state \<Rightarrow> (string list \<times> save_state) run" where
  "save_files zl lev opts cap disk i 0 first bm s = ret_run ([], s)"
| "save_files zl lev opts cap disk i (Suc n) first bm s =
     bind_run (save_file zl lev opts cap disk i first (take ALLOCLG bm) s) (\<lambda>(f, s).
     bind_run (save_files zl lev opts (space_left cap f) disk (i + 1) n [] (drop ALLOCLG bm) s) (\<lambda>(fs, s). ret_run (fclose cap f # fs, s)))"

text \<open>
  \<open>compress_volume\<close>: the files of the volume \<open>disk\<close> with the bitmap \<open>bm\<close>. The number of files is
  that of started pieces of \<open>ALLOCLG\<close> bytes. The buffer starts with whatever the stack holds.
\<close>

definition block_count :: "string \<Rightarrow> nat" where
  "block_count bm = (length bm + ALLOCLG - 1) div ALLOCLG"

definition compress_volume ::
    "('z, 'i) zlib \<Rightarrow> string option \<Rightarrow> string option \<Rightarrow> space option \<Rightarrow> string \<Rightarrow> string \<Rightarrow> u64 \<Rightarrow> string \<Rightarrow> string \<Rightarrow> (string list \<times> save_state) run" where
  "compress_volume zl lev opts cap junk disk nb_sect bm info =
     bind_run (Some (firststring nb_sect (block_count bm) info)) (\<lambda>first.
       save_files zl lev opts cap disk 0 (block_count bm) first bm
         \<lparr>s_pos = 0, s_bytes = 0, s_done = 0, s_buf = junk, s_ui = [], s_errors = 0\<rparr>)"

section \<open>Runs on a full disk\<close>

text \<open>
  Pieces of \<open>OUTBUFF\<close> bytes are written, and a last shorter one. \<open>noticed cap a b\<close>: while the file grows from
  \<open>a\<close> to \<open>b\<close> bytes, one of the calls of \<open>fwrite\<close> fails.
\<close>

definition fits :: "space \<Rightarrow> nat \<Rightarrow> bool" where
  "fits cap n \<longleftrightarrow> n - snd cap n \<le> fst cap"

definition noticed :: "space \<Rightarrow> nat \<Rightarrow> nat \<Rightarrow> bool" where
  "noticed cap a b \<longleftrightarrow> (\<exists>n \<in> {a<..b}. (OUTBUFF dvd n \<or> n = b) \<and> \<not> fits cap n)"

lemma noticed_same [simp]: "\<not> noticed cap a a"
  by (simp add: noticed_def)

lemma next_multiple:
  fixes a :: nat
  assumes "OUTBUFF dvd a" "OUTBUFF dvd n" "a < n" "n \<le> b" "b \<le> a + OUTBUFF"
  shows "n = b"
proof -
  obtain k l where "a = OUTBUFF * k" "n = OUTBUFF * l" using assms(1,2) by (auto simp: dvd_def)
  moreover from this have "k < l" "l \<le> k + 1" using assms(3-5) by (auto simp: OUTBUFF_def)
  then have "l = k + 1" by simp
  ultimately show ?thesis using assms(4,5) by (simp add: OUTBUFF_def)
qed

lemma noticedI: "a < n \<Longrightarrow> n \<le> b \<Longrightarrow> OUTBUFF dvd n \<or> n = b \<Longrightarrow> \<not> fits cap n \<Longrightarrow> noticed cap a b"
  unfolding noticed_def by (rule bexI [of _ n]) simp_all

lemma noticedE:
  assumes "noticed cap a b"
  obtains n where "a < n" "n \<le> b" "OUTBUFF dvd n \<or> n = b" "\<not> fits cap n"
  using assms by (auto simp: noticed_def)

lemma noticed_one:
  assumes "OUTBUFF dvd a" "b \<le> a + OUTBUFF"
  shows "noticed cap a b \<longleftrightarrow> a < b \<and> \<not> fits cap b"
proof
  assume "noticed cap a b"
  then obtain n where "a < n" "n \<le> b" "OUTBUFF dvd n \<or> n = b" "\<not> fits cap n" by (rule noticedE)
  moreover from this have "n = b" using next_multiple [OF assms(1) _ _ _ assms(2)] by blast
  ultimately show "a < b \<and> \<not> fits cap b" by simp
qed (simp add: noticedI [of a b])

lemma noticed_trans:
  assumes "a \<le> b" "b \<le> c" "OUTBUFF dvd b"
  shows "noticed cap a c \<longleftrightarrow> noticed cap a b \<or> noticed cap b c"
proof
  assume "noticed cap a c"
  then obtain n where n: "a < n" "n \<le> c" "OUTBUFF dvd n \<or> n = c" "\<not> fits cap n" by (rule noticedE)
  show "noticed cap a b \<or> noticed cap b c"
  proof (cases "n \<le> b")
    case True
    then have "OUTBUFF dvd n" using n(2,3) assms(2,3) by (metis le_antisym)
    then show ?thesis using n(1,4) True noticedI [of a n b] by blast
  next
    case False
    then show ?thesis using n noticedI [of b n c] by simp
  qed
next
  assume "noticed cap a b \<or> noticed cap b c"
  then show "noticed cap a c"
  proof
    assume "noticed cap a b"
    then obtain n where "a < n" "n \<le> b" "OUTBUFF dvd n \<or> n = b" "\<not> fits cap n" by (rule noticedE)
    then show ?thesis using assms noticedI [of a n c] by (metis le_trans)
  next
    assume "noticed cap b c"
    then obtain n where "b < n" "n \<le> c" "OUTBUFF dvd n \<or> n = c" "\<not> fits cap n" by (rule noticedE)
    then show ?thesis using assms(1) noticedI [of a n c] by (metis le_less_trans)
  qed
qed

lemma ret_run_eq [simp]: "ret_run x = ret_run y \<longleftrightarrow> x = y"
  by (simp add: ret_run_def)

text \<open>
  \<open>run_sat out g m P\<close>: with enough room the computation ends with a result that satisfies \<open>P\<close>, and the file
  has grown from \<open>out\<close> to \<open>g x\<close>; with less room it has the same result unless a write fails.
\<close>

definition run_sat :: "string \<Rightarrow> ('a \<Rightarrow> string) \<Rightarrow> (space option \<Rightarrow> 'a run) \<Rightarrow> ('a \<Rightarrow> bool) \<Rightarrow> bool" where
  "run_sat out g m P \<longleftrightarrow>
     (\<exists>x. m None = Some (Inr x) \<and> P x \<and> length out \<le> length (g x) \<and>
        (\<forall>cap. m (Some cap) = Some (if noticed cap (length out) (length (g x)) then Inl (Exit 1) else Inr x)))"

lemma run_sat_ret: "P x \<Longrightarrow> g x = out \<Longrightarrow> run_sat out g (\<lambda>_. ret_run x) P"
  by (auto simp: run_sat_def ret_run_def)

lemma run_sat_bind:
  assumes "run_sat out g m P"
    and "\<And>x. P x \<Longrightarrow> OUTBUFF dvd length (g x) \<and> run_sat (g x) h (\<lambda>cap. f cap x) Q \<or>
      (\<exists>y. (\<forall>cap. f cap x = ret_run y) \<and> Q y \<and> h y = g x)"
  shows "run_sat out h (\<lambda>cap. bind_run (m cap) (f cap)) Q"
proof -
  obtain x where x: "m None = Some (Inr x)" "P x" "length out \<le> length (g x)"
      "\<And>cap. m (Some cap) = Some (if noticed cap (length out) (length (g x)) then Inl (Exit 1) else Inr x)"
    using assms(1) by (auto simp: run_sat_def)
  from assms(2) [OF x(2)] show ?thesis
  proof
    assume r: "OUTBUFF dvd length (g x) \<and> run_sat (g x) h (\<lambda>cap. f cap x) Q"
    then obtain y where y: "f None x = Some (Inr y)" "Q y" "length (g x) \<le> length (h y)"
        "\<And>cap. f (Some cap) x = Some (if noticed cap (length (g x)) (length (h y)) then Inl (Exit 1) else Inr y)"
      by (auto simp: run_sat_def)
    show ?thesis
      unfolding run_sat_def using x y r noticed_trans [OF x(3) y(3)] by (intro exI [of _ y]) auto
  next
    assume "\<exists>y. (\<forall>cap. f cap x = ret_run y) \<and> Q y \<and> h y = g x"
    then show ?thesis using x by (auto simp: run_sat_def ret_run_def)
  qed
qed

lemma run_sat_bind_ret:
  assumes "run_sat out g m P" "\<And>x. P x \<Longrightarrow> \<exists>y. (\<forall>cap. f cap x = ret_run y) \<and> Q y \<and> h y = g x"
  shows "run_sat out h (\<lambda>cap. bind_run (m cap) (f cap)) Q"
  by (rule run_sat_bind [OF assms(1)], rule disjI2, rule assms(2))

lemma run_sat_mono: "run_sat out g m P \<Longrightarrow> (\<And>x. P x \<Longrightarrow> Q x) \<Longrightarrow> run_sat out g m Q"
  unfolding run_sat_def by blast

lemma run_sat_None: "run_sat out g m P \<Longrightarrow> \<exists>x. m None = Some (Inr x) \<and> P x"
  unfolding run_sat_def by blast

section \<open>The compressor feeds one stream\<close>

text \<open>Fields that \<open>deflate_loop\<close> leaves alone.\<close>

definition same_counters :: "'z compress \<Rightarrow> 'z compress \<Rightarrow> bool" where
  "same_counters c d \<longleftrightarrow> c_end c = c_end d \<and> c_header c = c_header d \<and> compressed_blocks c = compressed_blocks d \<and>
     c_block c = c_block d \<and> cbytes c = cbytes d"

definition stream_at :: "('z, 'i) zlib \<Rightarrow> 'z compress \<Rightarrow> string \<Rightarrow> string \<Rightarrow> bool \<Rightarrow> phase \<Rightarrow> bool" where
  "stream_at zl c ins out full ph \<longleftrightarrow>
     deflate_run zl (zptr c) ins (out @ outbuff c) full ph \<and> length (outbuff c) < OUTBUFF \<and> c_state c \<noteq> Z_FINISH"

lemma flush_outbuff_sat:
  assumes "P (c\<lparr>crc := adler32 zl (crc c) (outbuff c), outbuff := []\<rparr>, out @ outbuff c)"
    and "OUTBUFF dvd length out" "length (outbuff c) \<le> OUTBUFF"
  shows "run_sat out snd (\<lambda>cap. Some (flush_outbuff zl cap c out)) P"
  using assms noticed_one [OF assms(2)]
  by (auto simp: run_sat_def flush_outbuff_def fwrite_def compress_write_error_def fits_def Let_def)

definition loop_result :: "('z, 'i) zlib \<Rightarrow> bool \<Rightarrow> 'z compress \<Rightarrow> string \<Rightarrow> 'z compress \<times> string \<Rightarrow> bool" where
  "loop_result zl fin c ins r \<longleftrightarrow>
     (case r of (c', out') \<Rightarrow>
        (\<exists>full. stream_at zl c' ins out' full (if fin then Finished else Open)) \<and> same_counters c' c \<and>
        (if fin then outbuff c' = [] else OUTBUFF dvd length out'))"

lemma deflate_loop_sat:
  assumes zl: "zlib_ok zl"
  shows "stream_at zl c ins out full ph \<Longrightarrow> call_allowed ph inp (if fin then Z_FINISH else c_state c) \<Longrightarrow>
     inp \<noteq> [] \<or> full \<or> fin \<Longrightarrow> OUTBUFF dvd length out \<Longrightarrow>
     run_sat out snd (\<lambda>cap. deflate_loop zl cap fin inp c out) (loop_result zl fin c (ins @ inp))"
proof -
  obtain mu :: "'a \<Rightarrow> string \<Rightarrow> flush \<Rightarrow> nat" where mu: "\<And>z ins outs full ph inp room fl z' k bs ret.
      deflate_run zl z ins outs full ph \<Longrightarrow> 6 < room \<Longrightarrow> call_allowed ph inp fl \<Longrightarrow>
      zdeflate zl z inp room fl = (z', k, bs, ret) \<Longrightarrow> length bs = room \<Longrightarrow> mu z' (drop k inp) fl < mu z inp fl"
    using zl unfolding zlib_ok_def deflate_finite_def by blast
  show "stream_at zl c ins out full ph \<Longrightarrow> call_allowed ph inp (if fin then Z_FINISH else c_state c) \<Longrightarrow>
     inp \<noteq> [] \<or> full \<or> fin \<Longrightarrow> OUTBUFF dvd length out \<Longrightarrow>
     run_sat out snd (\<lambda>cap. deflate_loop zl cap fin inp c out) (loop_result zl fin c (ins @ inp))"
  proof (induction "(if outbuff c = [] then 0 else 1 :: nat, mu (zptr c) inp (if fin then Z_FINISH else c_state c))"
      arbitrary: c ins out full ph inp rule: wf_induct_rule [OF wf_lex_prod [OF wf_less_than wf_less_than], case_names less])
    case less
    let ?fl = "if fin then Z_FINISH else c_state c"
    let ?room = "OUTBUFF - length (outbuff c)"
    obtain z k bs ret where call: "zdeflate zl (zptr c) inp ?room ?fl = (z, k, bs, ret)" by (metis prod_cases4)
    have run: "deflate_run zl (zptr c) ins (out @ outbuff c) full ph" and room: "0 < ?room"
      and nf: "c_state c \<noteq> Z_FINISH" using less.prems(1) by (auto simp: stream_at_def)
    have useful: "inp \<noteq> [] \<or> full \<or> ?fl = Z_FINISH" using less.prems(3) by auto
    note D = deflate_callD [OF zl run room less.prems(2) useful call]
    have run': "deflate_run zl z (ins @ take k inp) ((out @ outbuff c) @ bs) (length bs = ?room) (next_phase ?fl ret (drop k inp))"
      using deflate_step [OF run less.prems(2) call] D(3) by blast
    show ?case
    proof (cases "length bs = ?room")
      case True
      define c1 where "c1 = c\<lparr>zptr := z, outbuff := outbuff c @ bs\<rparr>"
      define c2 where "c2 = c1\<lparr>crc := adler32 zl (crc c1) (outbuff c1), outbuff := [], c_offset := c_offset c1 + of_nat OUTBUFF\<rparr>"
      have full: "length (outbuff c @ bs) = OUTBUFF" using True room by simp
      have st: "stream_at zl c2 (ins @ take k inp) (out @ outbuff c1) True (next_phase ?fl ret (drop k inp))"
        using run' True nf by (simp add: stream_at_def c2_def c1_def OUTBUFF_def)
      have cs: "c_state c2 = c_state c" "zptr c2 = z" by (simp_all add: c2_def c1_def)
      have allowed: "call_allowed (next_phase ?fl ret (drop k inp)) (drop k inp) (if fin then Z_FINISH else c_state c2)"
        using D(3,4) nf cs by (auto simp: call_allowed_def next_phase_def)
      have dv: "OUTBUFF dvd length (out @ outbuff c1)" using less.prems(4) full by (simp add: c1_def)
      have "run_sat (out @ outbuff c1) snd (\<lambda>cap. deflate_loop zl cap fin (drop k inp) c2 (out @ outbuff c1))
          (loop_result zl fin c2 ((ins @ take k inp) @ drop k inp))"
      proof (rule less.hyps [OF _ st allowed])
        have "mu z (drop k inp) ?fl < mu (zptr c) inp ?fl" if "outbuff c = []"
          using mu [OF run _ less.prems(2) call True] that by (simp add: OUTBUFF_def)
        then show "((if outbuff c2 = [] then 0 else 1, mu (zptr c2) (drop k inp) (if fin then Z_FINISH else c_state c2)),
            (if outbuff c = [] then 0 else 1, mu (zptr c) inp ?fl)) \<in> less_than <*lex*> less_than"
          using cs by (auto simp: c2_def)
      qed (use dv in simp_all)
      moreover have "same_counters c2 c" by (simp add: same_counters_def c2_def c1_def)
      ultimately have rec: "run_sat (out @ outbuff c1) snd (\<lambda>cap. deflate_loop zl cap fin (drop k inp) c2 (out @ outbuff c1)) (loop_result zl fin c (ins @ inp))"
        by (auto simp: loop_result_def same_counters_def elim!: run_sat_mono)
      have eq: "deflate_loop zl cap fin inp c out =
          bind_run (Some (flush_outbuff zl cap c1 out))
            (\<lambda>(c, out). deflate_loop zl cap fin (drop k inp) (c\<lparr>c_offset := c_offset c + of_nat OUTBUFF\<rparr>) out)" for cap
        by (subst deflate_loop.simps) (simp add: call full [simplified] c1_def Let_def bind_run_def split: sum.split)
      have "run_sat out snd (\<lambda>cap. Some (flush_outbuff zl cap c1 out))
          (\<lambda>r. r = (c1\<lparr>crc := adler32 zl (crc c1) (outbuff c1), outbuff := []\<rparr>, out @ outbuff c1))"
        using less.prems(4) full by (intro flush_outbuff_sat) (auto simp: c1_def)
      then show ?thesis unfolding eq by (rule run_sat_bind) (use rec dv in \<open>auto simp: c2_def\<close>)
    next
      case False
      then have lt: "length bs < ?room" using D(2) by simp
      then have k: "k = length inp" and nfull: "length (outbuff c @ bs) \<noteq> OUTBUFF" "length (outbuff c @ bs) < OUTBUFF"
        using D(5) by auto
      define c1 where "c1 = c\<lparr>zptr := z, outbuff := outbuff c @ bs\<rparr>"
      define c2 where "c2 = (if c_state c1 \<noteq> Z_NO_FLUSH then c1\<lparr>c_state := Z_NO_FLUSH\<rparr> else c1)"
      have c2: "zptr c2 = z" "outbuff c2 = outbuff c @ bs" "c_state c2 \<noteq> Z_FINISH" "same_counters c2 c"
        using nf by (auto simp: c2_def c1_def same_counters_def)
      have eq: "deflate_loop zl cap fin inp c out =
          (if ret = Z_STREAM_END then Some (flush_outbuff zl cap c2 out)
           else if ret \<noteq> Z_OK then Some (Inl (Exit 1))
           else if fin then deflate_loop zl cap fin [] c2 out else Some (Inr (c2, out)))" for cap
        by (subst deflate_loop.simps) (use nfull in \<open>simp add: call k c2_def c1_def Let_def\<close>)
      show ?thesis
      proof (cases fin)
        case True
        then have "ret = Z_STREAM_END" using D(6) lt by simp
        with run' k True c2 have "deflate_run zl (zptr c2) (ins @ inp) (out @ outbuff c2) (length bs = ?room) Finished"
          by (simp add: next_phase_def)
        then show ?thesis unfolding eq using \<open>ret = Z_STREAM_END\<close> True c2 less.prems(4) nfull(2)
          by (auto intro!: flush_outbuff_sat simp: loop_result_def stream_at_def same_counters_def OUTBUFF_def)
      next
        case nofin: False
        then have "ret = Z_OK" using D(3,4) nf by auto
        with run' k nofin c2 nf have "deflate_run zl (zptr c2) (ins @ inp) (out @ outbuff c2) (length bs = ?room) Open"
          by (simp add: next_phase_def)
        then show ?thesis unfolding eq using \<open>ret = Z_OK\<close> nofin c2 nfull(2) less.prems(4)
          by (auto simp: run_sat_def loop_result_def stream_at_def)
      qed
    qed
  qed
qed

text \<open>The stream of an unfinished file, and that of a finished one.\<close>

definition feeding :: "('z, 'i) zlib \<Rightarrow> 'z compress \<Rightarrow> string \<Rightarrow> string \<Rightarrow> bool" where
  "feeding zl c ins out \<longleftrightarrow> (\<exists>full. stream_at zl c ins out full Open) \<and> \<not> c_end c \<and> OUTBUFF dvd length out"

definition finished :: "('z, 'i) zlib \<Rightarrow> 'z compress \<Rightarrow> string \<Rightarrow> string \<Rightarrow> bool" where
  "finished zl c ins out \<longleftrightarrow> (\<exists>full. stream_at zl c ins out full Finished) \<and> outbuff c = [] \<and> c_end c"

lemma feeding_dvd: "feeding zl c ins out \<Longrightarrow> OUTBUFF dvd length out"
  by (simp add: feeding_def)

lemma feeding_init: "level_ok lev \<Longrightarrow> feeding zl (compress_init zl lev i b) [] []"
  by (auto simp: feeding_def stream_at_def compress_init_def OUTBUFF_def level_ok_def intro: deflate_start)

lemma feeding_cbytes [simp]: "feeding zl (c\<lparr>cbytes := x\<rparr>) ins out = feeding zl c ins out"
  by (simp add: feeding_def stream_at_def)

lemma finished_cbytes [simp]: "finished zl (c\<lparr>cbytes := x\<rparr>) ins out = finished zl c ins out"
  by (simp add: finished_def stream_at_def)

lemma compress_data_sat:
  assumes "zlib_ok zl" "feeding zl c ins out" "data \<noteq> [] \<or> fin"
  shows "run_sat out (fst \<circ> snd) (\<lambda>cap. compress_data zl cap data fin c out dn) (\<lambda>(c', out', dn').
     (if fin then finished zl c' (ins @ data) out' else feeding zl c' (ins @ data) out') \<and> \<not> c_header c' \<and>
     cbytes c' = (if c_header c then cbytes c else cbytes c + of_nat (length data)) \<and>
     dn' = (if c_header c then dn else dn + of_nat (length data)))"
proof -
  define c1 where "c1 = c\<lparr>compressed_blocks := compressed_blocks c + 1\<rparr>"
  define c2 where "c2 = (if BLOCKFLUSH \<le> compressed_blocks c1 then c1\<lparr>compressed_blocks := 0, c_state := Z_FULL_FLUSH\<rparr> else c1)"
  define c3 where "c3 = (if fin then c2\<lparr>c_end := True\<rparr> else c2)"
  define c4 where "c4 = (if c_header c3 then c3 else c3\<lparr>cbytes := cbytes c3 + of_nat (length data)\<rparr>)\<lparr>c_header := False\<rparr>"
  obtain full where st: "stream_at zl c ins out full Open" "\<not> c_end c" using assms(2) by (auto simp: feeding_def)
  then have st4: "stream_at zl c4 ins out full Open"
    by (auto simp: stream_at_def c4_def c3_def c2_def c1_def)
  have dv: "OUTBUFF dvd length out" using assms(2) by (simp add: feeding_def)
  have sat: "run_sat out snd (\<lambda>cap. deflate_loop zl cap fin data c4 out) (loop_result zl fin c4 (ins @ data))"
    using assms(3) dv by (intro deflate_loop_sat [OF assms(1) st4]) (auto simp: call_allowed_def)
  have c4: "c_end c4 = fin" "\<not> c_header c4" "c_header c3 = c_header c"
      "cbytes c4 = (if c_header c then cbytes c else cbytes c + of_nat (length data))"
    using st(2) by (simp_all add: c4_def c3_def c2_def c1_def)
  have eq: "compress_data zl cap data fin c out dn = bind_run (deflate_loop zl cap fin data c4 out)
      (\<lambda>(c, out). ret_run (c, out, if c_header c3 then dn else dn + of_nat (length data)))" for cap
    unfolding compress_data_def Let_def c4_def c3_def c2_def c1_def by (rule refl)
  show ?thesis unfolding eq
    by (rule run_sat_bind_ret [OF sat]) (use c4 in \<open>auto simp: loop_result_def same_counters_def feeding_def finished_def\<close>)
qed

section \<open>The walk reads the used sectors\<close>

definition sector_at :: "string \<Rightarrow> nat \<Rightarrow> string" where
  "sector_at disk p = take 512 (drop p disk)"

lemma length_sector: "p + 512 \<le> length d \<Longrightarrow> length (sector_at d p) = 512"
  by (auto simp: sector_at_def)

text \<open>The contents of the used sectors, from position \<open>p\<close> on, and that they are on the volume.\<close>

fun used_data :: "string \<Rightarrow> nat \<Rightarrow> bool list \<Rightarrow> string" where
  "used_data disk p [] = []"
| "used_data disk p (b # bs) = (if b then sector_at disk p else []) @ used_data disk (p + 512) bs"

fun sectors_ok :: "string \<Rightarrow> nat \<Rightarrow> bool list \<Rightarrow> bool" where
  "sectors_ok disk p [] = True"
| "sectors_ok disk p (b # bs) \<longleftrightarrow> (b \<longrightarrow> p + 512 \<le> length disk) \<and> sectors_ok disk (p + 512) bs"

lemma used_data_append: "used_data disk p (a @ b) = used_data disk p a @ used_data disk (p + 512 * length a) b"
  by (induction a arbitrary: p) (auto simp: algebra_simps)

lemma sectors_ok_append: "sectors_ok disk p (a @ b) \<longleftrightarrow> sectors_ok disk p a \<and> sectors_ok disk (p + 512 * length a) b"
  by (induction a arbitrary: p) (auto simp: algebra_simps)

lemma length_byte_bits [simp]: "length (byte_bits c) = 8"
  by (simp add: byte_bits_def)

lemma length_bits_of [simp]: "length (bits_of bm) = 8 * length bm"
  by (induction bm) (auto simp: bits_of_def)

lemma bits_of_simps [simp]: "bits_of [] = []" "bits_of (c # bm) = byte_bits c @ bits_of bm"
  by (simp_all add: bits_of_def)

definition walk_inv :: "('z, 'i) zlib \<Rightarrow> u64 \<Rightarrow> nat \<Rightarrow> nat \<Rightarrow> string \<Rightarrow> 'z walk \<Rightarrow> bool" where
  "walk_inv zl base errs p ins w \<longleftrightarrow>
     w_pos w + w_skip w = p \<and> (\<exists>i. feeding zl (w_c w) i (w_out w) \<and> i @ take (w_lg w) (w_buf w) = ins) \<and>
     length (w_buf w) = TOTALLG \<and> w_lg w < TOTALLG \<and> 512 dvd w_lg w \<and> \<not> c_header (w_c w) \<and>
     cbytes (w_c w) + of_nat (w_lg w) = base + of_nat (w_pos w) \<and> w_errors w = errs"

lemma sector_multiple: "n < TOTALLG \<Longrightarrow> 512 dvd n \<Longrightarrow> n + 512 \<le> TOTALLG"
  by (auto simp: TOTALLG_def dvd_def)

lemma skip_sectors_inv:
  "walk_inv zl base errs p ins w \<Longrightarrow> walk_inv zl base errs p ins ((skip_sectors w)\<lparr>w_skip := 0\<rparr>) \<and> w_pos (skip_sectors w) = p"
  by (auto simp: walk_inv_def skip_sectors_def algebra_simps)

lemma save_bit_used:
  assumes zl: "zlib_ok zl" and inv: "walk_inv zl base errs p ins w" and p: "p + 512 \<le> length disk"
  shows "run_sat (w_out w) w_out (\<lambda>cap. save_bit zl cap disk True w) (walk_inv zl base errs (p + 512) (ins @ sector_at disk p))"
proof -
  define v where "v = (skip_sectors w)\<lparr>w_skip := 0\<rparr>"
  define u where "u = read_sector disk (skip_sectors w)"
  have v: "walk_inv zl base errs p ins v" "w_pos v = p" using skip_sectors_inv [OF inv] by (auto simp: v_def)
  then obtain i where i: "feeding zl (w_c v) i (w_out v)" "i @ take (w_lg v) (w_buf v) = ins"
    and lg: "length (w_buf v) = TOTALLG" "w_lg v < TOTALLG" "512 dvd w_lg v" "\<not> c_header (w_c v)"
    and cb: "cbytes (w_c v) + of_nat (w_lg v) = base + of_nat p" and errs: "w_errors v = errs"
    by (auto simp: walk_inv_def)
  have le: "w_lg v + 512 \<le> TOTALLG" using lg by (intro sector_multiple)
  have sec: "length (sector_at disk p) = 512" using p by (simp add: sector_at_def)
  have u: "w_pos u = p + 512" "w_skip u = 0" "w_lg u = w_lg v + 512" "w_c u = w_c v" "w_out u = w_out v"
      "w_errors u = errs" "w_buf u = take (w_lg v) (w_buf v) @ sector_at disk p @ drop (w_lg v + 512) (w_buf v)"
    using v(2) errs sec by (auto simp: u_def v_def read_sector_def Let_def sector_at_def)
  have out: "w_out v = w_out w" by (auto simp: v_def skip_sectors_def)
  have buf: "length (w_buf u) = TOTALLG" "take (w_lg u) (w_buf u) = take (w_lg v) (w_buf v) @ sector_at disk p"
    using u lg(1) le sec by auto
  have cb': "cbytes (w_c v) + of_nat (w_lg v + 512) = base + of_nat (p + 512)" using cb by (simp add: algebra_simps)
  show ?thesis
  proof (cases "w_lg u = TOTALLG")
    case True
    then have "take (w_lg u) (w_buf u) = w_buf u" using buf(1) by simp
    then have ins: "i @ w_buf u = ins @ sector_at disk p" using buf(2) i(2) by (metis append.assoc)
    have "w_buf u \<noteq> []" using buf(1) by (auto simp: TOTALLG_def)
    then have sat: "run_sat (w_out w) (fst \<circ> snd) (\<lambda>cap. compress_data zl cap (w_buf u) False (w_c u) (w_out u) (w_done u)) (\<lambda>(c', out', dn').
        feeding zl c' (ins @ sector_at disk p) out' \<and> \<not> c_header c' \<and> cbytes c' = cbytes (w_c v) + of_nat (w_lg v + 512))"
      using compress_data_sat [OF zl i(1), of "w_buf u" False "w_done u"] lg(4) u(3-5) buf(1) True ins out
      by (auto simp del: of_nat_add elim!: run_sat_mono)
    have eq: "save_bit zl cap disk True w = bind_run (compress_data zl cap (w_buf u) False (w_c u) (w_out u) (w_done u))
                     (\<lambda>(c, out, dn). ret_run (u\<lparr>w_c := c, w_out := out, w_done := dn, w_lg := 0\<rparr>))" for cap
      unfolding save_bit_def u_def [symmetric] Let_def using True by simp
    show ?thesis unfolding eq
      by (rule run_sat_bind_ret [OF sat]) (use u(1-6) buf(1) cb' in \<open>auto simp: walk_inv_def TOTALLG_def algebra_simps\<close>)
  next
    case False
    have "512 dvd w_lg v + 512" using lg(3) by simp
    then have "walk_inv zl base errs (p + 512) (ins @ sector_at disk p) u"
      using u buf lg le False i cb' by (auto simp: walk_inv_def intro!: exI [of _ i])
    moreover have "save_bit zl cap disk True w = ret_run u" for cap
      using False by (simp add: save_bit_def u_def [symmetric] Let_def)
    ultimately show ?thesis using u(5) out by (auto intro: run_sat_ret)
  qed
qed

lemma walk_inv_dvd: "walk_inv zl base errs p ins w \<Longrightarrow> OUTBUFF dvd length (w_out w)"
  by (auto simp: walk_inv_def feeding_def)

lemma save_bits_sat:
  assumes "zlib_ok zl"
  shows "walk_inv zl base errs p ins w \<Longrightarrow> sectors_ok disk p bs \<Longrightarrow>
    run_sat (w_out w) w_out (\<lambda>cap. save_bits zl cap disk bs w) (walk_inv zl base errs (p + 512 * length bs) (ins @ used_data disk p bs))"
proof (induction bs arbitrary: p ins w)
  case (Cons b bs)
  have one: "run_sat (w_out w) w_out (\<lambda>cap. save_bit zl cap disk b w) (walk_inv zl base errs (p + 512) (ins @ (if b then sector_at disk p else [])))"
  proof (cases b)
    case True
    then show ?thesis using save_bit_used [OF assms Cons.prems(1)] Cons.prems(2) by auto
  next
    case False
    then show ?thesis using Cons.prems(1) by (auto simp: save_bit_def walk_inv_def intro!: run_sat_ret)
  qed
  show ?case unfolding save_bits.simps
  proof (rule run_sat_bind [OF one], rule disjI1, rule conjI)
    fix v assume v: "walk_inv zl base errs (p + 512) (ins @ (if b then sector_at disk p else [])) v"
    show "OUTBUFF dvd length (w_out v)" using v by (rule walk_inv_dvd)
    show "run_sat (w_out v) w_out (\<lambda>cap. save_bits zl cap disk bs v)
        (walk_inv zl base errs (p + 512 * length (b # bs)) (ins @ used_data disk p (b # bs)))"
      using Cons.IH [OF v] Cons.prems(2) by (simp add: algebra_simps)
  qed
qed (auto intro: run_sat_ret)

lemma save_bytes_sat:
  assumes "zlib_ok zl"
  shows "walk_inv zl base errs p ins w \<Longrightarrow> sectors_ok disk p (bits_of bm) \<Longrightarrow>
    run_sat (w_out w) w_out (\<lambda>cap. save_bytes zl cap disk j bm w)
      (walk_inv zl base errs (p + 4096 * length bm) (ins @ used_data disk p (bits_of bm)))"
proof (induction bm arbitrary: p ins w j)
  case (Cons b bm)
  have "walk_inv zl base errs p ins (progress j w)" "w_out (progress j w) = w_out w"
    using Cons.prems(1) by (auto simp: walk_inv_def progress_def)
  with save_bits_sat [OF assms, of base errs p ins "progress j w" disk "byte_bits b"] Cons.prems(2)
  have one: "run_sat (w_out w) w_out (\<lambda>cap. save_bits zl cap disk (byte_bits b) (progress j w))
      (walk_inv zl base errs (p + 4096) (ins @ used_data disk p (byte_bits b)))"
    by (simp add: sectors_ok_append)
  show ?case unfolding save_bytes.simps
  proof (rule run_sat_bind [OF one], rule disjI1, rule conjI)
    fix v assume v: "walk_inv zl base errs (p + 4096) (ins @ used_data disk p (byte_bits b)) v"
    show "OUTBUFF dvd length (w_out v)" using v by (rule walk_inv_dvd)
    show "run_sat (w_out v) w_out (\<lambda>cap. save_bytes zl cap disk (j + 1) bm v)
        (walk_inv zl base errs (p + 4096 * length (b # bm)) (ins @ used_data disk p (bits_of (b # bm))))"
      using Cons.IH [OF v] Cons.prems(2) by (simp add: sectors_ok_append used_data_append algebra_simps)
  qed
qed (auto intro: run_sat_ret)

section \<open>Files\<close>

text \<open>A file holds a stream that decodes to \<open>D\<close>.\<close>

definition encodes :: "('z, 'i) zlib \<Rightarrow> string \<Rightarrow> string \<Rightarrow> bool" where
  "encodes zl f D \<longleftrightarrow> inflate_ok zl f D \<and> (\<exists>z full. deflate_run zl z D f full Finished)"

lemma finished_encodes: "zlib_ok zl \<Longrightarrow> finished zl c ins out \<Longrightarrow> encodes zl out ins"
  unfolding finished_def stream_at_def encodes_def by (auto intro: zlib_inflate) blast

definition file_result :: "('z, 'i) zlib \<Rightarrow> u64 \<Rightarrow> nat \<Rightarrow> nat \<Rightarrow> string \<Rightarrow> string \<times> save_state \<Rightarrow> bool" where
  "file_result zl base errs p D r \<longleftrightarrow>
     (case r of (f, s) \<Rightarrow> encodes zl f D \<and> s_pos s = p \<and> s_bytes s = base + of_nat p \<and>
        length (s_buf s) = TOTALLG \<and> s_errors s = errs)"

lemma compress_end_sat:
  assumes zl: "zlib_ok zl" and c: "feeding zl c ins out" "\<not> c_header c"
  shows "run_sat out (fst \<circ> snd) (\<lambda>cap. compress_end zl cap c out dn) (\<lambda>(bytes, out', dn'). encodes zl out' ins \<and> bytes = cbytes c)"
proof -
  have "\<not> c_end c" using c by (simp add: feeding_def)
  then have eq: "compress_end zl cap c out dn = bind_run (compress_data zl cap [] True c out dn) (\<lambda>(c, out, dn). ret_run (cbytes c, out, dn))" for cap
    by (simp add: compress_end_def)
  have "run_sat out (fst \<circ> snd) (\<lambda>cap. compress_data zl cap [] True c out dn)
      (\<lambda>(c', out', dn'). encodes zl out' ins \<and> cbytes c' = cbytes c)"
    using compress_data_sat [OF zl c(1), of "[]" True dn] c finished_encodes [OF zl] by (auto elim!: run_sat_mono)
  then show ?thesis unfolding eq by (rule run_sat_bind_ret) auto
qed

lemma compress_end_finished:
  "finished zl c ins out \<Longrightarrow> compress_end zl cap c out dn = ret_run (cbytes c, out, dn)"
  by (simp add: compress_end_def finished_def)

lemma finish_file_sat:
  assumes zl: "zlib_ok zl" and inv: "walk_inv zl base errs p ins w"
  shows "run_sat (w_out w) fst (\<lambda>cap. finish_file zl cap w) (file_result zl base errs p ins)"
proof -
  obtain i where i: "feeding zl (w_c w) i (w_out w)" "i @ take (w_lg w) (w_buf w) = ins"
    and w: "w_pos w + w_skip w = p" "length (w_buf w) = TOTALLG" "w_lg w < TOTALLG" "\<not> c_header (w_c w)"
      "cbytes (w_c w) + of_nat (w_lg w) = base + of_nat (w_pos w)" "w_errors w = errs"
    using inv by (auto simp: walk_inv_def)
  define Q where "Q = (\<lambda>(c, out, dn :: u64). (finished zl c ins out \<or> feeding zl c ins out \<and> \<not> c_header c) \<and>
      cbytes c = base + of_nat (w_pos w))"
  have first: "run_sat (w_out w) (fst \<circ> snd)
      (\<lambda>cap. if 0 < w_lg w then compress_data zl cap (take (w_lg w) (w_buf w)) True (w_c w) (w_out w) (w_done w)
      else ret_run (w_c w, w_out w, w_done w)) Q"
  proof (cases "0 < w_lg w")
    case True
    then show ?thesis
      using compress_data_sat [OF zl i(1), of "take (w_lg w) (w_buf w)" True "w_done w"] i(2) w
      by (auto simp: Q_def elim!: run_sat_mono)
  qed (use i w in \<open>auto simp: Q_def intro!: run_sat_ret\<close>)
  let ?rest = "\<lambda>cap c out dn. let w = skip_sectors (w\<lparr>w_c := c\<rparr>)
        in bind_run (compress_end zl cap (w_c w) out dn) (\<lambda>(bytes, out, dn).
           ret_run (out, \<lparr>s_pos = w_pos w, s_bytes = bytes, s_done = dn, s_buf = w_buf w, s_ui = w_ui w, s_errors = w_errors w\<rparr>))"
  have rest: "OUTBUFF dvd length out \<and> run_sat out fst (\<lambda>cap. ?rest cap c out dn) (file_result zl base errs p ins) \<or>
      (\<exists>y. (\<forall>cap. ?rest cap c out dn = ret_run y) \<and> file_result zl base errs p ins y \<and> fst y = out)"
    if q: "Q (c, out, dn)" for c out dn
  proof -
    define v where "v = skip_sectors (w\<lparr>w_c := c\<rparr>)"
    have v: "w_pos v = p" "w_buf v = w_buf w" "w_errors v = errs" "cbytes (w_c v) = base + of_nat p"
      using w q by (auto simp: v_def skip_sectors_def Q_def algebra_simps)
    consider "finished zl (w_c v) ins out" | "feeding zl (w_c v) ins out" "\<not> c_header (w_c v)"
      using q by (auto simp: v_def skip_sectors_def Q_def)
    then show ?thesis
    proof cases
      case 1
      with finished_encodes [OF zl 1] v w(2) show ?thesis
        unfolding v_def [symmetric] Let_def by (simp add: compress_end_finished ret_run_def file_result_def)
    next
      case 2
      then have "OUTBUFF dvd length out" by (simp add: feeding_def)
      moreover have "run_sat out fst (\<lambda>cap. ?rest cap c out dn) (file_result zl base errs p ins)"
        unfolding v_def [symmetric] Let_def
        by (rule run_sat_bind_ret [OF compress_end_sat [OF zl 2]]) (use v w(2) in \<open>auto simp: file_result_def\<close>)
      ultimately show ?thesis by blast
    qed
  qed
  show ?thesis unfolding finish_file_def
  proof (rule run_sat_bind [OF first])
    fix x assume "Q x"
    moreover obtain c out dn where "x = (c, out, dn)" by (cases x)
    ultimately show "OUTBUFF dvd length ((fst \<circ> snd) x) \<and>
        run_sat ((fst \<circ> snd) x) fst (\<lambda>cap. case x of (c, out, dn) \<Rightarrow> ?rest cap c out dn) (file_result zl base errs p ins) \<or>
        (\<exists>y. (\<forall>cap. (case x of (c, out, dn) \<Rightarrow> ?rest cap c out dn) = ret_run y) \<and> file_result zl base errs p ins y \<and>
          fst y = (fst \<circ> snd) x)"
      using rest [of c out dn] by simp
  qed
qed

lemma length_image_header:
  "length txt \<le> HEADERLG \<Longrightarrow> length bm \<le> ALLOCLG \<Longrightarrow> length (image_header txt bm) = TOTALLG"
  by (simp add: image_header_def HEADERLG_def ALLOCLG_def TOTALLG_def)

lemma save_file_sat:
  assumes zl: "zlib_ok zl" "level_ok lev" and fs: "filestring opts i = Inr fs"
    and len: "length (header_text first fs (length bm)) \<le> HEADERLG" "length bm \<le> ALLOCLG"
    and s: "length (s_buf s) = TOTALLG" and ok: "sectors_ok disk (s_pos s) (bits_of bm)"
  shows "run_sat [] fst (\<lambda>cap. save_file zl lev opts cap disk i first bm s)
     (file_result zl (s_bytes s - of_nat (s_pos s)) (s_errors s) (s_pos s + 4096 * length bm)
        (image_header (header_text first fs (length bm)) bm @ used_data disk (s_pos s) (bits_of bm)))"
proof -
  let ?h = "image_header (header_text first fs (length bm)) bm"
  let ?c = "compress_init zl lev i (s_bytes s)"
  let ?w = "\<lambda>c out dn. \<lparr>w_pos = s_pos s, w_skip = 0, w_buf = s_buf s, w_lg = 0, w_used = 0, w_c = c, w_out = out, w_done = dn,
                  w_ui = s_ui s, w_errors = s_errors s\<rparr>"
  have "?h \<noteq> []" using length_image_header [OF len] by (auto simp: TOTALLG_def)
  then have hd: "run_sat [] (fst \<circ> snd) (\<lambda>cap. compress_data zl cap ?h False ?c [] (s_done s))
      (\<lambda>(c', out', dn'). feeding zl c' ?h out' \<and> \<not> c_header c' \<and> cbytes c' = s_bytes s)"
    using compress_data_sat [OF zl(1) feeding_init [OF zl(2)], of ?h False i "s_bytes s" "s_done s"]
    by (auto simp: compress_init_def elim!: run_sat_mono)
  have rest: "run_sat out fst (\<lambda>cap. bind_run (save_bytes zl cap disk 0 bm (?w c out dn)) (finish_file zl cap))
      (file_result zl (s_bytes s - of_nat (s_pos s)) (s_errors s) (s_pos s + 4096 * length bm)
        (?h @ used_data disk (s_pos s) (bits_of bm)))"
    if c: "feeding zl c ?h out" "\<not> c_header c" "cbytes c = s_bytes s" for c out dn
  proof -
    have inv: "walk_inv zl (s_bytes s - of_nat (s_pos s)) (s_errors s) (s_pos s) ?h (?w c out dn)"
      using c s by (simp add: walk_inv_def TOTALLG_def)
    have "run_sat out w_out (\<lambda>cap. save_bytes zl cap disk 0 bm (?w c out dn))
        (walk_inv zl (s_bytes s - of_nat (s_pos s)) (s_errors s) (s_pos s + 4096 * length bm) (?h @ used_data disk (s_pos s) (bits_of bm)))"
      using save_bytes_sat [OF zl(1) inv ok, of 0] by simp
    then show ?thesis
      by (rule run_sat_bind) (blast intro: walk_inv_dvd finish_file_sat [OF zl(1)])
  qed
  show ?thesis unfolding save_file_def using fs
    by (simp, intro run_sat_bind [OF hd] disjI1) (use rest in \<open>auto dest: feeding_dvd\<close>)
qed

end
