(* ===== verification/Unpack.thy ===== *)
theory Unpack
  imports Compress
begin

text \<open>
  Reading one file of an image: the loop around \<open>inflate\<close> that \<^verbatim>\<open>client/revimage/decompress.c\<close> and
  \<open>restore\<close> of \<^verbatim>\<open>client/revimage/autorestore/autorestore.c\<close> have in common, line by line. The stream is
  inflated into a buffer of 24064 bytes; the first buffer is the header with the bitmap, the others
  are the used sectors. Where the sectors go is the business of a sink: the two programs each have
  their own \<open>flushToDisk\<close> and treat the number of blocks in their own way. The locale \<open>sector_sink\<close> is
  the contract of a sink, and what the loop does to any sink is proved once.
\<close>

definition INSIZE :: nat where "INSIZE = 2048"
definition BUFSIZE :: nat where "BUFSIZE = 24064"

definition bit_at :: "string \<Rightarrow> nat \<Rightarrow> bool res" where
  "bit_at bm i =
     (if i div 8 < length bm then Inr ((of_char (bm ! (i div 8)) :: nat) AND 2 ^ (i mod 8) \<noteq> 0) else Inl OutOfBounds)"

section \<open>One attempt\<close>

text \<open>
  A sink: \<open>flushToDisk\<close>, the reset of its index into the bitmap, and what is done with the text of the
  header to the number of blocks.
\<close>

record 'c sink =
  sk_flush :: "string \<Rightarrow> string \<Rightarrow> nat \<Rightarrow> 'c \<Rightarrow> 'c res"
  sk_rewind :: "'c \<Rightarrow> 'c"
  sk_blocks :: "string \<Rightarrow> int option \<Rightarrow> int option"

record ('i, 'c) dstate =
  d_z :: 'i
  d_in :: string
  d_fi :: string
  d_buf :: string
  d_fill :: nat
  d_first :: bool
  d_bitmap :: string
  d_bitmaplg :: int
  d_cp :: 'c
  d_blocks :: "int option"

definition scan_after :: "string \<Rightarrow> string \<Rightarrow> int option" where
  "scan_after key s =
     (case strstr s key of None \<Rightarrow> None | Some r \<Rightarrow> map_option fst (scan_int (drop (length key) r)))"

text \<open>The header: the size of the bitmap is kept if one is found.\<close>

definition parse_header :: "'c sink \<Rightarrow> ('i, 'c) dstate \<Rightarrow> ('i, 'c) dstate res" where
  "parse_header sk st =
     bind_res (buffer_str (d_buf st)) (\<lambda>s.
       Inr (st\<lparr>d_blocks := sk_blocks sk s (d_blocks st),
               d_bitmaplg := (case scan_after ''ALLOCTABLELG='' s of None \<Rightarrow> d_bitmaplg st | Some i \<Rightarrow> i),
               d_bitmap := drop 2048 (d_buf st)\<rparr>))"

definition full_buffer :: "'c sink \<Rightarrow> ('i, 'c) dstate \<Rightarrow> ('i, 'c) dstate res" where
  "full_buffer sk st =
     bind_res (if d_first st
               then bind_res (parse_header sk st) (\<lambda>st. Inr (st\<lparr>d_cp := sk_rewind sk (d_cp st), d_first := False\<rparr>))
               else bind_res (sk_flush sk (d_buf st) (d_bitmap st) BUFSIZE (d_cp st)) (\<lambda>cp. Inr (st\<lparr>d_cp := cp\<rparr>)))
       (\<lambda>st. Inr (st\<lparr>d_fill := 0\<rparr>))"

definition refill :: "('i, 'c) dstate \<Rightarrow> ('i, 'c) dstate" where
  "refill st = (if d_in st = [] then st\<lparr>d_in := take INSIZE (d_fi st), d_fi := drop INSIZE (d_fi st)\<rparr> else st)"

text \<open>One call of \<open>inflate\<close>: its output goes to the buffer behind what is there.\<close>

definition inflate_call :: "('z, 'i) zlib \<Rightarrow> flush \<Rightarrow> ('i, 'c) dstate \<Rightarrow> ('i, 'c) dstate \<times> zret" where
  "inflate_call zl fl st =
     (case zinflate zl (d_z st) (d_in st) (BUFSIZE - d_fill st) fl of
        (z, k, out, ret) \<Rightarrow>
          (st\<lparr>d_z := z, d_in := drop k (d_in st), d_fill := d_fill st + length out,
              d_buf := take (d_fill st) (d_buf st) @ out @ drop (d_fill st + length out) (d_buf st)\<rparr>, ret))"

partial_function (option) inflate_loop :: "('z, 'i) zlib \<Rightarrow> 'c sink \<Rightarrow> ('i, 'c) dstate \<Rightarrow> (('i, 'c) dstate \<times> zret) run" where
  "inflate_loop zl sk st =
     (case inflate_call zl Z_SYNC_FLUSH st of
        (st, ret) \<Rightarrow>
          if ret = Z_OK
          then (case (if d_fill st = BUFSIZE then full_buffer sk st else Inr st) of
                  Inl e \<Rightarrow> Some (Inl e)
                | Inr st \<Rightarrow> inflate_loop zl sk (refill st))
          else Some (Inr (st, ret)))"

definition flush_end :: "'c sink \<Rightarrow> ('i, 'c) dstate \<Rightarrow> ('i, 'c) dstate res" where
  "flush_end sk st =
     bind_res (if d_first st then bind_res (parse_header sk st) (\<lambda>st. Inr (st\<lparr>d_fill := 0\<rparr>)) else Inr st) (\<lambda>st.
     bind_res (sk_flush sk (d_buf st) (d_bitmap st) (d_fill st) (d_cp st)) (\<lambda>cp.
       Inr (st\<lparr>d_cp := cp, d_fill := 0\<rparr>)))"

text \<open>
  From \<open>start:\<close> to the check of the last return code; \<open>True\<close> asks for a restart. The arguments of the
  first state are the contents of the image file, the buffers (static, so they keep their bytes), the
  sink and the number of blocks known so far.
\<close>

definition start_state :: "('z, 'i) zlib \<Rightarrow> string \<Rightarrow> string \<Rightarrow> string \<Rightarrow> 'c \<Rightarrow> int option \<Rightarrow> ('i, 'c) dstate" where
  "start_state zl fi buf bitmap cp blocks =
     \<lparr>d_z = inflateInit zl, d_in = take INSIZE fi, d_fi = drop INSIZE fi, d_buf = buf, d_fill = 0, d_first = True,
      d_bitmap = bitmap, d_bitmaplg = 0, d_cp = cp, d_blocks = blocks\<rparr>"

definition attempt :: "('z, 'i) zlib \<Rightarrow> 'c sink \<Rightarrow> ('i, 'c) dstate \<Rightarrow> (('i, 'c) dstate \<times> zret) run" where
  "attempt zl sk st =
     bind_run (inflate_loop zl sk st) (\<lambda>(st, ret).
     bind_run (Some (if ret = Z_STREAM_END then flush_end sk st else Inr st)) (\<lambda>st.
       ret_run (inflate_call zl Z_FINISH st)))"

definition failed :: "zret \<Rightarrow> bool" where
  "failed ret = (case ret of Z_ERROR e \<Rightarrow> e < 0 | _ \<Rightarrow> False)"

section \<open>Bits\<close>

lemma byte_bits_nth: "j < 8 \<Longrightarrow> byte_bits c ! j \<longleftrightarrow> (of_char c :: nat) AND 2 ^ j \<noteq> 0"
  by (auto simp: byte_bits_def less_Suc_eq numeral_eq_Suc)

lemma bits_of_nth: "i < 8 * length bm \<Longrightarrow> bits_of bm ! i \<longleftrightarrow> (of_char (bm ! (i div 8)) :: nat) AND 2 ^ (i mod 8) \<noteq> 0"
proof (induction bm arbitrary: i)
  case (Cons c bm)
  show ?case
  proof (cases "i < 8")
    case True
    then show ?thesis by (simp add: nth_append byte_bits_nth)
  next
    case False
    then have "i div 8 = Suc ((i - 8) div 8)" "i mod 8 = (i - 8) mod 8" by (auto simp: le_div_geq mod_if)
    with Cons False show ?thesis by (simp add: nth_append)
  qed
qed simp

lemma bit_at_bits: "i < 8 * length bm \<Longrightarrow> bit_at bm i = Inr (bits_of bm ! i)"
  by (auto simp: bit_at_def bits_of_nth)

definition used_count :: "bool list \<Rightarrow> nat" where
  "used_count bs = length (filter id bs)"

lemma used_count_simps [simp]:
  "used_count [] = 0" "used_count (b # bs) = (if b then Suc (used_count bs) else used_count bs)"
  "used_count (a @ c) = used_count a + used_count c"
  by (simp_all add: used_count_def)

lemma length_used_data: "sectors_ok disk p bs \<Longrightarrow> length (used_data disk p bs) = 512 * used_count bs"
  by (induction bs arbitrary: p) (auto simp: sector_at_def)

text \<open>How many bits lead up to and include the \<open>k\<close>-th used one.\<close>

fun bits_upto :: "nat \<Rightarrow> bool list \<Rightarrow> nat" where
  "bits_upto 0 bs = 0"
| "bits_upto (Suc k) [] = 0"
| "bits_upto (Suc k) (b # bs) = Suc (bits_upto (if b then k else Suc k) bs)"

lemma bits_upto_le: "bits_upto k bs \<le> length bs"
  by (induction k bs rule: bits_upto.induct) auto

lemma used_upto: "k \<le> used_count bs \<Longrightarrow> used_count (take (bits_upto k bs) bs) = k"
  by (induction k bs rule: bits_upto.induct) auto

lemma unused_after: "used_count (drop (bits_upto (used_count bs) bs) bs) = 0"
proof -
  have "used_count bs = used_count (take (bits_upto (used_count bs) bs) bs) + used_count (drop (bits_upto (used_count bs) bs) bs)"
    by (metis append_take_drop_id used_count_simps(3))
  then show ?thesis using used_upto [of "used_count bs" bs] by simp
qed

lemma bits_upto_add:
  "k + j \<le> used_count bs \<Longrightarrow> bits_upto (k + j) bs = bits_upto k bs + bits_upto j (drop (bits_upto k bs) bs)"
  by (induction k bs arbitrary: j rule: bits_upto.induct) (auto split: if_splits)

lemma bits_upto_mono: "a \<le> b \<Longrightarrow> b \<le> used_count bs \<Longrightarrow> bits_upto a bs \<le> bits_upto b bs"
  using bits_upto_add [of a "b - a" bs] by simp

lemma bits_upto_take: "used_count (take n bs) = k \<Longrightarrow> bits_upto k bs = bits_upto k (take n bs)"
proof (induction k bs arbitrary: n rule: bits_upto.induct)
  case (3 k b bs)
  then show ?case by (cases n) (auto split: if_splits)
qed auto

lemma used_count_drop: "used_count (drop n bs) \<le> used_count bs"
  by (metis append_take_drop_id le_add2 used_count_simps(3))

lemma first_used: "0 < used_count bs \<Longrightarrow> bs = takeWhile Not bs @ True # drop (Suc (length (takeWhile Not bs))) bs"
  by (induction bs) auto

lemma used_count_takeWhile [simp]: "used_count (takeWhile Not bs) = 0"
  by (induction bs) auto

lemma bits_upto_Suc:
  "0 < used_count bs \<Longrightarrow>
   bits_upto (Suc k) bs = Suc (length (takeWhile Not bs)) + bits_upto k (drop (Suc (length (takeWhile Not bs))) bs)"
  by (induction bs) auto

section \<open>The contract of a sink\<close>

text \<open>
  \<open>runs bs src cp\<close> is what the bits \<open>bs\<close> and the data \<open>src\<close> of the used sectors among them do to a sink;
  \<open>idx\<close> is its index into the bitmap and \<open>fits cp n\<close> says that there is room for \<open>n\<close> sectors.
\<close>

locale sector_sink =
  fixes sk :: "'c sink" and idx :: "'c \<Rightarrow> nat" and runs :: "bool list \<Rightarrow> string \<Rightarrow> 'c \<Rightarrow> 'c" and fits :: "'c \<Rightarrow> nat \<Rightarrow> bool"
  assumes flush_runs: "k \<le> used_count (drop (idx cp) (bits_of bm)) \<Longrightarrow> 512 * k \<le> length buff \<Longrightarrow> 512 * k \<le> BUFSIZE \<Longrightarrow>
       fits cp (bits_upto k (drop (idx cp) (bits_of bm))) \<Longrightarrow>
       sk_flush sk buff bm (512 * k) cp =
         Inr (runs (take (bits_upto k (drop (idx cp) (bits_of bm))) (drop (idx cp) (bits_of bm))) buff cp)"
    and runs_append: "runs (a @ b) src cp = runs b (drop (512 * used_count a) src) (runs a src cp)"
    and runs_cong: "take (512 * used_count bs) src = take (512 * used_count bs) src' \<Longrightarrow> runs bs src cp = runs bs src' cp"
    and runs_Nil: "runs [] src cp = cp"
    and idx_runs: "idx (runs bs src cp) = idx cp + length bs"
    and fits_runs: "fits cp (length bs + n) \<Longrightarrow> fits (runs bs src cp) n"
    and fits_le: "fits cp n \<Longrightarrow> m \<le> n \<Longrightarrow> fits cp m"
    and rewind_start: "idx cp = 0 \<Longrightarrow> sk_rewind sk cp = cp"

text \<open>The header \<open>H\<close> gives the size of the bitmap and, from \<open>blk0\<close>, the number of blocks.\<close>

definition header_read :: "'c sink \<Rightarrow> string \<Rightarrow> nat \<Rightarrow> int option \<Rightarrow> int option \<Rightarrow> bool" where
  "header_read sk H lg blk0 blk \<longleftrightarrow> length H = BUFSIZE \<and>
     (\<exists>s. buffer_str H = Inr s \<and> scan_after ''ALLOCTABLELG='' s = Some (int lg) \<and> blk = sk_blocks sk s blk0)"

abbreviation header_bits :: "string \<Rightarrow> bool list" where
  "header_bits H \<equiv> bits_of (drop 2048 H)"

text \<open>The bits up to the last used one.\<close>

abbreviation used_bits :: "bool list \<Rightarrow> bool list" where
  "used_bits bs \<equiv> take (bits_upto (used_count bs) bs) bs"

lemma parse_header_read:
  assumes "header_read sk H lg blk0 blk" "d_buf st = H" "d_blocks st = blk0"
  shows "parse_header sk st = Inr (st\<lparr>d_blocks := blk, d_bitmaplg := int lg, d_bitmap := drop 2048 H\<rparr>)"
  using assms by (auto simp: header_read_def parse_header_def)

lemma refill_input: "d_in (refill st) @ d_fi (refill st) = d_in st @ d_fi st" "d_in (refill st) \<noteq> [] \<or> d_fi (refill st) = []"
  "d_z (refill st) = d_z st" "d_fill (refill st) = d_fill st"
  by (auto simp: refill_def INSIZE_def)

context sector_sink
begin

text \<open>After the output \<open>p\<close>: the header is still in the buffer, or it and \<open>m\<close> buffers of sectors are done.\<close>

definition dec_inv :: "string \<Rightarrow> string \<Rightarrow> nat \<Rightarrow> int option \<Rightarrow> int option \<Rightarrow> 'c \<Rightarrow> string \<Rightarrow> ('i, 'c) dstate \<Rightarrow> bool" where
  "dec_inv H S lg blk0 blk cp0 p st \<longleftrightarrow> length (d_buf st) = BUFSIZE \<and> d_fill st \<le> BUFSIZE \<and>
     (if d_first st then p = take (d_fill st) (d_buf st) \<and> d_cp st = cp0 \<and> d_blocks st = blk0
      else d_bitmap st = drop 2048 H \<and> d_bitmaplg st = int lg \<and> d_blocks st = blk \<and>
        (\<exists>m. BUFSIZE * m \<le> length S \<and> p = H @ take (BUFSIZE * m) S @ take (d_fill st) (d_buf st) \<and>
           d_cp st = runs (take (bits_upto (47 * m) (header_bits H)) (header_bits H)) S cp0))"

lemma flush_more:
  assumes cp: "cp = runs (take (bits_upto a (bits_of bm)) (bits_of bm)) S cp0" "idx cp0 = 0"
    and k: "a + k \<le> used_count (bits_of bm)" "512 * k \<le> length buff" "512 * k \<le> BUFSIZE" and room: "fits cp0 (bits_upto (used_count (bits_of bm)) (bits_of bm))"
    and S: "take (512 * k) buff = take (512 * k) (drop (512 * a) S)"
  shows "sk_flush sk buff bm (512 * k) cp = Inr (runs (take (bits_upto (a + k) (bits_of bm)) (bits_of bm)) S cp0)"
proof -
  define bs where "bs = bits_of bm"
  define n where "n = bits_upto a bs"
  have n: "n \<le> length bs" unfolding n_def by (rule bits_upto_le)
  have ua: "used_count (take n bs) = a" using k(1) used_upto [of a bs] by (simp add: n_def bs_def)
  have "used_count bs = a + used_count (drop n bs)" using ua by (metis append_take_drop_id used_count_simps(3))
  then have uk: "k \<le> used_count (drop n bs)" using k(1) by (simp add: bs_def)
  have idx: "idx cp = n" using cp n by (simp add: n_def bs_def idx_runs)
  have "fits cp0 (n + bits_upto k (drop n bs))"
    using fits_le [OF room bits_upto_mono [OF k(1) order_refl]] bits_upto_add [of a k bs] k(1) by (simp add: n_def bs_def)
  then have f: "fits cp (bits_upto k (drop n bs))"
    using fits_runs [of cp0 "take n bs" _ S] cp(1) n by (simp add: n_def bs_def)
  let ?t = "take (bits_upto k (drop n bs)) (drop n bs)"
  have "sk_flush sk buff bm (512 * k) cp = Inr (runs ?t buff cp)"
    using flush_runs [of k cp bm buff] uk k(2,3) idx f by (simp add: bs_def)
  also have "runs ?t buff cp = runs ?t (drop (512 * a) S) cp"
    using S used_upto [OF uk] by (intro runs_cong) simp
  also have "\<dots> = runs (take n bs @ ?t) S cp0"
    using cp(1) ua by (simp add: runs_append n_def bs_def)
  also have "take n bs @ ?t = take (bits_upto (a + k) bs) bs"
    using bits_upto_add [of a k bs] k(1) by (simp add: n_def bs_def take_add)
  finally show ?thesis by (simp add: bs_def)
qed

lemma full_buffer_inv:
  assumes inv: "dec_inv H S lg blk0 blk cp0 p st" and hd: "header_read sk H lg blk0 blk" and full: "d_fill st = BUFSIZE"
    and D: "H @ S = p @ rest" and S: "length S = 512 * used_count (header_bits H)" and cp0: "idx cp0 = 0"
    and room: "fits cp0 (bits_upto (used_count (header_bits H)) (header_bits H))"
  shows "\<exists>st'. full_buffer sk st = Inr st' \<and> dec_inv H S lg blk0 blk cp0 p st' \<and> d_fill st' = 0 \<and>
     d_z st' = d_z st \<and> d_in st' = d_in st \<and> d_fi st' = d_fi st"
proof (cases "d_first st")
  case True
  with inv full have p: "p = d_buf st" "length (d_buf st) = BUFSIZE" "d_cp st = cp0" "d_blocks st = blk0"
    by (auto simp: dec_inv_def)
  have "length H = BUFSIZE" using hd by (simp add: header_read_def)
  with p D have H: "d_buf st = H" by (metis append_eq_append_conv)
  note parse_header_read [OF hd H p(4)]
  moreover have "sk_rewind sk cp0 = cp0" using cp0 by (rule rewind_start)
  ultimately show ?thesis using True p H by (auto simp: full_buffer_def dec_inv_def runs_Nil intro!: exI [of _ 0])
next
  case False
  with inv obtain m where m: "BUFSIZE * m \<le> length S" "p = H @ take (BUFSIZE * m) S @ d_buf st"
      "d_cp st = runs (take (bits_upto (47 * m) (header_bits H)) (header_bits H)) S cp0"
    and st: "d_bitmap st = drop 2048 H" "d_bitmaplg st = int lg" "d_blocks st = blk" "length (d_buf st) = BUFSIZE"
    using full by (auto simp: dec_inv_def)
  have "S = take (BUFSIZE * m) S @ d_buf st @ rest" using D m(2) by simp
  then have dr: "drop (BUFSIZE * m) S = d_buf st @ rest"
    using m(1) by (metis append_eq_conv_conj length_take min.absorb2)
  then have le: "BUFSIZE * m + BUFSIZE \<le> length S" using st(4) m(1) by (metis add_le_mono1 le_add1 length_append length_drop le_diff_conv2 add.commute)
  have k: "47 * m + 47 \<le> used_count (header_bits H)" using le S by (simp add: BUFSIZE_def)
  have buf: "take (512 * 47) (d_buf st) = take (512 * 47) (drop (512 * (47 * m)) S)"
    using dr st(4) by (simp add: BUFSIZE_def)
  have "sk_flush sk (d_buf st) (drop 2048 H) (512 * 47) (d_cp st) =
      Inr (runs (take (bits_upto (47 * m + 47) (header_bits H)) (header_bits H)) S cp0)"
    using flush_more [OF m(3) cp0 k _ _ room buf] st(4) by (simp add: BUFSIZE_def)
  moreover have "take (BUFSIZE * m + BUFSIZE) S = take (BUFSIZE * m) S @ d_buf st"
    using dr st(4) by (simp add: take_add)
  then have "take (BUFSIZE * Suc m) S = take (BUFSIZE * m) S @ d_buf st" by (simp add: add.commute)
  ultimately show ?thesis using False st m le
    by (auto simp: full_buffer_def dec_inv_def BUFSIZE_def add.commute intro!: exI [of _ "Suc m"])
qed

lemma inflate_call_inv:
  assumes inv: "dec_inv H S lg blk0 blk cp0 p st" "d_fill st < BUFSIZE"
    and call: "zinflate zl (d_z st) (d_in st) (BUFSIZE - d_fill st) fl = (z, k, out, ret)"
    and out: "length out \<le> BUFSIZE - d_fill st"
  shows "\<exists>st'. inflate_call zl fl st = (st', ret) \<and> dec_inv H S lg blk0 blk cp0 (p @ out) st' \<and>
     d_z st' = z \<and> d_in st' = drop k (d_in st) \<and> d_fi st' = d_fi st"
proof -
  define st' where "st' = st\<lparr>d_z := z, d_in := drop k (d_in st), d_fill := d_fill st + length out,
      d_buf := take (d_fill st) (d_buf st) @ out @ drop (d_fill st + length out) (d_buf st)\<rparr>"
  have len: "length (d_buf st) = BUFSIZE" using inv by (simp add: dec_inv_def)
  have "take (d_fill st') (d_buf st') = take (d_fill st) (d_buf st) @ out" "length (d_buf st') = BUFSIZE"
    using len inv(2) out by (auto simp: st'_def)
  then have "dec_inv H S lg blk0 blk cp0 (p @ out) st'"
    using inv out by (auto simp: dec_inv_def st'_def)
  moreover have "inflate_call zl fl st = (st', ret)" by (simp add: inflate_call_def call st'_def)
  ultimately show ?thesis by (auto simp: st'_def)
qed

lemma refill_inv: "dec_inv H S lg blk0 blk cp0 p (refill st) = dec_inv H S lg blk0 blk cp0 p st"
  by (simp add: dec_inv_def refill_def)

lemma inflate_loop_ok:
  assumes ok: "inflate_ok zl enc (H @ S)" and hd: "header_read sk H lg blk0 blk"
    and S: "length S = 512 * used_count (header_bits H)" and cp0: "idx cp0 = 0"
    and room: "fits cp0 (bits_upto (used_count (header_bits H)) (header_bits H))"
  shows "inflate_run zl (d_z st) c p False \<Longrightarrow> c @ d_in st @ d_fi st = enc \<Longrightarrow> d_in st \<noteq> [] \<or> d_fi st = [] \<Longrightarrow>
     dec_inv H S lg blk0 blk cp0 p st \<Longrightarrow> d_fill st < BUFSIZE \<Longrightarrow> \<exists>rest. H @ S = p @ rest \<Longrightarrow>
     \<exists>st' c'. inflate_loop zl sk st = Some (Inr (st', Z_STREAM_END)) \<and> dec_inv H S lg blk0 blk cp0 (H @ S) st' \<and>
       inflate_run zl (d_z st') c' (H @ S) True"
proof (induction "length enc + length (H @ S) - (length c + length p)" arbitrary: st c p rule: less_induct)
  case less
  obtain z k out ret where call: "zinflate zl (d_z st) (d_in st) (BUFSIZE - d_fill st) Z_SYNC_FLUSH = (z, k, out, ret)"
    by (metis prod_cases4)
  have left: "0 < BUFSIZE - d_fill st" using less.prems(5) by simp
  note D = inflate_callD [OF ok less.prems(1,2) left less.prems(3) call]
  obtain rest where rest: "H @ S = p @ out @ rest" "ret = Z_STREAM_END \<longrightarrow> rest = []" using D(3) by blast
  obtain st1 where st1: "inflate_call zl Z_SYNC_FLUSH st = (st1, ret)" "dec_inv H S lg blk0 blk cp0 (p @ out) st1"
      "d_z st1 = z" "d_in st1 = drop k (d_in st)" "d_fi st1 = d_fi st"
    using inflate_call_inv [OF less.prems(4,5) call D(2)] by blast
  have run: "inflate_run zl z (c @ take k (d_in st)) (p @ out) (ret = Z_STREAM_END)"
    using inflate_step [OF less.prems(1) call] D(4) by blast
  show ?case
  proof (cases "ret = Z_STREAM_END")
    case True
    then have "inflate_loop zl sk st = Some (Inr (st1, Z_STREAM_END))"
      by (subst inflate_loop.simps) (simp add: st1(1))
    with True st1(2,3) run rest show ?thesis by auto
  next
    case False
    then have ok': "ret = Z_OK" "0 < k + length out" using D(4) by auto
    obtain st2 where st2: "(if d_fill st1 = BUFSIZE then full_buffer sk st1 else Inr st1) = Inr st2"
        "dec_inv H S lg blk0 blk cp0 (p @ out) st2" "d_fill st2 < BUFSIZE" "d_z st2 = z"
        "d_in st2 = drop k (d_in st)" "d_fi st2 = d_fi st"
    proof (cases "d_fill st1 = BUFSIZE")
      case True
      have "H @ S = (p @ out) @ rest" using rest(1) by simp
      from full_buffer_inv [OF st1(2) hd True this S cp0 room] True st1 that show ?thesis by (auto simp: BUFSIZE_def)
    next
      case False
      with st1 that show ?thesis by (auto simp: dec_inv_def)
    qed
    let ?st = "refill st2"
    have eq: "inflate_loop zl sk st = inflate_loop zl sk ?st"
      by (subst inflate_loop.simps) (simp add: st1(1) ok'(1) st2(1))
    have c': "(c @ take k (d_in st)) @ d_in ?st @ d_fi ?st = enc"
      using less.prems(2) refill_input(1) [of st2] st2(5,6) by (metis append.assoc append_take_drop_id)
    have "length c + k + (length p + length out) \<le> length enc + length (H @ S)"
      using arg_cong [OF c', of length] D(1) arg_cong [OF rest(1), of length] by simp
    then have less': "length enc + length (H @ S) - (length (c @ take k (d_in st)) + length (p @ out))
        < length enc + length (H @ S) - (length c + length p)"
      using ok'(2) D(1) unfolding length_append length_take min.absorb2 [OF D(1)] by linarith
    show ?thesis unfolding eq
    proof (rule less.hyps [OF less'])
      show "inflate_run zl (d_z ?st) (c @ take k (d_in st)) (p @ out) False"
        using run False st2(4) by (simp add: refill_input(3))
      show "d_in ?st \<noteq> [] \<or> d_fi ?st = []" by (rule refill_input(2))
    qed (use c' st2 rest in \<open>auto simp: refill_inv refill_input(4)\<close>)
  qed
qed

lemma flush_end_ok:
  assumes inv: "dec_inv H S lg blk0 blk cp0 (H @ S) st" and hd: "header_read sk H lg blk0 blk"
    and S: "length S = 512 * used_count (header_bits H)" and cp0: "idx cp0 = 0"
    and room: "fits cp0 (bits_upto (used_count (header_bits H)) (header_bits H))"
  shows "\<exists>st'. flush_end sk st = Inr st' \<and> d_z st' = d_z st \<and> d_fill st' = 0 \<and> d_bitmaplg st' = int lg \<and> d_blocks st' = blk \<and>
     d_cp st' = runs (used_bits (header_bits H)) S cp0 \<and> d_buf st' = d_buf st"
proof (cases "d_first st")
  case True
  with inv have p: "H @ S = take (d_fill st) (d_buf st)" "length (d_buf st) = BUFSIZE" "d_cp st = cp0" "d_blocks st = blk0"
    by (auto simp: dec_inv_def)
  have "length H = BUFSIZE" using hd by (simp add: header_read_def)
  moreover have "length (H @ S) \<le> BUFSIZE" unfolding p(1) using p(2) by simp
  ultimately have "S = []" by simp
  then have "BUFSIZE \<le> d_fill st" using arg_cong [OF p(1), of length] \<open>length H = BUFSIZE\<close> by simp
  then have H: "d_buf st = H" using p(1,2) \<open>S = []\<close> by simp
  show ?thesis using True parse_header_read [OF hd H p(4)] p(3) S \<open>S = []\<close>
    using flush_runs [of 0 cp0 "drop 2048 H" "d_buf st"] fits_le [OF room, of 0] by (simp add: flush_end_def runs_Nil)
next
  case False
  with inv obtain m where m: "BUFSIZE * m \<le> length S" "H @ S = H @ take (BUFSIZE * m) S @ take (d_fill st) (d_buf st)"
      "d_cp st = runs (take (bits_upto (47 * m) (header_bits H)) (header_bits H)) S cp0"
    and st: "d_bitmap st = drop 2048 H" "d_bitmaplg st = int lg" "d_blocks st = blk" "length (d_buf st) = BUFSIZE" "d_fill st \<le> BUFSIZE"
    by (auto simp: dec_inv_def)
  define k where "k = used_count (header_bits H) - 47 * m"
  have dr: "drop (BUFSIZE * m) S = take (d_fill st) (d_buf st)"
    using m(1,2) by (metis append_take_drop_id same_append_eq)
  have le: "47 * m \<le> used_count (header_bits H)" using m(1) S by (simp add: BUFSIZE_def)
  have "d_fill st = length S - BUFSIZE * m" using arg_cong [OF dr, of length] st(4,5) by simp
  then have fill: "d_fill st = 512 * k" using S by (simp add: k_def BUFSIZE_def diff_mult_distrib2)
  have buf: "take (512 * k) (d_buf st) = take (512 * k) (drop (512 * (47 * m)) S)"
    using dr fill by (simp add: BUFSIZE_def)
  have "sk_flush sk (d_buf st) (drop 2048 H) (512 * k) (d_cp st) =
      Inr (runs (take (bits_upto (47 * m + k) (header_bits H)) (header_bits H)) S cp0)"
    using st(4,5) fill le by (intro flush_more [OF m(3) cp0 _ _ _ room buf]) (auto simp: k_def)
  then show ?thesis using False st fill le by (simp add: flush_end_def k_def)
qed

lemma start_inv:
  "length buf = BUFSIZE \<Longrightarrow> dec_inv H S lg blk0 blk cp [] (start_state zl fi buf bm cp blk0)"
  by (simp add: dec_inv_def start_state_def)

lemma attempt_ok:
  assumes ok: "inflate_ok zl enc (H @ S)" and hd: "header_read sk H lg blk0 blk"
    and S: "length S = 512 * used_count (header_bits H)" and buf: "length buf = BUFSIZE" and cp0: "idx cp0 = 0"
    and room: "fits cp0 (bits_upto (used_count (header_bits H)) (header_bits H))"
  shows "\<exists>st'. attempt zl sk (start_state zl enc buf bm cp0 blk0) = Some (Inr (st', Z_STREAM_END)) \<and>
     d_bitmaplg st' = int lg \<and> d_blocks st' = blk \<and> d_cp st' = runs (used_bits (header_bits H)) S cp0 \<and>
     length (d_buf st') = BUFSIZE"
proof -
  let ?st = "start_state zl enc buf bm cp0 blk0"
  have init: "inflate_run zl (d_z ?st) [] [] False" by (simp add: start_state_def inflate_start)
  have inp: "[] @ d_in ?st @ d_fi ?st = enc" "d_in ?st \<noteq> [] \<or> d_fi ?st = []" "d_fill ?st < BUFSIZE"
    by (auto simp: start_state_def INSIZE_def BUFSIZE_def)
  obtain st1 c' where st1: "inflate_loop zl sk ?st = Some (Inr (st1, Z_STREAM_END))"
      "dec_inv H S lg blk0 blk cp0 (H @ S) st1" "inflate_run zl (d_z st1) c' (H @ S) True"
    using inflate_loop_ok [OF ok hd S cp0 room init inp(1,2) start_inv [OF buf] inp(3)] by auto
  have len: "length (d_buf st1) = BUFSIZE" using st1(2) by (simp add: dec_inv_def)
  obtain st2 where st2: "flush_end sk st1 = Inr st2" "d_z st2 = d_z st1" "d_fill st2 = 0" "d_bitmaplg st2 = int lg" "d_blocks st2 = blk"
      "d_cp st2 = runs (used_bits (header_bits H)) S cp0" "d_buf st2 = d_buf st1"
    using flush_end_ok [OF st1(2) hd S cp0 room] by blast
  obtain z' where "zinflate zl (d_z st2) (d_in st2) (BUFSIZE - d_fill st2) Z_FINISH = (z', 0, [], Z_STREAM_END)"
    using inflate_finishD [OF ok st1(3), of "BUFSIZE - d_fill st2"] st2(2,3) by (auto simp: BUFSIZE_def)
  then show ?thesis using st1(1) st2 len by (simp add: attempt_def inflate_call_def ret_run_def)
qed

end

end
