(* ===== verification/Decompress.thy ===== *)
theory Decompress
  imports Unpack
begin

text \<open>
  \<^verbatim>\<open>client/revimage/decompress.c\<close>: restoring one file of an image. The used sectors are written at the
  places the bitmap gives. Buffers keep the bytes they had; the bitmap is never read past its end
  without a fault.
\<close>

section \<open>The output file\<close>

text \<open>A file is its contents and the position in it. Writing past the end fills with zeros.\<close>

type_synonym ofile = "string \<times> nat"

definition write_at :: "string \<Rightarrow> nat \<Rightarrow> string \<Rightarrow> string" where
  "write_at data p bs = take p data @ replicate (p - length data) NUL @ bs @ drop (p + length bs) data"

definition file_write :: "string \<Rightarrow> ofile \<Rightarrow> ofile" where
  "file_write bs f = (case f of (data, p) \<Rightarrow> (write_at data p bs, p + length bs))"

definition eof :: "ofile \<Rightarrow> bool" where
  "eof f = (case f of (data, p) \<Rightarrow> length data = p)"

text \<open>At the end of the file zeros are written, 512 bytes at a time; elsewhere the bytes are skipped.\<close>

function fill_loop :: "nat \<Rightarrow> ofile \<Rightarrow> ofile" where
  "fill_loop bytes f =
     (if 512 < bytes then fill_loop (bytes - 512) (file_write (replicate 512 NUL) f)
      else file_write (replicate bytes NUL) f)"
  by pat_completeness auto
termination by (relation "measure fst") auto

declare fill_loop.simps [simp del]

definition fill :: "nat \<Rightarrow> ofile \<Rightarrow> ofile" where
  "fill bytes f = (if eof f then fill_loop bytes f else (case f of (data, p) \<Rightarrow> (data, p + bytes)))"

section \<open>Writing sectors\<close>

record dparams =
  bitindex :: nat
  fo :: "ofile option"
  offset :: u64

definition skip_one :: "dparams \<Rightarrow> dparams" where
  "skip_one cp = cp\<lparr>bitindex := bitindex cp + 1, offset := offset cp + 512, fo := map_option (fill 512) (fo cp)\<rparr>"

definition write_one :: "string \<Rightarrow> dparams \<Rightarrow> dparams" where
  "write_one sec cp = cp\<lparr>bitindex := bitindex cp + 1, offset := offset cp + 512, fo := map_option (file_write sec) (fo cp)\<rparr>"

function skip_unused :: "string \<Rightarrow> dparams \<Rightarrow> dparams res" where
  "skip_unused bm cp =
     (case bit_at bm (bitindex cp) of
        Inl e \<Rightarrow> Inl e
      | Inr True \<Rightarrow> Inr cp
      | Inr False \<Rightarrow> skip_unused bm (skip_one cp))"
  by pat_completeness auto
termination
  by (relation "measure (\<lambda>(bm, cp). 8 * length bm - bitindex cp)")
     (auto simp: skip_one_def bit_at_def split: if_splits)

declare skip_unused.simps [simp del]

text \<open>\<open>lg\<close> bytes of the buffer, sector by sector.\<close>

function flushToDisk :: "string \<Rightarrow> string \<Rightarrow> nat \<Rightarrow> dparams \<Rightarrow> dparams res" where
  "flushToDisk buff bm lg cp =
     (if lg = 0 then Inr cp
      else bind_res (skip_unused bm cp) (\<lambda>cp.
           if length buff < 512 then Inl OutOfBounds
           else flushToDisk (drop 512 buff) bm (lg - 512) (write_one (take 512 buff) cp)))"
  by pat_completeness auto
termination by (relation "measure (\<lambda>(buff, bm, lg, cp). lg)") auto

declare flushToDisk.simps [simp del]

section \<open>One attempt\<close>

text \<open>
  The number of blocks goes to \<^verbatim>\<open>/tmp/blocks\<close>, 0 if no number follows.
\<close>

definition write_blocks :: "string \<Rightarrow> int option \<Rightarrow> int option" where
  "write_blocks s old =
     (if strstr s ''BLOCKS='' \<noteq> None then Some (case scan_after ''BLOCKS='' s of None \<Rightarrow> 0 | Some i \<Rightarrow> i) else old)"

definition disk_sink :: "dparams sink" where
  "disk_sink = \<lparr>sk_flush = flushToDisk, sk_rewind = bitindex_update (\<lambda>_. 0), sk_blocks = write_blocks\<rparr>"

text \<open>The sectors that remain after the last used one.\<close>

definition remaining_bits :: "('i, dparams) dstate \<Rightarrow> nat" where
  "remaining_bits st = (if d_bitmaplg st \<noteq> 0 then nat (d_bitmaplg st * 8 - int (bitindex (d_cp st))) else 0)"

definition finish_restore :: "('i, dparams) dstate \<Rightarrow> ('i, dparams) dstate" where
  "finish_restore st =
     (let n = remaining_bits st; cp = d_cp st
      in if 0 < n
         then st\<lparr>d_cp := cp\<lparr>offset := offset cp + of_nat (512 * n), fo := map_option (fill (512 * n)) (fo cp)\<rparr>\<rparr>
         else st)"

definition start_params :: "string option \<Rightarrow> u64 \<Rightarrow> dparams" where
  "start_params data off =
     \<lparr>bitindex = 0, fo = map_option (\<lambda>d. (d, unat off)) data, offset = (if data = None then 0 else off)\<rparr>"

text \<open>
  A failed attempt is repeated from the start, with the buffers, the output and \<^verbatim>\<open>/tmp/blocks\<close> as they
  are. The result is the output, the offset written to \<^verbatim>\<open>/tmp/offset\<close> and the number of blocks.
\<close>

partial_function (option) decompress ::
    "('z, 'i) zlib \<Rightarrow> string \<Rightarrow> string \<Rightarrow> string \<Rightarrow> string option \<Rightarrow> u64 \<Rightarrow> int option \<Rightarrow> (string option \<times> u64 \<times> int option) run" where
  "decompress zl fi buf bitmap data off blocks =
     (case attempt zl disk_sink (start_state zl fi buf bitmap (start_params data off) blocks) of
        None \<Rightarrow> None
      | Some (Inl e) \<Rightarrow> Some (Inl e)
      | Some (Inr (st, ret)) \<Rightarrow>
          if failed ret then decompress zl fi (d_buf st) (d_bitmap st) (map_option fst (fo (d_cp st))) off (d_blocks st)
          else (let cp = d_cp (finish_restore st)
                in Some (Inr (map_option fst (fo cp), offset cp, d_blocks st))))"

section \<open>Sectors in a row\<close>

text \<open>What the bits and the data of the used sectors do to the output.\<close>

fun run_bits :: "bool list \<Rightarrow> string \<Rightarrow> dparams \<Rightarrow> dparams" where
  "run_bits [] src cp = cp"
| "run_bits (b # bs) src cp =
     (if b then run_bits bs (drop 512 src) (write_one (take 512 src) cp) else run_bits bs src (skip_one cp))"

lemma run_bits_append: "run_bits (a @ b) src cp = run_bits b (drop (512 * used_count a) src) (run_bits a src cp)"
  by (induction a arbitrary: src cp) (auto simp: algebra_simps)

lemma run_bits_cong:
  "take (512 * used_count bs) src = take (512 * used_count bs) src' \<Longrightarrow> run_bits bs src cp = run_bits bs src' cp"
proof (induction bs arbitrary: src src' cp)
  case (Cons b bs)
  show ?case
  proof (cases b)
    case True
    let ?n = "512 * used_count bs"
    have eq: "take (512 + ?n) src = take (512 + ?n) src'" using Cons.prems True by simp
    have fst: "take 512 src = take 512 src'"
      using arg_cong [OF eq, where f = "take 512"] by (simp add: min_def)
    have "take ?n (drop 512 src) = take ?n (drop 512 src')"
      using arg_cong [OF eq, where f = "drop 512"] by (simp add: drop_take)
    then have "run_bits bs (drop 512 src) c = run_bits bs (drop 512 src') c" for c by (rule Cons.IH)
    with True fst show ?thesis by (simp only: run_bits.simps if_True)
  next
    case False
    have "run_bits bs src c = run_bits bs src' c" for c
      using Cons.prems False by (intro Cons.IH) (simp only: used_count_simps if_False)
    with False show ?thesis by (simp only: run_bits.simps if_False)
  qed
qed simp

lemma bitindex_run_bits [simp]: "bitindex (run_bits bs src cp) = bitindex cp + length bs"
  by (induction bs arbitrary: src cp) (auto simp: write_one_def skip_one_def)

lemma offset_run_bits [simp]: "offset (run_bits bs src cp) = offset cp + of_nat (512 * length bs)"
  by (induction bs arbitrary: src cp) (auto simp: write_one_def skip_one_def algebra_simps)

lemma skip_unused_spec:
  "0 < used_count (drop (bitindex cp) (bits_of bm)) \<Longrightarrow>
   skip_unused bm cp = Inr (run_bits (takeWhile Not (drop (bitindex cp) (bits_of bm))) src cp)"
proof (induction bm cp rule: skip_unused.induct)
  case (1 bm cp)
  let ?i = "bitindex cp" and ?bs = "bits_of bm"
  have i: "?i < 8 * length bm" using "1.prems" by (cases "?i < 8 * length bm") auto
  then have d: "drop ?i ?bs = ?bs ! ?i # drop (Suc ?i) ?bs" by (simp add: Cons_nth_drop_Suc)
  show ?case
  proof (cases "?bs ! ?i")
    case True
    then show ?thesis using d i by (subst skip_unused.simps) (simp add: bit_at_bits)
  next
    case False
    then have "0 < used_count (drop (bitindex (skip_one cp)) ?bs)" using "1.prems" d by (simp add: skip_one_def)
    from "1.IH" [OF _ _ this] False i have
      "skip_unused bm (skip_one cp) = Inr (run_bits (takeWhile Not (drop (Suc ?i) ?bs)) src (skip_one cp))"
      by (simp add: bit_at_bits skip_one_def)
    with False d i show ?thesis by (subst skip_unused.simps) (simp add: bit_at_bits)
  qed
qed

lemma flush_spec:
  "k \<le> used_count (drop (bitindex cp) (bits_of bm)) \<Longrightarrow> 512 * k \<le> length buff \<Longrightarrow>
   flushToDisk buff bm (512 * k) cp =
     Inr (run_bits (take (bits_upto k (drop (bitindex cp) (bits_of bm))) (drop (bitindex cp) (bits_of bm))) buff cp)"
proof (induction k arbitrary: buff cp)
  case 0
  then show ?case by (subst flushToDisk.simps) simp
next
  case (Suc k)
  define bs where "bs = drop (bitindex cp) (bits_of bm)"
  define u where "u = takeWhile Not bs"
  have pos: "0 < used_count bs" using Suc.prems(1) by (simp add: bs_def)
  have bs: "bs = u @ True # drop (Suc (length u)) bs" using first_used [OF pos] by (simp add: u_def)
  define cp1 where "cp1 = run_bits u buff cp"
  define cp2 where "cp2 = write_one (take 512 buff) cp1"
  have skip: "skip_unused bm cp = Inr cp1"
    using skip_unused_spec [of cp bm buff] pos by (simp add: cp1_def u_def bs_def)
  have idx: "bitindex cp2 = bitindex cp + Suc (length u)" by (simp add: cp2_def cp1_def write_one_def)
  then have rest: "drop (bitindex cp2) (bits_of bm) = drop (Suc (length u)) bs" by (simp add: bs_def add.commute)
  have "used_count bs = Suc (used_count (drop (Suc (length u)) bs))"
    by (subst bs) (simp add: u_def)
  then have k: "k \<le> used_count (drop (bitindex cp2) (bits_of bm))" using Suc.prems(1) rest by (simp add: bs_def)
  have IH: "flushToDisk (drop 512 buff) bm (512 * k) cp2 =
      Inr (run_bits (take (bits_upto k (drop (Suc (length u)) bs)) (drop (Suc (length u)) bs)) (drop 512 buff) cp2)"
    using Suc.IH [OF k, of "drop 512 buff"] Suc.prems(2) rest by simp
  have "take (bits_upto (Suc k) bs) bs = u @ True # take (bits_upto k (drop (Suc (length u)) bs)) (drop (Suc (length u)) bs)"
    (is "_ = u @ True # take ?n ?r")
  proof -
    have "take (Suc (length u) + ?n) (u @ True # ?r) = u @ True # take ?n ?r" by simp
    with bs bits_upto_Suc [OF pos, of k] show ?thesis by (simp only: u_def [symmetric])
  qed
  then have "run_bits (take (bits_upto (Suc k) bs) bs) buff cp =
      run_bits (take (bits_upto k (drop (Suc (length u)) bs)) (drop (Suc (length u)) bs)) (drop 512 buff) cp2"
    by (simp add: run_bits_append cp2_def cp1_def u_def)
  with IH skip Suc.prems(2) show ?case
    by (subst flushToDisk.simps) (simp add: cp2_def bs_def)
qed

interpretation file_sink: sector_sink disk_sink bitindex run_bits "\<lambda>_ _. True"
proof
  fix cp :: dparams
  show "bitindex cp = 0 \<Longrightarrow> sk_rewind disk_sink cp = cp" by (cases cp) (simp add: disk_sink_def)
  fix bs src src'
  show "take (512 * used_count bs) src = take (512 * used_count bs) src' \<Longrightarrow> run_bits bs src cp = run_bits bs src' cp"
    by (rule run_bits_cong)
qed (simp_all add: disk_sink_def flush_spec run_bits_append)

section \<open>The contents of the output\<close>

lemma fill_loop_eof: "length d = p \<Longrightarrow> fill_loop n (d, p) = (d @ replicate n NUL, p + n)"
proof (induction n "(d, p)" arbitrary: d p rule: fill_loop.induct)
  case (1 n)
  show ?case
  proof (cases "512 < n")
    case True
    have "file_write (replicate 512 NUL) (d, p) = (d @ replicate 512 NUL, p + 512)"
      using "1.prems" by (simp add: file_write_def write_at_def)
    with "1.hyps" [OF True] "1.prems" True show ?thesis
      by (subst fill_loop.simps) (simp flip: replicate_add)
  next
    case False
    then show ?thesis using "1.prems" by (subst fill_loop.simps) (simp add: file_write_def write_at_def)
  qed
qed

lemma fill_eq: "fill n (d, p) = (if length d = p then d @ replicate n NUL else d, p + n)"
  by (simp add: fill_def eof_def fill_loop_eof)

lemma length_write_at: "length (write_at d p bs) = max (length d) (p + length bs)"
  by (auto simp: write_at_def)

lemma nth_write_at:
  assumes "q < max (length d) (p + length bs)"
  shows "write_at d p bs ! q =
     (if q < p then if q < length d then d ! q else NUL else if q < p + length bs then bs ! (q - p) else d ! q)"
  using assms by (auto simp: write_at_def nth_append min_def)

text \<open>\<open>keeps a b R\<close>: the bytes of \<open>a\<close> at positions outside \<open>R\<close> are still there in \<open>b\<close>.\<close>

definition keeps :: "string \<Rightarrow> string \<Rightarrow> nat set \<Rightarrow> bool" where
  "keeps a b R \<longleftrightarrow> length a \<le> length b \<and> (\<forall>q < length a. q \<notin> R \<longrightarrow> b ! q = a ! q)"

lemma keeps_refl [simp]: "keeps a a R"
  by (simp add: keeps_def)

lemma keeps_trans: "keeps a b R \<Longrightarrow> keeps b c S \<Longrightarrow> keeps a c (R \<union> S)"
  by (auto simp: keeps_def)

lemma keeps_mono: "keeps a b R \<Longrightarrow> R \<subseteq> S \<Longrightarrow> keeps a b S"
  by (auto simp: keeps_def)

lemma keeps_write_at: "length bs = n \<Longrightarrow> keeps d (write_at d p bs) {p ..< p + n}"
  by (auto simp: keeps_def length_write_at nth_write_at)

lemma keeps_fill: "fill n (d, p) = (d', p') \<Longrightarrow> keeps d d' {}"
  by (auto simp: fill_eq keeps_def nth_append)

lemma keeps_sector:
  assumes "keeps a b R" "p + 512 \<le> length a" "R \<inter> {p ..< p + 512} = {}"
  shows "sector_at b p = sector_at a p"
proof (rule nth_equalityI)
  show "length (sector_at b p) = length (sector_at a p)"
    using assms by (auto simp: keeps_def length_sector)
  fix i assume "i < length (sector_at b p)"
  then have i: "i < 512" by (simp add: sector_at_def)
  then have "p + i \<notin> R" using assms(3) by auto
  with assms(1,2) i show "sector_at b p ! i = sector_at a p ! i"
    by (simp add: sector_at_def keeps_def)
qed

lemma sector_write_at: "length bs = 512 \<Longrightarrow> sector_at (write_at d p bs) p = bs"
  by (simp add: sector_at_def write_at_def min_def)

text \<open>The bytes the used sectors occupy, for bits that start at position \<open>p\<close>.\<close>

fun used_area :: "nat \<Rightarrow> bool list \<Rightarrow> nat set" where
  "used_area p [] = {}"
| "used_area p (b # bs) = (if b then {p ..< p + 512} else {}) \<union> used_area (p + 512) bs"

lemma used_area_append: "used_area q (a @ b) = used_area q a \<union> used_area (q + 512 * length a) b"
  by (induction a arbitrary: q) (auto simp: algebra_simps)

lemma used_area_above: "q \<in> used_area p bs \<Longrightarrow> p \<le> q"
  by (induction bs arbitrary: p) (auto split: if_splits dest: add_leD1)

fun place :: "bool list \<Rightarrow> string \<Rightarrow> ofile \<Rightarrow> ofile" where
  "place [] src f = f"
| "place (b # bs) src f = (if b then place bs (drop 512 src) (file_write (take 512 src) f) else place bs src (fill 512 f))"

lemma fo_run_bits: "fo (run_bits bs src cp) = map_option (place bs src) (fo cp)"
proof (induction bs arbitrary: src cp)
  case (Cons b bs)
  then show ?case by (cases "fo cp") (auto simp: write_one_def skip_one_def)
qed (simp add: option.map_ident [unfolded id_def] cong: option.map_cong)

text \<open>Sectors come to their places, everything else stays.\<close>

lemma place_spec:
  "sectors_ok disk p0 bs \<Longrightarrow> src = used_data disk p0 bs \<Longrightarrow> place bs src (d, p) = (d', p') \<Longrightarrow>
   p' = p + 512 * length bs \<and> keeps d d' (used_area p bs) \<and>
   (\<forall>i < length bs. bs ! i \<longrightarrow> p + 512 * i + 512 \<le> length d' \<and> sector_at d' (p + 512 * i) = sector_at disk (p0 + 512 * i))"
proof (induction bs arbitrary: p0 src d p)
  case Nil
  then show ?case by simp
next
  case (Cons b bs)
  obtain d1 where d1: "place bs (used_data disk (p0 + 512) bs) (d1, p + 512) = (d', p')"
    "keeps d d1 (if b then {p ..< p + 512} else {})"
    "b \<Longrightarrow> p + 512 \<le> length d1 \<and> sector_at d1 p = sector_at disk p0"
  proof (cases b)
    case True
    have len: "length (sector_at disk p0) = 512" using Cons.prems(1) True by (simp add: length_sector)
    then have "place bs (used_data disk (p0 + 512) bs) (write_at d p (sector_at disk p0), p + 512) = (d', p')"
      using Cons.prems(2,3) True by (simp add: file_write_def)
    then show ?thesis using that [of "write_at d p (sector_at disk p0)"] True len
      by (simp add: keeps_write_at sector_write_at length_write_at)
  next
    case False
    obtain d1 where "fill 512 (d, p) = (d1, p + 512)" by (simp add: fill_eq)
    then show ?thesis using that [of d1] Cons.prems(2,3) False keeps_fill by simp
  qed
  note IH = Cons.IH [OF _ refl d1(1)]
  have ok: "sectors_ok disk (p0 + 512) bs" using Cons.prems(1) by simp
  have above: "used_area (p + 512) bs \<inter> {p ..< p + 512} = {}" using used_area_above [of _ "p + 512" bs] by fastforce
  have zero: "b \<Longrightarrow> p + 512 \<le> length d' \<and> sector_at d' p = sector_at disk p0"
    using IH [OF ok] d1(3) keeps_sector [OF _ _ above, of d1 d'] by (auto simp: keeps_def)
  have "keeps d d' (used_area p (b # bs))" using keeps_trans [OF d1(2)] IH [OF ok] by simp
  moreover have "p + 512 * i + 512 \<le> length d' \<and> sector_at d' (p + 512 * i) = sector_at disk (p0 + 512 * i)"
    if "i < length (b # bs)" "(b # bs) ! i" for i
    using that zero IH [OF ok] by (cases i) (auto simp: algebra_simps)
  ultimately show ?case using IH [OF ok] by (simp add: algebra_simps)
qed

section \<open>One file is restored\<close>

text \<open>
  The sectors of a piece of bitmap \<open>bits\<close> that starts at \<open>p0\<close> on the saved volume and at \<open>p\<close> in
  the output: the used ones are as on the volume, all other bytes of the output are kept.
\<close>

definition restored :: "string \<Rightarrow> nat \<Rightarrow> bool list \<Rightarrow> string \<Rightarrow> nat \<Rightarrow> string \<Rightarrow> bool" where
  "restored disk p0 bits data p data' \<longleftrightarrow> keeps data data' (used_area p bits) \<and>
     (\<forall>i < length bits. bits ! i \<longrightarrow>
        p + 512 * i + 512 \<le> length data' \<and> sector_at data' (p + 512 * i) = sector_at disk (p0 + 512 * i))"

lemma unused_tail:
  assumes "used_count (drop n bs) = 0"
  shows "used_data disk p bs = used_data disk p (take n bs)" "used_area p bs = used_area p (take n bs)"
    "sectors_ok disk p bs = sectors_ok disk p (take n bs)" "\<And>i. i < length bs \<Longrightarrow> bs ! i \<Longrightarrow> i < n"
proof -
  have none: "used_count cs = 0 \<Longrightarrow> used_data disk q cs = [] \<and> used_area q cs = {} \<and> sectors_ok disk q cs" for cs q
    by (induction cs arbitrary: q) auto
  show "used_data disk p bs = used_data disk p (take n bs)"
    using none [OF assms] by (metis append.right_neutral append_take_drop_id used_data_append)
  show "used_area p bs = used_area p (take n bs)"
    using none [OF assms] by (metis append_take_drop_id sup_bot.right_neutral used_area_append)
  show "sectors_ok disk p bs = sectors_ok disk p (take n bs)"
    using none [OF assms] by (metis append_take_drop_id sectors_ok_append)
  fix i assume i: "i < length bs" "bs ! i"
  show "i < n"
  proof (rule ccontr)
    assume "\<not> i < n"
    with i have "drop n bs ! (i - n)" "i - n < length (drop n bs)" by auto
    then have "True \<in> set (drop n bs)" by (metis (full_types) nth_mem)
    then have "0 < used_count (drop n bs)" by (auto simp: used_count_def filter_empty_conv)
    with assms show False by simp
  qed
qed

text \<open>The restoration of a file that decodes to the header \<open>H\<close> and the used sectors.\<close>

lemma decompress_ok:
  assumes ok: "inflate_ok zl enc (H @ used_data disk p0 (header_bits H))" and hd: "header_read disk_sink H lg blk0 blk"
    and sec: "sectors_ok disk p0 (header_bits H)" and pad: "used_count (drop (8 * lg) (header_bits H)) = 0"
    and lg: "8 * lg \<le> length (header_bits H)" and buf: "length buf = BUFSIZE"
  shows "\<exists>data'. decompress zl enc buf bm (Some data) off blk0 = Some (Inr (Some data', off + of_nat (4096 * lg), blk)) \<and>
     restored disk p0 (take (8 * lg) (header_bits H)) data (unat off) data'"
proof -
  define bs where "bs = header_bits H"
  define S where "S = used_data disk p0 bs"
  define n where "n = bits_upto (used_count bs) bs"
  let ?cp = "start_params (Some data) off"
  have S: "length S = 512 * used_count bs" using length_used_data sec by (simp add: S_def bs_def)
  obtain st' where st': "attempt zl disk_sink (start_state zl enc buf bm ?cp blk0) = Some (Inr (st', Z_STREAM_END))" "d_bitmaplg st' = int lg" "d_blocks st' = blk"
      "d_cp st' = run_bits (take n bs) S ?cp"
    using file_sink.attempt_ok [OF ok [folded bs_def, folded S_def] hd _ buf, of ?cp bm] S
    by (auto simp: bs_def n_def start_params_def)
  have nle: "n \<le> 8 * lg"
  proof -
    have "used_count (take (8 * lg) bs) = used_count bs"
      using pad by (metis add.right_neutral append_take_drop_id bs_def used_count_simps(3))
    then have "bits_upto (used_count bs) bs \<le> 8 * lg"
      using bits_upto_take [of "8 * lg" bs "used_count bs"] bits_upto_le [of "used_count bs" "take (8 * lg) bs"] lg
      by (simp add: bs_def)
    then show ?thesis by (simp add: n_def)
  qed
  then have nlen: "length (take n bs) = n" using lg by (simp add: bs_def)
  obtain d1 p1 where d1: "place (take n bs) S (data, unat off) = (d1, p1)" by fastforce
  have tail: "used_count (drop n bs) = 0" using unused_after by (simp add: n_def)
  have sp: "p1 = unat off + 512 * n" "keeps data d1 (used_area (unat off) (take n bs))"
    "\<forall>i < n. bs ! i \<longrightarrow> unat off + 512 * i + 512 \<le> length d1 \<and> sector_at d1 (unat off + 512 * i) = sector_at disk (p0 + 512 * i)"
    using place_spec [OF _ _ d1, of disk p0] sec unused_tail(1,3) [OF tail, of disk p0] nlen by (auto simp: S_def bs_def)
  have cp: "fo (d_cp st') = Some (d1, p1)" "bitindex (d_cp st') = n" "offset (d_cp st') = off + of_nat (512 * n)"
    using st'(4) d1 nlen by (simp_all add: fo_run_bits start_params_def)
  have rem: "remaining_bits st' = 8 * lg - n" using st'(2) cp(2) nle by (auto simp: remaining_bits_def)
  define data' where "data' = (if 0 < 8 * lg - n then fst (fill (512 * (8 * lg - n)) (d1, p1)) else d1)"
  have k: "keeps d1 data' {}" by (auto simp: data'_def keeps_def fill_eq nth_append)
  have off': "off + of_nat (512 * n) + of_nat (512 * (8 * lg - n)) = off + of_nat (4096 * lg)"
    using nle by (simp flip: of_nat_add add: algebra_simps)
  have "decompress zl enc buf bm (Some data) off blk0 = Some (Inr (Some data', off + of_nat (4096 * lg), blk))"
    using st'(1,3) cp rem nle off'
    by (subst decompress.simps) (auto simp: finish_restore_def failed_def Let_def data'_def fill_eq)
  moreover have "restored disk p0 (take (8 * lg) bs) data (unat off) data'"
  proof -
    have area: "used_area (unat off) (take (8 * lg) bs) = used_area (unat off) (take n bs)"
      using unused_tail(2) [of "8 * lg" bs "unat off"] unused_tail(2) [OF tail, of "unat off"] pad by (simp add: bs_def)
    have "unat off + 512 * i + 512 \<le> length data' \<and> sector_at data' (unat off + 512 * i) = sector_at disk (p0 + 512 * i)"
      if "i < length (take (8 * lg) bs)" "take (8 * lg) bs ! i" for i
    proof -
      have i: "i < n" "bs ! i" using that unused_tail(4) [OF tail, of i] by auto
      with sp(3) k keeps_sector [OF k, of "unat off + 512 * i"] show ?thesis by (auto simp: keeps_def)
    qed
    moreover have "keeps data data' (used_area (unat off) (take n bs))"
      using keeps_trans [OF sp(2) k] by simp
    ultimately show ?thesis by (simp add: restored_def area)
  qed
  ultimately show ?thesis by (auto simp: bs_def)
qed

section \<open>Headers\<close>

text \<open>The key of the bitmap size does not occur in a text, nor across its end.\<close>

definition unmarked :: "string \<Rightarrow> bool" where
  "unmarked s \<longleftrightarrow> NUL \<notin> set s \<and> strstr (s @ ''ALLOCTABLELG='') ''ALLOCTABLELG='' = Some ''ALLOCTABLELG=''"

lemma header_text_NUL: "unmarked (first @ fs) \<Longrightarrow> NUL \<notin> set (header_text first fs lg)"
  using show_nat_digits [of NUL lg] by (auto simp: header_text_def unmarked_def isdigit_def)

lemma strstr_alloctable:
  "unmarked (first @ fs) \<Longrightarrow> strstr (header_text first fs lg) ''ALLOCTABLELG='' = Some (''ALLOCTABLELG='' @ show_nat lg @ [NL])"
  using strstr_extend [of "first @ fs" "''ALLOCTABLELG=''" "show_nat lg @ [NL]"] by (simp add: header_text_def unmarked_def)

lemma header_text_clean:
  assumes "unmarked (first @ fs)" "length (header_text first fs (length bm)) < HEADERLG" "length bm \<le> ALLOCLG"
  shows "header_read sk (image_header (header_text first fs (length bm)) bm) (length bm) blk0
     (sk_blocks sk (header_text first fs (length bm)) blk0)"
proof -
  let ?t = "header_text first fs (length bm)"
  let ?H = "image_header ?t bm"
  have nul: "NUL \<notin> set ?t" by (rule header_text_NUL [OF assms(1)])
  obtain k where k: "HEADERLG - length ?t = Suc k" using assms(2) by (metis Suc_diff_Suc)
  have "buffer_str ?H = Inr ?t" using nul by (simp add: buffer_str_def image_header_def k)
  moreover note strstr_alloctable [OF assms(1), of "length bm"]
  then have "scan_after ''ALLOCTABLELG='' ?t = Some (int (length bm))"
    using scan_int_show_nat [of "[NL]" "length bm"] assms(3)
    by (simp add: scan_after_def ALLOCLG_def TOTALLG_def HEADERLG_def isdigit_def)
  moreover have "length ?H = BUFSIZE" using length_image_header [of ?t bm] assms(2,3) by (simp add: BUFSIZE_def TOTALLG_def)
  ultimately show ?thesis unfolding header_read_def by blast
qed

end
