(* ===== verification/Save_Restore.thy ===== *)
theory Save_Restore
  imports Decompress
begin

text \<open>
  Saving and restoring a volume: what \<open>compress_volume\<close> writes, \<open>decompress\<close>, run on the files in
  order with the offset each run leaves for the next, puts back.
\<close>

section \<open>The plain contents of the files\<close>

fun file_plain :: "(nat \<Rightarrow> string) \<Rightarrow> string \<Rightarrow> nat \<Rightarrow> nat \<Rightarrow> string \<Rightarrow> string \<Rightarrow> nat \<Rightarrow> string list" where
  "file_plain fs disk i 0 first bm p = []"
| "file_plain fs disk i (Suc n) first bm p =
     (let b = take ALLOCLG bm
      in (image_header (header_text first (fs i) (length b)) b @ used_data disk p (bits_of b)) #
         file_plain fs disk (i + 1) n [] (drop ALLOCLG bm) (p + 4096 * length b))"

text \<open>The options of the files, and that they and the info string leave the headers readable.\<close>

definition options_clean :: "string option \<Rightarrow> string \<Rightarrow> (nat \<Rightarrow> string) \<Rightarrow> bool" where
  "options_clean opts info fs \<longleftrightarrow>
     (\<forall>i. filestring opts i = Inr (fs i) \<and> unmarked (fs i)) \<and> unmarked (info @ fs 0)"

lemma options_loop_length: "options_loop num ls = Inr s \<Longrightarrow> \<forall>l \<in> set ls. length l < 400 \<Longrightarrow> length s < 400"
proof (induction ls)
  case (Cons l ls)
  have "length (cstr l) < 400" using Cons.prems(2) le_less_trans [OF length_cstr] by simp
  with Cons show ?case by (auto simp: Let_def split: if_splits)
qed simp

lemma filestring_length: "filestring opts i = Inr s \<Longrightarrow> length s < 400"
  by (auto simp: filestring_def split: option.splits dest!: options_loop_length intro: fgets_all_length)

lemma header_fits:
  assumes "length first < 200" "length f < 400" "length b \<le> ALLOCLG"
  shows "length (header_text first f (length b)) < HEADERLG"
proof -
  have "length (show_nat (length b)) \<le> 5"
    using assms(3) by (intro length_show_nat) (auto simp: ALLOCLG_def TOTALLG_def HEADERLG_def)
  with assms show ?thesis by (simp add: header_text_def HEADERLG_def)
qed

text \<open>
  What is on a disk with too little room: the tail of a file that \<open>fclose\<close> could not write is missing.
  \<open>write_fails\<close> tells that a call of \<open>fwrite\<close> fails before.
\<close>

fun cut_files :: "space \<Rightarrow> string list \<Rightarrow> string list" where
  "cut_files cap [] = []"
| "cut_files (room, hold) (f # files) = take room f # cut_files (room - length f, hold) files"

fun write_fails :: "space \<Rightarrow> string list \<Rightarrow> bool" where
  "write_fails cap [] \<longleftrightarrow> False"
| "write_fails (room, hold) (f # files) \<longleftrightarrow> noticed (room, hold) 0 (length f) \<or> write_fails (room - length f, hold) files"

lemma save_files_sat:
  assumes zl: "zlib_ok zl" "level_ok lev" and fs: "options_clean opts info fs"
  shows "length first < 200 \<Longrightarrow> length (s_buf s) = TOTALLG \<Longrightarrow> sectors_ok disk (s_pos s) (bits_of bm) \<Longrightarrow>
     length bm \<le> n * ALLOCLG \<Longrightarrow>
     \<exists>files s'. save_files zl lev opts None disk i n first bm s = Some (Inr (files, s')) \<and>
       list_all2 (encodes zl) files (file_plain fs disk i n first bm (s_pos s)) \<and>
       s_pos s' = s_pos s + 4096 * length bm \<and> s_bytes s' = s_bytes s + of_nat (4096 * length bm) \<and> s_errors s' = s_errors s \<and>
       (\<forall>cap. save_files zl lev opts (Some cap) disk i n first bm s =
          Some (if write_fails cap files then Inl (Exit 1) else Inr (cut_files cap files, s')))"
proof (induction n arbitrary: i first bm s)
  case 0
  then show ?case by (simp add: ret_run_def)
next
  case (Suc n)
  let ?b = "take ALLOCLG bm"
  let ?D = "image_header (header_text first (fs i) (length ?b)) ?b @ used_data disk (s_pos s) (bits_of ?b)"
  have bits: "bits_of bm = bits_of ?b @ bits_of (drop ALLOCLG bm)"
    by (metis append_take_drop_id bits_of_def concat_append map_append)
  have ok: "sectors_ok disk (s_pos s) (bits_of ?b)" "sectors_ok disk (s_pos s + 4096 * length ?b) (bits_of (drop ALLOCLG bm))"
    using Suc.prems(3) by (auto simp: bits sectors_ok_append)
  have f: "filestring opts i = Inr (fs i)" using fs by (simp add: options_clean_def)
  have fit: "length (header_text first (fs i) (length ?b)) \<le> HEADERLG"
    using header_fits [OF Suc.prems(1) filestring_length [OF f], of ?b] by simp
  have "run_sat [] fst (\<lambda>cap. save_file zl lev opts cap disk i first ?b s)
     (file_result zl (s_bytes s - of_nat (s_pos s)) (s_errors s) (s_pos s + 4096 * length ?b) ?D)"
    using Suc.prems(2) ok(1) by (intro save_file_sat [OF zl f fit]) auto
  then obtain f s1 where one: "save_file zl lev opts None disk i first ?b s = Some (Inr (f, s1))"
      "\<And>cap. save_file zl lev opts (Some cap) disk i first ?b s =
        Some (if noticed cap 0 (length f) then Inl (Exit 1) else Inr (f, s1))"
      and s1: "s_pos s1 = s_pos s + 4096 * length ?b" "s_bytes s1 = s_bytes s + of_nat (4096 * length ?b)"
        "length (s_buf s1) = TOTALLG" "s_errors s1 = s_errors s" and enc: "encodes zl f ?D"
    by (auto simp: run_sat_def file_result_def algebra_simps)
  obtain files s' where IH: "save_files zl lev opts None disk (i + 1) n [] (drop ALLOCLG bm) s1 = Some (Inr (files, s'))"
      "list_all2 (encodes zl) files (file_plain fs disk (i + 1) n [] (drop ALLOCLG bm) (s_pos s1))"
      "s_pos s' = s_pos s1 + 4096 * length (drop ALLOCLG bm)" "s_bytes s' = s_bytes s1 + of_nat (4096 * length (drop ALLOCLG bm))"
      "s_errors s' = s_errors s1"
      "\<And>cap. save_files zl lev opts (Some cap) disk (i + 1) n [] (drop ALLOCLG bm) s1 =
        Some (if write_fails cap files then Inl (Exit 1) else Inr (cut_files cap files, s'))"
  proof -
    have "length (drop ALLOCLG bm) \<le> n * ALLOCLG" "sectors_ok disk (s_pos s1) (bits_of (drop ALLOCLG bm))"
      using Suc.prems(4) ok(2) s1(1) by simp_all
    from Suc.IH [OF _ s1(3) this(2,1), of "[]" "i + 1"] that show ?thesis by fastforce
  qed
  have len: "length bm = length ?b + length (drop ALLOCLG bm)" by simp
  then have tot: "4096 * length bm = 4096 * length ?b + 4096 * length (drop ALLOCLG bm)" by simp
  have lim: "save_files zl lev opts (Some cap) disk i (Suc n) first bm s =
      Some (if write_fails cap (f # files) then Inl (Exit 1) else Inr (cut_files cap (f # files), s'))" for cap
    using IH(6) by (cases cap) (auto simp: one fclose_def space_left_def ret_run_def)
  show ?case
    using one(1) IH(1-5) s1 enc lim
    by (intro exI [of _ "f # files"] exI [of _ s'])
       (simp add: ret_run_def Let_def tot del: length_drop length_take save_files.simps(2) cut_files.simps write_fails.simps,
        simp add: ret_run_def)
qed

section \<open>Restoring the files in order\<close>

text \<open>
  Each run of \<open>decompress\<close> is a new process with cleared buffers; it writes to the same output at
  the offset the run before left.
\<close>

fun restore_files :: "('z, 'i) zlib \<Rightarrow> string list \<Rightarrow> string \<Rightarrow> u64 \<Rightarrow> (string \<times> u64) run" where
  "restore_files zl [] data off = ret_run (data, off)"
| "restore_files zl (f # files) data off =
     bind_run (decompress zl f (replicate BUFSIZE NUL) (replicate ALLOCLG NUL) (Some data) off None) (\<lambda>(data, off, _).
       case data of None \<Rightarrow> Some (Inl NullDeref) | Some data \<Rightarrow> restore_files zl files data off)"

lemma bits_of_append [simp]: "bits_of (a @ b) = bits_of a @ bits_of b"
  by (simp add: bits_of_def)

lemma bits_of_zeros: "bits_of (replicate n NUL) = replicate (8 * n) False"
  by (induction n) (auto simp: byte_bits_def numeral_eq_Suc)

lemma used_replicate_False: "used_count (replicate n False) = 0"
  by (induction n) auto

lemma header_bits_image:
  assumes "length txt \<le> HEADERLG"
  shows "header_bits (image_header txt b) = bits_of b @ replicate (8 * (ALLOCLG - length b)) False"
proof -
  have "drop 2048 (image_header txt b) = b @ replicate (ALLOCLG - length b) NUL"
    using assms by (simp add: image_header_def HEADERLG_def)
  then show ?thesis by (simp add: bits_of_zeros)
qed

lemma decompress_file:
  assumes enc: "encodes zl f (image_header (header_text first g (length b)) b @ used_data disk p0 (bits_of b))"
    and clean: "unmarked (first @ g)" and len: "length first < 200" "length g < 400" "length b \<le> ALLOCLG"
    and ok: "sectors_ok disk p0 (bits_of b)"
  shows "\<exists>data' blk. decompress zl f (replicate BUFSIZE NUL) bm (Some data) off blk0 =
       Some (Inr (Some data', off + of_nat (4096 * length b), blk)) \<and>
     restored disk p0 (bits_of b) data (unat off) data'"
proof -
  let ?t = "header_text first g (length b)"
  let ?H = "image_header ?t b"
  have fit: "length ?t < HEADERLG" by (rule header_fits [OF len])
  obtain blk where hd: "header_read disk_sink ?H (length b) blk0 blk"
    using header_text_clean [OF clean fit len(3)] by blast
  have hb: "header_bits ?H = bits_of b @ replicate (8 * (ALLOCLG - length b)) False"
    using fit by (intro header_bits_image) simp
  note tail = used_replicate_False [of "8 * (ALLOCLG - length b)"]
  have drop: "used_count (drop (8 * length b) (header_bits ?H)) = 0" by (simp add: hb tail)
  note ut = unused_tail(1,3) [OF drop, of disk p0]
  have "used_data disk p0 (header_bits ?H) = used_data disk p0 (bits_of b)" "sectors_ok disk p0 (header_bits ?H)"
    using ut ok by (simp_all add: hb)
  with enc decompress_ok [OF _ hd _ drop, of zl f disk p0 "replicate BUFSIZE NUL" bm data off] hb
  show ?thesis by (auto simp: encodes_def)
qed

lemma restored_append:
  assumes "restored disk p0 a data p d1" "restored disk (p0 + 512 * length a) b d1 (p + 512 * length a) d2"
  shows "restored disk p0 (a @ b) data p d2"
proof -
  have keep: "keeps data d2 (used_area p (a @ b))"
    using assms keeps_trans by (auto simp: restored_def used_area_append)
  have "p + 512 * i + 512 \<le> length d2 \<and> sector_at d2 (p + 512 * i) = sector_at disk (p0 + 512 * i)"
    if i: "i < length (a @ b)" "(a @ b) ! i" for i
  proof (cases "i < length a")
    case True
    have k: "keeps d1 d2 (used_area (p + 512 * length a) b)" using assms(2) by (simp add: restored_def)
    have d1: "p + 512 * i + 512 \<le> length d1" "sector_at d1 (p + 512 * i) = sector_at disk (p0 + 512 * i)"
      using assms(1) True i by (auto simp: restored_def nth_append)
    have "p + 512 * i + 512 \<le> p + 512 * length a" using True by simp
    then have "used_area (p + 512 * length a) b \<inter> {p + 512 * i ..< p + 512 * i + 512} = {}"
      using used_area_above [of _ "p + 512 * length a" b] by fastforce
    with keeps_sector [OF k d1(1)] d1 k show ?thesis by (auto simp: keeps_def)
  next
    case False
    then have "b ! (i - length a)" "i - length a < length b" using i by (auto simp: nth_append)
    moreover have "p + 512 * length a + 512 * (i - length a) = p + 512 * i"
      "p0 + 512 * length a + 512 * (i - length a) = p0 + 512 * i" using False by simp_all
    ultimately show ?thesis using assms(2) unfolding restored_def by metis
  qed
  with keep show ?thesis by (simp add: restored_def)
qed

lemma restore_files_ok:
  assumes fs: "\<And>i. unmarked (fs i) \<and> length (fs i) < 400"
  shows "list_all2 (encodes zl) files (file_plain fs disk i n first bm p0) \<Longrightarrow> unmarked (first @ fs i) \<Longrightarrow> length first < 200 \<Longrightarrow>
     sectors_ok disk p0 (bits_of bm) \<Longrightarrow> length bm \<le> n * ALLOCLG \<Longrightarrow> unat off + 4096 * length bm < 2 ^ 64 \<Longrightarrow>
     \<exists>data'. restore_files zl files data off = Some (Inr (data', off + of_nat (4096 * length bm))) \<and>
       restored disk p0 (bits_of bm) data (unat off) data'"
proof (induction n arbitrary: i files first bm p0 data off)
  case 0
  then show ?case by (simp add: ret_run_def restored_def)
next
  case (Suc n)
  let ?b = "take ALLOCLG bm" and ?r = "drop ALLOCLG bm"
  obtain f files' where files: "files = f # files'"
    and f: "encodes zl f (image_header (header_text first (fs i) (length ?b)) ?b @ used_data disk p0 (bits_of ?b))"
    and rest: "list_all2 (encodes zl) files' (file_plain fs disk (i + 1) n [] ?r (p0 + 4096 * length ?b))"
    using Suc.prems(1) by (auto simp: Let_def list_all2_Cons2)
  have bits: "bits_of bm = bits_of ?b @ bits_of ?r" by (metis append_take_drop_id bits_of_append)
  have ok: "sectors_ok disk p0 (bits_of ?b)" "sectors_ok disk (p0 + 4096 * length ?b) (bits_of ?r)"
    using Suc.prems(4) by (auto simp: bits sectors_ok_append)
  have len: "length bm = length ?b + length ?r" by simp
  obtain d1 blk where d1: "decompress zl f (replicate BUFSIZE NUL) (replicate ALLOCLG NUL) (Some data) off None =
       Some (Inr (Some d1, off + of_nat (4096 * length ?b), blk))" "restored disk p0 (bits_of ?b) data (unat off) d1"
    using decompress_file [OF f Suc.prems(2,3) _ _ ok(1)] fs by force
  let ?off = "off + of_nat (4096 * length ?b) :: u64"
  have lt: "unat off + 4096 * length ?b < 2 ^ 64" using Suc.prems(6) len by linarith
  have off: "unat ?off = unat off + 4096 * length ?b"
    using lt by (rule unat_add_of_nat64)
  obtain d2 where d2: "restore_files zl files' d1 ?off = Some (Inr (d2, ?off + of_nat (4096 * length ?r)))"
      "restored disk (p0 + 4096 * length ?b) (bits_of ?r) d1 (unat ?off) d2"
  proof -
    have "unmarked ([] @ fs (i + 1))" "length [] < (200 :: nat)" using fs by simp_all
    moreover have "length ?r \<le> n * ALLOCLG" using Suc.prems(5) by simp
    moreover have "unat ?off + 4096 * length ?r < 2 ^ 64" using Suc.prems(6) len off by linarith
    ultimately show ?thesis using Suc.IH [OF rest _ _ ok(2), of ?off d1] that by blast
  qed
  have "?off + of_nat (4096 * length ?r) = off + of_nat (4096 * length bm)"
    by (subst len) (simp only: distrib_left of_nat_add add.assoc)
  moreover have "restored disk p0 (bits_of bm) data (unat off) d2"
    unfolding bits using d1(2) d2(2) off by (intro restored_append) auto
  ultimately show ?case using d1(1) d2(1) by (auto simp: files)
qed

section \<open>Properties\<close>

lemma block_count_enough: "length bm \<le> block_count bm * ALLOCLG"
proof -
  have "length bm + ALLOCLG - 1 = (length bm + ALLOCLG - 1) div ALLOCLG * ALLOCLG + (length bm + ALLOCLG - 1) mod ALLOCLG"
    by (simp only: div_mult_mod_eq)
  moreover have "(length bm + ALLOCLG - 1) mod ALLOCLG < ALLOCLG" by (simp add: ALLOCLG_def TOTALLG_def HEADERLG_def)
  ultimately show ?thesis unfolding block_count_def by linarith
qed

lemma digits_unmarked: "NUL \<notin> set (show_nat n)" "CHR ''A'' \<notin> set (show_nat n)"
  using show_nat_digits [of NUL n] show_nat_digits [of "CHR ''A''" n] by (auto simp: isdigit_def)

lemma unmarked_prefix: "NUL \<notin> set a \<Longrightarrow> CHR ''A'' \<notin> set a \<Longrightarrow> unmarked b \<Longrightarrow> unmarked (a @ b)"
  using strstr_skip [of a "CHR ''A''" "b @ ''ALLOCTABLELG=''" "''LLOCTABLELG=''"] by (auto simp: unmarked_def)

lemma firststring_unmarked:
  assumes "firststring nb k info = Inr first" "unmarked (info @ f)"
  shows "unmarked (first @ f) \<and> length first < 200"
proof -
  have "first = (''SECTORS='' @ show_nat (unat nb) @ ''|BLOCKS='' @ show_nat k @ ''|'') @ info" "length first < 200"
    using assms(1) by (auto simp: firststring_def strcpy_def split: if_splits)
  moreover have "unmarked ((''SECTORS='' @ show_nat (unat nb) @ ''|BLOCKS='' @ show_nat k @ ''|'') @ info @ f)"
    using assms(2) by (rule unmarked_prefix [rotated 2]) (auto simp: digits_unmarked)
  ultimately show ?thesis by simp
qed

lemma length_file_plain [simp]: "length (file_plain fs disk i n first bm p) = n"
  by (induction n arbitrary: i first bm p) (auto simp: Let_def)

lemma compress_volume_sat:
  assumes "zlib_ok zl" "level_ok lev" "options_clean opts info fs" "firststring nb_sect (block_count bm) info = Inr first"
    and "sectors_ok disk 0 (bits_of bm)" "length junk = TOTALLG"
  shows "\<exists>files s. compress_volume zl lev opts None junk disk nb_sect bm info = Some (Inr (files, s)) \<and>
     list_all2 (encodes zl) files (file_plain fs disk 0 (block_count bm) first bm 0) \<and>
     s_bytes s = of_nat (4096 * length bm) \<and> s_errors s = 0 \<and>
     (\<forall>cap. compress_volume zl lev opts (Some cap) junk disk nb_sect bm info =
        Some (if write_fails cap files then Inl (Exit 1) else Inr (cut_files cap files, s)))"
proof -
  let ?s = "\<lparr>s_pos = 0, s_bytes = 0, s_done = 0, s_buf = junk, s_ui = [], s_errors = 0\<rparr>"
  have "length first < 200" using assms(4) by (auto simp: firststring_def strcpy_def split: if_splits)
  from save_files_sat [OF assms(1-3) this, of ?s disk bm "block_count bm" 0] assms(5,6) block_count_enough [of bm]
  show ?thesis unfolding compress_volume_def assms(4) by auto
qed

lemma save_restore_files:
  assumes "zlib_ok zl" "level_ok lev" "options_clean opts info fs" "firststring nb_sect (block_count bm) info = Inr first"
    and "sectors_ok disk 0 (bits_of bm)" "length junk = TOTALLG" "unat off + 4096 * length bm < 2 ^ 64"
  shows "\<exists>files s data'. compress_volume zl lev opts None junk disk nb_sect bm info = Some (Inr (files, s)) \<and>
     length files = block_count bm \<and> s_bytes s = of_nat (4096 * length bm) \<and> s_errors s = 0 \<and>
     restore_files zl files data off = Some (Inr (data', off + of_nat (4096 * length bm))) \<and>
     restored disk 0 (bits_of bm) data (unat off) data'"
proof -
  obtain files s where fs: "compress_volume zl lev opts None junk disk nb_sect bm info = Some (Inr (files, s))"
      "list_all2 (encodes zl) files (file_plain fs disk 0 (block_count bm) first bm 0)"
      "s_bytes s = of_nat (4096 * length bm)" "s_errors s = 0"
    using compress_volume_sat [OF assms(1-6)] by blast
  have "unmarked (fs i) \<and> length (fs i) < 400" for i
    using assms(3) filestring_length by (auto simp: options_clean_def)
  moreover have "unmarked (first @ fs 0)" "length first < 200"
    using firststring_unmarked [OF assms(4), of "fs 0"] assms(3) by (auto simp: options_clean_def)
  ultimately show ?thesis
    using restore_files_ok [of fs zl files disk 0 "block_count bm" first bm 0 off data] assms(5,7) block_count_enough fs list_all2_lengthD [OF fs(2)]
    by auto
qed

text \<open>
  C1 (\<open>compress_volume\<close>, \<open>decompress\<close>): for every volume and bitmap, saving ends with one file per
  started piece of the bitmap and no read error, and counts exactly the bytes the bitmap spans;
  restoring the files in order at any offset of an output that already holds \<open>data\<close> ends, leaves
  the offset after the volume, makes every used sector the same as on the volume and keeps every
  other byte of the output. zlib is assumed to behave as documented, with the level in
  \<^verbatim>\<open>/etc/complevel\<close>, if there is one, from -1 to 9; there is room for the files; the volume must reach up
  to the last used sector.
\<close>

theorem save_restore:
  assumes "zlib_ok zl" "level_ok lev" "options_clean opts info fs" "firststring nb_sect (block_count bm) info = Inr first"
    and "sectors_ok disk 0 (bits_of bm)" "length junk = TOTALLG" "unat off + 4096 * length bm < 2 ^ 64"
  shows "\<exists>files s data'. compress_volume zl lev opts None junk disk nb_sect bm info = Some (Inr (files, s)) \<and>
     length files = block_count bm \<and> s_bytes s = of_nat (4096 * length bm) \<and> s_errors s = 0 \<and>
     restore_files zl files data off = Some (Inr (data', off + of_nat (4096 * length bm))) \<and>
     restored disk 0 (bits_of bm) data (unat off) data'"
  by (rule save_restore_files [OF assms])


text \<open>A small volume of three sectors, the first and the last in use.\<close>

definition sample_disk :: string where
  "sample_disk = replicate 512 (CHR ''a'') @ replicate 512 (CHR ''b'') @ replicate 512 (CHR ''c'')"

lemma sample_ok: "sectors_ok sample_disk 0 (bits_of [CHR 0x05])"
  by (simp add: sample_disk_def byte_bits_def)

lemma sample_blocks: "block_count [CHR 0x05] = 1"
  by (simp add: block_count_def ALLOCLG_def TOTALLG_def HEADERLG_def)

lemma sample_first: "firststring 3 1 ''SWAP=1'' = Inr ''SECTORS=3|BLOCKS=1|SWAP=1''"
proof -
  have "show_nat (unat (3 :: u64)) = ''3''" "show_nat 1 = ''1''" by code_simp+
  then show ?thesis by (simp add: firststring_def strcpy_def)
qed

lemma level_ok_None: "level_ok None"
  by (simp add: level_ok_def complevel_def valid_level_def)

lemma sample_options: "options_clean None ''SWAP=1'' (\<lambda>_. [])"
  by (simp add: options_clean_def filestring_def unmarked_def)

theorem save_restore_witness:
  "\<exists>files s data'. compress_volume stored_zlib None None None (replicate TOTALLG NUL) sample_disk 3 [CHR 0x05] ''SWAP=1'' = Some (Inr (files, s)) \<and>
     length files = 1 \<and> s_bytes s = of_nat 4096 \<and> s_errors s = 0 \<and>
     restore_files stored_zlib files [] 1024 = Some (Inr (data', 1024 + of_nat 4096)) \<and>
     restored sample_disk 0 (bits_of [CHR 0x05]) [] 1024 data'"
proof -
  have f: "firststring 3 (block_count [CHR 0x05]) ''SWAP=1'' = Inr ''SECTORS=3|BLOCKS=1|SWAP=1''"
    unfolding sample_blocks by (rule sample_first)
  have off: "unat (1024 :: u64) + 4096 * length [CHR 0x05] < 2 ^ 64" "unat (1024 :: u64) = 1024" by simp_all
  have c: "length (replicate TOTALLG NUL) = TOTALLG" by simp
  from save_restore [OF stored_zlib_ok level_ok_None sample_options f sample_ok c off(1), of "[]"] off(2)
  show ?thesis by (simp add: sample_blocks)
qed

text \<open>In the stored format the file of this volume has 50177 bytes.\<close>

lemma stored_encodes: "encodes stored_zlib f D \<Longrightarrow> f = stored_enc D @ [NUL]"
  unfolding encodes_def by (auto dest!: stored_run)

lemma length_stored_enc: "length (stored_enc D) = 2 * length D"
  by (induction D) auto

lemma sample_plain:
  "file_plain (\<lambda>_. []) sample_disk 0 1 ''SECTORS=3|BLOCKS=1|SWAP=1'' [CHR 0x05] 0 =
   [image_header (header_text ''SECTORS=3|BLOCKS=1|SWAP=1'' [] 1) [CHR 0x05] @ used_data sample_disk 0 (bits_of [CHR 0x05])]"
  by (simp add: ALLOCLG_def TOTALLG_def HEADERLG_def)

lemma sample_plain_length:
  "length (image_header (header_text ''SECTORS=3|BLOCKS=1|SWAP=1'' [] 1) [CHR 0x05] @ used_data sample_disk 0 (bits_of [CHR 0x05])) = 25088"
proof -
  have "length (image_header (header_text ''SECTORS=3|BLOCKS=1|SWAP=1'' [] (length [CHR 0x05])) [CHR 0x05]) = TOTALLG"
    using header_fits [of "''SECTORS=3|BLOCKS=1|SWAP=1''" "[]" "[CHR 0x05]"]
    by (intro length_image_header) (auto simp: ALLOCLG_def TOTALLG_def HEADERLG_def)
  moreover have "length (used_data sample_disk 0 (bits_of [CHR 0x05])) = 1024"
    by (simp add: byte_bits_def sector_at_def sample_disk_def)
  ultimately show ?thesis by (simp add: TOTALLG_def)
qed


end
