(* ===== verification/Restore.thy ===== *)
theory Restore
  imports Save_Restore
begin

text \<open>
  \<open>restore\<close> of \<^verbatim>\<open>client/revimage/autorestore/autorestore.c\<close>: restoring all files of an image onto a
  disk. The disk has a fixed size; a seek behind its end fails and leaves the position where it was,
  and a write at its end is cut. Both errors are shown to the user and counted here; the program
  goes on after them. The progress messages to the user interface are left out.

  The files come from a directory or a network server: \<open>fetch i k\<close> is what the \<open>k\<close>-th request for file
  \<open>i\<close> brings, \<open>None\<close> if there is no such file. A file that does not inflate is asked for again.
\<close>

section \<open>The disk\<close>

type_synonym fetch = "nat \<Rightarrow> nat \<Rightarrow> string option"

text \<open>The disk and the position on it; \<open>None\<close> when the device could not be opened.\<close>

record rparams =
  r_bitindex :: nat
  r_fo :: "ofile option"
  r_offset :: u64
  r_errors :: nat

definition lseek64 :: "nat \<Rightarrow> ofile option \<Rightarrow> ofile option \<times> bool" where
  "lseek64 p f =
     (case f of None \<Rightarrow> (None, False) | Some (data, q) \<Rightarrow> if p \<le> length data then (Some (data, p), True) else (Some (data, q), False))"

definition tell :: "ofile option \<Rightarrow> nat" where
  "tell f = (case f of None \<Rightarrow> 0 | Some (data, p) \<Rightarrow> p)"

definition dev_write :: "string \<Rightarrow> ofile option \<Rightarrow> ofile option \<times> bool" where
  "dev_write bs f =
     (case f of None \<Rightarrow> (None, False)
      | Some (data, p) \<Rightarrow> (Some (file_write (take (length data - p) bs) (data, p)), p + length bs \<le> length data))"

section \<open>Writing sectors\<close>

function next_used :: "string \<Rightarrow> nat \<Rightarrow> nat res" where
  "next_used bm i =
     (case bit_at bm i of Inl e \<Rightarrow> Inl e | Inr True \<Rightarrow> Inr i | Inr False \<Rightarrow> next_used bm (i + 1))"
  by pat_completeness auto
termination
  by (relation "measure (\<lambda>(bm, i). 8 * length bm - i)") (auto simp: bit_at_def split: if_splits)

declare next_used.simps [simp del]

definition skip_to :: "nat \<Rightarrow> rparams \<Rightarrow> rparams" where
  "skip_to i cp =
     (let s = 512 * (i - r_bitindex cp);
          (f, ok) = (if s \<noteq> 0 then lseek64 (tell (r_fo cp) + s) (r_fo cp) else (r_fo cp, True))
      in cp\<lparr>r_bitindex := i, r_offset := r_offset cp + of_nat s, r_fo := f, r_errors := r_errors cp + (if ok then 0 else 1)\<rparr>)"

definition write_sector :: "string \<Rightarrow> rparams \<Rightarrow> rparams" where
  "write_sector sec cp =
     (let (f, ok) = dev_write sec (r_fo cp)
      in cp\<lparr>r_bitindex := r_bitindex cp + 1, r_offset := r_offset cp + 512, r_fo := f, r_errors := r_errors cp + (if ok then 0 else 1)\<rparr>)"

function restore_flush :: "string \<Rightarrow> string \<Rightarrow> nat \<Rightarrow> rparams \<Rightarrow> rparams res" where
  "restore_flush buff bm lg cp =
     (if lg = 0 then Inr cp
      else bind_res (next_used bm (r_bitindex cp)) (\<lambda>i.
           if length buff < 512 then Inl OutOfBounds
           else restore_flush (drop 512 buff) bm (lg - 512) (write_sector (take 512 buff) (skip_to i cp))))"
  by pat_completeness auto
termination by (relation "measure (\<lambda>(buff, bm, lg, cp). lg)") auto

declare restore_flush.simps [simp del]

section \<open>The files of an image\<close>

text \<open>\<open>fmax\<close>, the number of files, is taken from the header when a number follows the key.\<close>

definition read_fmax :: "string \<Rightarrow> int option \<Rightarrow> int option" where
  "read_fmax s fmax = (case scan_after ''BLOCKS='' s of None \<Rightarrow> fmax | Some i \<Rightarrow> Some i)"

definition restore_sink :: "rparams sink" where
  "restore_sink = \<lparr>sk_flush = restore_flush, sk_rewind = r_bitindex_update (\<lambda>_. 0), sk_blocks = read_fmax\<rparr>"

text \<open>\<open>fatal\<close> ends the program only with the option \<open>--nolrs\<close>; otherwise the missing file is read.\<close>

definition no_input :: "bool \<Rightarrow> c_fault" where
  "no_input nolrs = (if nolrs then Exit 1 else NullDeref)"

definition file_start :: "rparams \<Rightarrow> rparams" where
  "file_start cp = cp\<lparr>r_offset := 0, r_bitindex := 0\<rparr>"

partial_function (option) restore_file ::
    "('z, 'i) zlib \<Rightarrow> bool \<Rightarrow> fetch \<Rightarrow> nat \<Rightarrow> nat \<Rightarrow> string \<Rightarrow> string \<Rightarrow> rparams \<Rightarrow> int option \<Rightarrow> ('i, rparams) dstate run" where
  "restore_file zl nolrs fetch filenum k buf bm cp fmax =
     (case fetch filenum k of
        None \<Rightarrow> Some (Inl (no_input nolrs))
      | Some fi \<Rightarrow>
          (case attempt zl restore_sink (start_state zl fi buf bm (file_start cp) fmax) of
             None \<Rightarrow> None
           | Some (Inl e) \<Rightarrow> Some (Inl e)
           | Some (Inr (st, ret)) \<Rightarrow>
               if failed ret
               then restore_file zl nolrs fetch filenum (k + 1) (d_buf st) (d_bitmap st)
                      ((d_cp st)\<lparr>r_fo := fst (lseek64 (tell (r_fo cp)) (r_fo (d_cp st)))\<rparr>) (d_blocks st)
               else Some (Inr st)))"

text \<open>The sectors behind the last used one are skipped; nobody looks at the result of this seek.\<close>

definition skip_rest :: "('i, rparams) dstate \<Rightarrow> rparams" where
  "skip_rest st =
     (let cp = d_cp st; n = (if d_bitmaplg st \<noteq> 0 then nat (d_bitmaplg st * 8 - int (r_bitindex cp)) else 0)
      in if 0 < n
         then cp\<lparr>r_offset := r_offset cp + of_nat (512 * n), r_fo := fst (lseek64 (tell (r_fo cp) + 512 * n) (r_fo cp))\<rparr>
         else cp)"

partial_function (option) restore_loop ::
    "('z, 'i) zlib \<Rightarrow> bool \<Rightarrow> fetch \<Rightarrow> nat \<Rightarrow> string \<Rightarrow> string \<Rightarrow> rparams \<Rightarrow> int option \<Rightarrow> (rparams \<times> string \<times> string) run" where
  "restore_loop zl nolrs fetch filenum buf bm cp fmax =
     (case fetch filenum 0 of
        None \<Rightarrow> Some (Inr (cp, buf, bm))
      | Some _ \<Rightarrow>
          (case restore_file zl nolrs fetch filenum 0 buf bm cp fmax of
             None \<Rightarrow> None
           | Some (Inl e) \<Rightarrow> Some (Inl e)
           | Some (Inr st) \<Rightarrow>
               if d_blocks st \<noteq> Some (- 1) \<and> the (d_blocks st) \<le> int (filenum + 1) then Some (Inr (skip_rest st, d_buf st, d_bitmap st))
               else restore_loop zl nolrs fetch (filenum + 1) (d_buf st) (d_bitmap st) (skip_rest st) (d_blocks st)))"

text \<open>The result: the disk, the number of errors shown, and the static buffers.\<close>

definition restore :: "('z, 'i) zlib \<Rightarrow> bool \<Rightarrow> fetch \<Rightarrow> string \<Rightarrow> string \<Rightarrow> string option \<Rightarrow> u32 \<Rightarrow> (string option \<times> nat \<times> string \<times> string) run" where
  "restore zl nolrs fetch buf bm device sect =
     (let (f, ok) = lseek64 (512 * unat sect) (map_option (\<lambda>d. (d, 0)) device)
      in bind_run (restore_loop zl nolrs fetch 0 buf bm
             \<lparr>r_bitindex = 0, r_fo = f, r_offset = 512 * ucast sect, r_errors = (if ok then 0 else 1)\<rparr> (Some (- 1)))
           (\<lambda>(cp, buf, bm). ret_run (map_option fst (r_fo cp), r_errors cp, buf, bm)))"

section \<open>The disk as a sink\<close>

definition run_disk :: "bool list \<Rightarrow> string \<Rightarrow> rparams \<Rightarrow> rparams" where
  "run_disk bs src cp =
     cp\<lparr>r_bitindex := r_bitindex cp + length bs, r_offset := r_offset cp + of_nat (512 * length bs), r_fo := map_option (place bs src) (r_fo cp)\<rparr>"

definition disk_fits :: "rparams \<Rightarrow> nat \<Rightarrow> bool" where
  "disk_fits cp n \<longleftrightarrow> (case r_fo cp of None \<Rightarrow> False | Some (data, p) \<Rightarrow> p + 512 * n \<le> length data)"

lemma place_append: "place (a @ b) src f = place b (drop (512 * used_count a) src) (place a src f)"
  by (induction a arbitrary: src f) (auto simp: algebra_simps)

lemma place_cong: "take (512 * used_count bs) src = take (512 * used_count bs) src' \<Longrightarrow> place bs src f = place bs src' f"
proof -
  assume "take (512 * used_count bs) src = take (512 * used_count bs) src'"
  from run_bits_cong [OF this, of "\<lparr>bitindex = 0, fo = Some f, offset = 0\<rparr>"]
  show ?thesis using fo_run_bits [of bs _ "\<lparr>bitindex = 0, fo = Some f, offset = 0\<rparr>"] by (metis dparams.select_convs(2) option.inject option.map(2))
qed

lemma fill_inside: "p + 512 \<le> length d \<Longrightarrow> fill 512 (d, p) = (d, p + 512)"
  by (simp add: fill_eq)

lemma write_inside: "p + length bs \<le> length d \<Longrightarrow> \<exists>d'. file_write bs (d, p) = (d', p + length bs) \<and> length d' = length d"
  by (simp add: file_write_def length_write_at)

lemma place_inside:
  "p + 512 * length bs \<le> length d \<Longrightarrow> \<exists>d' p'. place bs src (d, p) = (d', p') \<and> length d' = length d \<and> p' \<le> p + 512 * length bs"
proof (induction bs arbitrary: src d p)
  case (Cons b bs)
  show ?case
  proof (cases b)
    case True
    have le: "length (take 512 src) \<le> 512" by simp
    then have "p + length (take 512 src) \<le> length d" using Cons.prems by simp
    then obtain d1 where d1: "file_write (take 512 src) (d, p) = (d1, p + length (take 512 src))" "length d1 = length d"
      using write_inside by blast
    have "p + length (take 512 src) + 512 * length bs \<le> length d1" using Cons.prems d1(2) le by simp
    from Cons.IH [OF this, of "drop 512 src"] d1 le True show ?thesis by fastforce
  next
    case False
    then show ?thesis using Cons.IH [of "p + 512" d src] Cons.prems by (auto simp: fill_inside)
  qed
qed simp

lemma place_skip: "p + 512 * n \<le> length d \<Longrightarrow> place (replicate n False) src (d, p) = (d, p + 512 * n)"
  by (induction n arbitrary: p) (auto simp: fill_inside algebra_simps)

lemma next_used_spec:
  "0 < used_count (drop i (bits_of bm)) \<Longrightarrow> next_used bm i = Inr (i + length (takeWhile Not (drop i (bits_of bm))))"
proof (induction bm i rule: next_used.induct)
  case (1 bm i)
  let ?bs = "bits_of bm"
  have i: "i < 8 * length bm" using "1.prems" by (cases "i < 8 * length bm") auto
  then have d: "drop i ?bs = ?bs ! i # drop (Suc i) ?bs" by (simp add: Cons_nth_drop_Suc)
  show ?case
  proof (cases "?bs ! i")
    case True
    then show ?thesis using d i by (subst next_used.simps) (simp add: bit_at_bits)
  next
    case False
    then show ?thesis using "1.IH" "1.prems" d i by (subst next_used.simps) (simp add: bit_at_bits)
  qed
qed

lemma takeWhile_Not: "takeWhile Not bs = replicate (length (takeWhile Not bs)) False"
  by (induction bs) auto

text \<open>Inside the disk, one used sector behind \<open>n\<close> unused ones is placed without an error.\<close>

lemma write_after_skip:
  assumes "disk_fits cp (n + 1)" "length sec = 512"
  shows "write_sector sec (skip_to (r_bitindex cp + n) cp) = run_disk (replicate n False @ [True]) sec cp"
proof -
  obtain d p where f: "r_fo cp = Some (d, p)" "p + 512 * (n + 1) \<le> length d"
    using assms(1) by (auto simp: disk_fits_def split: option.splits)
  have "place (replicate n False @ [True]) sec (d, p) = file_write sec (d, p + 512 * n)"
    using f(2) assms(2) place_skip [of p n d sec] used_replicate_False [of n] by (simp add: place_append)
  moreover have "512 \<le> length d - (p + 512 * n)" using f(2) by simp
  ultimately show ?thesis using f assms(2)
    by (cases cp) (auto simp: write_sector_def skip_to_def run_disk_def dev_write_def lseek64_def tell_def Let_def algebra_simps)
qed

lemma run_disk_append: "run_disk (a @ b) src cp = run_disk b (drop (512 * used_count a) src) (run_disk a src cp)"
  by (cases cp; cases "r_fo cp") (simp_all add: run_disk_def place_append algebra_simps)

lemma run_disk_cong: "take (512 * used_count bs) src = take (512 * used_count bs) src' \<Longrightarrow> run_disk bs src cp = run_disk bs src' cp"
  unfolding run_disk_def using place_cong [of bs src src'] by (cases "r_fo cp") simp_all

lemma disk_fits_runs: "disk_fits cp (length bs + n) \<Longrightarrow> disk_fits (run_disk bs src cp) n"
proof -
  assume "disk_fits cp (length bs + n)"
  then obtain d p where f: "r_fo cp = Some (d, p)" "p + 512 * (length bs + n) \<le> length d"
    by (auto simp: disk_fits_def split: option.splits)
  then obtain d' p' where "place bs src (d, p) = (d', p')" "length d' = length d" "p' \<le> p + 512 * length bs"
    using place_inside [of p bs d src] by auto
  with f show ?thesis by (simp add: disk_fits_def run_disk_def)
qed

lemma restore_flush_runs:
  "k \<le> used_count (drop (r_bitindex cp) (bits_of bm)) \<Longrightarrow> 512 * k \<le> length buff \<Longrightarrow>
   disk_fits cp (bits_upto k (drop (r_bitindex cp) (bits_of bm))) \<Longrightarrow>
   restore_flush buff bm (512 * k) cp =
     Inr (run_disk (take (bits_upto k (drop (r_bitindex cp) (bits_of bm))) (drop (r_bitindex cp) (bits_of bm))) buff cp)"
proof (induction k arbitrary: buff cp)
  case 0
  then show ?case by (subst restore_flush.simps) (simp add: run_disk_def option.map_ident [unfolded id_def] cong: option.map_cong)
next
  case (Suc k)
  define bs where "bs = drop (r_bitindex cp) (bits_of bm)"
  define u where "u = takeWhile Not bs"
  define r where "r = drop (Suc (length u)) bs"
  have pos: "0 < used_count bs" using Suc.prems(1) by (simp add: bs_def)
  have bs: "bs = (u @ [True]) @ r" using first_used [OF pos] by (simp add: u_def r_def)
  have n: "bits_upto (Suc k) bs = length (u @ [True]) + bits_upto k r" using bits_upto_Suc [OF pos] by (simp add: u_def r_def)
  have ur: "u = replicate (length u) False" using takeWhile_Not by (simp add: u_def)
  have len: "length (take 512 buff) = 512" using Suc.prems(2) by simp
  define cp1 where "cp1 = run_disk (u @ [True]) (take 512 buff) cp"
  have fits: "disk_fits cp (length (u @ [True]) + bits_upto k r)" using Suc.prems(3) n by (simp add: bs_def)
  then have "disk_fits cp (length u + 1)" by (auto simp: disk_fits_def split: option.splits)
  from write_after_skip [OF this len] have step: "write_sector (take 512 buff) (skip_to (r_bitindex cp + length u) cp) = cp1"
    unfolding cp1_def using ur by simp
  have idx: "r_bitindex cp1 = r_bitindex cp + length (u @ [True])" by (simp add: cp1_def run_disk_def)
  then have rest: "drop (r_bitindex cp1) (bits_of bm) = r" by (simp add: bs_def r_def add.commute)
  have "used_count bs = Suc (used_count r)" by (subst bs) (simp add: u_def)
  then have k: "k \<le> used_count (drop (r_bitindex cp1) (bits_of bm))" using Suc.prems(1) rest by (simp add: bs_def)
  have f1: "disk_fits cp1 (bits_upto k (drop (r_bitindex cp1) (bits_of bm)))"
    using disk_fits_runs [OF fits, of "take 512 buff"] rest by (simp add: cp1_def)
  have IH: "restore_flush (drop 512 buff) bm (512 * k) cp1 = Inr (run_disk (take (bits_upto k r) r) (drop 512 buff) cp1)"
    using Suc.IH [OF k _ f1, of "drop 512 buff"] Suc.prems(2) rest by simp
  have "take (bits_upto (Suc k) bs) bs = (u @ [True]) @ take (bits_upto k r) r"
    unfolding n by (subst bs) simp
  moreover have "run_disk (u @ [True]) buff cp = cp1"
    unfolding cp1_def by (rule run_disk_cong) (simp add: u_def)
  ultimately have "run_disk (take (bits_upto (Suc k) bs) bs) buff cp = run_disk (take (bits_upto k r) r) (drop 512 buff) cp1"
    by (simp only: run_disk_append) (simp add: u_def)
  moreover have "next_used bm (r_bitindex cp) = Inr (r_bitindex cp + length u)"
    using next_used_spec [of "r_bitindex cp" bm] pos by (simp add: bs_def u_def)
  ultimately show ?case using IH step Suc.prems(2) by (subst restore_flush.simps) (simp add: bs_def)
qed

interpretation disk_sink: sector_sink restore_sink r_bitindex run_disk disk_fits
proof
  fix cp :: rparams and bs src src' n m
  show "r_bitindex cp = 0 \<Longrightarrow> sk_rewind restore_sink cp = cp" by (cases cp) (simp add: restore_sink_def)
  show "take (512 * used_count bs) src = take (512 * used_count bs) src' \<Longrightarrow> run_disk bs src cp = run_disk bs src' cp"
    by (rule run_disk_cong)
  show "disk_fits cp n \<Longrightarrow> m \<le> n \<Longrightarrow> disk_fits cp m" by (auto simp: disk_fits_def split: option.splits)
  show "run_disk [] src cp = cp" by (cases cp) (simp add: run_disk_def option.map_ident [unfolded id_def] cong: option.map_cong)
qed (simp_all add: restore_sink_def restore_flush_runs run_disk_append disk_fits_runs, simp add: run_disk_def)

section \<open>An image is restored\<close>

lemma bits_upto_last: "0 < k \<Longrightarrow> k \<le> used_count bs \<Longrightarrow> 0 < bits_upto k bs \<and> bs ! (bits_upto k bs - 1)"
proof (induction k bs rule: bits_upto.induct)
  case (3 k b bs)
  show ?case
  proof (cases "b \<and> k = 0")
    case False
    then have "0 < (if b then k else Suc k)" "(if b then k else Suc k) \<le> used_count bs" using "3.prems" by auto
    from "3.IH" [OF this] show ?thesis by (simp add: nth_Cons')
  qed simp
qed auto

lemma strstr_none_sep:
  "c \<notin> set pat \<Longrightarrow> pat \<noteq> [] \<Longrightarrow> strstr a pat = None \<Longrightarrow> strstr b pat = None \<Longrightarrow> strstr (a @ c # b) pat = None"
proof (induction a)
  case Nil
  then show ?case by (cases pat) auto
next
  case (Cons d a)
  have "take (length pat) ((d # a) @ c # b) \<noteq> pat"
  proof (cases "length pat \<le> length (d # a)")
    case True
    then have "take (length pat) ((d # a) @ c # b) = take (length pat) (d # a)" by (simp only: take_append) simp
    then show ?thesis using Cons.prems(3) by (auto split: if_splits)
  next
    case False
    then have "c \<in> set (take (length pat) ((d # a) @ c # b))" using Cons.prems(2) by (simp add: take_Cons')
    then show ?thesis using Cons.prems(1) by auto
  qed
  then show ?case using Cons by (simp split: if_splits)
qed

lemma strstr_chars_none: "c \<in> set pat \<Longrightarrow> c \<notin> set s \<Longrightarrow> strstr s pat = None"
  using strstr_Some_decomp [of s pat] by (cases "strstr s pat") auto

lemma strstr_blocks_absent:
  assumes "strstr g ''BLOCKS='' = None"
  shows "strstr (header_text [] g lg) ''BLOCKS='' = None"
proof -
  have "CHR ''O'' \<notin> set (''TABLELG='' @ show_nat lg @ [NL])" using show_nat_digits [of "CHR ''O''" lg] by (auto simp: isdigit_def)
  then have "strstr (''TABLELG='' @ show_nat lg @ [NL]) ''BLOCKS='' = None"
    by (intro strstr_chars_none [of "CHR ''O''"]) simp_all
  then have "strstr (''LLOC'' @ ''TABLELG='' @ show_nat lg @ [NL]) ''BLOCKS='' = None" by simp
  with assms have "strstr (g @ CHR ''A'' # ''LLOCTABLELG='' @ show_nat lg @ [NL]) ''BLOCKS='' = None"
    by (intro strstr_none_sep) auto
  then show ?thesis by (simp add: header_text_def)
qed

lemma blocks_absent: "strstr g ''BLOCKS='' = None \<Longrightarrow> read_fmax (header_text [] g lg) fmax = fmax"
  using strstr_blocks_absent by (simp add: read_fmax_def scan_after_def)

lemma strstr_blocks_present:
  assumes "firststring nb k info = Inr first"
  shows "strstr (header_text first g lg) ''BLOCKS='' = Some (''BLOCKS='' @ show_nat k @ ''|'' @ info @ g @ ''ALLOCTABLELG='' @ show_nat lg @ [NL])"
proof -
  let ?pre = "''SECTORS='' @ show_nat (unat nb) @ ''|''"
  have "CHR ''B'' \<notin> set ?pre" using show_nat_digits [of "CHR ''B''" "unat nb"] by (auto simp: isdigit_def)
  moreover have first: "header_text first g lg = ?pre @ ''BLOCKS='' @ show_nat k @ ''|'' @ info @ g @ ''ALLOCTABLELG='' @ show_nat lg @ [NL]"
    using assms by (auto simp: firststring_def strcpy_def header_text_def split: if_splits)
  ultimately show ?thesis unfolding first by (subst strstr_skip) (auto simp: strstr_hit [of "''BLOCKS=''", simplified])
qed

lemma blocks_present:
  assumes "firststring nb k info = Inr first" "int k < 2 ^ 31"
  shows "read_fmax (header_text first g lg) fmax = Some (int k)"
  using strstr_blocks_present [OF assms(1)] scan_int_show_nat [OF _ assms(2), of "''|'' @ info @ g @ ''ALLOCTABLELG='' @ show_nat lg @ [NL]"]
  by (simp add: read_fmax_def scan_after_def no_digit_head_def isdigit_def)

text \<open>One file, on a disk that has all its used sectors.\<close>

lemma restore_file_ok:
  assumes enc: "encodes zl f (image_header (header_text first g (length b)) b @ used_data disk p0 (bits_of b))"
    and clean: "unmarked (first @ g)" and len: "length first < 200" "length g < 400" "length b \<le> ALLOCLG"
    and ok: "sectors_ok disk p0 (bits_of b)" and buf: "length buf = BUFSIZE" and fetch: "fetch i 0 = Some f"
    and cp: "r_fo cp = Some (d, p)" "p \<le> length d" and room: "\<And>j. j < 8 * length b \<Longrightarrow> bits_of b ! j \<Longrightarrow> p + 512 * j + 512 \<le> length d"
  shows "\<exists>st d1 p1. restore_file zl nolrs fetch i 0 buf bm cp fmax = Some (Inr st) \<and>
     d_blocks st = read_fmax (header_text first g (length b)) fmax \<and> length (d_buf st) = BUFSIZE \<and>
     r_fo (skip_rest st) = Some (d1, p1) \<and> length d1 = length d \<and> r_errors (skip_rest st) = r_errors cp \<and>
     restored disk p0 (bits_of b) d p d1 \<and> (p + 4096 * length b \<le> length d \<longrightarrow> p1 = p + 4096 * length b)"
proof -
  let ?t = "header_text first g (length b)"
  define H where "H = image_header ?t b"
  define n where "n = bits_upto (used_count (bits_of b)) (bits_of b)"
  have fit: "length ?t < HEADERLG" by (rule header_fits [OF len])
  have hd: "header_read restore_sink H (length b) fmax (read_fmax ?t fmax)"
    using header_text_clean [OF clean fit len(3), of restore_sink fmax] by (simp add: H_def restore_sink_def)
  have hb: "header_bits H = bits_of b @ replicate (8 * (ALLOCLG - length b)) False"
    using fit unfolding H_def by (intro header_bits_image) simp
  note none = used_replicate_False [of "8 * (ALLOCLG - length b)"]
  have uc: "used_count (header_bits H) = used_count (bits_of b)" by (simp add: hb none)
  have bu: "bits_upto (used_count (header_bits H)) (header_bits H) = n"
    using bits_upto_take [of "8 * length b" "header_bits H" "used_count (bits_of b)"] by (simp add: hb none n_def)
  have nle: "n \<le> 8 * length b" using bits_upto_le [of "used_count (bits_of b)" "bits_of b"] by (simp add: n_def)
  have ub: "used_bits (header_bits H) = take n (bits_of b)" unfolding bu using nle by (simp add: hb)
  have tail: "used_count (drop n (bits_of b)) = 0" using unused_after by (simp add: n_def)
  have room': "p + 512 * n \<le> length d"
  proof (cases "used_count (bits_of b) = 0")
    case True
    then show ?thesis using cp(2) by (simp add: n_def)
  next
    case False
    then have n0: "0 < n" "bits_of b ! (n - 1)" using bits_upto_last [of "used_count (bits_of b)" "bits_of b"] by (simp_all add: n_def)
    have "p + 512 * (n - 1) + 512 \<le> length d" using n0 nle by (intro room) auto
    then show ?thesis using n0(1) by (cases n) simp_all
  qed
  let ?cp = "file_start cp"
  have fits: "disk_fits ?cp (bits_upto (used_count (header_bits H)) (header_bits H))"
    unfolding bu using room' cp(1) by (simp add: disk_fits_def file_start_def)
  have S: "length (used_data disk p0 (bits_of b)) = 512 * used_count (header_bits H)" using length_used_data [OF ok] uc by simp
  have ok': "inflate_ok zl f (H @ used_data disk p0 (bits_of b))" using enc by (simp add: encodes_def H_def)
  obtain st where st: "attempt zl restore_sink (start_state zl f buf bm ?cp fmax) = Some (Inr (st, Z_STREAM_END))" "d_bitmaplg st = int (length b)"
      "d_blocks st = read_fmax ?t fmax" "d_cp st = run_disk (take n (bits_of b)) (used_data disk p0 (bits_of b)) ?cp" "length (d_buf st) = BUFSIZE"
    using disk_sink.attempt_ok [OF ok' hd S buf _ fits] unfolding ub by (auto simp: file_start_def)
  have run: "restore_file zl nolrs fetch i 0 buf bm cp fmax = Some (Inr st)"
    using st(1) fetch by (subst restore_file.simps) (simp add: failed_def)
  obtain d1 p1 where pl: "place (take n (bits_of b)) (used_data disk p0 (bits_of b)) (d, p) = (d1, p1)" by fastforce
  have ln: "length (take n (bits_of b)) = n" using nle by simp
  have len1: "length d1 = length d" using place_inside [of p "take n (bits_of b)" d "used_data disk p0 (bits_of b)"] room' ln pl by auto
  have sp: "p1 = p + 512 * n" "keeps d d1 (used_area p (take n (bits_of b)))"
    "\<forall>j < n. bits_of b ! j \<longrightarrow> p + 512 * j + 512 \<le> length d1 \<and> sector_at d1 (p + 512 * j) = sector_at disk (p0 + 512 * j)"
    using place_spec [OF _ _ pl, of disk p0] ok unused_tail(1,3) [OF tail, of disk p0] ln by auto
  have rest: "restored disk p0 (bits_of b) d p d1"
    using sp(2,3) unused_tail(2) [OF tail, of p] unused_tail(4) [OF tail] by (simp add: restored_def)
  have c: "r_fo (d_cp st) = Some (d1, p + 512 * n)" "r_bitindex (d_cp st) = n" "r_errors (d_cp st) = r_errors cp"
    using st(4) pl sp(1) cp(1) ln by (simp_all add: run_disk_def file_start_def)
  define m where "m = 8 * length b - n"
  have m: "(if d_bitmaplg st \<noteq> 0 then nat (d_bitmaplg st * 8 - int (r_bitindex (d_cp st))) else 0) = m"
    using st(2) c(2) nle by (auto simp: m_def)
  have nm: "p + 512 * n + 512 * m = p + 4096 * length b" using nle by (simp add: m_def)
  have "\<exists>p2. r_fo (skip_rest st) = Some (d1, p2) \<and> r_errors (skip_rest st) = r_errors cp \<and>
      (p + 4096 * length b \<le> length d \<longrightarrow> p2 = p + 4096 * length b)"
    unfolding skip_rest_def Let_def m using c nm len1 by (cases "m = 0") (auto simp: lseek64_def tell_def)
  with run st(3,5) rest len1 show ?thesis by blast
qed

text \<open>
  All files, from number \<open>i\<close> on; the disk reaches up to the last file and has all used sectors.
\<close>

lemma restore_loop_ok:
  assumes fs: "\<And>i. unmarked (fs i) \<and> length (fs i) < 400 \<and> strstr (fs i) ''BLOCKS='' = None"
  shows "list_all2 (encodes zl) files (file_plain fs disk i (Suc n) first bm p0) \<Longrightarrow> unmarked (first @ fs i) \<Longrightarrow> length first < 200 \<Longrightarrow>
     (\<And>l. read_fmax (header_text first (fs i) l) fmax = Some (int (i + Suc n))) \<Longrightarrow>
     sectors_ok disk p0 (bits_of bm) \<Longrightarrow> length bm \<le> Suc n * ALLOCLG \<Longrightarrow> length buf = BUFSIZE \<Longrightarrow>
     (\<And>j. j < Suc n \<Longrightarrow> fetch (i + j) 0 = Some (files ! j)) \<Longrightarrow>
     r_fo cp = Some (d, p) \<Longrightarrow> p + 4096 * (n * ALLOCLG) \<le> length d \<Longrightarrow>
     (\<And>j. j < 8 * length bm \<Longrightarrow> bits_of bm ! j \<Longrightarrow> p + 512 * j + 512 \<le> length d) \<Longrightarrow>
     \<exists>cp' b' m' d' p'. restore_loop zl nolrs fetch i buf bmp cp fmax = Some (Inr (cp', b', m')) \<and> r_fo cp' = Some (d', p') \<and>
       r_errors cp' = r_errors cp \<and> length d' = length d \<and> restored disk p0 (bits_of bm) d p d'"
proof (induction n arbitrary: i files first bm p0 fmax buf bmp cp d p)
  case (0 i files first bm p0 fmax buf bmp cp d p)
  have b: "take ALLOCLG bm = bm" using 0(6) by simp
  obtain f where f: "files = [f]" "encodes zl f (image_header (header_text first (fs i) (length bm)) bm @ used_data disk p0 (bits_of bm))"
    using 0(1) by (auto simp: list_all2_Cons2 b Let_def)
  have fetch: "fetch i 0 = Some f" using 0(8) [of 0] f(1) by simp
  have bl: "length bm \<le> ALLOCLG" "p \<le> length d" using 0(6,10) by simp_all
  obtain st d1 p1 where st: "restore_file zl nolrs fetch i 0 buf bmp cp fmax = Some (Inr st)"
      "d_blocks st = read_fmax (header_text first (fs i) (length bm)) fmax"
      "r_fo (skip_rest st) = Some (d1, p1)" "length d1 = length d" "r_errors (skip_rest st) = r_errors cp" "restored disk p0 (bits_of bm) d p d1"
    using restore_file_ok [where fetch = fetch and i = i, OF f(2) 0(2,3) _ bl(1) 0(5,7) fetch 0(9) bl(2) 0(11)] fs by metis
  have "restore_loop zl nolrs fetch i buf bmp cp fmax = Some (Inr (skip_rest st, d_buf st, d_bitmap st))"
    using st(1,2) 0(4) fetch by (subst restore_loop.simps) simp
  with st(3-6) show ?case by blast
next
  case (Suc n i files first bm p0 fmax buf bmp cp d p)
  let ?b = "take ALLOCLG bm" and ?r = "drop ALLOCLG bm"
  obtain f files' where files: "files = f # files'"
    and f: "encodes zl f (image_header (header_text first (fs i) (length ?b)) ?b @ used_data disk p0 (bits_of ?b))"
    and rest: "list_all2 (encodes zl) files' (file_plain fs disk (i + 1) (Suc n) [] ?r (p0 + 4096 * length ?b))"
    using Suc.prems(1) by (auto simp: Let_def list_all2_Cons2)
  have bits: "bits_of bm = bits_of ?b @ bits_of ?r" by (metis append_take_drop_id bits_of_append)
  have ok: "sectors_ok disk p0 (bits_of ?b)" "sectors_ok disk (p0 + 4096 * length ?b) (bits_of ?r)"
    using Suc.prems(5) by (auto simp: bits sectors_ok_append)
  have lenb: "length ?b \<le> ALLOCLG" by simp
  have fit: "p + 4096 * length ?b + 4096 * (n * ALLOCLG) \<le> length d" "p \<le> length d"
    using Suc.prems(10) lenb by (simp_all add: algebra_simps)
  have fetch: "fetch i 0 = Some f" using Suc.prems(8) [of 0] files by simp
  have room: "p + 512 * j + 512 \<le> length d" if "j < 8 * length ?b" "bits_of ?b ! j" for j
    using Suc.prems(11) [of j] that by (simp add: bits nth_append)
  obtain st d1 p1 where st: "restore_file zl nolrs fetch i 0 buf bmp cp fmax = Some (Inr st)"
      "d_blocks st = read_fmax (header_text first (fs i) (length ?b)) fmax" "length (d_buf st) = BUFSIZE"
      "r_fo (skip_rest st) = Some (d1, p1)" "length d1 = length d" "r_errors (skip_rest st) = r_errors cp" "restored disk p0 (bits_of ?b) d p d1"
      "p + 4096 * length ?b \<le> length d \<longrightarrow> p1 = p + 4096 * length ?b"
    using restore_file_ok [where fetch = fetch and i = i, OF f Suc.prems(2,3) _ lenb ok(1) Suc.prems(7) fetch Suc.prems(9) fit(2) room] fs by metis
  have p1: "p1 = p + 4096 * length ?b" using st(8) fit(1) by linarith
  have blk: "d_blocks st = Some (int (i + 1 + Suc n))" using st(2) Suc.prems(4) by simp
  have "\<exists>cp' b' m' d' p'. restore_loop zl nolrs fetch (i + 1) (d_buf st) (d_bitmap st) (skip_rest st) (d_blocks st) = Some (Inr (cp', b', m')) \<and>
      r_fo cp' = Some (d', p') \<and> r_errors cp' = r_errors (skip_rest st) \<and> length d' = length d1 \<and>
      restored disk (p0 + 4096 * length ?b) (bits_of ?r) d1 p1 d'"
  proof (rule Suc.IH [OF rest _ _ _ ok(2) _ st(3) _ st(4)])
    show "unmarked ([] @ fs (i + 1))" "length ([] :: string) < 200" using fs by simp_all
    show "read_fmax (header_text [] (fs (i + 1)) l) (d_blocks st) = Some (int (i + 1 + Suc n))" for l
      using blocks_absent fs blk by simp
    show "length ?r \<le> Suc n * ALLOCLG" using Suc.prems(6) by simp
    show "fetch (i + 1 + j) 0 = Some (files' ! j)" if "j < Suc n" for j using Suc.prems(8) [of "Suc j"] that files by simp
    show "p1 + 4096 * (n * ALLOCLG) \<le> length d1" using fit(1) p1 st(5) by simp
    show "p1 + 512 * j + 512 \<le> length d1" if "j < 8 * length ?r" "bits_of ?r ! j" for j
    proof -
      have "8 * length ?b + j < 8 * length bm" using that(1) by simp
      moreover have "bits_of bm ! (8 * length ?b + j)" unfolding bits using that(2) by (simp add: nth_append del: length_take)
      ultimately have "p + 512 * (8 * length ?b + j) + 512 \<le> length d" by (rule Suc.prems(11))
      then show ?thesis using p1 st(5) by simp
    qed
  qed
  then obtain cp' b' m' d' p' where r: "restore_loop zl nolrs fetch (i + 1) (d_buf st) (d_bitmap st) (skip_rest st) (d_blocks st) = Some (Inr (cp', b', m'))"
      "r_fo cp' = Some (d', p')" "r_errors cp' = r_errors (skip_rest st)" "length d' = length d1"
      "restored disk (p0 + 4096 * length ?b) (bits_of ?r) d1 p1 d'" by blast
  have "restore_loop zl nolrs fetch i buf bmp cp fmax = Some (Inr (cp', b', m'))"
    using st(1) blk r(1) fetch by (subst restore_loop.simps) simp
  moreover have "restored disk p0 (bits_of bm) d p d'"
    unfolding bits using st(7) r(5) p1 by (intro restored_append) simp_all
  ultimately show ?case using r(2-4) st(5,6) by auto
qed

text \<open>What a server gives that has exactly the files of an image.\<close>

definition serves :: "fetch \<Rightarrow> string list \<Rightarrow> bool" where
  "serves fetch files \<longleftrightarrow> (\<forall>i < length files. fetch i 0 = Some (files ! i)) \<and> fetch (length files) 0 = None"

text \<open>The disk is large enough for a bitmap at \<open>p\<close>: it reaches up to the last file and has all used sectors.\<close>

definition disk_holds :: "string \<Rightarrow> nat \<Rightarrow> string \<Rightarrow> bool" where
  "disk_holds data p bm \<longleftrightarrow> p + 4096 * ((block_count bm - 1) * ALLOCLG) \<le> length data \<and>
     (\<forall>j < 8 * length bm. bits_of bm ! j \<longrightarrow> p + 512 * j + 512 \<le> length data)"

lemma block_count_small: "length bm < 2 ^ 32 \<Longrightarrow> int (block_count bm) < 2 ^ 31"
proof -
  assume l: "length bm < 2 ^ 32"
  have "block_count bm \<le> (length bm + ALLOCLG - 1) div 22016" by (simp add: block_count_def ALLOCLG_def TOTALLG_def HEADERLG_def)
  moreover have "length bm + ALLOCLG - 1 < 2 ^ 31 * 22016" using l by (simp add: ALLOCLG_def TOTALLG_def HEADERLG_def)
  ultimately show ?thesis by (simp add: less_mult_imp_div_less le_less_trans [of _ "(length bm + ALLOCLG - 1) div 22016"])
qed

lemma restore_image_files:
  assumes "options_clean opts info fs" "\<forall>i. strstr (fs i) ''BLOCKS='' = None" "firststring nb_sect (block_count bm) info = Inr first"
    and "sectors_ok disk 0 (bits_of bm)" "length bm < 2 ^ 32" "disk_holds data (512 * unat sect) bm" "length buf = BUFSIZE"
    and files: "list_all2 (encodes zl) files (file_plain fs disk 0 (block_count bm) first bm 0)" "serves fetch files"
  shows "\<exists>data' buf' bmp'. restore zl nolrs fetch buf bmp (Some data) sect = Some (Inr (Some data', 0, buf', bmp')) \<and>
     length data' = length data \<and> restored disk 0 (bits_of bm) data (512 * unat sect) data'"
proof -
  let ?p = "512 * unat sect"
  let ?cp = "\<lparr>r_bitindex = 0, r_fo = Some (data, ?p), r_offset = 512 * ucast sect, r_errors = 0\<rparr>"
  have p: "?p \<le> length data" using assms(6) by (simp add: disk_holds_def)
  have len: "length files = block_count bm" using list_all2_lengthD [OF files(1)] by simp
  have "\<exists>cp' b' m' d' p'. restore_loop zl nolrs fetch 0 buf bmp ?cp (Some (- 1)) = Some (Inr (cp', b', m')) \<and> r_fo cp' = Some (d', p') \<and>
       r_errors cp' = 0 \<and> length d' = length data \<and> restored disk 0 (bits_of bm) data ?p d'"
  proof (cases "block_count bm")
    case 0
    then have "bm = []" using block_count_enough [of bm] by simp
    moreover have "fetch 0 0 = None" using files(2) len 0 by (simp add: serves_def)
    ultimately show ?thesis by (subst restore_loop.simps) (simp add: restored_def)
  next
    case (Suc n)
    have fs: "unmarked (fs i) \<and> length (fs i) < 400 \<and> strstr (fs i) ''BLOCKS='' = None" for i
      using assms(1,2) filestring_length [of opts i "fs i"] by (auto simp: options_clean_def)
    have first: "unmarked (first @ fs 0)" "length first < 200"
      using firststring_unmarked [OF assms(3), of "fs 0"] assms(1) by (auto simp: options_clean_def)
    have fmax: "read_fmax (header_text first (fs 0) l) (Some (- 1)) = Some (int (0 + Suc n))" for l
      using blocks_present [OF assms(3) block_count_small [OF assms(5)]] Suc by simp
    have fetch: "fetch (0 + j) 0 = Some (files ! j)" if "j < Suc n" for j using files(2) len Suc that by (simp add: serves_def)
    have room: "?p + 4096 * (n * ALLOCLG) \<le> length data" "\<And>j. j < 8 * length bm \<Longrightarrow> bits_of bm ! j \<Longrightarrow> ?p + 512 * j + 512 \<le> length data"
      using assms(6) Suc by (simp_all add: disk_holds_def)
    have fp: "list_all2 (encodes zl) files (file_plain fs disk 0 (Suc n) first bm 0)" "length bm \<le> Suc n * ALLOCLG"
      using files(1) block_count_enough [of bm] unfolding Suc by simp_all
    from restore_loop_ok [where fetch = fetch and cp = ?cp and d = data, OF fs fp(1) first fmax assms(4) fp(2) assms(7) fetch _ room]
    show ?thesis by simp
  qed
  then obtain cp' b' m' d' p' where "restore_loop zl nolrs fetch 0 buf bmp ?cp (Some (- 1)) = Some (Inr (cp', b', m'))" "r_fo cp' = Some (d', p')"
      "r_errors cp' = 0" "length d' = length data" "restored disk 0 (bits_of bm) data ?p d'" by blast
  with p show ?thesis by (simp add: restore_def lseek64_def) (simp add: ret_run_def)
qed

section \<open>Properties\<close>

text \<open>
  C3 (\<open>compress_volume\<close>, \<open>restore\<close>): what the image writer saves, \<open>restore\<close> of the restore program puts
  back from sector \<open>sect\<close> of a disk that has room for the used sectors: it reads all files and no
  more, shows no error, makes every used sector the same as on the volume, keeps every other byte and
  does not change the size of the disk. The server has room for the files and the compression level is
  one that zlib accepts.
\<close>

theorem autorestore_restores:
  assumes "zlib_ok zl" "level_ok lev" "options_clean opts info fs" "\<forall>i. strstr (fs i) ''BLOCKS='' = None" "firststring nb_sect (block_count bm) info = Inr first"
    and "sectors_ok disk 0 (bits_of bm)" "length junk = TOTALLG" "length bm < 2 ^ 32" "disk_holds data (512 * unat sect) bm" "length buf = BUFSIZE"
  shows "\<exists>files s. compress_volume zl lev opts None junk disk nb_sect bm info = Some (Inr (files, s)) \<and>
     (\<forall>fetch nolrs bmp. serves fetch files \<longrightarrow>
        (\<exists>data' buf' bmp'. restore zl nolrs fetch buf bmp (Some data) sect = Some (Inr (Some data', 0, buf', bmp')) \<and>
           length data' = length data \<and> restored disk 0 (bits_of bm) data (512 * unat sect) data'))"
proof -
  obtain files s where "compress_volume zl lev opts None junk disk nb_sect bm info = Some (Inr (files, s))"
      "list_all2 (encodes zl) files (file_plain fs disk 0 (block_count bm) first bm 0)"
    using compress_volume_sat [OF assms(1-3,5-7)] by blast
  then show ?thesis using restore_image_files [OF assms(3-6,8-10)] by blast
qed

text \<open>
  (\<open>restore\<close>): when a file has to be fetched again and is not there, the program does not leave but
  reads through a null pointer, unless it runs with \<open>--nolrs\<close>: the test in \<open>fatal\<close> is inverted.
\<close>

theorem refetch_missing_crashes:
  assumes "fetch i k = Some fi" "fetch i (k + 1) = None"
    "attempt zl restore_sink (start_state zl fi buf bm (file_start cp) fmax) = Some (Inr (st, Z_ERROR e))" "e < 0"
  shows "restore_file zl False fetch i k buf bm cp fmax = Some (Inl NullDeref) \<and>
     restore_file zl True fetch i k buf bm cp fmax = Some (Inl (Exit 1))"
proof -
  have "restore_file zl nolrs fetch i k buf bm cp fmax = Some (Inl (no_input nolrs))" for nolrs
    using assms by (subst restore_file.simps, simp add: failed_def) (subst restore_file.simps, simp)
  then show ?thesis by (simp add: no_input_def)
qed

section \<open>Witnesses\<close>

theorem autorestore_restores_witness:
  "\<exists>files s. compress_volume stored_zlib None None None (replicate TOTALLG NUL) sample_disk 3 [CHR 0x05] ''SWAP=1'' = Some (Inr (files, s)) \<and>
     (\<forall>fetch nolrs bmp. serves fetch files \<longrightarrow>
        (\<exists>data' buf' bmp'. restore stored_zlib nolrs fetch (replicate BUFSIZE NUL) bmp (Some (replicate 5120 (CHR ''z''))) 2 = Some (Inr (Some data', 0, buf', bmp')) \<and>
           length data' = 5120 \<and> restored sample_disk 0 (bits_of [CHR 0x05]) (replicate 5120 (CHR ''z'')) 1024 data'))"
proof -
  have f: "firststring 3 (block_count [CHR 0x05]) ''SWAP=1'' = Inr ''SECTORS=3|BLOCKS=1|SWAP=1''"
    unfolding sample_blocks by (rule sample_first)
  have h: "disk_holds (replicate 5120 (CHR ''z'')) (512 * unat (2 :: u32)) [CHR 0x05]"
    by (auto simp: disk_holds_def sample_blocks)
  have c: "length (replicate TOTALLG NUL) = TOTALLG" "length (replicate BUFSIZE NUL) = BUFSIZE" "length [CHR 0x05] < 2 ^ 32"
    "\<forall>i :: nat. strstr [] ''BLOCKS='' = None" by simp_all
  from autorestore_restores [OF stored_zlib_ok level_ok_None sample_options c(4) f sample_ok c(1,3) h c(2)] show ?thesis by simp
qed

definition sample_params :: rparams where
  "sample_params = \<lparr>r_bitindex = 0, r_fo = Some (replicate 512 NUL, 0), r_offset = 0, r_errors = 0\<rparr>"

theorem refetch_missing_crashes_witness:
  "restore_file stored_zlib False (\<lambda>i k. if k = 0 then Some [] else None) 0 0 (replicate BUFSIZE NUL) [] sample_params (Some 1) = Some (Inl NullDeref)"
proof -
  let ?st = "start_state stored_zlib [] (replicate BUFSIZE NUL) [] (file_start sample_params) (Some 1) :: (nat, rparams) dstate"
  have call: "inflate_call stored_zlib fl ?st = (?st, Z_ERROR (- 5))" for fl
    by (simp add: inflate_call_def start_state_def stored_zlib_def stored_inflate_def)
  then have "attempt stored_zlib restore_sink ?st = Some (Inr (?st, Z_ERROR (- 5)))"
    unfolding attempt_def by (subst inflate_loop.simps) (simp add: ret_run_def)
  then show ?thesis
    using refetch_missing_crashes [of "\<lambda>i k. if k = 0 then Some [] else None" 0 0 "[]" stored_zlib "replicate BUFSIZE NUL" "[]" sample_params "Some 1" ?st "- 5"]
    by simp
qed

end
