(* ===== verification/Bitmap.thy ===== *)
theory Bitmap
  imports Save_Restore
begin

text \<open>
  What the programs \<^verbatim>\<open>image_*\<close> share: the bitmap with one bit per sector they build before they
  save a volume, the loops that set bits in it, the device they read, and their common ending
  (\<open>ui_send\<close> of \<^verbatim>\<open>init_backup\<close>, then \<open>compress_volume\<close>). The locale \<open>imager\<close> is the contract between
  a program that builds a bitmap and the saving and restoring of the volume.
\<close>

section \<open>Setting and testing bits\<close>

definition bit_mask :: "nat list" where
  "bit_mask = [0x01, 0x02, 0x04, 0x08, 0x10, 0x20, 0x40, 0x80]"

definition setbit :: "string \<Rightarrow> nat \<Rightarrow> string res" where
  "setbit p num =
     (if num div 8 < length p
      then Inr (p[num div 8 := char_of ((of_char (p ! (num div 8)) :: nat) OR bit_mask ! (num mod 8))])
      else Inl BufOverflow)"

fun setbits :: "string \<Rightarrow> nat list \<Rightarrow> string res" where
  "setbits p [] = Inr p"
| "setbits p (i # is) = bind_res (setbit p i) (\<lambda>p. setbits p is)"

text \<open>\<open>test_bit\<close> and \<open>clear_bit\<close> of the file system libraries, on a buffer.\<close>

definition clear_bit :: "nat \<Rightarrow> string \<Rightarrow> string res" where
  "clear_bit num p =
     (if num div 8 < length p
      then Inr (p[num div 8 := char_of (unset_bit (num mod 8) (of_char (p ! (num div 8)) :: nat))])
      else Inl BufOverflow)"

lemma bit_mask_nth: "k < 8 \<Longrightarrow> bit_mask ! k = 2 ^ k"
  by (auto simp: bit_mask_def less_Suc_eq numeral_eq_Suc)

lemma byte_bits_bit: "k < 8 \<Longrightarrow> byte_bits c ! k = bit (of_char c :: nat) k"
proof -
  assume k: "k < 8"
  have m: "byte_bits c = map (\<lambda>k. (of_char c :: nat) AND k \<noteq> 0) bit_mask" "length bit_mask = 8"
    unfolding byte_bits_def bit_mask_def by simp_all
  then have "byte_bits c ! k = ((of_char c :: nat) AND bit_mask ! k \<noteq> 0)"
    using k by (simp only: nth_map)
  also have "\<dots> = bit (of_char c :: nat) k"
    using k by (simp add: bit_mask_nth bit_eq_iff [of _ 0] bit_and_iff bit_exp_iff)
  finally show ?thesis .
qed

lemma bit_char_of [simp]: "k < 8 \<Longrightarrow> bit (of_char (char_of (n :: nat)) :: nat) k = bit n k"
proof -
  assume "k < 8"
  moreover have "(of_char (char_of n) :: nat) = take_bit 8 n" by (simp add: take_bit_eq_mod)
  ultimately show ?thesis by (simp only: bit_take_bit_iff) simp
qed

lemma byte_bits_set: "k < 8 \<Longrightarrow> byte_bits (char_of ((of_char c :: nat) OR 2 ^ k)) = (byte_bits c)[k := True]"
  by (intro nth_equalityI) (auto simp: byte_bits_bit bit_or_iff bit_exp_iff nth_list_update simp del: of_char_of)

lemma byte_bits_clear: "k < 8 \<Longrightarrow> byte_bits (char_of (unset_bit k (of_char c :: nat))) = (byte_bits c)[k := False]"
  by (intro nth_equalityI) (auto simp: byte_bits_bit bit_unset_bit_iff nth_list_update simp del: of_char_of)

lemma bits_of_update:
  "i < length p \<Longrightarrow> byte_bits c = (byte_bits (p ! i))[k := b] \<Longrightarrow> k < 8 \<Longrightarrow>
     bits_of (p[i := c]) = (bits_of p)[8 * i + k := b]"
proof (induction p arbitrary: i)
  case (Cons a p)
  then show ?case by (cases i) (auto simp: list_update_append)
qed simp

lemma setbit_ok: "num < 8 * length p \<Longrightarrow> \<exists>q. setbit p num = Inr q \<and> length q = length p \<and> bits_of q = (bits_of p)[num := True]"
  using bits_of_update [of "num div 8" p _ "num mod 8" True] byte_bits_set [of "num mod 8"]
  by (auto simp: setbit_def bit_mask_nth)

lemma clear_bit_ok: "num < 8 * length p \<Longrightarrow> \<exists>q. clear_bit num p = Inr q \<and> length q = length p \<and> bits_of q = (bits_of p)[num := False]"
  using bits_of_update [of "num div 8" p _ "num mod 8" False] byte_bits_clear [of "num mod 8"]
  by (auto simp: clear_bit_def)

lemma setbit_fault: "setbit p num = Inl e \<longleftrightarrow> 8 * length p \<le> num \<and> e = BufOverflow"
  by (auto simp: setbit_def)

text \<open>Exactly the listed bits are set, the others stay.\<close>

definition bits_added :: "string \<Rightarrow> (nat \<Rightarrow> bool) \<Rightarrow> string \<Rightarrow> bool" where
  "bits_added p S q \<longleftrightarrow> length q = length p \<and> (\<forall>i < 8 * length p. bits_of q ! i \<longleftrightarrow> bits_of p ! i \<or> S i)"

lemma setbits_ok: "\<forall>i \<in> set is. i < 8 * length p \<Longrightarrow> \<exists>q. setbits p is = Inr q \<and> bits_added p (\<lambda>i. i \<in> set is) q"
proof (induction "is" arbitrary: p)
  case (Cons i "is")
  obtain q where q: "setbit p i = Inr q" "length q = length p" "bits_of q = (bits_of p)[i := True]"
    using setbit_ok [of i p] Cons.prems by auto
  obtain r where r: "setbits q is = Inr r" "bits_added q (\<lambda>i. i \<in> set is) r"
    using Cons.IH [of q] Cons.prems q(2) by auto
  have "bits_of q ! j \<longleftrightarrow> bits_of p ! j \<or> j = i" if "j < 8 * length p" for j
    using q(3) that Cons.prems by (simp add: nth_list_update)
  with r q show ?case by (auto simp: bits_added_def)
qed (simp add: bits_added_def)

lemma setbits_append: "setbits p (a @ b) = bind_res (setbits p a) (\<lambda>p. setbits p b)"
  by (induction a arbitrary: p) (auto simp: bind_res_def split: sum.splits)

section \<open>Devices and parameters\<close>

text \<open>
  A device: its contents and what the ioctl \<open>BLKGETSIZE\<close> gives (\<open>None\<close> for a regular file). A path
  that cannot be opened is \<open>None\<close>. \<open>params\<close> is the structure \<open>PARAMS\<close>; \<open>bitmaplg\<close> is the length of
  the bitmap.
\<close>

record device =
  dev_data :: string
  dev_blkgetsize :: "u32 option"

record params =
  bitmap :: string
  nb_sect :: u64

definition bitmaplg :: "params \<Rightarrow> nat" where
  "bitmaplg p = length (bitmap p)"

text \<open>What \<open>compress_volume\<close> finds around it: zlib, the level, the options, the space, the stack.\<close>

record ('z, 'i) save_env =
  se_zlib :: "('z, 'i) zlib"
  se_level :: "string option"
  se_options :: "string option"
  se_space :: "space option"
  se_stack :: string

text \<open>A program ends with the messages to the user interface, the files and the counters.\<close>

type_synonym saved = "string list list \<times> string list \<times> save_state"

definition save_image ::
    "('z, 'i) save_env \<Rightarrow> string \<Rightarrow> string list \<Rightarrow> params \<Rightarrow> string \<Rightarrow> string \<Rightarrow> string \<Rightarrow> saved run" where
  "save_image env disk argv p info1 info2 info =
     bind_run (compress_volume (se_zlib env) (se_level env) (se_options env) (se_space env) (se_stack env)
                 disk (nb_sect p) (bitmap p) info) (\<lambda>(files, s).
       ret_run ([[''init_backup'', argv ! 1, argv ! 2, info1, info2, argv ! 0]], files, s))"

text \<open>The guards all programs start with.\<close>

definition usage_ok :: "string list \<Rightarrow> bool" where
  "usage_ok argv \<longleftrightarrow> length argv = 3"

definition query_only :: "string list \<Rightarrow> bool" where
  "query_only argv \<longleftrightarrow> take 1 (argv ! 2) = ''?''"

section \<open>The contract of a program that builds a bitmap\<close>

text \<open>The bitmap marks exactly the sectors in \<open>S\<close>.\<close>

definition marks :: "params \<Rightarrow> (nat \<Rightarrow> bool) \<Rightarrow> bool" where
  "marks p S \<longleftrightarrow> (\<forall>i. S i \<longleftrightarrow> i < 8 * length (bitmap p) \<and> bits_of (bitmap p) ! i)"

lemma sectors_ok_iff: "sectors_ok disk p bs \<longleftrightarrow> (\<forall>i < length bs. bs ! i \<longrightarrow> p + 512 * i + 512 \<le> length disk)"
proof (induction bs arbitrary: p)
  case (Cons b bs)
  show ?case unfolding sectors_ok.simps Cons.IH list.size add_Suc_right add_0_right All_less_Suc2
    by (simp add: algebra_simps)
qed simp

lemma used_area_iff: "q \<in> used_area p bs \<longleftrightarrow> (\<exists>i < length bs. bs ! i \<and> p + 512 * i \<le> q \<and> q < p + 512 * i + 512)"
proof (induction bs arbitrary: p)
  case (Cons b bs)
  show ?case unfolding used_area.simps Un_iff Cons.IH list.size add_Suc_right add_0_right Ex_less_Suc2
    by (auto simp: algebra_simps)
qed simp

text \<open>
  After a restore at \<open>off\<close>: the sectors in \<open>S\<close> are those of the volume, all other bytes are kept.
\<close>

definition volume_restored :: "string \<Rightarrow> (nat \<Rightarrow> bool) \<Rightarrow> string \<Rightarrow> nat \<Rightarrow> string \<Rightarrow> bool" where
  "volume_restored disk S data off data' \<longleftrightarrow>
     (\<forall>i. S i \<longrightarrow> off + 512 * i + 512 \<le> length data' \<and> sector_at data' (off + 512 * i) = sector_at disk (512 * i)) \<and>
     keeps data data' {q. off \<le> q \<and> S ((q - off) div 512)}"

lemma restored_marks:
  assumes "marks p S" "restored disk 0 (bits_of (bitmap p)) data off data'"
  shows "volume_restored disk S data off data'"
proof -
  have "used_area off (bits_of (bitmap p)) \<subseteq> {q. off \<le> q \<and> S ((q - off) div 512)}"
  proof
    fix q assume "q \<in> used_area off (bits_of (bitmap p))"
    then obtain i where i: "i < 8 * length (bitmap p)" "bits_of (bitmap p) ! i" "off + 512 * i \<le> q" "q < off + 512 * i + 512"
      by (auto simp: used_area_iff)
    have "S i" using assms(1) i(1,2) by (simp add: marks_def)
    moreover have "(q - off) div 512 = i"
      using i(3,4) by (intro div_nat_eqI) (simp_all add: less_diff_conv2)
    ultimately show "q \<in> {q. off \<le> q \<and> S ((q - off) div 512)}" using i(3) by auto
  qed
  then have "keeps data data' {q. off \<le> q \<and> S ((q - off) div 512)}"
    using assms(2) by (auto simp: restored_def keeps_def)
  then show ?thesis using assms by (simp add: volume_restored_def restored_def marks_def)
qed

text \<open>The environment is sound: zlib as documented, a level it accepts, readable options, enough space.\<close>

definition env_ok :: "('z, 'i) save_env \<Rightarrow> string \<Rightarrow> bool" where
  "env_ok env info \<longleftrightarrow> zlib_ok (se_zlib env) \<and> level_ok (se_level env) \<and> (\<exists>fs. options_clean (se_options env) info fs) \<and>
     se_space env = None \<and> length (se_stack env) = TOTALLG"

lemma firststring_fits:
  assumes "k < 2 ^ 32" "length info \<le> 100"
  shows "\<exists>first. firststring nb k info = Inr first"
proof -
  have "unat nb < 2 ^ 64" using unsigned_less [of nb] by simp
  then have "length (show_nat (unat nb)) \<le> 20" "length (show_nat k) \<le> 20"
    using assms(1) by (intro length_show_nat; simp)+
  then show ?thesis using assms(2) by (simp add: firststring_def strcpy_def)
qed

lemma save_image_restores:
  assumes env: "env_ok env info" and p: "marks p S" "length (bitmap p) < 2 ^ 32" "length info \<le> 100"
    and disk: "\<And>i. S i \<Longrightarrow> 512 * i + 512 \<le> length disk" and off: "unat off < 2 ^ 63"
  shows "\<exists>ui files s data' off'. save_image env disk argv p info1 info2 info = Some (Inr (ui, files, s)) \<and> s_errors s = 0 \<and>
     restore_files (se_zlib env) files data off = Some (Inr (data', off')) \<and> volume_restored disk S data (unat off) data'"
proof -
  obtain fs where fs: "options_clean (se_options env) info fs" using env by (auto simp: env_ok_def)
  have "block_count (bitmap p) < 2 ^ 32"
    using p(2) div_le_dividend [of "length (bitmap p) + ALLOCLG - 1" ALLOCLG]
    by (auto simp: block_count_def ALLOCLG_def TOTALLG_def HEADERLG_def intro: div_less_dividend)
  then obtain first where first: "firststring (nb_sect p) (block_count (bitmap p)) info = Inr first"
    using firststring_fits p(3) by blast
  have ok: "sectors_ok disk 0 (bits_of (bitmap p))"
    using p(1) disk by (auto simp: sectors_ok_iff marks_def)
  have lt: "unat off + 4096 * length (bitmap p) < 2 ^ 64" using off p(2) by simp
  obtain files s data' where *: "compress_volume (se_zlib env) (se_level env) (se_options env) None (se_stack env) disk (nb_sect p) (bitmap p) info =
        Some (Inr (files, s))" "s_errors s = 0"
      "restore_files (se_zlib env) files data off = Some (Inr (data', off + of_nat (4096 * length (bitmap p))))"
      "restored disk 0 (bits_of (bitmap p)) data (unat off) data'"
    using save_restore_files [OF _ _ fs first ok _ lt, of "se_zlib env" "se_level env" "se_stack env" data] env
    by (auto simp: env_ok_def)
  with env restored_marks [OF p(1) *(4)] show ?thesis
    by (simp add: save_image_def env_ok_def) (simp add: ret_run_def)
qed

text \<open>The bitmap has a bit for each of at most the sectors of \<open>n\<close> bytes, rounded up to full bytes.\<close>

definition spans :: "params \<Rightarrow> nat \<Rightarrow> bool" where
  "spans p n \<longleftrightarrow> length (bitmap p) < 2 ^ 32 \<and> 4096 * length (bitmap p) \<le> n + 4095"

lemma spansI: "8 * length (bitmap p) \<le> k + 7 \<Longrightarrow> k < 2 ^ 32 \<Longrightarrow> 512 * k \<le> n \<Longrightarrow> spans p n"
  by (simp add: spans_def)

text \<open>
  The interface: a program \<open>main\<close> that, on the inputs \<open>good\<close>, saves the volume \<open>disk\<close> with a bitmap
  that marks exactly the sectors \<open>in_use\<close>, all of which are on the volume, and that does not reach
  further than the volume.
\<close>

locale imager =
  fixes main :: "('z, 'i) save_env \<Rightarrow> 'a \<Rightarrow> string list \<Rightarrow> saved run"
    and good :: "'a \<Rightarrow> bool"
    and in_use :: "'a \<Rightarrow> nat \<Rightarrow> bool"
    and disk :: "'a \<Rightarrow> string"
    and info :: string
  assumes main_saves: "good x \<Longrightarrow> usage_ok argv \<Longrightarrow> \<not> query_only argv \<Longrightarrow>
      \<exists>p i1 i2. main env x argv = save_image env (disk x) argv p i1 i2 info \<and> marks p (in_use x) \<and> spans p (length (disk x))"
    and on_disk: "good x \<Longrightarrow> in_use x i \<Longrightarrow> 512 * i + 512 \<le> length (disk x)"
    and info_short: "length info \<le> 100"
begin

lemma main_restores:
  assumes "good x" "usage_ok argv" "\<not> query_only argv" "env_ok env info" "unat off < 2 ^ 63"
  shows "\<exists>ui files s data' off'. main env x argv = Some (Inr (ui, files, s)) \<and> s_errors s = 0 \<and>
     restore_files (se_zlib env) files data off = Some (Inr (data', off')) \<and>
     volume_restored (disk x) (in_use x) data (unat off) data'"
proof -
  obtain p i1 i2 where p: "main env x argv = save_image env (disk x) argv p i1 i2 info" "marks p (in_use x)"
      "length (bitmap p) < 2 ^ 32"
    using main_saves [OF assms(1-3)] unfolding spans_def by blast
  show ?thesis unfolding p(1)
    by (rule save_image_restores [OF assms(4) p(2,3) info_short on_disk [OF assms(1)] assms(5)])
qed

end

text \<open>A sound environment for a given info string without the mark of the header.\<close>

definition sample_save_env :: "(string \<times> bool, nat) save_env" where
  "sample_save_env = \<lparr>se_zlib = stored_zlib, se_level = None, se_options = None, se_space = None, se_stack = replicate TOTALLG NUL\<rparr>"

lemma sample_save_env_ok: "unmarked info \<Longrightarrow> env_ok sample_save_env info"
  by (auto simp: env_ok_def sample_save_env_def stored_zlib_ok level_ok_None options_clean_def filestring_def unmarked_def intro!: exI [of _ "\<lambda>_. []"])

end
