(* ===== verification/Image_Raw.thy ===== *)
theory Image_Raw
  imports Bitmap
begin

text \<open>
  The programs that do not look into a file system: \<^verbatim>\<open>image_swap.c\<close> saves the first sectors of a swap
  partition, \<^verbatim>\<open>image_raw.c\<close> and \<^verbatim>\<open>image_jfs.c\<close> all sectors of a device. (\<^verbatim>\<open>client/revimage\<close>.)
\<close>

section \<open>image\_swap.c\<close>

text \<open>A short read leaves the rest of the buffer \<open>dum\<close> as the stack had it.\<close>

definition check_signature :: "string \<Rightarrow> string \<Rightarrow> unit res" where
  "check_signature stack data =
     (let dum = take 4096 data @ drop (length (take 4096 data)) stack
      in if take 10 (drop (4096 - 10) dum) = ''SWAP-SPACE'' then Inr ()
         else if take 10 (drop (4096 - 10) dum) = ''SWAPSPACE2'' then Inr ()
         else Inl (Exit 1))"

definition swap_sectors :: "params \<times> string \<times> string" where
  "swap_sectors =
     (let used = 8 :: nat; bm = foldl (\<lambda>bm i. bm[i := CHR 0xFF]) (replicate 8 NUL) [0..<8]
      in (\<lparr>bitmap = bm, nb_sect = 8\<rparr>, show_nat 8, show_nat used))"

definition image_swap :: "('z, 'i) save_env \<Rightarrow> device option \<Rightarrow> string \<Rightarrow> string list \<Rightarrow> saved run" where
  "image_swap env dev stack argv =
     (if \<not> usage_ok argv then Some (Inl (Exit 1))
      else case dev of
        None \<Rightarrow> Some (Inl NullDeref)
      | Some d \<Rightarrow>
          bind_run (Some (check_signature stack (dev_data d))) (\<lambda>_.
            case swap_sectors of (p, info1, info2) \<Rightarrow>
              if query_only argv then Some (Inl (Exit 0))
              else save_image env (dev_data d) argv p info1 info2 ''SWAP=1''))"

section \<open>image\_raw.c\<close>

text \<open>
  The number of sectors: that of the block device, or the size of the file. The bitmap has \<open>bytes\<close>
  bytes; all but the last are set, the last one only if the number of sectors is no multiple of 8.
\<close>

definition device_size :: "device \<Rightarrow> u32" where
  "device_size d = (case dev_blkgetsize d of Some n \<Rightarrow> n | None \<Rightarrow> of_nat (length (dev_data d) div 512))"

definition fill_bitmap :: "nat \<Rightarrow> nat \<Rightarrow> string res" where
  "fill_bitmap bytes rest =
     (let bm = foldl (\<lambda>bm i. bm[i := CHR 0xFF]) (replicate bytes NUL) [0..<bytes - 1]; i = bytes - 1
      in if rest \<noteq> 0
         then (if i < length bm then Inr (bm[i := char_of (drop_bit (8 - rest) 0xFF AND (0xFF :: nat))]) else Inl BufOverflow)
         else Inr bm)"

definition raw_sectors :: "device option \<Rightarrow> (params \<times> string \<times> string) res" where
  "raw_sectors dev =
     (case dev of
        None \<Rightarrow> Inl (Exit 1)
      | Some d \<Rightarrow>
          let size = device_size d
          in if size = 0 then Inl (Exit 1)
             else bind_res (fill_bitmap (unat ((size + 7) div 8)) (unat (size AND 7))) (\<lambda>bm.
                    Inr (\<lparr>bitmap = bm, nb_sect = ucast size\<rparr>, show_nat (unat size), show_nat (unat size))))"

definition image_raw :: "('z, 'i) save_env \<Rightarrow> device option \<Rightarrow> string list \<Rightarrow> saved run" where
  "image_raw env dev argv =
     (if \<not> usage_ok argv then Some (Inl (Exit 1))
      else if query_only argv then Some (Inl (Exit 0))
      else bind_run (Some (raw_sectors dev)) (\<lambda>(p, info1, info2).
             save_image env (dev_data (the dev)) argv p info1 info2 []))"

section \<open>image\_jfs.c\<close>

definition jfs_checkit :: "device option \<Rightarrow> unit res" where
  "jfs_checkit dev =
     (case dev of
        None \<Rightarrow> Inl (Exit 1)
      | Some d \<Rightarrow>
          let buf = take 256 (drop 0x8000 (dev_data d))
          in if length buf \<noteq> 256 then Inl (Exit 1) else if take 4 buf = ''JFS1'' then Inr () else Inl (Exit 1))"

text \<open>
  Here the size is an \<open>int\<close>: from \<open>2\<^sup>3\<^sup>1 - 7\<close> sectors on the number of bytes is negative or 0. The memory
  cannot be had for a negative number, and the bitmap is then read through a NULL pointer.
\<close>

definition jfs_sectors :: "device option \<Rightarrow> (params \<times> string \<times> string) res" where
  "jfs_sectors dev =
     (case dev of
        None \<Rightarrow> Inl (Exit 1)
      | Some d \<Rightarrow>
          let size = device_size d; n = sint (size + 7); bytes = (if n < 0 then - (- n div 8) else n div 8)
          in if size = 0 then Inl (Exit 1)
             else if bytes < 0 then Inl NullDeref
             else bind_res (fill_bitmap (nat bytes) (unat (size AND 7))) (\<lambda>bm.
                    Inr (\<lparr>bitmap = bm, nb_sect = scast size\<rparr>, show_nat (unat size), show_nat (unat size))))"

definition image_jfs :: "('z, 'i) save_env \<Rightarrow> device option \<Rightarrow> string list \<Rightarrow> saved run" where
  "image_jfs env dev argv =
     (if \<not> usage_ok argv then Some (Inl (Exit 1))
      else bind_run (Some (jfs_checkit dev)) (\<lambda>_.
             if query_only argv then Some (Inl (Exit 0))
             else bind_run (Some (jfs_sectors dev)) (\<lambda>(p, info1, info2).
                    save_image env (dev_data (the dev)) argv p info1 info2 [])))"

section \<open>The sectors that are marked\<close>

lemma fill_loop_replicate:
  "k \<le> n \<Longrightarrow> foldl (\<lambda>bm i. bm[i := c]) (replicate n b) [0..<k] = replicate k c @ replicate (n - k) b"
proof (induction k)
  case (Suc k)
  then have "n - k = Suc (n - Suc k)" by simp
  with Suc show ?case by (simp add: list_update_append replicate_append_same)
qed simp

lemma byte_bits_full: "byte_bits (CHR 0xFF) = replicate 8 True" "byte_bits NUL = replicate 8 False"
  by code_simp+

lemma bits_of_replicate: "byte_bits c = replicate 8 b \<Longrightarrow> bits_of (replicate n c) = replicate (8 * n) b"
  by (induction n) (simp_all add: replicate_add [symmetric])

lemma byte_bits_tail:
  assumes "0 < r" "r < 8"
  shows "byte_bits (char_of (drop_bit (8 - r) 0xFF AND (0xFF :: nat))) = replicate r True @ replicate (8 - r) False"
proof -
  have "r \<in> {1, 2, 3, 4, 5, 6, 7}" using assms by auto
  then show ?thesis by (elim insertE emptyE; simp only:; code_simp)
qed

text \<open>The sectors of a device of \<open>n\<close> sectors that are saved.\<close>

definition covered :: "nat \<Rightarrow> nat" where
  "covered n = (if 8 dvd n then n - 8 else n)"

lemma fill_bitmap_bits:
  assumes "0 < n"
  shows "\<exists>bm. fill_bitmap ((n + 7) div 8) (n mod 8) = Inr bm \<and> length bm = (n + 7) div 8 \<and>
    bits_of bm = replicate (covered n) True @ replicate (8 * ((n + 7) div 8) - covered n) False"
proof -
  let ?b = "(n + 7) div 8"
  have b: "0 < ?b" using assms by (simp add: div_greater_zero_iff)
  have base: "foldl (\<lambda>bm i. bm[i := CHR 0xFF]) (replicate ?b NUL) [0..<?b - 1] = replicate (?b - 1) (CHR 0xFF) @ [NUL]"
    using fill_loop_replicate [of "?b - 1" ?b] b by simp
  show ?thesis
  proof (cases "n mod 8 = 0")
    case True
    then obtain m where m: "n = 8 * m" by auto
    then have "?b = m" "covered n = 8 * (m - 1)" by (auto simp: covered_def)
    with True b m show ?thesis unfolding fill_bitmap_def base Let_def
      by (auto simp: bits_of_replicate byte_bits_full covered_def)
  next
    case False
    define m where "m = n div 8"
    have n: "n = 8 * m + n mod 8" by (simp add: m_def)
    have r: "n mod 8 < 8" "0 < n mod 8" using False by simp_all
    have bm: "?b = m + 1" using n r div_nat_eqI [of 8 "m + 1" "n + 7"] by linarith
    have cov: "covered n = 8 * m + n mod 8" using False n by (metis covered_def dvd_eq_mod_eq_0)
    have len: "8 * ?b - covered n = 8 - n mod 8" using bm cov by simp
    have "bits_of (replicate (?b - 1) (CHR 0xFF) @ [char_of (drop_bit (8 - n mod 8) 0xFF AND (0xFF :: nat))]) =
        replicate (8 * m) True @ replicate (n mod 8) True @ replicate (8 - n mod 8) False"
      using False bm by (simp add: bits_of_replicate byte_bits_full byte_bits_tail)
    with False bm show ?thesis unfolding fill_bitmap_def base Let_def len cov
      by (simp add: list_update_append replicate_add)
  qed
qed

lemma marks_prefix:
  assumes "bits_of bm = replicate a True @ replicate b False"
  shows "marks \<lparr>bitmap = bm, nb_sect = k\<rparr> (\<lambda>i. i < a)"
proof -
  have "8 * length bm = a + b" using arg_cong [OF assms, of length] by simp
  then show ?thesis using assms by (auto simp: marks_def nth_append)
qed

lemma swap_marks: "marks (fst swap_sectors) (\<lambda>i. i < 64)"
proof -
  have "bits_of (replicate 8 (CHR 0xFF)) = replicate 64 True @ replicate 0 False"
    by (simp add: bits_of_replicate [OF byte_bits_full(1)])
  from marks_prefix [OF this, of 8] show ?thesis
    using fill_loop_replicate [of 8 8 "CHR 0xFF" NUL] by (simp add: swap_sectors_def Let_def)
qed

lemma low_bits: "unat ((w :: u32) AND 7) = unat w mod 8"
proof -
  have "(w AND 7) = take_bit 3 w" by (simp add: take_bit_eq_mask mask_eq_exp_minus_1)
  then show ?thesis by (simp add: take_bit_eq_mod unat_mod)
qed

lemma round_up: "unat (w :: u32) + 7 < 2 ^ 32 \<Longrightarrow> unat ((w + 7) div 8) = (unat w + 7) div 8"
proof -
  assume a: "unat w + 7 < 2 ^ 32"
  have "w + 7 = of_nat (unat w + 7)" by simp
  then have "unat (w + 7) = unat w + 7" using unat_of_nat_small [OF a] by (simp only:)
  then show ?thesis by (simp add: unat_div)
qed

lemma raw_sectors_ok:
  assumes "0 < unat (device_size d)" "unat (device_size d) + 7 < 2 ^ 32"
  shows "\<exists>p i1 i2. raw_sectors (Some d) = Inr (p, i1, i2) \<and> marks p (\<lambda>i. i < covered (unat (device_size d))) \<and>
    8 * length (bitmap p) \<le> unat (device_size d) + 7"
proof -
  obtain bm where bm: "fill_bitmap ((unat (device_size d) + 7) div 8) (unat (device_size d) mod 8) = Inr bm"
      "length bm = (unat (device_size d) + 7) div 8"
      "bits_of bm = replicate (covered (unat (device_size d))) True @
         replicate (8 * ((unat (device_size d) + 7) div 8) - covered (unat (device_size d))) False"
    using fill_bitmap_bits [OF assms(1)] by blast
  have "device_size d \<noteq> 0" using assms(1) by auto
  moreover have "8 * length bm \<le> unat (device_size d) + 7" unfolding bm(2) by simp
  ultimately show ?thesis
    using bm(1) marks_prefix [OF bm(3)] by (simp add: raw_sectors_def Let_def low_bits round_up [OF assms(2)])
qed

lemma jfs_sectors_ok:
  assumes "0 < unat (device_size d)" "unat (device_size d) + 7 < 2 ^ 31"
  shows "\<exists>p i1 i2. jfs_sectors (Some d) = Inr (p, i1, i2) \<and> marks p (\<lambda>i. i < covered (unat (device_size d))) \<and>
    8 * length (bitmap p) \<le> unat (device_size d) + 7"
proof -
  obtain bm where bm: "fill_bitmap ((unat (device_size d) + 7) div 8) (unat (device_size d) mod 8) = Inr bm"
      "length bm = (unat (device_size d) + 7) div 8"
      "bits_of bm = replicate (covered (unat (device_size d))) True @
         replicate (8 * ((unat (device_size d) + 7) div 8) - covered (unat (device_size d))) False"
    using fill_bitmap_bits [OF assms(1)] by blast
  have "device_size d + 7 = of_nat (unat (device_size d) + 7)" by simp
  then have n: "sint (device_size d + 7) = int (unat (device_size d) + 7)"
    using sint_of_nat_small [OF assms(2)] by (simp only:)
  have n8: "nat (int (unat (device_size d) + 7) div 8) = (unat (device_size d) + 7) div 8"
    using nat_int [of "(unat (device_size d) + 7) div 8"] by (simp only: zdiv_int of_nat_numeral)
  have "device_size d \<noteq> 0" using assms(1) by auto
  moreover have "8 * length bm \<le> unat (device_size d) + 7" unfolding bm(2) by simp
  ultimately show ?thesis
    using bm(1) marks_prefix [OF bm(3)] unfolding jfs_sectors_def Let_def n option.case low_bits
    by (simp add: n8 del: of_nat_add)
qed

section \<open>The contract\<close>

definition swap_good :: "device \<times> string \<Rightarrow> bool" where
  "swap_good x \<longleftrightarrow> 32768 \<le> length (dev_data (fst x)) \<and> take 10 (drop 4086 (dev_data (fst x))) \<in> {''SWAP-SPACE'', ''SWAPSPACE2''}"

lemma swap_signature: "swap_good (d, st) \<Longrightarrow> check_signature st (dev_data d) = Inr ()"
  by (auto simp: swap_good_def check_signature_def take_drop Let_def)

interpretation swap: imager "\<lambda>env x. image_swap env (Some (fst x)) (snd x)" swap_good "\<lambda>_ i. i < 64"
    "\<lambda>x. dev_data (fst x)" "''SWAP=1''"
proof
  fix x :: "device \<times> string" and argv :: "string list" and env :: "('z, 'i) save_env"
  assume "swap_good x" "usage_ok argv" "\<not> query_only argv"
  then have "image_swap env (Some (fst x)) (snd x) argv =
      save_image env (dev_data (fst x)) argv (fst swap_sectors) (fst (snd swap_sectors)) (snd (snd swap_sectors)) ''SWAP=1''"
    using swap_signature [of "fst x" "snd x"] by (simp add: image_swap_def case_prod_beta)
  moreover have "spans (fst swap_sectors) (length (dev_data (fst x)))" using \<open>swap_good x\<close>
    using fill_loop_replicate [of 8 8 "CHR 0xFF" NUL] by (simp add: swap_sectors_def spans_def swap_good_def Let_def)
  ultimately show "\<exists>p i1 i2. image_swap env (Some (fst x)) (snd x) argv = save_image env (dev_data (fst x)) argv p i1 i2 ''SWAP=1'' \<and>
      marks p (\<lambda>i. i < 64) \<and> spans p (length (dev_data (fst x)))"
    using swap_marks by blast
qed (auto simp: swap_good_def)

text \<open>A device that answers with its number of sectors.\<close>

definition raw_good :: "nat \<Rightarrow> device \<Rightarrow> bool" where
  "raw_good limit d \<longleftrightarrow> 0 < unat (device_size d) \<and> unat (device_size d) + 7 < limit \<and> 512 * unat (device_size d) \<le> length (dev_data d)"

lemma covered_on_disk: "raw_good limit d \<Longrightarrow> i < covered (unat (device_size d)) \<Longrightarrow> 512 * i + 512 \<le> length (dev_data d)"
  by (auto simp: raw_good_def covered_def split: if_splits)

interpretation raw: imager "\<lambda>env d. image_raw env (Some d)" "raw_good (2 ^ 32)"
    "\<lambda>d i. i < covered (unat (device_size d))" dev_data "[]"
proof
  fix d :: device and argv :: "string list" and env :: "('z, 'i) save_env"
  assume d: "raw_good (2 ^ 32) d" "usage_ok argv" "\<not> query_only argv"
  then obtain p i1 i2 where "raw_sectors (Some d) = Inr (p, i1, i2)" "marks p (\<lambda>i. i < covered (unat (device_size d)))"
      "8 * length (bitmap p) \<le> unat (device_size d) + 7"
    using raw_sectors_ok [of d] by (auto simp: raw_good_def)
  moreover have "spans p (length (dev_data d))" using spansI [OF calculation(3)] d(1) by (simp add: raw_good_def)
  moreover from calculation(1) d have "image_raw env (Some d) argv = save_image env (dev_data d) argv p i1 i2 []"
    by (simp add: image_raw_def)
  ultimately show "\<exists>p i1 i2. image_raw env (Some d) argv = save_image env (dev_data d) argv p i1 i2 [] \<and>
      marks p (\<lambda>i. i < covered (unat (device_size d))) \<and> spans p (length (dev_data d))"
    by blast
qed (auto simp: covered_on_disk)

definition jfs_good :: "device \<Rightarrow> bool" where
  "jfs_good d \<longleftrightarrow> raw_good (2 ^ 31) d \<and> 0x8100 \<le> length (dev_data d) \<and> take 4 (drop 0x8000 (dev_data d)) = ''JFS1''"

interpretation jfs: imager "\<lambda>env d. image_jfs env (Some d)" jfs_good
    "\<lambda>d i. i < covered (unat (device_size d))" dev_data "[]"
proof
  fix d :: device and argv :: "string list" and env :: "('z, 'i) save_env"
  assume d: "jfs_good d" "usage_ok argv" "\<not> query_only argv"
  then obtain p i1 i2 where "jfs_sectors (Some d) = Inr (p, i1, i2)" "marks p (\<lambda>i. i < covered (unat (device_size d)))"
      "8 * length (bitmap p) \<le> unat (device_size d) + 7"
    using jfs_sectors_ok [of d] by (auto simp: jfs_good_def raw_good_def)
  moreover have "spans p (length (dev_data d))" using spansI [OF calculation(3)] d(1) by (simp add: jfs_good_def raw_good_def)
  moreover from calculation(1) d have "image_jfs env (Some d) argv = save_image env (dev_data d) argv p i1 i2 []"
    by (auto simp: image_jfs_def jfs_good_def jfs_checkit_def)
  ultimately show "\<exists>p i1 i2. image_jfs env (Some d) argv = save_image env (dev_data d) argv p i1 i2 [] \<and>
      marks p (\<lambda>i. i < covered (unat (device_size d))) \<and> spans p (length (dev_data d))"
    by blast
qed (auto simp: covered_on_disk jfs_good_def)

section \<open>Properties\<close>

text \<open>
  C12 (\<open>image_raw\<close>): a device whose number of sectors is not a multiple of 8 is saved whole: restoring
  the files gives back every sector of it and touches nothing else.
\<close>

theorem raw_restores:
  assumes "raw_good (2 ^ 32) d" "\<not> 8 dvd unat (device_size d)" "usage_ok argv" "\<not> query_only argv" "env_ok env []" "unat off < 2 ^ 63"
  shows "\<exists>ui files s data' off'. image_raw env (Some d) argv = Some (Inr (ui, files, s)) \<and> s_errors s = 0 \<and>
     restore_files (se_zlib env) files data off = Some (Inr (data', off')) \<and>
     volume_restored (dev_data d) (\<lambda>i. i < unat (device_size d)) data (unat off) data'"
  using raw.main_restores [OF assms(1,3-6), of data] assms(2) by (simp add: covered_def)

text \<open>
  C13 (\<open>image_raw\<close>): when the number of sectors is a multiple of 8 the last byte of the bitmap stays 0:
  the save succeeds without the last eight sectors, and a restore leaves there what the output held.
\<close>

theorem raw_tail_lost:
  assumes "raw_good (2 ^ 32) d" "8 dvd unat (device_size d)" "usage_ok argv" "\<not> query_only argv" "env_ok env []" "unat off < 2 ^ 63"
  shows "\<exists>ui files s data' off'. image_raw env (Some d) argv = Some (Inr (ui, files, s)) \<and> s_errors s = 0 \<and>
     restore_files (se_zlib env) files data off = Some (Inr (data', off')) \<and>
     (\<forall>q < length data. unat off + 512 * (unat (device_size d) - 8) \<le> q \<longrightarrow> data' ! q = data ! q)"
proof -
  let ?n = "unat (device_size d) - 8"
  obtain ui files s data' off' where *: "image_raw env (Some d) argv = Some (Inr (ui, files, s))" "s_errors s = 0"
      "restore_files (se_zlib env) files data off = Some (Inr (data', off'))"
      "volume_restored (dev_data d) (\<lambda>i. i < ?n) data (unat off) data'"
    using raw.main_restores [OF assms(1,3-6), of data] assms(2) by (auto simp: covered_def)
  have "data' ! q = data ! q" if "q < length data" "unat off + 512 * ?n \<le> q" for q
  proof -
    have "\<not> (q - unat off) div 512 < ?n" using that(2) by (simp add: div_less_iff_less_mult)
    then show ?thesis using *(4) that(1) by (simp add: volume_restored_def keeps_def)
  qed
  with * show ?thesis by blast
qed

text \<open>
  (\<open>image_swap\<close>): a swap partition is recognised by either signature; its first 64 sectors are
  saved and come back, although the image says it has 8.
\<close>

theorem swap_restores:
  assumes "swap_good (d, stack)" "usage_ok argv" "\<not> query_only argv" "env_ok env ''SWAP=1''" "unat off < 2 ^ 63"
  shows "nb_sect (fst swap_sectors) = 8 \<and>
     (\<exists>ui files s data' off'. image_swap env (Some d) stack argv = Some (Inr (ui, files, s)) \<and> s_errors s = 0 \<and>
       restore_files (se_zlib env) files data off = Some (Inr (data', off')) \<and>
       volume_restored (dev_data d) (\<lambda>i. i < 64) data (unat off) data')"
  using swap.main_restores [OF assms, of data] by (simp add: swap_sectors_def Let_def)

lemma sint_high: "unat (w :: u32) = n \<Longrightarrow> 2 ^ 31 \<le> n \<Longrightarrow> sint w = int n - 2 ^ 32"
proof -
  assume a: "unat w = n" "2 ^ 31 \<le> n"
  have "unat w < 2 ^ 32" using unsigned_less [of w] by simp
  then have lt: "n < 2 ^ 32" using a(1) by simp
  have "w = of_int (int n - 2 ^ 32)" using a(1) by auto
  moreover have "is_int32 (int n - 2 ^ 32)" using a(2) lt by (simp add: is_int32_def)
  ultimately show ?thesis using sint_of_int_small by metis
qed

text \<open>
  (\<open>image_jfs\<close>): the size is an \<open>int\<close>, so on a device of 1 TB or more (up to the last few
  sectors of the 32-bit range) the number of bytes of the bitmap is negative and the program
  crashes, where \<open>image_raw\<close> still works.
\<close>

theorem jfs_large_crash:
  assumes "2 ^ 31 \<le> unat (device_size d) + 7" "unat (device_size d) + 15 \<le> 2 ^ 32"
  shows "jfs_sectors (Some d) = Inl NullDeref \<and> (\<exists>x. raw_sectors (Some d) = Inr x)"
proof -
  define n where "n = unat (device_size d)"
  have "unat (device_size d + 7) = n + 7"
    using unat_of_nat_small [of "unat (device_size d) + 7"] assms(2) by (simp add: n_def)
  with assms(1) have "sint (device_size d + 7) = int (n + 7) - 2 ^ 32" by (intro sint_high) (simp_all add: n_def)
  moreover have "1 \<le> - (int (n + 7) - 2 ^ 32) div 8" "int (n + 7) - 2 ^ 32 < 0" using assms(2) by (simp_all add: n_def [symmetric])
  moreover have "device_size d \<noteq> 0" using assms(1) by auto
  ultimately have "jfs_sectors (Some d) = Inl NullDeref" by (simp add: jfs_sectors_def Let_def)
  moreover have "\<exists>x. raw_sectors (Some d) = Inr x" using raw_sectors_ok [of d] assms by auto
  ultimately show ?thesis by simp
qed

section \<open>Witnesses\<close>

definition sample_argv :: "string list" where
  "sample_argv = [''image'', ''/dev/hda1'', ''/revosave/P1'']"

lemma sample_argv_ok: "usage_ok sample_argv" "\<not> query_only sample_argv"
  by (simp_all add: usage_ok_def query_only_def sample_argv_def)

definition sample_file :: "nat \<Rightarrow> device" where
  "sample_file n = \<lparr>dev_data = replicate (512 * n) (CHR ''x''), dev_blkgetsize = None\<rparr>"

lemma sample_file_good: "0 < n \<Longrightarrow> n < 2 ^ 31 \<Longrightarrow> raw_good (2 ^ 32) (sample_file n) \<and> unat (device_size (sample_file n)) = n"
  using unat_of_nat_small [of n] by (simp add: raw_good_def device_size_def sample_file_def)

lemma sample_env_plain: "env_ok sample_save_env []" "env_ok sample_save_env ''SWAP=1''"
  by (auto intro!: sample_save_env_ok simp: unmarked_def)

theorem raw_restores_witness:
  "\<exists>ui files s data' off'. image_raw sample_save_env (Some (sample_file 9)) sample_argv = Some (Inr (ui, files, s)) \<and> s_errors s = 0 \<and>
     restore_files (se_zlib sample_save_env) files [] 0 = Some (Inr (data', off')) \<and>
     volume_restored (dev_data (sample_file 9)) (\<lambda>i. i < 9) [] 0 data'"
  using raw_restores [of "sample_file 9" sample_argv sample_save_env 0 "[]"] sample_file_good [of 9]
  by (simp add: sample_argv_ok sample_env_plain)

theorem raw_tail_lost_witness:
  "\<exists>ui files s data' off'. image_raw sample_save_env (Some (sample_file 16)) sample_argv = Some (Inr (ui, files, s)) \<and> s_errors s = 0 \<and>
     restore_files (se_zlib sample_save_env) files (replicate 8192 NUL) 0 = Some (Inr (data', off')) \<and>
     (\<forall>q < 8192. 4096 \<le> q \<longrightarrow> data' ! q = NUL)"
  using raw_tail_lost [of "sample_file 16" sample_argv sample_save_env 0 "replicate 8192 NUL"] sample_file_good [of 16]
  by (simp add: sample_argv_ok sample_env_plain)

definition sample_swap :: device where
  "sample_swap = \<lparr>dev_data = replicate 4086 NUL @ ''SWAPSPACE2'' @ replicate 28672 NUL, dev_blkgetsize = None\<rparr>"

theorem swap_restores_witness:
  "\<exists>ui files s data' off'. image_swap sample_save_env (Some sample_swap) [] sample_argv = Some (Inr (ui, files, s)) \<and> s_errors s = 0 \<and>
     restore_files (se_zlib sample_save_env) files [] 0 = Some (Inr (data', off')) \<and>
     volume_restored (dev_data sample_swap) (\<lambda>i. i < 64) [] 0 data'"
proof -
  have "swap_good (sample_swap, [])" by (simp add: swap_good_def sample_swap_def)
  from swap_restores [OF this sample_argv_ok sample_env_plain(2), of 0 "[]"] show ?thesis by simp
qed

theorem jfs_large_crash_witness:
  "jfs_sectors (Some \<lparr>dev_data = [], dev_blkgetsize = Some 0x80000000\<rparr>) = Inl NullDeref"
  using jfs_large_crash [of "\<lparr>dev_data = [], dev_blkgetsize = Some 0x80000000\<rparr>"] by (simp add: device_size_def)

end
