(* ===== verification/Image_E2fs.thy ===== *)
theory Image_E2fs
  imports Bitmap
begin

text \<open>
  \<^verbatim>\<open>client/revimage/image_e2fs.c\<close>: saving an ext2 or ext3 file system. The ext2fs library opens the file
  system and reads its block bitmap; it is a parameter here. The program walks over the groups and
  marks the sectors of every block in use. It marks the blocks in front of the first data block, too.
\<close>

section \<open>What the library delivers\<close>

record ext2_filsys =
  blocksize :: u32
  s_blocks_count :: u32
  s_first_data_block :: u32
  s_blocks_per_group :: u32
  group_desc_count :: u32
  block_map :: string

record ext2fs_lib =
  ext2fs_open :: "device option \<Rightarrow> ext2_filsys option"
  ext2fs_read_bitmaps :: "ext2_filsys \<Rightarrow> string option"

definition nbsect :: "ext2_filsys \<Rightarrow> u32" where
  "nbsect fs = blocksize fs div 512"

section \<open>The walk over the groups\<close>

text \<open>The bit number is an \<open>int\<close>: from \<open>2\<^sup>3\<^sup>1\<close> on it is negative.\<close>

definition setbit_int :: "string \<Rightarrow> u32 \<Rightarrow> string res" where
  "setbit_int p num = (if 2 ^ 31 \<le> unat num then Inl BufOverflow else setbit p (unat num))"

fun mark_run :: "string \<Rightarrow> u32 \<Rightarrow> nat \<Rightarrow> string res" where
  "mark_run p ptr 0 = Inr p"
| "mark_run p ptr (Suc n) = bind_res (setbit_int p ptr) (\<lambda>p. mark_run p (ptr + 1) n)"

fun boot_blocks :: "nat \<Rightarrow> nat \<Rightarrow> string \<Rightarrow> u32 \<Rightarrow> (string \<times> u32) res" where
  "boot_blocks nb 0 p ptr = Inr (p, ptr)"
| "boot_blocks nb (Suc n) p ptr = bind_res (mark_run p ptr nb) (\<lambda>p. boot_blocks nb n p (ptr + of_nat nb))"

text \<open>The state of the walk: the bitmap, the next sector and the number of used sectors.\<close>

type_synonym e2fs_walk = "string \<times> u32 \<times> u32"

fun group_blocks :: "nat \<Rightarrow> string \<Rightarrow> nat \<Rightarrow> nat \<Rightarrow> e2fs_walk \<Rightarrow> e2fs_walk res" where
  "group_blocks nb block_bitmap j 0 st = Inr st"
| "group_blocks nb block_bitmap j (Suc n) st =
     (case st of (p, ptr, used) \<Rightarrow>
        bind_res (bit_at block_bitmap j) (\<lambda>in_use.
        bind_res (if in_use then bind_res (mark_run p ptr nb) (\<lambda>p. Inr (p, used + of_nat nb)) else Inr (p, used)) (\<lambda>(p, used).
          group_blocks nb block_bitmap (j + 1) n (p, ptr + of_nat nb, used))))"

definition next_group :: "ext2_filsys \<Rightarrow> u32 \<Rightarrow> u32" where
  "next_group fs group_blk =
     (let next_blk = group_blk + s_blocks_per_group fs
      in if s_blocks_count fs < next_blk then s_blocks_count fs else next_blk)"

fun list_groups :: "ext2_filsys \<Rightarrow> nat \<Rightarrow> string \<Rightarrow> u32 \<Rightarrow> e2fs_walk \<Rightarrow> e2fs_walk res" where
  "list_groups fs 0 block_bitmap group_blk st = Inr st"
| "list_groups fs (Suc n) block_bitmap group_blk st =
     (let next_blk = next_group fs group_blk
      in bind_res (group_blocks (unat (nbsect fs)) block_bitmap 0 (unat (next_blk - group_blk)) st) (\<lambda>st.
           list_groups fs n (drop (unat (s_blocks_per_group fs div 8)) block_bitmap) next_blk st))"

definition list_desc :: "ext2_filsys \<Rightarrow> (string \<times> string \<times> string) res" where
  "list_desc fs =
     (let p = replicate (unat ((s_blocks_count fs * nbsect fs + 7) div 8)) NUL
      in bind_res (boot_blocks (unat (nbsect fs)) (unat (s_first_data_block fs)) p 0) (\<lambda>(p, ptr).
         bind_res (list_groups fs (unat (group_desc_count fs)) (block_map fs) (s_first_data_block fs) (p, ptr, 0)) (\<lambda>(p, ptr, used).
           Inr (p, show_nat (unat (s_blocks_count fs * nbsect fs)), show_nat (unat used)))))"

definition image_e2fs :: "('z, 'i) save_env \<Rightarrow> ext2fs_lib \<Rightarrow> device option \<Rightarrow> string list \<Rightarrow> saved run" where
  "image_e2fs env lib dev argv =
     (if \<not> usage_ok argv then Some (Inl (Exit 1))
      else case ext2fs_open lib dev of
        None \<Rightarrow> Some (Inl (Exit 1))
      | Some fs \<Rightarrow>
          (case ext2fs_read_bitmaps lib fs of
             None \<Rightarrow> Some (Inl (Exit 1))
           | Some bm \<Rightarrow>
               bind_run (Some (list_desc (fs\<lparr>block_map := bm\<rparr>))) (\<lambda>(p, info1, info2).
                 if query_only argv then Some (Inl (Exit 0))
                 else save_image env (case dev of None \<Rightarrow> [] | Some d \<Rightarrow> dev_data d) argv \<lparr>bitmap = p, nb_sect = 0\<rparr>
                        info1 info2 ''E2FS=1|TYPE=131'')))"

section \<open>The sectors that are marked\<close>

text \<open>
  A file system as the library describes it: whole groups of blocks (a multiple of 8 blocks each)
  that cover all blocks behind the first data block, and a bitmap with a bit for each of them.
\<close>

definition ext2_ok :: "ext2_filsys \<Rightarrow> bool" where
  "ext2_ok fs \<longleftrightarrow>
     512 \<le> unat (blocksize fs) \<and> unat (s_blocks_count fs) * (unat (blocksize fs) div 512) + 8 \<le> 2 ^ 31 \<and>
     unat (s_first_data_block fs) \<le> unat (s_blocks_count fs) \<and>
     8 dvd unat (s_blocks_per_group fs) \<and>
     unat (s_blocks_count fs) + unat (s_blocks_per_group fs) < 2 ^ 32 \<and>
     unat (s_blocks_count fs) \<le> unat (s_first_data_block fs) + unat (group_desc_count fs) * unat (s_blocks_per_group fs) \<and>
     unat (s_blocks_count fs) - unat (s_first_data_block fs) \<le> 8 * length (block_map fs)"

definition e2fs_in_use :: "ext2_filsys \<Rightarrow> nat \<Rightarrow> bool" where
  "e2fs_in_use fs i \<longleftrightarrow>
     (let b = i div (unat (blocksize fs) div 512)
      in b < unat (s_blocks_count fs) \<and>
         (b < unat (s_first_data_block fs) \<or> bits_of (block_map fs) ! (b - unat (s_first_data_block fs))))"

lemma bits_added_trans:
  "bits_added p S q \<Longrightarrow> bits_added q T r \<Longrightarrow> bits_added p (\<lambda>i. S i \<or> T i) r"
  by (auto simp: bits_added_def)

lemma bits_added_refl: "(\<And>i. \<not> S i) \<Longrightarrow> bits_added p S p"
  by (simp add: bits_added_def)

lemma bits_added_cong: "bits_added p S q \<Longrightarrow> (\<And>i. i < 8 * length p \<Longrightarrow> S i = T i) \<Longrightarrow> bits_added p T q"
  by (auto simp: bits_added_def)

lemma mark_run_ok:
  "m + n \<le> 8 * length p \<Longrightarrow> m + n \<le> 2 ^ 31 \<Longrightarrow>
     \<exists>q. mark_run p (of_nat m) n = Inr q \<and> bits_added p (\<lambda>i. m \<le> i \<and> i < m + n) q"
proof (induction n arbitrary: m p)
  case 0
  then show ?case by (simp add: bits_added_refl)
next
  case (Suc n)
  have u: "unat (of_nat m :: u32) = m" using Suc.prems(2) by (intro unat_of_nat_small) simp
  obtain q where q: "setbit p m = Inr q" "length q = length p" "bits_of q = (bits_of p)[m := True]"
    using setbit_ok [of m p] Suc.prems(1) by auto
  have q': "bits_added p (\<lambda>i. i = m) q"
    using q Suc.prems(1) by (auto simp: bits_added_def nth_list_update)
  obtain r where r: "mark_run q (of_nat (m + 1)) n = Inr r" "bits_added q (\<lambda>i. m + 1 \<le> i \<and> i < m + 1 + n) r"
    using Suc.IH [of "m + 1" q] Suc.prems q(2) by auto
  have "bits_added p (\<lambda>i. m \<le> i \<and> i < m + Suc n) r"
    by (rule bits_added_cong [OF bits_added_trans [OF q' r(2)]]) auto
  moreover have "mark_run p (of_nat m) (Suc n) = Inr r"
    using r(1) q(1) u Suc.prems(2) by (simp add: setbit_int_def add.commute)
  ultimately show ?case by blast
qed

lemma in_block: "0 < nb \<Longrightarrow> nb * b \<le> i \<and> i < nb * b + nb \<longleftrightarrow> i div nb = (b :: nat)"
  by (auto simp: div_nat_eqI algebra_simps) (metis dividend_less_times_div mult.commute div_times_less_eq_dividend)+

lemma mark_block_ok:
  assumes "0 < nb" "nb * Suc b \<le> 8 * length p" "nb * Suc b \<le> 2 ^ 31"
  shows "\<exists>q. mark_run p (of_nat (nb * b)) nb = Inr q \<and> bits_added p (\<lambda>i. i div nb = b) q"
  using mark_run_ok [of "nb * b" nb p] assms in_block [OF assms(1)] by simp

lemma boot_blocks_ok:
  assumes nb: "0 < nb"
  shows "nb * (b + n) \<le> 8 * length p \<Longrightarrow> nb * (b + n) \<le> 2 ^ 31 \<Longrightarrow>
     \<exists>q. boot_blocks nb n p (of_nat (nb * b)) = Inr (q, of_nat (nb * (b + n))) \<and>
       bits_added p (\<lambda>i. b \<le> i div nb \<and> i div nb < b + n) q"
proof (induction n arbitrary: b p)
  case 0
  then show ?case by (simp add: bits_added_refl)
next
  case (Suc n)
  have le: "nb * Suc b \<le> nb * (b + Suc n)" by simp
  obtain q where q: "mark_run p (of_nat (nb * b)) nb = Inr q" "bits_added p (\<lambda>i. i div nb = b) q"
    using mark_block_ok [OF nb order_trans [OF le Suc.prems(1)] order_trans [OF le Suc.prems(2)]] by blast
  have len: "length q = length p" using q(2) by (simp add: bits_added_def)
  obtain r where r: "boot_blocks nb n q (of_nat (nb * Suc b)) = Inr (r, of_nat (nb * (Suc b + n)))"
      "bits_added q (\<lambda>i. Suc b \<le> i div nb \<and> i div nb < Suc b + n) r"
    using Suc.IH [of "Suc b" q] Suc.prems len by auto
  have "bits_added p (\<lambda>i. b \<le> i div nb \<and> i div nb < b + Suc n) r"
    by (rule bits_added_cong [OF bits_added_trans [OF q(2) r(2)]]) auto
  with q(1) r(1) show ?case by (auto simp: algebra_simps)
qed

lemma split_first:
  "k = b \<and> B j \<or> Suc b \<le> k \<and> k < Suc b + n \<and> B (k - Suc b + (j + 1)) \<longleftrightarrow> b \<le> k \<and> k < b + Suc n \<and> B (k - b + (j :: nat))"
proof -
  have "k - Suc b + (j + 1) = k - b + j" if "Suc b \<le> k" using that by simp
  then show ?thesis by (cases "k = b") (auto simp: not_less_eq_eq)
qed

lemma group_blocks_ok:
  assumes nb: "0 < nb"
  shows "nb * (b + n) \<le> 8 * length p \<Longrightarrow> nb * (b + n) \<le> 2 ^ 31 \<Longrightarrow> j + n \<le> 8 * length mp \<Longrightarrow>
     \<exists>q used'. group_blocks nb mp j n (p, of_nat (nb * b), used) = Inr (q, of_nat (nb * (b + n)), used') \<and>
       bits_added p (\<lambda>i. b \<le> i div nb \<and> i div nb < b + n \<and> bits_of mp ! (i div nb - b + j)) q"
proof (induction n arbitrary: b j p used)
  case 0
  then show ?case by (simp add: bits_added_refl)
next
  case (Suc n)
  have le: "nb * Suc b \<le> nb * (b + Suc n)" by simp
  obtain q where q: "mark_run p (of_nat (nb * b)) nb = Inr q" "bits_added p (\<lambda>i. i div nb = b) q"
    using mark_block_ok [OF nb order_trans [OF le Suc.prems(1)] order_trans [OF le Suc.prems(2)]] by blast
  have bit: "bit_at mp j = Inr (bits_of mp ! j)" using Suc.prems(3) by (intro bit_at_bits) simp
  define p' used' where "p' = (if bits_of mp ! j then q else p)" and "used' = (if bits_of mp ! j then used + of_nat nb else used)"
  have p': "bits_added p (\<lambda>i. i div nb = b \<and> bits_of mp ! j) p'"
    using q(2) by (auto simp: p'_def bits_added_refl)
  then have len: "length p' = length p" by (simp add: bits_added_def)
  obtain r u where r: "group_blocks nb mp (j + 1) n (p', of_nat (nb * Suc b), used') = Inr (r, of_nat (nb * (Suc b + n)), u)"
      "bits_added p' (\<lambda>i. Suc b \<le> i div nb \<and> i div nb < Suc b + n \<and> bits_of mp ! (i div nb - Suc b + (j + 1))) r"
    using Suc.IH [of "Suc b" p' "j + 1" used'] Suc.prems len by auto
  have "bits_added p (\<lambda>i. b \<le> i div nb \<and> i div nb < b + Suc n \<and> bits_of mp ! (i div nb - b + j)) r"
    using bits_added_trans [OF p' r(2)] by (rule bits_added_cong) (rule split_first [where B = "(!) (bits_of mp)"])
  moreover have "group_blocks nb mp j (Suc n) (p, of_nat (nb * b), used) = group_blocks nb mp (j + 1) n (p', of_nat (nb * Suc b), used')"
    using bit q(1) by (simp add: p'_def used'_def add.commute)
  ultimately show ?case using r(1) unfolding add_Suc_shift by (simp only:) blast
qed

lemma bits_of_drop: "bits_of (drop k mp) = drop (8 * k) (bits_of mp)"
proof (induction k arbitrary: mp)
  case (Suc k)
  then show ?case by (cases mp) auto
qed simp

lemma next_group_nat:
  assumes "b \<le> c" "unat (s_blocks_count fs) = c" "unat (s_blocks_per_group fs) = g" "c + g < 2 ^ 32"
  shows "next_group fs (of_nat b) = of_nat (min c (b + g))" "unat (next_group fs (of_nat b) - of_nat b) = min c (b + g) - b"
proof -
  have s: "s_blocks_per_group fs = of_nat g" "s_blocks_count fs = of_nat c" using assms(2,3) by auto
  have u: "unat (of_nat (b + g) :: u32) = b + g" using assms(1,4) by (intro unat_of_nat_small) simp
  show eq: "next_group fs (of_nat b) = of_nat (min c (b + g))"
    using u assms(2) unfolding next_group_def Let_def word_less_nat_alt
    by (simp add: s min_def)
  have "(of_nat (min c (b + g)) - of_nat b :: u32) = of_nat (min c (b + g) - b)" using assms(1) by simp
  moreover have "min c (b + g) - b < 2 ^ 32" using assms(4) by simp
  ultimately show "unat (next_group fs (of_nat b) - of_nat b) = min c (b + g) - b"
    unfolding eq using unat_of_nat_small by (simp only:)
qed

lemma list_groups_ok:
  assumes nb: "unat (nbsect fs) = nb" "0 < nb" and c: "unat (s_blocks_count fs) = c" "nb * c \<le> 2 ^ 31"
    and g: "unat (s_blocks_per_group fs) = g" "c + g < 2 ^ 32" "8 dvd g"
  shows "b \<le> c \<Longrightarrow> c \<le> b + n * g \<Longrightarrow> c - b \<le> 8 * length mp \<Longrightarrow> nb * c \<le> 8 * length p \<Longrightarrow>
     \<exists>q ptr used'. list_groups fs n mp (of_nat b) (p, of_nat (nb * b), used) = Inr (q, ptr, used') \<and>
       bits_added p (\<lambda>i. b \<le> i div nb \<and> i div nb < c \<and> bits_of mp ! (i div nb - b)) q"
proof (induction n arbitrary: b mp p used)
  case 0
  then show ?case by (auto simp: bits_added_refl)
next
  case (Suc n)
  define x where "x = min c (b + g)"
  note ng = next_group_nat [OF Suc.prems(1) c(1) g(1,2)]
  have bx: "b \<le> x" "x \<le> c" using Suc.prems(1) by (auto simp: x_def)
  have le: "nb * x \<le> nb * c" using bx by simp
  obtain q used' where q: "group_blocks nb mp 0 (x - b) (p, of_nat (nb * b), used) = Inr (q, of_nat (nb * x), used')"
      "bits_added p (\<lambda>i. b \<le> i div nb \<and> i div nb < x \<and> bits_of mp ! (i div nb - b)) q"
  proof -
    have "nb * (b + (x - b)) \<le> 8 * length p" "nb * (b + (x - b)) \<le> 2 ^ 31" "0 + (x - b) \<le> 8 * length mp"
      using bx order_trans [OF le Suc.prems(4)] order_trans [OF le c(2)] Suc.prems(3) by simp_all
    from group_blocks_ok [OF nb(2) this] bx that show ?thesis by auto
  qed
  have len: "length q = length p" using q(2) by (simp add: bits_added_def)
  have g8: "8 * unat (s_blocks_per_group fs div 8) = g" using g by (simp add: unat_div)
  let ?mp = "drop (unat (s_blocks_per_group fs div 8)) mp"
  have 2: "c \<le> x + n * g" "c - x \<le> 8 * length ?mp"
    using Suc.prems(2,3) g8 by (auto simp: x_def min_def diff_mult_distrib2)
  obtain r ptr u where r: "list_groups fs n ?mp (of_nat x) (q, of_nat (nb * x), used') = Inr (r, ptr, u)"
      "bits_added q (\<lambda>i. x \<le> i div nb \<and> i div nb < c \<and> bits_of ?mp ! (i div nb - x)) r"
    using Suc.IH [of x ?mp q used'] bx(2) 2 Suc.prems(4) len by auto
  have nth: "bits_of ?mp ! (k - x) = bits_of mp ! (k - b)" if "x \<le> k" "k < c" for k
  proof -
    have "x = b + g" using that by (auto simp: x_def min_def split: if_splits)
    then show ?thesis using that Suc.prems(3) g8 by (simp add: bits_of_drop)
  qed
  have "bits_added p (\<lambda>i. b \<le> i div nb \<and> i div nb < c \<and> bits_of mp ! (i div nb - b)) r"
  proof (rule bits_added_cong [OF bits_added_trans [OF q(2) r(2)]])
    fix i
    show "(b \<le> i div nb \<and> i div nb < x \<and> bits_of mp ! (i div nb - b) \<or> x \<le> i div nb \<and> i div nb < c \<and> bits_of ?mp ! (i div nb - x)) =
        (b \<le> i div nb \<and> i div nb < c \<and> bits_of mp ! (i div nb - b))"
      using nth [of "i div nb"] bx by (cases "x \<le> i div nb") auto
  qed
  with q(1) r(1) ng nb(1) show ?case by (auto simp: Let_def x_def)
qed

lemma ext2_words:
  assumes "ext2_ok fs"
  defines "nb \<equiv> unat (blocksize fs) div 512" and "c \<equiv> unat (s_blocks_count fs)"
  shows "unat (nbsect fs) = nb" "0 < nb" "unat ((s_blocks_count fs * nbsect fs + 7) div 8) = (nb * c + 7) div 8" "nb * c + 8 \<le> 2 ^ 31"
proof -
  show nb: "unat (nbsect fs) = nb" by (simp add: nbsect_def nb_def unat_div)
  show "0 < nb" using assms(1) by (simp add: ext2_ok_def nb_def div_greater_zero_iff)
  show le: "nb * c + 8 \<le> 2 ^ 31" using assms(1) by (simp add: ext2_ok_def nb_def c_def mult.commute)
  have "nbsect fs = of_nat nb" "s_blocks_count fs = of_nat c" using nb by (auto simp: c_def)
  then have "s_blocks_count fs * nbsect fs + 7 = of_nat (nb * c + 7)" by (simp add: mult.commute)
  moreover have "unat (of_nat (nb * c + 7) :: u32) = nb * c + 7" using le by (intro unat_of_nat_small) simp
  ultimately show "unat ((s_blocks_count fs * nbsect fs + 7) div 8) = (nb * c + 7) div 8"
    by (simp only: unat_div) simp
qed

lemma list_desc_ok:
  assumes ok: "ext2_ok fs"
  shows "\<exists>p i1 i2. list_desc fs = Inr (p, i1, i2) \<and> marks \<lparr>bitmap = p, nb_sect = k\<rparr> (e2fs_in_use fs) \<and>
    8 * length p \<le> unat (blocksize fs) div 512 * unat (s_blocks_count fs) + 7"
proof -
  define nb c f where "nb = unat (blocksize fs) div 512" and "c = unat (s_blocks_count fs)" and "f = unat (s_first_data_block fs)"
  note w = ext2_words [OF ok, folded nb_def c_def]
  define z where "z = replicate ((nb * c + 7) div 8) NUL"
  have room: "nb * c \<le> 8 * length z" by (simp add: z_def)
  have f: "f \<le> c" "c \<le> f + unat (group_desc_count fs) * unat (s_blocks_per_group fs)" "c - f \<le> 8 * length (block_map fs)"
      "c + unat (s_blocks_per_group fs) < 2 ^ 32" "8 dvd unat (s_blocks_per_group fs)"
    using ok by (auto simp: ext2_ok_def c_def f_def)
  have fc: "nb * f \<le> nb * c" using f(1) by simp
  then have f31: "nb * f \<le> 2 ^ 31" using w(4) by linarith
  obtain q where q: "boot_blocks nb f z 0 = Inr (q, of_nat (nb * f))" "bits_added z (\<lambda>i. i div nb < f) q"
    using boot_blocks_ok [OF w(2), of 0 f z] order_trans [OF fc room] f31 by auto
  then have len: "length q = length z" by (simp add: bits_added_def)
  have "nb * c \<le> 2 ^ 31" using w(4) by simp
  from list_groups_ok [OF w(1,2) _ this refl f(4,5), of f "unat (group_desc_count fs)" "block_map fs" q 0] f(1-3) room len
  obtain r ptr u where r: "list_groups fs (unat (group_desc_count fs)) (block_map fs) (of_nat f) (q, of_nat (nb * f), 0) = Inr (r, ptr, u)"
      "bits_added q (\<lambda>i. f \<le> i div nb \<and> i div nb < c \<and> bits_of (block_map fs) ! (i div nb - f)) r"
    by (auto simp: c_def)
  have list: "list_desc fs = Inr (r, show_nat (unat (s_blocks_count fs * nbsect fs)), show_nat (unat u))"
    using q(1) r(1) w(1) unfolding list_desc_def w(3) z_def [symmetric] by (simp add: f_def)
  have lenr: "length r = length z" using r(2) len by (simp add: bits_added_def)
  have zero: "\<not> bits_of z ! i" if "i < 8 * length z" for i using that by (simp add: z_def bits_of_zeros)
  have bits: "bits_of r ! i \<longleftrightarrow> e2fs_in_use fs i" if "i < 8 * length z" for i
    using bits_added_trans [OF q(2) r(2)] zero [OF that] that f(1)
    by (auto simp: bits_added_def e2fs_in_use_def Let_def nb_def [symmetric] c_def [symmetric] f_def [symmetric])
  have "i < 8 * length z" if "e2fs_in_use fs i" for i
  proof -
    have "i div nb < c" using that by (auto simp: e2fs_in_use_def Let_def nb_def c_def)
    then have "i < nb * c" using w(2) by (simp add: div_less_iff_less_mult mult.commute)
    with room show ?thesis by simp
  qed
  with bits have "marks \<lparr>bitmap = r, nb_sect = k\<rparr> (e2fs_in_use fs)" by (auto simp: marks_def lenr)
  moreover have "8 * length r \<le> nb * c + 7" unfolding lenr z_def by simp
  ultimately show ?thesis using list unfolding nb_def c_def by blast
qed

section \<open>The contract\<close>

text \<open>The file system the library finds on a device.\<close>

definition e2fs_view :: "ext2fs_lib \<times> device \<Rightarrow> ext2_filsys" where
  "e2fs_view x = (case x of (lib, d) \<Rightarrow>
     let fs = the (ext2fs_open lib (Some d)) in fs\<lparr>block_map := the (ext2fs_read_bitmaps lib fs)\<rparr>)"

definition e2fs_good :: "ext2fs_lib \<times> device \<Rightarrow> bool" where
  "e2fs_good x \<longleftrightarrow> (case x of (lib, d) \<Rightarrow>
     (case ext2fs_open lib (Some d) of None \<Rightarrow> False | Some fs \<Rightarrow> ext2fs_read_bitmaps lib fs \<noteq> None) \<and>
     ext2_ok (e2fs_view x) \<and>
     512 * (unat (blocksize (e2fs_view x)) div 512 * unat (s_blocks_count (e2fs_view x))) \<le> length (dev_data d))"

lemma e2fs_on_disk:
  assumes "e2fs_good x" "e2fs_in_use (e2fs_view x) i"
  shows "512 * i + 512 \<le> length (dev_data (snd x))"
proof -
  let ?nb = "unat (blocksize (e2fs_view x)) div 512"
  have "0 < ?nb" "512 * (?nb * unat (s_blocks_count (e2fs_view x))) \<le> length (dev_data (snd x))"
    using assms(1) ext2_words(2) by (auto simp: e2fs_good_def split: prod.splits)
  moreover have "i div ?nb < unat (s_blocks_count (e2fs_view x))" using assms(2) by (simp add: e2fs_in_use_def Let_def)
  ultimately show ?thesis by (simp add: div_less_iff_less_mult mult.commute)
qed

interpretation e2fs: imager "\<lambda>env x. image_e2fs env (fst x) (Some (snd x))" e2fs_good "\<lambda>x. e2fs_in_use (e2fs_view x)"
    "\<lambda>x. dev_data (snd x)" "''E2FS=1|TYPE=131''"
proof
  fix x :: "ext2fs_lib \<times> device" and argv :: "string list" and env :: "('z, 'i) save_env"
  assume x: "e2fs_good x" "usage_ok argv" "\<not> query_only argv"
  obtain lib d where xd: "x = (lib, d)" by (cases x)
  obtain fs bm where fs: "ext2fs_open lib (Some d) = Some fs" "ext2fs_read_bitmaps lib fs = Some bm"
    using x(1) by (auto simp: e2fs_good_def xd split: option.splits)
  then have view: "e2fs_view x = fs\<lparr>block_map := bm\<rparr>" by (simp add: e2fs_view_def xd Let_def)
  have "ext2_ok (fs\<lparr>block_map := bm\<rparr>)" using x(1) by (simp add: e2fs_good_def xd view [unfolded xd])
  from list_desc_ok [OF this, of 0] obtain p i1 i2 where
    p: "list_desc (fs\<lparr>block_map := bm\<rparr>) = Inr (p, i1, i2)" "marks \<lparr>bitmap = p, nb_sect = 0\<rparr> (e2fs_in_use (e2fs_view x))"
      "8 * length p \<le> unat (blocksize (e2fs_view x)) div 512 * unat (s_blocks_count (e2fs_view x)) + 7"
    unfolding view by blast
  have "spans \<lparr>bitmap = p, nb_sect = 0\<rparr> (length (dev_data (snd x)))"
    using p(3) ext2_words(4) x(1) by (force simp: e2fs_good_def xd intro!: spansI)
  have "image_e2fs env (fst x) (Some (snd x)) argv = save_image env (dev_data (snd x)) argv \<lparr>bitmap = p, nb_sect = 0\<rparr> i1 i2 ''E2FS=1|TYPE=131''"
    using p(1) fs x(2,3) by (simp add: image_e2fs_def xd)
  with p(2) \<open>spans _ _\<close> show "\<exists>p i1 i2. image_e2fs env (fst x) (Some (snd x)) argv = save_image env (dev_data (snd x)) argv p i1 i2 ''E2FS=1|TYPE=131'' \<and>
      marks p (e2fs_in_use (e2fs_view x)) \<and> spans p (length (dev_data (snd x)))"
    by blast
qed (auto simp: e2fs_on_disk)

section \<open>Properties\<close>

text \<open>
  C11 (\<open>image_e2fs\<close>): on every file system the library can read (groups of a multiple of 8 blocks,
  fewer than \<open>2\<^sup>3\<^sup>1\<close> sectors), the program saves the volume; after a restore every sector of a block
  in front of the first data block and of a block in use is as on the volume, and all other bytes
  of the output are kept.
\<close>

theorem e2fs_restores:
  assumes "e2fs_good (lib, d)" "usage_ok argv" "\<not> query_only argv" "env_ok env ''E2FS=1|TYPE=131''" "unat off < 2 ^ 63"
  shows "\<exists>ui files s data' off'. image_e2fs env lib (Some d) argv = Some (Inr (ui, files, s)) \<and> s_errors s = 0 \<and>
     restore_files (se_zlib env) files data off = Some (Inr (data', off')) \<and>
     volume_restored (dev_data d) (e2fs_in_use (e2fs_view (lib, d))) data (unat off) data'"
  using e2fs.main_restores [OF assms, of data] by simp

definition sample_ext2 :: ext2_filsys where
  "sample_ext2 = \<lparr>blocksize = 1024, s_blocks_count = 4, s_first_data_block = 1, s_blocks_per_group = 8, group_desc_count = 1,
     block_map = []\<rparr>"

definition sample_ext2_lib :: ext2fs_lib where
  "sample_ext2_lib = \<lparr>ext2fs_open = (\<lambda>_. Some sample_ext2), ext2fs_read_bitmaps = (\<lambda>_. Some [CHR 0x05])\<rparr>"

definition sample_ext2_disk :: device where
  "sample_ext2_disk = \<lparr>dev_data = replicate 4096 (CHR ''e''), dev_blkgetsize = None\<rparr>"

lemma sample_ext2_view: "e2fs_view (sample_ext2_lib, sample_ext2_disk) = sample_ext2\<lparr>block_map := [CHR 0x05]\<rparr>"
  by (simp add: e2fs_view_def sample_ext2_lib_def)

lemma sample_ext2_good: "e2fs_good (sample_ext2_lib, sample_ext2_disk)"
proof -
  have "ext2_ok (sample_ext2\<lparr>block_map := [CHR 0x05]\<rparr>)" by (simp add: ext2_ok_def sample_ext2_def)
  then show ?thesis by (simp add: e2fs_good_def sample_ext2_view) (simp add: sample_ext2_lib_def sample_ext2_disk_def sample_ext2_def)
qed

theorem e2fs_restores_witness:
  "e2fs_in_use (e2fs_view (sample_ext2_lib, sample_ext2_disk)) 6 \<and> \<not> e2fs_in_use (e2fs_view (sample_ext2_lib, sample_ext2_disk)) 4 \<and>
   (\<exists>ui files s data' off'.
     image_e2fs sample_save_env sample_ext2_lib (Some sample_ext2_disk) [''image'', ''/dev/hda1'', ''P1''] = Some (Inr (ui, files, s)) \<and>
     s_errors s = 0 \<and> restore_files (se_zlib sample_save_env) files [] 0 = Some (Inr (data', off')) \<and>
     volume_restored (dev_data sample_ext2_disk) (e2fs_in_use (e2fs_view (sample_ext2_lib, sample_ext2_disk))) [] 0 data')"
proof -
  have "env_ok sample_save_env ''E2FS=1|TYPE=131''" by (intro sample_save_env_ok) (simp add: unmarked_def)
  with sample_ext2_good show ?thesis
    using e2fs_restores [of sample_ext2_lib sample_ext2_disk "[''image'', ''/dev/hda1'', ''P1'']" sample_save_env 0 "[]"]
    by (simp add: usage_ok_def query_only_def) (simp add: sample_ext2_view e2fs_in_use_def sample_ext2_def byte_bits_def)
qed

end
