(* ===== verification/Lvm.thy ===== *)
theory Lvm
  imports Bitmap
begin

text \<open>
  \<^verbatim>\<open>client/revimage/lvm.c\<close>: finding where the data of an LVM physical volume start, for both versions of
  the on-disk format, and \<^verbatim>\<open>image_lvm.c\<close>, which saves everything in front of them.

  The buffer \<open>buf\<close> has 1024 bytes, read as 32-bit or 64-bit little endian words. The metadata of
  version 2 are text, scanned line by line by a state machine; the loop has no exit at the end of
  the file.
\<close>

section \<open>Reading the device\<close>

definition word_at :: "nat \<Rightarrow> string \<Rightarrow> nat" where
  "word_at i buf = le_nat (take 4 (drop (4 * i) buf))"

definition u64_at :: "nat \<Rightarrow> string \<Rightarrow> nat res" where
  "u64_at p buf = (if p + 8 \<le> length buf then Inr (le_nat (take 8 (drop p buf))) else Inl OutOfBounds)"

text \<open>\<open>fread\<close> of \<open>n\<close> bytes at a position: a short read changes only the front of the buffer.\<close>

definition fread :: "string \<Rightarrow> nat \<Rightarrow> nat \<Rightarrow> string \<Rightarrow> string" where
  "fread data pos n buf = (let bs = take n (drop pos data) in bs @ drop (length bs) buf)"

text \<open>\<open>fseek\<close> takes a \<open>long\<close>; a negative offset fails and leaves the position.\<close>

definition fseek :: "u64 \<Rightarrow> nat \<Rightarrow> nat" where
  "fseek off pos = (let l = sint (ucast off :: u32) in if l < 0 then pos else nat l)"

section \<open>Scanning the metadata\<close>

definition clamp64 :: "int \<Rightarrow> int" where
  "clamp64 i = max (- (2 ^ 63)) (min i (2 ^ 63 - 1))"

definition scan_ll :: "string \<Rightarrow> int option" where
  "scan_ll s =
     (case dropWhile isspace s of
        [] \<Rightarrow> None
      | c # cs \<Rightarrow>
          if isdigit c then Some (clamp64 (int (fst (scan_digits 0 (c # cs)))))
          else if (c = CHR ''-'' \<or> c = CHR ''+'') \<and> cs \<noteq> [] \<and> isdigit (hd cs)
          then Some (clamp64 (if c = CHR ''-'' then - int (fst (scan_digits 0 cs)) else int (fst (scan_digits 0 cs))))
          else None)"

text \<open>The front of the formats: a name, blanks, an equals sign and blanks.\<close>

definition scan_key :: "string \<Rightarrow> string \<Rightarrow> string option" where
  "scan_key key s =
     (case scan_lit key s of
        None \<Rightarrow> None
      | Some r \<Rightarrow> map_option (dropWhile isspace) (scan_lit ''='' (dropWhile isspace r)))"

definition scan_uuid :: "string \<Rightarrow> string option" where
  "scan_uuid s =
     (case scan_key ''id'' s of
        None \<Rightarrow> None
      | Some r \<Rightarrow> (case scan_lit [CHR 0x22] r of None \<Rightarrow> None | Some r \<Rightarrow> map_option fst (scan_word 38 r)))"

text \<open>\<open>uuid_compare\<close>: 32 characters, where the second string may have a dash in front of each.\<close>

fun uuid_loop :: "nat \<Rightarrow> string \<Rightarrow> string \<Rightarrow> bool res" where
  "uuid_loop 0 s1 s2 = Inr True"
| "uuid_loop (Suc n) s1 s2 =
     (let s2 = (if take 1 s2 = ''-'' then drop 1 s2 else s2)
      in if s1 = [] \<or> s2 = [] then Inl OutOfBounds
         else if hd s1 \<noteq> hd s2 then Inr False else uuid_loop n (tl s1) (tl s2))"

definition uuid_compare :: "string \<Rightarrow> string \<Rightarrow> bool res" where
  "uuid_compare s1 s2 = uuid_loop 32 s1 s2"

text \<open>The state of the scan; \<open>m_file\<close> is the rest of the file, \<open>m_b\<close> and \<open>m_uuid\<close> are the buffers.\<close>

record meta =
  m_file :: string
  m_b :: string
  m_uuid :: string
  m_state :: int
  m_extent :: int
  m_pe_count :: int
  m_lev :: int
  m_offset :: int

definition contains :: "string \<Rightarrow> string \<Rightarrow> bool" where
  "contains s pat \<longleftrightarrow> strstr s pat \<noteq> None"

definition next_line :: "meta \<Rightarrow> meta" where
  "next_line m = (if m_file m = [] then m
     else case fgets_loop 126 (m_file m) of (l, r) \<Rightarrow> m\<lparr>m_b := cstr l, m_file := r\<rparr>)"

definition count_braces :: "meta \<Rightarrow> meta" where
  "count_braces m =
     (let m = (if contains (m_b m) ''{'' then m\<lparr>m_lev := m_lev m + 1\<rparr> else m)
      in if contains (m_b m) ''}'' then m\<lparr>m_lev := m_lev m - 1\<rparr> else m)"

definition scan_line :: "string \<Rightarrow> meta \<Rightarrow> meta res" where
  "scan_line pvuuid m =
     (let b = m_b m
      in if m_state m = 0
         then (let m = (case scan_key ''extent_size'' b of None \<Rightarrow> m
                        | Some r \<Rightarrow> (case scan_int r of None \<Rightarrow> m | Some (i, _) \<Rightarrow> m\<lparr>m_extent := i\<rparr>))
               in Inr (if contains b ''physical_volumes'' then m\<lparr>m_state := 1\<rparr> else m))
         else if m_state m = 1
         then (case scan_uuid b of
                 None \<Rightarrow> Inr m
               | Some w \<Rightarrow>
                   let m = m\<lparr>m_uuid := w @ NUL # drop (length w + 1) (m_uuid m)\<rparr>
                   in bind_res (uuid_compare pvuuid (m_uuid m)) (\<lambda>eq. Inr (if eq then m\<lparr>m_state := 2\<rparr> else m)))
         else if m_state m = 2
         then Inr (case scan_key ''pe_start'' b of None \<Rightarrow> m
                   | Some r \<Rightarrow> (case scan_ll r of None \<Rightarrow> m | Some i \<Rightarrow> m\<lparr>m_offset := i, m_state := - 1\<rparr>))
         else Inr (case scan_key ''pe_count'' b of None \<Rightarrow> m
                   | Some r \<Rightarrow> (case scan_int r of None \<Rightarrow> m | Some (i, _) \<Rightarrow> m\<lparr>m_pe_count := i\<rparr>)))"

definition meta_done :: "meta \<Rightarrow> bool" where
  "meta_done m \<longleftrightarrow> contains (m_b m) ''}'' \<and> m_lev m = 2 \<and> m_state m = - 1"

partial_function (option) meta_loop :: "string \<Rightarrow> meta \<Rightarrow> meta run" where
  "meta_loop pvuuid m =
     (case scan_line pvuuid (count_braces (next_line m)) of
        Inl e \<Rightarrow> Some (Inl e)
      | Inr m \<Rightarrow> if meta_done m then Some (Inr m) else meta_loop pvuuid m)"

section \<open>lvm\_check\<close>

text \<open>The position of the list of metadata areas: behind the list of data areas, which ends with 0.\<close>

function skip_data_areas :: "string \<Rightarrow> nat \<Rightarrow> nat res" where
  "skip_data_areas buf pv =
     (case u64_at pv buf of
        Inl e \<Rightarrow> Inl e
      | Inr x \<Rightarrow> if x \<noteq> 0 then skip_data_areas buf (pv + 16) else Inr (pv + 16))"
  by pat_completeness auto
termination
  by (relation "measure (\<lambda>(buf, pv). length buf - pv)") (auto simp: u64_at_def split: if_splits)

declare skip_data_areas.simps [simp del]

text \<open>What the caller and the stack provide: \<open>lvm_sect\<close>, and the contents of \<open>buf\<close>, \<open>b\<close> and \<open>uuid\<close>.\<close>

record lvm_stack =
  st_buf :: string
  st_b :: string
  st_uuid :: string

definition FMTT_MAGIC :: string where
  "FMTT_MAGIC = '' LVM2 x[5A%r0N*>''"

definition lvm1 :: "string \<Rightarrow> u64 \<times> u32" where
  "lvm1 buf = (ucast (of_nat (word_at 9 buf) + of_nat (word_at 10 buf) :: u32),
               of_nat (word_at 113 buf) * of_nat (word_at 115 buf))"

definition lvm2 :: "lvm_stack \<Rightarrow> string \<Rightarrow> string \<Rightarrow> u32 \<Rightarrow> (u64 \<times> u32) run" where
  "lvm2 st data buf sect =
     (if word_at 128 buf \<noteq> 0x4542414C \<or> word_at 129 buf \<noteq> 0x454E4F4C then ret_run (0, sect)
      else if word_at 134 buf \<noteq> 0x324D564C \<or> word_at 135 buf \<noteq> 0x31303020 then ret_run (0, sect)
      else
        let pv = 512 + word_at 133 buf
        in bind_run (Some (skip_data_areas buf (pv + 40))) (\<lambda>p.
           bind_run (Some (u64_at p buf)) (\<lambda>mdh.
           let mdh_offset = of_nat mdh :: u64;
               pos = fseek mdh_offset (min 1024 (length data));
               buf = fread data pos 512 buf;
               pos = min (pos + 512) (max pos (length data))
           in if take 16 (drop 4 buf) \<noteq> FMTT_MAGIC then ret_run (0, sect)
              else
                let off = of_nat (word_at 10 buf) + push_bit 32 (of_nat (word_at 11 buf)) :: u64
                in if off = 0 then ret_run (0, sect)
                   else
                     bind_run (meta_loop (drop pv buf)
                       \<lparr>m_file = drop (fseek (off + mdh_offset) pos) data, m_b = st_b st, m_uuid = st_uuid st, m_state = 0,
                        m_extent = 0, m_pe_count = 0, m_lev = 0, m_offset = 0\<rparr>) (\<lambda>m.
                       ret_run (of_int (m_offset m) * 512, of_int (m_extent m * m_pe_count m))))))"

definition lvm_check :: "lvm_stack \<Rightarrow> device option \<Rightarrow> u32 \<Rightarrow> (u64 \<times> u32) run" where
  "lvm_check st dev sect =
     (case dev of
        None \<Rightarrow> Some (Inl (Exit 1))
      | Some d \<Rightarrow>
          let buf = fread (dev_data d) 0 1024 (st_buf st)
          in if word_at 0 buf = 0x00014d48 then ret_run (lvm1 buf) else lvm2 st (dev_data d) buf sect)"

section \<open>image\_lvm.c\<close>

text \<open>The number of sectors is an \<open>int\<close>; for a negative one no memory can be had.\<close>

definition lvm_sectors :: "u64 \<Rightarrow> (string \<times> string \<times> string) res" where
  "lvm_sectors n =
     (let off = sint (ucast n :: u32)
      in if off < 0 \<or> 2 ^ 31 - 7 \<le> off then Inl NullDeref
         else bind_res (setbits (replicate (nat ((off + 7) div 8)) NUL) [0..<nat off]) (\<lambda>bm.
                Inr (bm, show_nat (nat off), show_nat (nat off))))"

definition sdiv512 :: "u64 \<Rightarrow> u64" where
  "sdiv512 x = of_int (let i = sint x in if i < 0 then - (- i div 512) else i div 512)"

definition image_lvm :: "('z, 'i) save_env \<Rightarrow> lvm_stack \<Rightarrow> device option \<Rightarrow> string list \<Rightarrow> saved run" where
  "image_lvm env st dev argv =
     (if \<not> usage_ok argv then Some (Inl (Exit 1))
      else bind_run (lvm_check st dev 0) (\<lambda>(offset, _).
        if offset = 0 then Some (Inl (Exit 1))
        else bind_run (Some (lvm_sectors (sdiv512 offset))) (\<lambda>(bm, info1, info2).
          if query_only argv then Some (Inl (Exit 0))
          else save_image env (case dev of None \<Rightarrow> [] | Some d \<Rightarrow> dev_data d) argv \<lparr>bitmap = bm, nb_sect = sdiv512 offset\<rparr>
                 info1 info2 ''LVM'')))"

section \<open>The scan never ends without a closing brace\<close>

lemma strstr_chars: "strstr s pat = Some r \<Longrightarrow> set pat \<subseteq> set s"
  using strstr_Some_decomp by fastforce

lemma scan_lit_chars: "scan_lit p s = Some r \<Longrightarrow> s = p @ r"
  by (induction p arbitrary: s) (auto simp: scan_char_def split: list.splits if_splits option.splits)

lemma scan_key_set:
  assumes "scan_key key s = Some r"
  shows "set r \<subseteq> set s"
proof -
  obtain a where a: "scan_lit key s = Some a" "map_option (dropWhile isspace) (scan_lit ''='' (dropWhile isspace a)) = Some r"
    using assms by (auto simp: scan_key_def split: option.splits)
  then obtain b where b: "scan_lit ''='' (dropWhile isspace a) = Some b" "r = dropWhile isspace b" by auto
  have "set r \<subseteq> set b" using b(2) by (auto dest: set_dropWhileD)
  also have "\<dots> \<subseteq> set (dropWhile isspace a)" using scan_lit_chars [OF b(1)] by (auto simp only: set_append)
  also have "\<dots> \<subseteq> set a" by (auto dest: set_dropWhileD)
  also have "\<dots> \<subseteq> set s" using scan_lit_chars [OF a(1)] by auto
  finally show ?thesis .
qed

lemma scan_uuid_quote: "scan_uuid s = Some w \<Longrightarrow> CHR 0x22 \<in> set s"
  using scan_key_set [of "''id''" s]
  by (auto simp: scan_uuid_def scan_char_def split: option.splits list.splits if_splits)

definition no_marks :: "meta \<Rightarrow> bool" where
  "no_marks m \<longleftrightarrow> CHR ''}'' \<notin> set (m_file m) \<union> set (m_b m) \<and> CHR 0x22 \<notin> set (m_file m) \<union> set (m_b m)"

lemma set_cstr: "set (cstr s) \<subseteq> set s"
  by (auto simp: cstr_def dest: set_takeWhileD)

lemma no_marks_next: "no_marks m \<Longrightarrow> no_marks (count_braces (next_line m))"
  using set_cstr fgets_loop_append
  by (fastforce simp: no_marks_def next_line_def count_braces_def Let_def split: prod.splits)

lemma no_marks_scan:
  assumes "no_marks m"
  shows "\<exists>m'. scan_line pvuuid m = Inr m' \<and> no_marks m' \<and> \<not> meta_done m'"
proof -
  have "scan_uuid (m_b m) = None" using assms scan_uuid_quote by (fastforce simp: no_marks_def)
  moreover have "\<not> contains (m_b m) ''}''" using assms strstr_chars by (fastforce simp: no_marks_def contains_def)
  ultimately show ?thesis using assms
    by (auto simp: scan_line_def meta_done_def no_marks_def Let_def split: option.splits prod.splits)
qed

lemma meta_loop_no_result:
  assumes "meta_loop pvuuid m = Some y"
  shows "\<not> no_marks m"
proof (rule meta_loop.raw_induct [OF _ assms, where P = "\<lambda>_ m _. \<not> no_marks m"])
  fix loop :: "string \<Rightarrow> meta \<Rightarrow> meta run" and pvuuid m y
  assume IH: "\<And>pvuuid m y. loop pvuuid m = Some y \<Longrightarrow> \<not> no_marks m"
    and step: "(case scan_line pvuuid (count_braces (next_line m)) of
        Inl e \<Rightarrow> Some (Inl e) | Inr m \<Rightarrow> if meta_done m then Some (Inr m) else loop pvuuid m) = Some y"
  show "\<not> no_marks m"
  proof
    assume "no_marks m"
    then obtain m' where m': "scan_line pvuuid (count_braces (next_line m)) = Inr m'" "no_marks m'" "\<not> meta_done m'"
      using no_marks_scan no_marks_next by meson
    then have "loop pvuuid m' = Some y" using step by simp
    with IH m'(2) show False by blast
  qed
qed

section \<open>The metadata of a volume group\<close>

text \<open>
  The text that LVM writes on a device (\<^verbatim>\<open>lvm2/lib/format_text/export.c\<close>, without comments and indentation): the
  volume group, with its lines in front of the physical volumes, and the physical volumes, each after an
  empty line with a name, its identifier, further lines (the device, an empty line and the status), its start and its size.
\<close>

record pvol =
  pv_name :: string
  pv_id :: string
  pv_extra :: "string list"
  pv_start :: nat
  pv_count :: nat

record vgroup =
  vg_name :: string
  vg_head :: "string list"
  vg_extent :: nat
  vg_more :: "string list"
  vg_pvs :: "pvol list"

text \<open>The identifier of 32 characters, in groups of 6, 4, 4, 4, 4, 4 and 6.\<close>

definition print_uuid :: "string \<Rightarrow> string" where
  "print_uuid u = take 6 u @ ''-'' @ take 4 (drop 6 u) @ ''-'' @ take 4 (drop 10 u) @ ''-'' @ take 4 (drop 14 u) @ ''-'' @
     take 4 (drop 18 u) @ ''-'' @ take 4 (drop 22 u) @ ''-'' @ drop 26 u"

definition pv_lines :: "pvol \<Rightarrow> string list" where
  "pv_lines p =
     [[], pv_name p @ '' {'', ''id = '' @ [CHR 0x22] @ print_uuid (pv_id p) @ [CHR 0x22]] @ pv_extra p @
     [''pe_start = '' @ show_nat (pv_start p), ''pe_count = '' @ show_nat (pv_count p), ''}'']"

definition vg_lines :: "vgroup \<Rightarrow> string list" where
  "vg_lines v =
     [vg_name v @ '' {''] @ vg_head v @ [''extent_size = '' @ show_nat (vg_extent v)] @ vg_more v @
     [[], ''physical_volumes {''] @ concat (map pv_lines (vg_pvs v))"

definition lines_text :: "string list \<Rightarrow> string" where
  "lines_text ls = concat (map (\<lambda>l. l @ [NL]) ls)"

text \<open>Lines that mean nothing to the scan, and names.\<close>

definition plain_line :: "string \<Rightarrow> bool" where
  "plain_line l \<longleftrightarrow> NL \<notin> set l \<and> NUL \<notin> set l \<and> length l < 126"

definition inert :: "string \<Rightarrow> bool" where
  "inert l \<longleftrightarrow> plain_line l \<and> CHR ''{'' \<notin> set l \<and> CHR ''}'' \<notin> set l \<and> \<not> contains (l @ [NL]) ''physical_volumes'' \<and>
     scan_key ''extent_size'' (l @ [NL]) = None \<and> scan_key ''pe_start'' (l @ [NL]) = None"

definition name_ok :: "string \<Rightarrow> bool" where
  "name_ok n \<longleftrightarrow> length n < 100 \<and> (\<forall>c \<in> set n. \<not> isspace c \<and> c \<noteq> NUL \<and> c \<notin> {CHR ''{'', CHR ''}'', CHR 0x22, CHR ''=''})"

definition uuid_ok :: "string \<Rightarrow> bool" where
  "uuid_ok u \<longleftrightarrow> length u = 32 \<and> (\<forall>c \<in> set u. \<not> isspace c \<and> c \<noteq> NUL \<and> c \<notin> {CHR ''{'', CHR ''}'', CHR 0x22, CHR ''-''})"

definition pv_ok :: "pvol \<Rightarrow> bool" where
  "pv_ok p \<longleftrightarrow> name_ok (pv_name p) \<and> uuid_ok (pv_id p) \<and> list_all (\<lambda>l. inert l \<and> scan_uuid (l @ [NL]) = None) (pv_extra p) \<and>
     pv_start p < 2 ^ 53 \<and> pv_count p < 2 ^ 31"

definition vg_ok :: "vgroup \<Rightarrow> bool" where
  "vg_ok v \<longleftrightarrow> name_ok (vg_name v) \<and> \<not> contains (vg_name v @ '' {'' @ [NL]) ''physical_volumes'' \<and> list_all inert (vg_head v) \<and>
     list_all inert (vg_more v) \<and> vg_extent v < 2 ^ 31 \<and> list_all pv_ok (vg_pvs v)"

section \<open>One line of the scan\<close>

definition feed :: "string \<Rightarrow> string \<Rightarrow> meta \<Rightarrow> meta res" where
  "feed pvuuid l m = scan_line pvuuid (count_braces (m\<lparr>m_b := l @ [NL]\<rparr>))"

lemma cstr_line: "plain_line l \<Longrightarrow> cstr (l @ [NL]) = l @ [NL]"
  by (auto simp: plain_line_def)

lemma meta_loop_line:
  assumes "m_file m = l @ NL # r" "plain_line l" "feed pvuuid l (m\<lparr>m_file := r\<rparr>) = Inr m'"
  shows "meta_loop pvuuid m = (if meta_done m' then Some (Inr m') else meta_loop pvuuid m')"
proof -
  have "fgets_loop 126 (l @ NL # r) = (l @ [NL], r)" using assms(2) by (intro fgets_loop_line) (auto simp: plain_line_def)
  then have "next_line m = m\<lparr>m_file := r, m_b := l @ [NL]\<rparr>"
    using assms(1) cstr_line [OF assms(2)] by (simp add: next_line_def)
  then have "scan_line pvuuid (count_braces (next_line m)) = Inr m'" using assms(3) by (simp add: feed_def)
  then show ?thesis by (subst meta_loop.simps) simp
qed

lemma contains_char: "contains s [c] \<longleftrightarrow> c \<in> set s"
proof (induction s)
  case (Cons a s)
  then show ?case by (simp add: contains_def)
qed (simp add: contains_def)

lemma count_braces_eq:
  "count_braces m = m\<lparr>m_lev := m_lev m + (if CHR ''{'' \<in> set (m_b m) then 1 else 0) - (if CHR ''}'' \<in> set (m_b m) then 1 else 0)\<rparr>"
  by (simp add: count_braces_def contains_char Let_def)

lemma meta_done_eq: "meta_done m \<longleftrightarrow> CHR ''}'' \<in> set (m_b m) \<and> m_lev m = 2 \<and> m_state m = - 1"
  by (simp add: meta_done_def contains_char)

inductive quiet :: "string \<Rightarrow> string list \<Rightarrow> meta \<Rightarrow> meta \<Rightarrow> bool" for pvuuid where
  quiet_Nil: "quiet pvuuid [] m m"
| quiet_Cons: "plain_line l \<Longrightarrow> feed pvuuid l m = Inr m1 \<Longrightarrow> \<not> meta_done m1 \<Longrightarrow> quiet pvuuid ls m1 m2 \<Longrightarrow>
    quiet pvuuid (l # ls) m m2"

lemma quiet_append: "quiet pvuuid a m m1 \<Longrightarrow> quiet pvuuid b m1 m2 \<Longrightarrow> quiet pvuuid (a @ b) m m2"
  by (induction rule: quiet.induct) (auto intro: quiet_Cons)

lemma scan_line_file: "scan_line pvuuid (m\<lparr>m_file := r\<rparr>) = bind_res (scan_line pvuuid m) (\<lambda>m. Inr (m\<lparr>m_file := r\<rparr>))"
  by (simp add: scan_line_def Let_def bind_res_assoc if_distrib [where f = "\<lambda>x. bind_res x _"] split: option.split)
     (simp add: bind_res_def split: sum.split)

lemma feed_file: "feed pvuuid l m = Inr m' \<Longrightarrow> feed pvuuid l (m\<lparr>m_file := r\<rparr>) = Inr (m'\<lparr>m_file := r\<rparr>)"
proof -
  assume "feed pvuuid l m = Inr m'"
  moreover have "count_braces (m\<lparr>m_file := r, m_b := l @ [NL]\<rparr>) = (count_braces (m\<lparr>m_b := l @ [NL]\<rparr>))\<lparr>m_file := r\<rparr>"
    by (simp add: count_braces_eq)
  ultimately show ?thesis unfolding feed_def by (simp only: scan_line_file) simp
qed

lemma meta_loop_quiet:
  "quiet pvuuid ls m m' \<Longrightarrow> meta_loop pvuuid (m\<lparr>m_file := lines_text ls @ r\<rparr>) = meta_loop pvuuid (m'\<lparr>m_file := r\<rparr>)"
proof (induction rule: quiet.induct)
  case (quiet_Nil m)
  then show ?case by (simp add: lines_text_def)
next
  case (quiet_Cons l m m1 ls m2)
  let ?f = "lines_text ls @ r"
  have "feed pvuuid l (m\<lparr>m_file := ?f\<rparr>) = Inr (m1\<lparr>m_file := ?f\<rparr>)" by (rule feed_file [OF quiet_Cons.hyps(2)])
  then have "meta_loop pvuuid (m\<lparr>m_file := lines_text (l # ls) @ r\<rparr>) =
      (if meta_done (m1\<lparr>m_file := ?f\<rparr>) then Some (Inr (m1\<lparr>m_file := ?f\<rparr>)) else meta_loop pvuuid (m1\<lparr>m_file := ?f\<rparr>))"
    using quiet_Cons.hyps(1) by (intro meta_loop_line) (auto simp: lines_text_def)
  with quiet_Cons show ?case by (auto simp: meta_done_eq)
qed

text \<open>What the scan knows between lines.\<close>

definition sees :: "int \<Rightarrow> int \<Rightarrow> int \<Rightarrow> meta \<Rightarrow> bool" where
  "sees st lev ext m \<longleftrightarrow> m_state m = st \<and> m_lev m = lev \<and> m_extent m = ext \<and> length (m_uuid m) = 40"

lemma scan_key_eq: "scan_key key s = Some r \<Longrightarrow> CHR ''='' \<in> set s"
  by (auto simp: scan_key_def scan_char_def split: option.splits list.splits if_splits dest!: scan_lit_chars)
     (metis list.set_intros(1) set_dropWhileD)

lemma scan_uuid_None: "CHR 0x22 \<notin> set s \<Longrightarrow> scan_uuid s = None"
  using scan_uuid_quote by fastforce

lemma scan_key_None: "CHR ''='' \<notin> set s \<Longrightarrow> scan_key key s = None"
  using scan_key_eq by fastforce

lemma scan_key_print: "scan_key key (key @ '' = '' @ r) = Some (dropWhile isspace r)"
proof -
  have "dropWhile isspace ('' = '' @ r) = ''= '' @ r" by (simp add: isspace_def)
  then show ?thesis by (simp add: scan_key_def isspace_def)
qed

lemma feed_inert:
  assumes "inert l" "m_state m = 1 \<Longrightarrow> scan_uuid (l @ [NL]) = None" "m_state m \<in> {0, 1, 2}"
  shows "feed pvuuid l m = Inr (m\<lparr>m_b := l @ [NL]\<rparr>)"
  using assms by (auto simp: feed_def scan_line_def count_braces_eq inert_def Let_def)

lemma quiet_inert:
  "list_all (\<lambda>l. inert l \<and> (st = 1 \<longrightarrow> scan_uuid (l @ [NL]) = None)) ls \<Longrightarrow> st \<in> {0, 1, 2} \<Longrightarrow> sees st lev ext m \<Longrightarrow>
     \<exists>m'. quiet pvuuid ls m m' \<and> sees st lev ext m'"
proof (induction ls arbitrary: m)
  case Nil
  then show ?case by (auto intro: quiet_Nil)
next
  case (Cons l ls)
  let ?m = "m\<lparr>m_b := l @ [NL]\<rparr>"
  have st: "m_state m = st" using Cons.prems(3) by (simp add: sees_def)
  have "feed pvuuid l m = Inr ?m" using Cons.prems st by (intro feed_inert) auto
  moreover have "sees st lev ext ?m" using Cons.prems(3) by (simp add: sees_def)
  moreover have "\<not> meta_done ?m" using Cons.prems(2) st by (auto simp: meta_done_eq)
  moreover have "plain_line l" using Cons.prems(1) by (simp add: inert_def)
  ultimately show ?case using Cons.IH [of ?m] Cons.prems(1,2) by (auto intro: quiet_Cons)
qed

lemma quiet_one:
  "plain_line l \<Longrightarrow> feed pvuuid l m = Inr m1 \<Longrightarrow> \<not> meta_done m1 \<Longrightarrow> quiet pvuuid [l] m m1"
  by (auto intro: quiet_Cons quiet_Nil)

text \<open>Names of volume groups and volumes.\<close>

lemma name_plain: "name_ok n \<Longrightarrow> plain_line (n @ '' {'')"
proof -
  assume n: "name_ok n"
  have "isspace NL" by (simp add: isspace_def)
  then have "NL \<notin> set n" "NUL \<notin> set n" "length n < 100" using n by (auto simp: name_ok_def)
  then show ?thesis by (simp add: plain_line_def)
qed

lemma quiet_name:
  assumes "name_ok n" "st = 0 \<and> \<not> contains (n @ '' {'' @ [NL]) ''physical_volumes'' \<or> st = 1" "sees st lev ext m"
  shows "\<exists>m'. quiet pvuuid [n @ '' {''] m m' \<and> sees st (lev + 1) ext m'"
proof -
  let ?l = "n @ '' {''"
  let ?m = "m\<lparr>m_b := ?l @ [NL], m_lev := lev + 1\<rparr>"
  have "CHR ''='' \<notin> set (?l @ [NL])" "CHR 0x22 \<notin> set (?l @ [NL])" "CHR ''}'' \<notin> set (?l @ [NL])"
    using assms(1) by (auto simp: name_ok_def)
  note no = this scan_key_None [OF this(1)] scan_uuid_None [OF this(2)]
  have "feed pvuuid ?l m = Inr ?m"
    using assms(2,3) no by (auto simp: feed_def scan_line_def count_braces_eq Let_def sees_def)
  moreover have "\<not> meta_done ?m" using assms(2,3) by (auto simp: meta_done_eq sees_def)
  ultimately have "quiet pvuuid [?l] m ?m" using name_plain [OF assms(1)] by (intro quiet_one)
  moreover have "sees st (lev + 1) ext ?m" using assms(3) by (simp add: sees_def)
  ultimately show ?thesis by blast
qed

text \<open>Lines with a number.\<close>

lemma digits_plain: "c \<notin> set (show_nat n)" if "\<not> isdigit c"
  using show_nat_digits that by blast

lemma number_line:
  fixes n :: nat
  assumes "n < 10 ^ 20"
  shows "plain_line (''extent_size = '' @ show_nat n)" "plain_line (''pe_start = '' @ show_nat n)" "plain_line (''pe_count = '' @ show_nat n)"
    "CHR ''{'' \<notin> set (show_nat n)" "CHR ''}'' \<notin> set (show_nat n)" "CHR 0x22 \<notin> set (show_nat n)"
proof -
  have "length (show_nat n) \<le> 20" using assms by (intro length_show_nat) auto
  moreover have "NL \<notin> set (show_nat n)" "NUL \<notin> set (show_nat n)" by (rule digits_plain; simp add: isdigit_def)+
  ultimately show "plain_line (''extent_size = '' @ show_nat n)" "plain_line (''pe_start = '' @ show_nat n)" "plain_line (''pe_count = '' @ show_nat n)"
    by (simp_all add: plain_line_def)
  show "CHR ''{'' \<notin> set (show_nat n)" "CHR ''}'' \<notin> set (show_nat n)" "CHR 0x22 \<notin> set (show_nat n)"
    by (rule digits_plain; simp add: isdigit_def)+
qed

lemma dropWhile_number: "dropWhile isspace (show_nat n @ r) = show_nat n @ r"
proof -
  obtain c cs where c: "show_nat n = c # cs" by (cases "show_nat n") auto
  then have "isdigit c" using show_nat_digits [of c n] by simp
  then show ?thesis using c isdigit_not_isspace by simp
qed

lemma scan_number_line:
  assumes "n < 2 ^ 31"
  shows "\<exists>r. scan_key key (key @ '' = '' @ show_nat n @ [NL]) = Some (show_nat n @ [NL]) \<and> scan_int (show_nat n @ [NL]) = Some (int n, r)"
  using scan_int_show_nat [of "[NL]" n] assms scan_key_print [of key "show_nat n @ [NL]"] by (simp add: dropWhile_number isdigit_def)

lemma scan_ll_show: "n < 2 ^ 53 \<Longrightarrow> scan_ll (show_nat n @ [NL]) = Some (int n)"
proof -
  assume n: "n < 2 ^ 53"
  obtain c cs where c: "show_nat n = c # cs" by (cases "show_nat n") auto
  then have "isdigit c" using show_nat_digits [of c n] by simp
  moreover have "scan_digits 0 (show_nat n @ [NL]) = (n, [NL])"
    by (rule scan_digits_show_nat) (simp add: isdigit_def)
  ultimately show ?thesis using n c dropWhile_number [of n "[NL]"] by (simp add: scan_ll_def clamp64_def)
qed

lemma contains_chars: "contains s pat \<Longrightarrow> c \<in> set pat \<Longrightarrow> c \<in> set s"
  by (auto simp: contains_def dest: strstr_chars)

lemma quiet_extent:
  assumes "n < 2 ^ 31" "sees 0 lev ext m"
  shows "\<exists>m'. quiet pvuuid [''extent_size = '' @ show_nat n] m m' \<and> sees 0 lev (int n) m'"
proof -
  let ?l = "''extent_size = '' @ show_nat n"
  let ?m = "m\<lparr>m_b := ?l @ [NL], m_extent := int n\<rparr>"
  have big: "n < 10 ^ 20" using assms(1) by simp
  note nl = number_line [OF big]
  obtain r where r: "scan_key ''extent_size'' (?l @ [NL]) = Some (show_nat n @ [NL])" "scan_int (show_nat n @ [NL]) = Some (int n, r)"
    using scan_number_line [OF assms(1), of "''extent_size''"] by auto
  have "\<not> contains (?l @ [NL]) ''physical_volumes''"
  proof
    assume "contains (?l @ [NL]) ''physical_volumes''"
    then have "CHR ''p'' \<in> set (?l @ [NL])" by (rule contains_chars) simp
    then have "CHR ''p'' \<in> set (show_nat n)" by simp
    then show False using digits_plain [of "CHR ''p''" n] by (simp add: isdigit_def)
  qed
  then have "feed pvuuid ?l m = Inr ?m"
    using assms(2) r nl(4,5) by (simp add: feed_def scan_line_def count_braces_eq Let_def sees_def)
  moreover have "\<not> meta_done ?m" using assms(2) by (simp add: meta_done_eq sees_def)
  ultimately have "quiet pvuuid [?l] m ?m" using nl(1) by (intro quiet_one)
  moreover have "sees 0 lev (int n) ?m" using assms(2) by (simp add: sees_def)
  ultimately show ?thesis by blast
qed

lemma quiet_volumes:
  assumes "sees 0 lev ext m"
  shows "\<exists>m'. quiet pvuuid [''physical_volumes {''] m m' \<and> sees 1 (lev + 1) ext m'"
proof -
  let ?l = "''physical_volumes {''"
  let ?m = "m\<lparr>m_b := ?l @ [NL], m_lev := lev + 1, m_state := 1\<rparr>"
  have "scan_key ''extent_size'' (?l @ [NL]) = None" by (rule scan_key_None) simp
  then have "feed pvuuid ?l m = Inr ?m"
    using assms by (simp add: feed_def scan_line_def count_braces_eq Let_def sees_def contains_def)
  moreover have "plain_line ?l" by (simp add: plain_line_def)
  ultimately have "quiet pvuuid [?l] m ?m" by (intro quiet_one) (simp_all add: meta_done_eq)
  moreover have "sees 1 (lev + 1) ext ?m" using assms by (simp add: sees_def)
  ultimately show ?thesis by blast
qed

section \<open>Identifiers\<close>

lemma uuid_loop_run:
  assumes "length x = length a" "CHR ''-'' \<notin> set a"
  shows "uuid_loop (length a + n) (x @ s1) (a @ s2) = (if x = a then uuid_loop n s1 s2 else Inr False)"
  using assms by (induction x a rule: list_induct2) auto

lemma uuid_loop_dash: "a \<noteq> [] \<Longrightarrow> hd a \<noteq> CHR ''-'' \<Longrightarrow> uuid_loop (Suc n) s1 (CHR ''-'' # a) = uuid_loop (Suc n) s1 a"
  by (cases a) auto

fun dash_join :: "string list \<Rightarrow> string" where
  "dash_join [] = []"
| "dash_join [a] = a"
| "dash_join (a # as) = a @ CHR ''-'' # dash_join as"

lemma dash_join_hd: "as \<noteq> [] \<Longrightarrow> hd as \<noteq> [] \<Longrightarrow> dash_join as \<noteq> [] \<and> hd (dash_join as) = hd (hd as)"
  by (cases as rule: dash_join.cases) auto

lemma uuid_loop_join:
  "list_all2 (\<lambda>x a. length x = length a \<and> a \<noteq> [] \<and> CHR ''-'' \<notin> set a) xs as \<Longrightarrow>
     uuid_loop (length (concat as)) (concat xs @ s1) (dash_join as @ s2) = Inr (concat xs = concat as)"
proof (induction as arbitrary: xs rule: dash_join.induct)
  case 1
  then show ?case by simp
next
  case (2 a)
  then obtain x where "xs = [x]" "length x = length a" "CHR ''-'' \<notin> set a" by (auto simp: list_all2_Cons2)
  then show ?case using uuid_loop_run [of x a 0 s1 s2] by simp
next
  case (3 a b as)
  obtain x ys where xs: "xs = x # ys" "length x = length a" "CHR ''-'' \<notin> set a"
    and ys: "list_all2 (\<lambda>x a. length x = length a \<and> a \<noteq> [] \<and> CHR ''-'' \<notin> set a) ys (b # as)"
    using "3.prems" by (auto simp: list_all2_Cons2)
  have b: "b \<noteq> []" "CHR ''-'' \<notin> set b" using ys by (auto simp: list_all2_Cons2)
  then obtain k where k: "length (concat (b # as)) = Suc k" by (cases "length (concat (b # as))") auto
  have "hd b \<noteq> CHR ''-''" using hd_in_set [OF b(1)] b(2) by metis
  then have "hd (dash_join (b # as)) \<noteq> CHR ''-''" "dash_join (b # as) \<noteq> []"
    using dash_join_hd [of "b # as"] b(1) by auto
  then have "uuid_loop (Suc k) (concat ys @ s1) (CHR ''-'' # dash_join (b # as) @ s2) = Inr (concat ys = concat (b # as))"
    using "3.IH" [OF ys] unfolding k by (subst uuid_loop_dash) auto
  moreover have "uuid_loop (length a + Suc k) (x @ concat ys @ s1) (a @ CHR ''-'' # dash_join (b # as) @ s2) =
      (if x = a then uuid_loop (Suc k) (concat ys @ s1) (CHR ''-'' # dash_join (b # as) @ s2) else Inr False)"
    by (rule uuid_loop_run [OF xs(2,3)])
  ultimately show ?case using k xs by simp
qed

definition uuid_parts :: "string \<Rightarrow> string list" where
  "uuid_parts u = [take 6 u, take 4 (drop 6 u), take 4 (drop 10 u), take 4 (drop 14 u), take 4 (drop 18 u), take 4 (drop 22 u), drop 26 u]"

lemma take_drop_next: "take 4 (drop n u) @ drop (4 + n) u = drop n u"
  using append_take_drop_id [of 4 "drop n u"] by (simp only: drop_drop add.commute)

lemma concat_parts: "concat (uuid_parts u) = u"
  using take_drop_next [of 22 u] take_drop_next [of 18 u] take_drop_next [of 14 u] take_drop_next [of 10 u] take_drop_next [of 6 u]
    append_take_drop_id [of 6 u]
  by (simp add: uuid_parts_def)

lemma uuid_compare_print:
  assumes "uuid_ok u" "length v = 32"
  shows "uuid_compare (v @ r) (print_uuid u @ t) = Inr (v = u)"
proof -
  have u: "length u = 32" "CHR ''-'' \<notin> set u" using assms(1) by (auto simp: uuid_ok_def)
  have sub: "CHR ''-'' \<notin> set (take k (drop n u))" "CHR ''-'' \<notin> set (take k u)" "CHR ''-'' \<notin> set (drop n u)" for k n
    using u(2) by (auto dest: in_set_takeD in_set_dropD)
  have ne: "take 6 u \<noteq> []" "u \<noteq> []" using u(1) by auto
  have "list_all2 (\<lambda>x a. length x = length a \<and> a \<noteq> [] \<and> CHR ''-'' \<notin> set a) (uuid_parts v) (uuid_parts u)"
    using u(1) assms(2) ne by (simp add: uuid_parts_def sub)
  from uuid_loop_join [OF this, of r t] have "uuid_loop 32 (v @ r) (dash_join (uuid_parts u) @ t) = Inr (v = u)"
    by (simp only: concat_parts u(1))
  moreover have "dash_join (uuid_parts u) = print_uuid u" by (simp add: uuid_parts_def print_uuid_def)
  ultimately show ?thesis by (simp add: uuid_compare_def)
qed

lemma scan_uuid_print:
  assumes "uuid_ok u"
  shows "scan_uuid ((''id = '' @ [CHR 0x22] @ print_uuid u @ [CHR 0x22]) @ [NL]) = Some (print_uuid u)" "length (print_uuid u) = 38"
    "plain_line (''id = '' @ [CHR 0x22] @ print_uuid u @ [CHR 0x22])" "CHR ''{'' \<notin> set (print_uuid u)" "CHR ''}'' \<notin> set (print_uuid u)"
proof -
  have u: "length u = 32" "\<forall>c \<in> set u. \<not> isspace c \<and> c \<noteq> NUL \<and> c \<noteq> CHR ''{'' \<and> c \<noteq> CHR ''}''"
    using assms by (auto simp: uuid_ok_def)
  have sub: "set (print_uuid u) \<subseteq> insert (CHR ''-'') (set u)"
    by (auto simp: print_uuid_def dest: in_set_takeD in_set_dropD)
  have all: "\<not> isspace c \<and> c \<noteq> NUL \<and> c \<noteq> NL \<and> c \<noteq> CHR ''{'' \<and> c \<noteq> CHR ''}''" if "c \<in> set (print_uuid u)" for c
  proof (cases "c = CHR ''-''")
    case False
    have "isspace NL" by (simp add: isspace_def)
    moreover have "c \<in> set u" using sub that False by blast
    ultimately show ?thesis using u(2) by metis
  qed simp
  show len: "length (print_uuid u) = 38" using u(1) by (simp add: print_uuid_def)
  show "CHR ''{'' \<notin> set (print_uuid u)" "CHR ''}'' \<notin> set (print_uuid u)" using all by blast+
  show "plain_line (''id = '' @ [CHR 0x22] @ print_uuid u @ [CHR 0x22])"
    using len all by (auto simp: plain_line_def)
  have key: "scan_key ''id'' (''id'' @ '' = '' @ (CHR 0x22 # print_uuid u @ [CHR 0x22, NL])) = Some (CHR 0x22 # print_uuid u @ [CHR 0x22, NL])"
    by (subst scan_key_print) (simp add: isspace_def)
  obtain c cs where c: "print_uuid u = c # cs" using len by (cases "print_uuid u") auto
  have "dropWhile isspace (print_uuid u @ [CHR 0x22, NL]) = print_uuid u @ [CHR 0x22, NL]" using c all [of c] by simp
  moreover have "take 38 (takeWhile (\<lambda>c. \<not> isspace c) (print_uuid u @ [CHR 0x22, NL])) = print_uuid u"
    using all len by (subst takeWhile_append2) auto
  ultimately have "scan_word 38 (print_uuid u @ [CHR 0x22, NL]) = Some (print_uuid u, [CHR 0x22, NL])"
    using c all [of c] by (simp add: scan_word_def Let_def)
  with key show "scan_uuid ((''id = '' @ [CHR 0x22] @ print_uuid u @ [CHR 0x22]) @ [NL]) = Some (print_uuid u)"
    by (simp add: scan_uuid_def)
qed

definition id_line :: "string \<Rightarrow> string" where
  "id_line u = ''id = '' @ [CHR 0x22] @ print_uuid u @ [CHR 0x22]"

lemma quiet_id:
  assumes "uuid_ok u" "length v = 32" "sees 1 lev ext m"
  shows "\<exists>m'. quiet (v @ r) [id_line u] m m' \<and> sees (if v = u then 2 else 1) lev ext m'"
proof -
  let ?m = "m\<lparr>m_b := id_line u @ [NL], m_uuid := print_uuid u @ NUL # drop 39 (m_uuid m), m_state := (if v = u then 2 else 1)\<rparr>"
  note p = scan_uuid_print [OF assms(1), folded id_line_def]
  have "CHR ''{'' \<notin> set (id_line u)" "CHR ''}'' \<notin> set (id_line u)" using p(4,5) by (auto simp: id_line_def)
  then have "feed (v @ r) (id_line u) m = Inr ?m"
    using assms(3) p(1,2) uuid_compare_print [OF assms(1,2), of r "NUL # drop 39 (m_uuid m)"]
    by (auto simp: feed_def scan_line_def count_braces_eq Let_def sees_def)
  moreover have "\<not> meta_done ?m" by (simp add: meta_done_eq)
  ultimately have "quiet (v @ r) [id_line u] m ?m" using p(3) by (intro quiet_one)
  moreover have "sees (if v = u then 2 else 1) lev ext ?m" using assms(3) p(2) by (simp add: sees_def)
  ultimately show ?thesis by blast
qed

text \<open>In state 1 the numbers of a volume and its closing brace only move the level.\<close>

lemma quiet_skip:
  assumes "plain_line l" "CHR 0x22 \<notin> set l" "CHR ''{'' \<notin> set l" "sees 1 lev ext m"
  shows "\<exists>m'. quiet pvuuid [l] m m' \<and> sees 1 (lev - (if CHR ''}'' \<in> set l then 1 else 0)) ext m'"
proof -
  let ?m = "m\<lparr>m_b := l @ [NL], m_lev := lev - (if CHR ''}'' \<in> set l then 1 else 0)\<rparr>"
  have "scan_uuid (l @ [NL]) = None" using assms(2) by (intro scan_uuid_None) simp
  then have "feed pvuuid l m = Inr ?m"
    using assms(3,4) by (auto simp: feed_def scan_line_def count_braces_eq Let_def sees_def)
  moreover have "\<not> meta_done ?m" using assms(4) by (simp add: meta_done_eq sees_def)
  ultimately have "quiet pvuuid [l] m ?m" using assms(1) by (intro quiet_one)
  moreover have "sees 1 (lev - (if CHR ''}'' \<in> set l then 1 else 0)) ext ?m" using assms(4) by (simp add: sees_def)
  ultimately show ?thesis by blast
qed

lemma pv_numbers: "pv_ok p \<Longrightarrow> pv_start p < 10 ^ 20 \<and> pv_count p < 10 ^ 20"
  by (auto simp: pv_ok_def)

lemma inert_empty: "inert []"
  by (simp add: inert_def plain_line_def contains_def scan_key_None)

lemma quiet_pv_front:
  assumes "pv_ok p" "length v = 32" "sees 1 2 ext m"
  shows "\<exists>m'. quiet (v @ r) ([[], pv_name p @ '' {'', id_line (pv_id p)] @ pv_extra p) m m' \<and> sees (if v = pv_id p then 2 else 1) 3 ext m'"
proof -
  have e: "list_all (\<lambda>l. inert l \<and> ((1 :: int) = 1 \<longrightarrow> scan_uuid (l @ [NL]) = None)) [[]]" "(1 :: int) \<in> {0, 1, 2}"
    using inert_empty scan_uuid_None [of "[NL]"] by simp_all
  obtain m0 where m0: "quiet (v @ r) [[]] m m0" "sees 1 2 ext m0" using quiet_inert [OF e assms(3)] by blast
  have p: "name_ok (pv_name p)" "uuid_ok (pv_id p)" "list_all (\<lambda>l. inert l \<and> scan_uuid (l @ [NL]) = None) (pv_extra p)"
    using assms(1) by (auto simp: pv_ok_def)
  obtain m1 where m1: "quiet (v @ r) [pv_name p @ '' {''] m0 m1" "sees 1 (2 + 1) ext m1"
    using quiet_name [OF p(1) _ m0(2)] by blast
  obtain m2 where m2: "quiet (v @ r) [id_line (pv_id p)] m1 m2" "sees (if v = pv_id p then 2 else 1) (2 + 1) ext m2"
    using quiet_id [OF p(2) assms(2) m1(2)] by blast
  have "list_all (\<lambda>l. inert l \<and> ((if v = pv_id p then 2 else 1) = (1 :: int) \<longrightarrow> scan_uuid (l @ [NL]) = None)) (pv_extra p)"
    using p(3) by (auto simp: list_all_iff)
  moreover have "(if v = pv_id p then 2 else 1) \<in> {0, 1, 2 :: int}" by simp
  ultimately obtain m3 where m3: "quiet (v @ r) (pv_extra p) m2 m3" "sees (if v = pv_id p then 2 else 1) (2 + 1) ext m3"
    using quiet_inert [OF _ _ m2(2)] by blast
  from quiet_append [OF m0(1) quiet_append [OF m1(1) quiet_append [OF m2(1) m3(1)]]] m3(2) show ?thesis by auto
qed

lemma pv_lines_split:
  "pv_lines p = ([[], pv_name p @ '' {'', id_line (pv_id p)] @ pv_extra p) @ [''pe_start = '' @ show_nat (pv_start p)] @
     [''pe_count = '' @ show_nat (pv_count p)] @ [''}'']"
  by (simp add: pv_lines_def id_line_def)

lemma quiet_other:
  assumes "pv_ok p" "length v = 32" "v \<noteq> pv_id p" "sees 1 2 ext m"
  shows "\<exists>m'. quiet (v @ r) (pv_lines p) m m' \<and> sees 1 2 ext m'"
proof -
  note n = number_line(2,5,4,6) [OF conjunct1 [OF pv_numbers [OF assms(1)]]] number_line(3,5,4,6) [OF conjunct2 [OF pv_numbers [OF assms(1)]]]
  obtain m1 where m1: "quiet (v @ r) ([[], pv_name p @ '' {'', id_line (pv_id p)] @ pv_extra p) m m1" "sees 1 3 ext m1"
    using quiet_pv_front [OF assms(1,2,4), of r] assms(3) by auto
  obtain m2 where m2: "quiet (v @ r) [''pe_start = '' @ show_nat (pv_start p)] m1 m2" "sees 1 3 ext m2"
    using quiet_skip [OF n(1) _ _ m1(2), of "v @ r"] n(2-4) by auto
  obtain m3 where m3: "quiet (v @ r) [''pe_count = '' @ show_nat (pv_count p)] m2 m3" "sees 1 3 ext m3"
    using quiet_skip [OF n(5) _ _ m2(2), of "v @ r"] n(6-8) by auto
  obtain m4 where m4: "quiet (v @ r) [''}''] m3 m4" "sees 1 2 ext m4"
    using quiet_skip [of "''}''", OF _ _ _ m3(2), of "v @ r"] by (auto simp: plain_line_def)
  show ?thesis unfolding pv_lines_split
    using quiet_append [OF m1(1) quiet_append [OF m2(1) quiet_append [OF m3(1) m4(1)]]] m4(2) by blast
qed

lemma found_pv:
  assumes "pv_ok p" "v = pv_id p" "sees 1 2 ext m"
  shows "\<exists>m'. meta_loop (v @ r) (m\<lparr>m_file := lines_text (pv_lines p) @ rest\<rparr>) = Some (Inr m') \<and>
    m_offset m' = int (pv_start p) \<and> m_extent m' = ext \<and> m_pe_count m' = int (pv_count p)"
proof -
  have len: "length v = 32" using assms(1,2) by (auto simp: pv_ok_def uuid_ok_def)
  have lt: "pv_start p < 2 ^ 53" "pv_count p < 2 ^ 31" using assms(1) by (auto simp: pv_ok_def)
  note n1 = number_line [OF conjunct1 [OF pv_numbers [OF assms(1)]]] and n2 = number_line [OF conjunct2 [OF pv_numbers [OF assms(1)]]]
  let ?start = "''pe_start = '' @ show_nat (pv_start p)" and ?count = "''pe_count = '' @ show_nat (pv_count p)"
  obtain m1 where m1: "quiet (v @ r) ([[], pv_name p @ '' {'', id_line (pv_id p)] @ pv_extra p) m m1" "sees 2 3 ext m1"
    using quiet_pv_front [OF assms(1) len assms(3), of r] assms(2) by auto
  let ?m2 = "m1\<lparr>m_b := ?start @ [NL], m_offset := int (pv_start p), m_state := - 1\<rparr>"
  let ?m3 = "?m2\<lparr>m_b := ?count @ [NL], m_pe_count := int (pv_count p)\<rparr>"
  let ?m4 = "?m3\<lparr>m_b := ''}'' @ [NL], m_lev := 2\<rparr>"
  have "scan_key ''pe_start'' (?start @ [NL]) = Some (show_nat (pv_start p) @ [NL])"
    using scan_key_print [of "''pe_start''" "show_nat (pv_start p) @ [NL]"] by (simp add: dropWhile_number)
  then have "feed (v @ r) ?start m1 = Inr ?m2"
    using m1(2) n1(4,5) scan_ll_show [OF lt(1)] by (simp add: feed_def scan_line_def count_braces_eq Let_def sees_def)
  moreover have "\<not> meta_done ?m2" using m1(2) by (simp add: meta_done_eq sees_def)
  ultimately have q2: "quiet (v @ r) [?start] m1 ?m2" using n1(2) by (intro quiet_one)
  obtain t where "scan_key ''pe_count'' (?count @ [NL]) = Some (show_nat (pv_count p) @ [NL])" "scan_int (show_nat (pv_count p) @ [NL]) = Some (int (pv_count p), t)"
    using scan_number_line [OF lt(2), of "''pe_count''"] by auto
  then have "feed (v @ r) ?count ?m2 = Inr ?m3"
    using n2(4,5) by (simp add: feed_def scan_line_def count_braces_eq Let_def)
  moreover have "\<not> meta_done ?m3" using m1(2) by (simp add: meta_done_eq sees_def)
  ultimately have q3: "quiet (v @ r) [?count] ?m2 ?m3" using n2(3) by (intro quiet_one)
  have "scan_key ''pe_count'' (''}'' @ [NL]) = None" by (rule scan_key_None) simp
  then have "feed (v @ r) ''}'' (?m3\<lparr>m_file := rest\<rparr>) = Inr (?m4\<lparr>m_file := rest\<rparr>)"
    using m1(2) by (simp add: feed_def scan_line_def count_braces_eq Let_def sees_def)
  moreover have "meta_done (?m4\<lparr>m_file := rest\<rparr>)" by (simp add: meta_done_eq)
  ultimately have last: "meta_loop (v @ r) (?m3\<lparr>m_file := ''}'' @ NL # rest\<rparr>) = Some (Inr (?m4\<lparr>m_file := rest\<rparr>))"
    using meta_loop_line [of "?m3\<lparr>m_file := ''}'' @ NL # rest\<rparr>" "''}''" rest] by (simp add: plain_line_def)
  have tx: "lines_text (pv_lines p) @ rest =
      lines_text (([[], pv_name p @ '' {'', id_line (pv_id p)] @ pv_extra p) @ [?start] @ [?count]) @ ''}'' @ NL # rest"
    unfolding pv_lines_split lines_text_def by simp
  show ?thesis unfolding tx meta_loop_quiet [OF quiet_append [OF m1(1) quiet_append [OF q2 q3]]] last
    using m1(2) by (simp add: sees_def)
qed

lemma lines_text_append: "lines_text (a @ b) = lines_text a @ lines_text b"
  by (simp add: lines_text_def)

lemma found_in_list:
  "list_all pv_ok ps \<Longrightarrow> p \<in> set ps \<Longrightarrow> distinct (map pv_id ps) \<Longrightarrow> sees 1 2 ext m \<Longrightarrow>
     \<exists>m'. meta_loop (pv_id p @ r) (m\<lparr>m_file := lines_text (concat (map pv_lines ps)) @ rest\<rparr>) = Some (Inr m') \<and>
       m_offset m' = int (pv_start p) \<and> m_extent m' = ext \<and> m_pe_count m' = int (pv_count p)"
proof (induction ps arbitrary: m)
  case (Cons q ps)
  show ?case
  proof (cases "p = q")
    case True
    then show ?thesis using found_pv [of p "pv_id p" ext m r] Cons.prems by (simp add: lines_text_append)
  next
    case False
    then have ps: "p \<in> set ps" using Cons.prems(2) by simp
    then have "pv_id p \<in> pv_id ` set ps" by blast
    then have "pv_id p \<noteq> pv_id q" using Cons.prems(3) by auto
    note p = ps this
    have len: "length (pv_id p) = 32" using Cons.prems(1) p(1) by (auto simp: list_all_iff pv_ok_def uuid_ok_def)
    obtain m1 where m1: "quiet (pv_id p @ r) (pv_lines q) m m1" "sees 1 2 ext m1"
      using quiet_other [OF _ len p(2) Cons.prems(4), of r] Cons.prems(1) by auto
    have "meta_loop (pv_id p @ r) (m\<lparr>m_file := lines_text (concat (map pv_lines (q # ps))) @ rest\<rparr>) =
        meta_loop (pv_id p @ r) (m1\<lparr>m_file := lines_text (concat (map pv_lines ps)) @ rest\<rparr>)"
      using meta_loop_quiet [OF m1(1), of "lines_text (concat (map pv_lines ps)) @ rest"] by (simp add: lines_text_append)
    then show ?thesis using Cons.IH [OF _ p(1) _ m1(2)] Cons.prems(1,3) by simp
  qed
qed simp

lemma quiet_head:
  assumes "vg_ok v" "sees 0 0 ext m"
  shows "\<exists>m'. quiet pvuuid ([vg_name v @ '' {''] @ vg_head v @ [''extent_size = '' @ show_nat (vg_extent v)] @ vg_more v @ [[], ''physical_volumes {'']) m m' \<and>
    sees 1 2 (int (vg_extent v)) m'"
proof -
  have v: "name_ok (vg_name v)" "\<not> contains (vg_name v @ '' {'' @ [NL]) ''physical_volumes''" "vg_extent v < 2 ^ 31"
    and i: "list_all (\<lambda>l. inert l \<and> ((0 :: int) = 1 \<longrightarrow> scan_uuid (l @ [NL]) = None)) (vg_head v)"
      "list_all (\<lambda>l. inert l \<and> ((0 :: int) = 1 \<longrightarrow> scan_uuid (l @ [NL]) = None)) (vg_more v @ [[]])" "(0 :: int) \<in> {0, 1, 2}"
    using assms(1) inert_empty by (auto simp: vg_ok_def)
  obtain m1 where m1: "quiet pvuuid [vg_name v @ '' {''] m m1" "sees 0 (0 + 1) ext m1"
    using quiet_name [OF v(1) _ assms(2)] v(2) by blast
  obtain m2 where m2: "quiet pvuuid (vg_head v) m1 m2" "sees 0 (0 + 1) ext m2" using quiet_inert [OF i(1,3) m1(2)] by blast
  obtain m3 where m3: "quiet pvuuid [''extent_size = '' @ show_nat (vg_extent v)] m2 m3" "sees 0 (0 + 1) (int (vg_extent v)) m3"
    using quiet_extent [OF v(3) m2(2)] by blast
  obtain m4 where m4: "quiet pvuuid (vg_more v @ [[]]) m3 m4" "sees 0 (0 + 1) (int (vg_extent v)) m4" using quiet_inert [OF i(2,3) m3(2)] by blast
  obtain m5 where m5: "quiet pvuuid [''physical_volumes {''] m4 m5" "sees 1 (0 + 1 + 1) (int (vg_extent v)) m5"
    using quiet_volumes [OF m4(2)] by blast
  from quiet_append [OF m1(1) quiet_append [OF m2(1) quiet_append [OF m3(1) quiet_append [OF m4(1) m5(1)]]]] m5(2)
  show ?thesis by auto
qed

lemma meta_loop_finds:
  assumes "vg_ok v" "p \<in> set (vg_pvs v)" "distinct (map pv_id (vg_pvs v))" "sees 0 0 ext m" "m_file m = lines_text (vg_lines v) @ rest"
  shows "\<exists>m'. meta_loop (pv_id p @ r) m = Some (Inr m') \<and> m_offset m' = int (pv_start p) \<and>
    m_extent m' = int (vg_extent v) \<and> m_pe_count m' = int (pv_count p)"
proof -
  let ?h = "[vg_name v @ '' {''] @ vg_head v @ [''extent_size = '' @ show_nat (vg_extent v)] @ vg_more v @ [[], ''physical_volumes {'']"
  let ?t = "lines_text (concat (map pv_lines (vg_pvs v))) @ rest"
  obtain m1 where m1: "quiet (pv_id p @ r) ?h m m1" "sees 1 2 (int (vg_extent v)) m1"
    using quiet_head [OF assms(1,4)] by blast
  have "vg_lines v = ?h @ concat (map pv_lines (vg_pvs v))" by (simp add: vg_lines_def)
  then have fl: "m_file m = lines_text ?h @ ?t" using assms(5) by (simp only: lines_text_append append_assoc)
  have "meta_loop (pv_id p @ r) m = meta_loop (pv_id p @ r) (m\<lparr>m_file := m_file m\<rparr>)" by simp
  also have "\<dots> = meta_loop (pv_id p @ r) (m1\<lparr>m_file := ?t\<rparr>)"
    unfolding fl by (rule meta_loop_quiet [OF m1(1)])
  finally have "meta_loop (pv_id p @ r) m = meta_loop (pv_id p @ r) (m1\<lparr>m_file := ?t\<rparr>)" .
  then show ?thesis using found_in_list [OF _ assms(2,3) m1(2), of r rest] assms(1) by (simp add: vg_ok_def)
qed

section \<open>The whole check\<close>

text \<open>
  A device with the label of version 2, the physical volume \<open>p\<close> of the group \<open>v\<close>: the label in the
  second sector, the identifier behind it, the list of areas, the header of the metadata at \<open>mdh\<close>
  and the text of the group behind that.
\<close>

definition lvm2_device :: "vgroup \<Rightarrow> pvol \<Rightarrow> nat \<Rightarrow> nat \<Rightarrow> nat \<Rightarrow> string \<Rightarrow> device \<Rightarrow> bool" where
  "lvm2_device v p mdh off q rest d \<longleftrightarrow>
     (let data = dev_data d; buf = take 1024 data; pv = 512 + word_at 133 buf; buf2 = take 512 (drop mdh data)
      in 1024 \<le> length data \<and> word_at 0 buf \<noteq> 0x00014d48 \<and> word_at 128 buf = 0x4542414C \<and> word_at 129 buf = 0x454E4F4C \<and>
         word_at 134 buf = 0x324D564C \<and> word_at 135 buf = 0x31303020 \<and>
         take 32 (drop pv buf) = pv_id p \<and> skip_data_areas buf (pv + 40) = Inr q \<and> u64_at q buf = Inr mdh \<and>
         mdh + 512 \<le> length data \<and> take 16 (drop 4 buf2) = FMTT_MAGIC \<and> word_at 10 buf2 = off \<and> word_at 11 buf2 = 0 \<and>
         0 < off \<and> off + mdh < 2 ^ 31 \<and> drop (off + mdh) data = lines_text (vg_lines v) @ rest)"

lemma fseek_small: "n < 2 ^ 31 \<Longrightarrow> fseek (of_nat n) pos = n"
proof -
  assume n: "n < 2 ^ 31"
  have "(ucast (of_nat n :: u64) :: u32) = of_nat n"
    using n by (simp add: word_eq_iff_unsigned unsigned_ucast_eq unsigned_of_nat take_bit_eq_mod)
  then show ?thesis using sint_of_nat_small [OF n] by (simp add: fseek_def Let_def)
qed

lemma fread_full: "pos + n \<le> length data \<Longrightarrow> n \<le> length buf \<Longrightarrow> fread data pos n buf = take n (drop pos data) @ drop n buf"
  by (simp add: fread_def Let_def)

definition stack_ok :: "lvm_stack \<Rightarrow> bool" where
  "stack_ok st \<longleftrightarrow> length (st_buf st) = 1024 \<and> length (st_uuid st) = 40"

lemma lvm_check_finds:
  assumes v: "vg_ok v" "p \<in> set (vg_pvs v)" "distinct (map pv_id (vg_pvs v))" and d: "lvm2_device v p mdh off q rest d"
    and st: "stack_ok st"
  shows "lvm_check st (Some d) sect = Some (Inr (of_nat (512 * pv_start p), of_nat (vg_extent v * pv_count p)))"
proof -
  define data buf buf2 pv where "data = dev_data d" and "buf = take 1024 data" and "buf2 = take 512 (drop mdh data)"
    and "pv = 512 + word_at 133 buf"
  have d': "1024 \<le> length data" "word_at 0 buf \<noteq> 0x00014d48" "word_at 128 buf = 0x4542414C" "word_at 129 buf = 0x454E4F4C"
     "word_at 134 buf = 0x324D564C" "word_at 135 buf = 0x31303020" "take 32 (drop pv buf) = pv_id p"
     "skip_data_areas buf (pv + 40) = Inr q" "u64_at q buf = Inr mdh" "mdh + 512 \<le> length data" "take 16 (drop 4 buf2) = FMTT_MAGIC"
     "word_at 10 buf2 = off" "word_at 11 buf2 = 0" "0 < off" "off + mdh < 2 ^ 31" "drop (off + mdh) data = lines_text (vg_lines v) @ rest"
    using d by (auto simp: lvm2_device_def Let_def data_def buf_def buf2_def pv_def)
  have buf: "fread data 0 1024 (st_buf st) = buf" if "length buf = 1024"
    using d'(1) st by (simp add: fread_def Let_def buf_def stack_ok_def)
  have len: "length buf = 1024" "length buf2 = 512" using d'(1,10) by (simp_all add: buf_def buf2_def)
  have mdh: "fseek (of_nat mdh) (min 1024 (length data)) = mdh" using d'(15) by (intro fseek_small) simp
  have fr: "fread data mdh 512 buf = buf2 @ drop 512 buf" using fread_full [OF d'(10)] len by (simp add: buf2_def)
  have sub: "take 16 (drop 4 (buf2 @ drop 512 buf)) = FMTT_MAGIC" "word_at 10 (buf2 @ drop 512 buf) = off" "word_at 11 (buf2 @ drop 512 buf) = 0"
    using d'(11-13) len by (simp_all add: word_at_def)
  have uu: "drop pv (buf2 @ drop 512 buf) = pv_id p @ drop 32 (drop pv buf)"
  proof -
    have "drop pv (buf2 @ drop 512 buf) = drop pv buf" using len by (simp add: pv_def add.commute)
    also have "\<dots> = take 32 (drop pv buf) @ drop 32 (drop pv buf)" by (rule append_take_drop_id [symmetric])
    finally show ?thesis unfolding d'(7) .
  qed
  have off: "(of_nat off :: u64) \<noteq> 0"
    using d'(14,15) unat_add_of_nat64 [of 0 off] by auto
  have pos: "fseek (of_nat off + of_nat mdh) x = off + mdh" for x
    using fseek_small [OF d'(15), of x] by simp
  define m where "m = \<lparr>m_file = drop (off + mdh) data, m_b = st_b st, m_uuid = st_uuid st, m_state = 0, m_extent = 0, m_pe_count = 0,
      m_lev = 0, m_offset = 0\<rparr>"
  have "sees 0 0 0 m" "m_file m = lines_text (vg_lines v) @ rest" using st d'(16) by (simp_all add: m_def sees_def stack_ok_def)
  from meta_loop_finds [OF v this, of "drop 32 (drop pv buf)"] obtain m' where
    m': "meta_loop (pv_id p @ drop 32 (drop pv buf)) m = Some (Inr m')" "m_offset m' = int (pv_start p)"
      "m_extent m' = int (vg_extent v)" "m_pe_count m' = int (pv_count p)"
    by blast
  have "lvm2 st data buf sect = Some (Inr (of_int (m_offset m') * 512, of_int (m_extent m' * m_pe_count m')))"
    unfolding lvm2_def Let_def pv_def [symmetric]
    using d'(3-6,8,9) mdh fr sub uu off pos m'(1) by (simp add: m_def [symmetric]) (simp add: ret_run_def)
  then show ?thesis
    using d'(2) buf [OF len(1)] m'(2-4) by (simp add: lvm_check_def data_def [symmetric] mult.commute)
qed

section \<open>The contract of image\_lvm\<close>

text \<open>The number of sectors in front of the data.\<close>

definition lvm_front :: "lvm_stack \<times> device \<Rightarrow> nat" where
  "lvm_front x = (case lvm_check (fst x) (Some (snd x)) 0 of Some (Inr (off, _)) \<Rightarrow> unat off div 512 | _ \<Rightarrow> 0)"

definition lvm_good :: "lvm_stack \<times> device \<Rightarrow> bool" where
  "lvm_good x \<longleftrightarrow> 0 < lvm_front x \<and> lvm_front x + 8 < 2 ^ 31 \<and> 512 * lvm_front x \<le> length (dev_data (snd x))"

lemma sint64_small: "n < 2 ^ 63 \<Longrightarrow> sint (of_nat n :: u64) = int n"
proof -
  assume n: "n < 2 ^ 63"
  have "sint (of_int (int n) :: u64) = int n"
    using n by (subst sint_sbintrunc') (simp add: signed_take_bit_int_eq_self)
  then show ?thesis by simp
qed

lemma sdiv512_small:
  assumes "unat x div 512 = n" "n + 8 < 2 ^ 31"
  shows "sdiv512 x = of_nat n"
proof -
  have "512 * n + unat x mod 512 = unat x" using mult_div_mod_eq [of 512 "unat x"] by (simp only: assms(1))
  moreover have "unat x mod 512 < 512" by (rule mod_less_divisor) simp
  moreover have "512 * n + 512 < (2 :: nat) ^ 63" using assms(2) by simp
  ultimately have "unat x < 2 ^ 63" by linarith
  from sint64_small [OF this] have "sint x = int (unat x)" by simp
  moreover have "int (unat x) div 512 = int (unat x div 512)" by (simp only: zdiv_int of_nat_numeral)
  ultimately have "sdiv512 x = of_int (int (unat x div 512))" unfolding sdiv512_def Let_def by (simp only: of_nat_less_0_iff if_False)
  then show ?thesis by (simp only: assms(1) of_int_of_nat_eq)
qed

lemma lvm_sectors_ok:
  assumes "n + 8 < 2 ^ 31"
  shows "\<exists>bm i1 i2. lvm_sectors (of_nat n) = Inr (bm, i1, i2) \<and> marks \<lparr>bitmap = bm, nb_sect = k\<rparr> (\<lambda>i. i < n) \<and> 8 * length bm \<le> n + 7"
proof -
  have "(ucast (of_nat n :: u64) :: u32) = of_nat n"
    using assms by (simp add: word_eq_iff_unsigned unsigned_ucast_eq unsigned_of_nat take_bit_eq_mod)
  then have off: "sint (ucast (of_nat n :: u64) :: u32) = int n" using assms by (simp add: sint_of_nat_small)
  have len: "nat ((int n + 7) div 8) = (n + 7) div 8" by linarith
  let ?z = "replicate ((n + 7) div 8) NUL"
  have "\<forall>i \<in> set [0..<n]. i < 8 * length ?z" by auto
  from setbits_ok [OF this] obtain bm where bm: "setbits ?z [0..<n] = Inr bm" "bits_added ?z (\<lambda>i. i \<in> set [0..<n]) bm" by blast
  have l: "length bm = (n + 7) div 8" using bm(2) by (simp add: bits_added_def)
  have "bits_of bm ! i \<longleftrightarrow> i < n" if "i < 8 * length bm" for i
    using bm(2) that l by (simp add: bits_added_def bits_of_zeros)
  then have "marks \<lparr>bitmap = bm, nb_sect = k\<rparr> (\<lambda>i. i < n)" using l by (auto simp: marks_def)
  moreover have "8 * length bm \<le> n + 7" using l by simp
  moreover have "lvm_sectors (of_nat n) = Inr (bm, show_nat n, show_nat n)"
    using assms bm(1) unfolding lvm_sectors_def off Let_def len by simp
  ultimately show ?thesis by blast
qed

interpretation lvm: imager "\<lambda>env x. image_lvm env (fst x) (Some (snd x))" lvm_good "\<lambda>x i. i < lvm_front x"
    "\<lambda>x. dev_data (snd x)" "''LVM''"
proof
  fix x :: "lvm_stack \<times> device" and argv :: "string list" and env :: "('z, 'i) save_env"
  assume x: "lvm_good x" "usage_ok argv" "\<not> query_only argv"
  obtain off sect where c: "lvm_check (fst x) (Some (snd x)) 0 = Some (Inr (off, sect))" "unat off div 512 = lvm_front x"
    using x(1) by (auto simp: lvm_good_def lvm_front_def split: option.splits sum.splits)
  have n: "lvm_front x + 8 < 2 ^ 31" "off \<noteq> 0" using x(1) c(2) by (auto simp: lvm_good_def)
  note sd = sdiv512_small [OF c(2) n(1)]
  obtain bm i1 i2 where bm: "lvm_sectors (of_nat (lvm_front x)) = Inr (bm, i1, i2)"
      "marks \<lparr>bitmap = bm, nb_sect = sdiv512 off\<rparr> (\<lambda>i. i < lvm_front x)" "8 * length bm \<le> lvm_front x + 7"
    using lvm_sectors_ok [OF n(1)] by blast
  have "spans \<lparr>bitmap = bm, nb_sect = sdiv512 off\<rparr> (length (dev_data (snd x)))"
    using bm(3) x(1) by (intro spansI [of _ "lvm_front x"]) (simp_all add: lvm_good_def)
  have "image_lvm env (fst x) (Some (snd x)) argv = save_image env (dev_data (snd x)) argv \<lparr>bitmap = bm, nb_sect = sdiv512 off\<rparr> i1 i2 ''LVM''"
    using x(2,3) c(1) n(2) bm(1) sd by (simp add: image_lvm_def)
  with bm(2) \<open>spans _ _\<close> show "\<exists>p i1 i2. image_lvm env (fst x) (Some (snd x)) argv = save_image env (dev_data (snd x)) argv p i1 i2 ''LVM'' \<and>
      marks p (\<lambda>i. i < lvm_front x) \<and> spans p (length (dev_data (snd x)))"
    by blast
qed (auto simp: lvm_good_def)

section \<open>Properties\<close>

text \<open>
  C14 (\<open>lvm_check\<close>): on a device with a label of version 2, in a volume group with any number of
  physical volumes with different identifiers, the check finds the start of the data of the volume
  whose identifier the label has, in bytes, and the number of sectors of its extents.
\<close>

theorem lvm2_found:
  assumes "vg_ok v" "p \<in> set (vg_pvs v)" "distinct (map pv_id (vg_pvs v))" "lvm2_device v p mdh off q rest d" "stack_ok st"
  shows "lvm_check st (Some d) sect = Some (Inr (of_nat (512 * pv_start p), of_nat (vg_extent v * pv_count p)))"
  by (rule lvm_check_finds [OF assms])

text \<open>
  (\<open>lvm_check\<close>): the result of \<open>fgets\<close> is not looked at. If what is left of the device and the
  line buffer hold neither a closing brace nor a quote, for instance if the metadata were erased,
  the scan of the metadata never ends.
\<close>

theorem lvm2_scan_hangs: "no_marks m \<Longrightarrow> meta_loop pvuuid m = None"
  using meta_loop_no_result [of pvuuid m] by (cases "meta_loop pvuuid m") auto

text \<open>
  (\<open>image_lvm\<close>): everything in front of the data of a physical volume is saved and comes back.
\<close>

theorem lvm_restores:
  assumes "lvm_good (st, d)" "usage_ok argv" "\<not> query_only argv" "env_ok env ''LVM''" "unat off < 2 ^ 63"
  shows "\<exists>ui files s data' off'. image_lvm env st (Some d) argv = Some (Inr (ui, files, s)) \<and> s_errors s = 0 \<and>
     restore_files (se_zlib env) files data off = Some (Inr (data', off')) \<and>
     volume_restored (dev_data d) (\<lambda>i. i < lvm_front (st, d)) data (unat off) data'"
  using lvm.main_restores [OF assms, of data] by simp

section \<open>Witnesses\<close>

definition sample_pv :: pvol where
  "sample_pv = \<lparr>pv_name = ''pv0'', pv_id = replicate 32 (CHR ''u''), pv_extra = [''device = '' @ [CHR 0x22] @ ''/dev/hda1'' @ [CHR 0x22], [], ''status = ['' @ [CHR 0x22] @ ''ALLOCATABLE'' @ [CHR 0x22] @ '']''], pv_start = 3, pv_count = 100\<rparr>"

definition sample_vg :: vgroup where
  "sample_vg = \<lparr>vg_name = ''vg'', vg_head = [''seqno = 1''], vg_extent = 8192, vg_more = [''max_lv = 0'', ''max_pv = 0''], vg_pvs = [sample_pv]\<rparr>"

lemma sample_vg_ok: "vg_ok sample_vg"
  by (simp add: vg_ok_def sample_vg_def sample_pv_def pv_ok_def name_ok_def uuid_ok_def inert_def plain_line_def contains_def
        scan_key_def scan_uuid_def isspace_def)

definition sample_lvm :: device where
  "sample_lvm = \<lparr>dev_data =
     replicate 512 NUL @ ''LABELONE'' @ replicate 12 NUL @ le_bytes 4 32 @ ''LVM2 001'' @
     replicate 32 (CHR ''u'') @ replicate 8 NUL @ replicate 16 NUL @ le_bytes 8 1024 @ replicate 416 NUL @
     replicate 4 NUL @ FMTT_MAGIC @ replicate 20 NUL @ le_bytes 4 512 @ replicate 468 NUL @ lines_text (vg_lines sample_vg),
     dev_blkgetsize = None\<rparr>"

definition sample_stack :: lvm_stack where
  "sample_stack = \<lparr>st_buf = replicate 1024 NUL, st_b = [], st_uuid = replicate 40 NUL\<rparr>"

lemma sample_lvm_device: "lvm2_device sample_vg sample_pv 1024 512 600 [] sample_lvm"
proof -
  define t where "t = lines_text (vg_lines sample_vg)"
  define buf where "buf = take 1024 (dev_data sample_lvm)"
  have buf: "buf = replicate 512 NUL @ ''LABELONE'' @ replicate 12 NUL @ le_bytes 4 32 @ ''LVM2 001'' @
     replicate 32 (CHR ''u'') @ replicate 8 NUL @ replicate 16 NUL @ le_bytes 8 1024 @ replicate 416 NUL"
    by (simp add: buf_def sample_lvm_def)
  have d: "drop 1024 (dev_data sample_lvm) = replicate 4 NUL @ FMTT_MAGIC @ replicate 20 NUL @ le_bytes 4 512 @ replicate 468 NUL @ t"
      "drop 1536 (dev_data sample_lvm) = t" "1536 \<le> length (dev_data sample_lvm)"
    by (simp_all add: sample_lvm_def t_def FMTT_MAGIC_def)
  have w: "word_at 133 buf = 32" "word_at 0 buf = 0" "word_at 128 buf = 0x4542414C" "word_at 129 buf = 0x454E4F4C"
      "word_at 134 buf = 0x324D564C" "word_at 135 buf = 0x31303020"
    by (simp_all add: buf word_at_def le_nat_le_bytes) (simp_all add: numeral_eq_Suc)
  have u: "u64_at 584 buf = Inr 0" "u64_at 600 buf = Inr 1024" "take 32 (drop 544 buf) = pv_id sample_pv"
    by (simp_all add: buf u64_at_def sample_pv_def le_nat_le_bytes le_nat_zeros)
  have "skip_data_areas buf 584 = Inr 600" using u(1) by (subst skip_data_areas.simps) simp
  with w u d show ?thesis
    unfolding lvm2_device_def buf_def [symmetric] Let_def d(1)
    by (simp add: FMTT_MAGIC_def word_at_def le_nat_le_bytes le_nat_zeros t_def [symmetric])
qed

lemma sample_lvm_ok: "sample_pv \<in> set (vg_pvs sample_vg)" "distinct (map pv_id (vg_pvs sample_vg))" "stack_ok sample_stack"
  by (simp_all add: sample_vg_def sample_stack_def stack_ok_def)

theorem lvm2_found_witness: "lvm_check sample_stack (Some sample_lvm) 0 = Some (Inr (1536, 819200))"
  using lvm2_found [OF sample_vg_ok sample_lvm_ok(1,2) sample_lvm_device sample_lvm_ok(3), of 0]
  by (simp add: sample_vg_def sample_pv_def)

theorem lvm2_scan_hangs_witness:
  "meta_loop [] \<lparr>m_file = ''seqno = 1'', m_b = [], m_uuid = [], m_state = 0, m_extent = 0, m_pe_count = 0, m_lev = 0, m_offset = 0\<rparr> = None"
  by (rule lvm2_scan_hangs) (simp add: no_marks_def)

theorem lvm_restores_witness:
  "\<exists>ui files s data' off'. image_lvm sample_save_env sample_stack (Some sample_lvm) [''image'', ''/dev/hda1'', ''P1''] = Some (Inr (ui, files, s)) \<and>
     s_errors s = 0 \<and> restore_files (se_zlib sample_save_env) files [] 0 = Some (Inr (data', off')) \<and>
     volume_restored (dev_data sample_lvm) (\<lambda>i. i < 3) [] 0 data'"
proof -
  have "lvm_check sample_stack (Some sample_lvm) 0 = Some (Inr (1536, 819200))"
    using lvm_check_finds [OF sample_vg_ok sample_lvm_ok(1,2) sample_lvm_device sample_lvm_ok(3), of 0]
    by (simp add: sample_vg_def sample_pv_def)
  then have f: "lvm_front (sample_stack, sample_lvm) = 3" by (simp add: lvm_front_def)
  have "1536 \<le> length (dev_data sample_lvm)" by (simp add: sample_lvm_def FMTT_MAGIC_def)
  with f have "lvm_good (sample_stack, sample_lvm)" by (simp add: lvm_good_def)
  moreover have "env_ok sample_save_env ''LVM''" by (intro sample_save_env_ok) (simp add: unmarked_def)
  ultimately show ?thesis
    using lvm_restores [of sample_stack sample_lvm "[''image'', ''/dev/hda1'', ''P1'']" sample_save_env 0 "[]"] f
    by (simp add: usage_ok_def query_only_def)
qed

end
