(* ===== verification/Image_Reiserfs.thy ===== *)
theory Image_Reiserfs
  imports Lvm
begin

text \<open>
  \<^verbatim>\<open>client/revimage/image_lvmreiserfs.c\<close>: saving a ReiserFS file system, which may lie in an LVM physical
  volume. The program looks for the super block, reads the blocks of the bitmap, joins them and
  marks the sectors of the blocks in use, behind the sectors of LVM. The fields of the super block
  and the reading of blocks are those of \<^verbatim>\<open>reiserfsprogs\<close>, without its cache of buffers. Warnings that
  are only printed are left out, but the tests that lead to them are made.
\<close>

section \<open>The super block\<close>

definition le32_at :: "nat \<Rightarrow> string \<Rightarrow> nat" where
  "le32_at p s = le_nat (take 4 (drop p s))"

definition le16_at :: "nat \<Rightarrow> string \<Rightarrow> nat" where
  "le16_at p s = le_nat (take 2 (drop p s))"

definition rs_block_count :: "string \<Rightarrow> nat" where "rs_block_count rs = le32_at 0 rs"
definition rs_journal_start :: "string \<Rightarrow> nat" where "rs_journal_start rs = le32_at 12 rs"
definition rs_journal_size :: "string \<Rightarrow> nat" where "rs_journal_size rs = le32_at 20 rs"
definition rs_blocksize :: "string \<Rightarrow> nat" where "rs_blocksize rs = le16_at 44 rs"
definition rs_bmap_nr :: "string \<Rightarrow> nat" where "rs_bmap_nr rs = le16_at 70 rs"

definition is_reiserfs_magic_string :: "string \<Rightarrow> bool" where
  "is_reiserfs_magic_string rs \<longleftrightarrow> take 8 (drop 52 rs) = ''ReIsErFs''"

definition is_reiser2fs_magic_string :: "string \<Rightarrow> bool" where
  "is_reiser2fs_magic_string rs \<longleftrightarrow> take 9 (drop 52 rs) = ''ReIsEr2Fs''"

definition bread :: "device \<Rightarrow> nat \<Rightarrow> nat \<Rightarrow> string option" where
  "bread d block sz =
     (if sz * block + sz \<le> length (dev_data d) then Some (take sz (drop (sz * block) (dev_data d))) else None)"

section \<open>Opening the file system\<close>

record rfs =
  s_blocksize :: nat
  s_rs :: string
  b_blocknr :: u32
  ap_bitmap :: "string list"

definition sdivw :: "u32 \<Rightarrow> int \<Rightarrow> u32" where
  "sdivw x n = of_int (let i = sint x in if i < 0 then - (- i div n) else i div n)"

fun test_bits :: "string \<Rightarrow> nat list \<Rightarrow> bool res" where
  "test_bits bm [] = Inr True"
| "test_bits bm (i # is) = bind_res (bit_at bm i) (\<lambda>b. bind_res (test_bits bm is) (\<lambda>c. Inr (b \<and> c)))"

definition check_first_bitmap :: "string \<Rightarrow> string \<Rightarrow> bool res" where
  "check_first_bitmap rs bm = test_bits bm [0..<unat (of_nat (rs_journal_start rs) + of_nat (rs_journal_size rs) + 1 :: u32)]"

text \<open>A block of the bitmap that cannot be read counts as all in use.\<close>

definition bitmap_block :: "device \<Rightarrow> u32 \<Rightarrow> u32 \<Rightarrow> nat \<Rightarrow> string" where
  "bitmap_block d ofs block bs =
     (case bread d (unat (block + sdivw ofs 4096)) bs of None \<Rightarrow> replicate bs (CHR 0xFF) | Some b \<Rightarrow> b)"

fun read_bitmap_loop :: "device \<Rightarrow> u32 \<Rightarrow> nat \<Rightarrow> nat \<Rightarrow> u32 \<Rightarrow> rfs \<Rightarrow> rfs res" where
  "read_bitmap_loop d ofs i 0 block fs = Inr fs"
| "read_bitmap_loop d ofs i (Suc n) block fs =
     (let bs = s_blocksize fs;
          bm = bitmap_block d ofs block bs;
          fs = fs\<lparr>ap_bitmap := ap_bitmap fs @ [bm]\<rparr>
      in bind_res (if b_blocknr fs = 16 then (if bs = 0 then Inl DivByZero else bit_at bm (unat block mod (bs * 8)))
                   else bit_at (ap_bitmap fs ! 0) (unat block)) (\<lambda>_.
         bind_res (if i = 0 then check_first_bitmap (s_rs fs) bm else Inr True) (\<lambda>_.
           read_bitmap_loop d ofs (i + 1) n (if b_blocknr fs = 16 then of_nat ((i + 1) * bs * 8) else block + 1) fs)))"

definition myreiserfs_read_bitmap_blocks :: "device \<Rightarrow> u32 \<Rightarrow> rfs \<Rightarrow> rfs res" where
  "myreiserfs_read_bitmap_blocks d ofs fs =
     (let fs = fs\<lparr>b_blocknr := b_blocknr fs - sdivw ofs 4096\<rparr>
      in read_bitmap_loop d ofs 0 (rs_bmap_nr (s_rs fs)) (b_blocknr fs + 1) fs)"

text \<open>The super block is in block 16 or in block 2.\<close>

fun find_super :: "device \<Rightarrow> u32 \<Rightarrow> u32 list \<Rightarrow> (u32 \<times> string) option" where
  "find_super d ofs [] = None"
| "find_super d ofs (i # is) =
     (case bread d (unat (i + sdivw ofs 4096)) 4096 of
        None \<Rightarrow> find_super d ofs is
      | Some rs \<Rightarrow> if is_reiser2fs_magic_string rs \<or> is_reiserfs_magic_string rs then Some (i + sdivw ofs 4096, rs)
                  else find_super d ofs is)"

definition myreiserfs_open :: "device option \<Rightarrow> u32 \<Rightarrow> rfs res" where
  "myreiserfs_open dev ofs =
     (case dev of
        None \<Rightarrow> Inl (Exit 1)
      | Some d \<Rightarrow>
          (case find_super d ofs [16, 2] of
             None \<Rightarrow> Inl (Exit 1)
           | Some (nr, rs) \<Rightarrow>
               myreiserfs_read_bitmap_blocks d ofs \<lparr>s_blocksize = rs_blocksize rs, s_rs = rs, b_blocknr = nr, ap_bitmap = []\<rparr>))"

section \<open>Joining the bitmap\<close>

text \<open>The memory bitmap starts cleared; each block is copied behind the one before.\<close>

fun copy_bitmaps :: "nat \<Rightarrow> nat \<Rightarrow> string list \<Rightarrow> string \<Rightarrow> string res" where
  "copy_bitmaps bs sz [] acc = Inr acc"
| "copy_bitmaps bs sz (b # bms) acc =
     (let bytes = (if bms = [] \<and> sz mod bs \<noteq> 0 then sz mod bs else bs)
      in if sz < length acc + bytes then Inl BufOverflow else copy_bitmaps bs sz bms (acc @ take bytes b))"

fun clear_bits :: "nat list \<Rightarrow> string \<Rightarrow> string res" where
  "clear_bits [] bm = Inr bm"
| "clear_bits (i # is) bm = bind_res (clear_bit i bm) (clear_bits is)"

definition myreiserfs_fetch_disk_bitmap :: "rfs \<Rightarrow> string res" where
  "myreiserfs_fetch_disk_bitmap fs =
     (let bit_size = rs_block_count (s_rs fs); byte_size = (bit_size + 7) div 8; bs = s_blocksize fs
      in bind_res (copy_bitmaps bs byte_size (ap_bitmap fs) []) (\<lambda>m.
         bind_res (clear_bits [bit_size..<8 * byte_size] (m @ replicate (byte_size - length m) NUL)) (\<lambda>m.
           if bit_size mod (bs * 8) \<noteq> 0
           then bind_res (if ap_bitmap fs = [] then Inl OutOfBounds
                          else test_bits (last (ap_bitmap fs)) [bit_size mod (bs * 8)..<bs * 8]) (\<lambda>_. Inr m)
           else Inr m)))"

section \<open>The sectors\<close>

text \<open>\<open>reiserfs_bitmap_test_bit\<close> stops the program (status 134) for a bit behind the end.\<close>

definition reiserfs_bitmap_test_bit :: "nat \<Rightarrow> string \<Rightarrow> nat \<Rightarrow> bool res" where
  "reiserfs_bitmap_test_bit bit_size bm i = (if bit_size \<le> i then Inl (Exit 134) else bit_at bm i)"

fun rfs_mark :: "nat \<Rightarrow> string \<Rightarrow> nat \<Rightarrow> nat list \<Rightarrow> string \<times> nat \<Rightarrow> (string \<times> nat) res" where
  "rfs_mark bit_size bm off [] st = Inr st"
| "rfs_mark bit_size bm off (i # is) st =
     (case st of (p, used) \<Rightarrow>
        bind_res (reiserfs_bitmap_test_bit bit_size bm (i div 8)) (\<lambda>b.
        bind_res (if b then bind_res (setbit p (i + off)) (\<lambda>p. Inr (p, used + 1)) else Inr (p, used)) (\<lambda>st.
          rfs_mark bit_size bm off is st)))"

text \<open>
  \<open>blocks\<close> and \<open>offset\<close> are \<open>unsigned long\<close>; \<open>off\<close> is an \<open>int\<close> that cannot be negative. In the first
  line of numbers only the low half of the sum is printed.
\<close>

definition rfs_sectors :: "u32 \<Rightarrow> nat \<Rightarrow> string \<Rightarrow> u32 \<Rightarrow> u32 \<Rightarrow> (params \<times> string \<times> string) res" where
  "rfs_sectors lvm_sect bit_size bm blocks ofs =
     (let nb = blocks * 8; off = unat (ofs div 512);
          lg = (unat nb + off + 7) div 8
      in bind_res (setbits (replicate lg NUL) [0..<off]) (\<lambda>p.
         bind_res (rfs_mark bit_size bm off [0..<unat nb] (p, 0)) (\<lambda>(p, used).
           if nb \<noteq> lvm_sect \<and> lvm_sect \<noteq> 0 then Inl (Exit 1)
           else Inr (\<lparr>bitmap = p, nb_sect = of_nat (unat nb + off)\<rparr>, show_nat ((unat nb + off) mod 2 ^ 32), show_nat ((used + off) mod 2 ^ 32)))))"

definition image_lvmreiserfs :: "('z, 'i) save_env \<Rightarrow> lvm_stack \<Rightarrow> device option \<Rightarrow> string list \<Rightarrow> saved run" where
  "image_lvmreiserfs env st dev argv =
     (if \<not> usage_ok argv then Some (Inl (Exit 1))
      else bind_run (lvm_check st dev 0) (\<lambda>(ofs, lvm_sect).
           bind_run (Some (myreiserfs_open dev (ucast ofs))) (\<lambda>fs.
           if s_blocksize fs \<noteq> 4096 then Some (Inl (Exit 1))
           else bind_run (Some (myreiserfs_fetch_disk_bitmap fs)) (\<lambda>bm.
                bind_run (Some (rfs_sectors lvm_sect (rs_block_count (s_rs fs)) bm (of_nat (rs_block_count (s_rs fs))) (ucast ofs))) (\<lambda>(p, info1, info2).
                  if query_only argv then Some (Inl (Exit 0))
                  else save_image env (case dev of None \<Rightarrow> [] | Some d \<Rightarrow> dev_data d) argv p info1 info2 ''RFS3'')))))"

section \<open>Reading the bitmap\<close>

text \<open>Where block \<open>i\<close> of the bitmap is, for the two formats, and what it holds (\<open>k\<close>: blocks of LVM).\<close>

definition bmap_loc :: "nat \<Rightarrow> nat \<Rightarrow> nat" where
  "bmap_loc sb i = (if sb = 16 then (if i = 0 then 17 else i * 32768) else 3 + i)"

definition disk_bitmap :: "device \<Rightarrow> nat \<Rightarrow> nat \<Rightarrow> nat \<Rightarrow> string" where
  "disk_bitmap d k sb i = take 4096 (drop (4096 * (k + bmap_loc sb i)) (dev_data d))"

definition block_used :: "device \<Rightarrow> nat \<Rightarrow> nat \<Rightarrow> nat \<Rightarrow> bool" where
  "block_used d k sb b \<longleftrightarrow> bits_of (disk_bitmap d k sb (b div 32768)) ! (b mod 32768)"

lemma sdivw_small: "n < 2 ^ 31 \<Longrightarrow> sdivw (of_nat n) 4096 = of_nat (n div 4096)"
  unfolding sdivw_def sint_of_nat_small Let_def
  by (simp only: of_nat_less_0_iff if_False zdiv_int [of n 4096, simplified, symmetric] of_int_of_nat_eq)

lemma test_bits_ok: "\<forall>i \<in> set is. i < 8 * length bm \<Longrightarrow> \<exists>b. test_bits bm is = Inr b"
  by (induction "is") (auto simp: bit_at_bits)

lemma bitmap_block_eq:
  assumes "sdivw ofs 4096 = of_nat k" "k + loc < 2 ^ 32" "4096 * (k + loc) + 4096 \<le> length (dev_data d)"
  shows "bitmap_block d ofs (of_nat loc) 4096 = take 4096 (drop (4096 * (k + loc)) (dev_data d))"
proof -
  have "(of_nat loc :: u32) + of_nat k = of_nat (k + loc)" by simp
  moreover have "unat (of_nat (k + loc) :: u32) = k + loc" by (rule unat_of_nat_small [OF assms(2)])
  ultimately have "unat ((of_nat loc :: u32) + of_nat k) = k + loc" by (simp only:)
  then show ?thesis using assms(3) by (simp add: bitmap_block_def assms(1) bread_def)
qed

lemma read_bitmap_loop_ok:
  assumes k: "sdivw ofs 4096 = of_nat k" and sb: "b_blocknr fs = of_nat sb" "sb \<in> {16, 2}" and bs: "s_blocksize fs = 4096"
    and fit: "\<And>j. j < m \<Longrightarrow> k + bmap_loc sb j < 2 ^ 32 \<and> 4096 * (k + bmap_loc sb j) + 4096 \<le> length (dev_data d)"
    and old: "sb = 2 \<Longrightarrow> 3 + m \<le> 32768" and js: "rs_journal_start (s_rs fs) + rs_journal_size (s_rs fs) + 1 \<le> 32768"
  shows "i + n = m \<Longrightarrow> ap_bitmap fs = map (disk_bitmap d k sb) [0..<i] \<Longrightarrow>
     read_bitmap_loop d ofs i n (of_nat (bmap_loc sb i)) fs = Inr (fs\<lparr>ap_bitmap := map (disk_bitmap d k sb) [0..<m]\<rparr>)"
  using sb(1) bs js
proof (induction n arbitrary: i fs)
  case 0
  then show ?case by simp
next
  case (Suc n)
  note fs = Suc.prems(3-5)
  define g where "g = fs\<lparr>ap_bitmap := ap_bitmap fs @ [disk_bitmap d k sb i]\<rparr>"
  have im: "i < m" using Suc.prems(1) by simp
  note f = fit [OF im]
  have bm: "bitmap_block d ofs (of_nat (bmap_loc sb i)) (s_blocksize fs) = disk_bitmap d k sb i"
    unfolding fs(2) disk_bitmap_def using f by (intro bitmap_block_eq [OF k]) auto
  have len: "length (disk_bitmap d k sb j) = 4096" if "j < m" for j using fit [OF that] by (auto simp: disk_bitmap_def)
  have g: "ap_bitmap g = map (disk_bitmap d k sb) [0..<i + 1]" using Suc.prems(2) by (simp add: g_def)
  have nr: "b_blocknr fs = 16 \<longleftrightarrow> sb = 16" using fs(1) sb(2) by auto
  have u: "unat (of_nat (bmap_loc sb i) :: u32) = bmap_loc sb i" using f by (intro unat_of_nat_small) simp
  have t1: "\<exists>b. (if sb = 16 then bit_at (disk_bitmap d k sb i) (bmap_loc sb i mod 32768) else bit_at (ap_bitmap g ! 0) (bmap_loc sb i)) = Inr b"
  proof (cases "sb = 16")
    case True
    then show ?thesis using len [OF im] bit_at_bits [of "bmap_loc 16 i mod 32768" "disk_bitmap d k 16 i"] by simp
  next
    case False
    then have "bmap_loc sb i < 8 * length (disk_bitmap d k sb 0)" using old sb(2) im len [of 0] by (auto simp: bmap_loc_def)
    moreover have "ap_bitmap g ! 0 = disk_bitmap d k sb 0" unfolding g by (cases i) (auto simp: nth_append)
    ultimately show ?thesis using False by (simp add: bit_at_bits)
  qed
  have t2: "\<exists>b. check_first_bitmap (s_rs fs) (disk_bitmap d k sb i) = Inr b"
  proof -
    have eq: "(of_nat (rs_journal_start (s_rs fs)) + of_nat (rs_journal_size (s_rs fs)) + 1 :: u32) =
        of_nat (rs_journal_start (s_rs fs) + rs_journal_size (s_rs fs) + 1)" by simp
    have "unat (of_nat (rs_journal_start (s_rs fs)) + of_nat (rs_journal_size (s_rs fs)) + 1 :: u32) \<le> 32768"
      unfolding eq using fs(3) by (subst unat_of_nat_small) auto
    then show ?thesis unfolding check_first_bitmap_def using len [OF im] by (intro test_bits_ok) auto
  qed
  have nxt: "(if b_blocknr fs = 16 then of_nat ((i + 1) * s_blocksize fs * 8) else of_nat (bmap_loc sb i) + 1 :: u32) = of_nat (bmap_loc sb (i + 1))"
    using sb(2) by (auto simp: nr fs(2) bmap_loc_def)
  have "read_bitmap_loop d ofs i (Suc n) (of_nat (bmap_loc sb i)) fs = read_bitmap_loop d ofs (i + 1) n (of_nat (bmap_loc sb (i + 1))) g"
    using t1 t2 nxt u unfolding read_bitmap_loop.simps Let_def bm g_def [symmetric]
    by (auto simp: g_def nr fs(2))
  also have "\<dots> = Inr (g\<lparr>ap_bitmap := map (disk_bitmap d k sb) [0..<m]\<rparr>)"
    using Suc.IH [OF _ g] Suc.prems(1) fs by (simp add: g_def)
  finally show ?case by (simp add: g_def)
qed

section \<open>The joined bitmap\<close>

lemma copy_bitmaps_ok:
  "\<forall>b \<in> set bms. length b = bs \<Longrightarrow> bs dvd length acc \<Longrightarrow> sz \<le> length acc + bs * length bms \<Longrightarrow>
     (bms \<noteq> [] \<Longrightarrow> length acc + bs * (length bms - 1) < sz) \<Longrightarrow> length acc \<le> sz \<Longrightarrow>
     copy_bitmaps bs sz bms acc = Inr (acc @ take (sz - length acc) (concat bms))"
proof (induction bms arbitrary: acc)
  case Nil
  then show ?case by simp
next
  case (Cons b bms)
  have b: "length b = bs" using Cons.prems(1) by simp
  show ?case
  proof (cases "bms = []")
    case True
    have r: "length acc < sz" "sz \<le> length acc + bs" using Cons.prems(3,4) True by simp_all
    obtain q where q: "length acc = bs * q" using Cons.prems(2) by blast
    have "sz mod bs = (sz - length acc) mod bs"
      using q r(1) by (metis add_diff_inverse_nat mod_mult_self4 nat_less_le not_less mult.commute)
    then have "(if sz mod bs \<noteq> 0 then sz mod bs else bs) = sz - length acc"
      using r by (cases "sz - length acc = bs") auto
    then show ?thesis using True r b by (simp add: Let_def)
  next
    case False
    have le: "length acc + bs \<le> sz" using Cons.prems(4) False by (cases bms) auto
    have "copy_bitmaps bs sz bms (acc @ b) = Inr ((acc @ b) @ take (sz - length (acc @ b)) (concat bms))"
    proof (rule Cons.IH)
      obtain c cs where c: "bms = c # cs" using False by (cases bms) auto
      show "length (acc @ b) + bs * (length bms - 1) < sz" using Cons.prems(4) b c by simp
    qed (use Cons.prems b le in auto)
    then show ?thesis using False le b by (simp add: Let_def)
  qed
qed

lemma clear_bits_ok:
  "\<forall>i \<in> set is. i < 8 * length p \<Longrightarrow>
     \<exists>q. clear_bits is p = Inr q \<and> length q = length p \<and> (\<forall>i < 8 * length p. bits_of q ! i \<longleftrightarrow> bits_of p ! i \<and> i \<notin> set is)"
proof (induction "is" arbitrary: p)
  case (Cons i "is")
  obtain q where q: "clear_bit i p = Inr q" "length q = length p" "bits_of q = (bits_of p)[i := False]"
    using clear_bit_ok [of i p] Cons.prems by auto
  obtain r where r: "clear_bits is q = Inr r" "length r = length q" "\<forall>j < 8 * length q. bits_of r ! j \<longleftrightarrow> bits_of q ! j \<and> j \<notin> set is"
    using Cons.IH [of q] Cons.prems q(2) by auto
  have "bits_of q ! j \<longleftrightarrow> bits_of p ! j \<and> j \<noteq> i" if "j < 8 * length p" for j
    using q(3) that Cons.prems by (simp add: nth_list_update)
  with r q show ?case by auto
qed simp

lemma concat_blocks_nth:
  "\<forall>b \<in> set bms. length b = 4096 \<Longrightarrow> j < 32768 * length bms \<Longrightarrow> bits_of (concat bms) ! j = bits_of (bms ! (j div 32768)) ! (j mod 32768)"
proof (induction bms arbitrary: j)
  case (Cons b bms)
  have b: "length b = 4096" using Cons.prems(1) by simp
  show ?case
  proof (cases "j < 32768")
    case True
    then show ?thesis using b by (simp add: nth_append)
  next
    case False
    have "j div 32768 = Suc ((j - 32768) div 32768)" "j mod 32768 = (j - 32768) mod 32768"
      using False by (simp_all add: le_div_geq le_mod_geq)
    then show ?thesis using False b Cons.IH [of "j - 32768"] Cons.prems by (simp add: nth_append)
  qed
qed simp

lemma bits_of_take: "bits_of (take n p) = take (8 * n) (bits_of p)"
proof (induction n arbitrary: p)
  case (Suc n)
  then show ?case by (cases p) auto
qed simp

lemma fetch_ok:
  assumes bs: "s_blocksize fs = 4096" and bm: "ap_bitmap fs = map f [0..<n]" "\<And>i. i < n \<Longrightarrow> length (f i) = 4096"
    and c: "rs_block_count (s_rs fs) = c" "0 < c" "n = (c + 32767) div 32768"
  shows "\<exists>m. myreiserfs_fetch_disk_bitmap fs = Inr m \<and> length m = (c + 7) div 8 \<and>
    (\<forall>j < c. bits_of m ! j = bits_of (f (j div 32768)) ! (j mod 32768))"
proof -
  define sz where "sz = (c + 7) div 8"
  have n: "32768 * (n - 1) < c" "c \<le> 32768 * n" "0 < n" using c(2,3) by auto
  have l: "\<forall>b \<in> set (map f [0..<n]). length b = 4096" using bm(2) by auto
  have lc: "length (concat (map f [0..<n])) = 4096 * n"
    using bm(2) by (induction n) auto
  have "4096 * (n - 1) < sz" "sz \<le> 4096 * n" using n(1,2) by (auto simp: sz_def)
  then have cp: "copy_bitmaps 4096 sz (map f [0..<n]) [] = Inr (take sz (concat (map f [0..<n])))"
    using copy_bitmaps_ok [OF l, of "[]" sz] by simp
  define m where "m = take sz (concat (map f [0..<n]))"
  have lm: "length m = sz" using lc \<open>sz \<le> 4096 * n\<close> by (simp add: m_def)
  have c8: "c \<le> 8 * sz" by (simp add: sz_def)
  obtain q where q: "clear_bits [c..<8 * sz] m = Inr q" "length q = length m" "\<forall>i < 8 * sz. bits_of q ! i \<longleftrightarrow> bits_of m ! i \<and> i \<notin> set [c..<8 * sz]"
    using clear_bits_ok [of "[c..<8 * sz]" m] lm by auto
  have bits: "bits_of q ! j = bits_of (f (j div 32768)) ! (j mod 32768)" if "j < c" for j
  proof -
    have j: "j < 8 * sz" "j < 32768 * n" using that c8 n(2) by simp_all
    have "bits_of q ! j = bits_of m ! j" using q(3) j(1) that by simp
    also have "\<dots> = bits_of (concat (map f [0..<n])) ! j" using j(1) by (simp add: m_def bits_of_take)
    also have "\<dots> = bits_of (map f [0..<n] ! (j div 32768)) ! (j mod 32768)" using concat_blocks_nth [OF l, of j] j(2) by simp
    finally show ?thesis using j(2) by (simp add: div_less_iff_less_mult mult.commute)
  qed
  have ne: "map f [0..<n] \<noteq> []" "last (map f [0..<n]) = f (n - 1)" using n(3) by (auto simp: last_map)
  have "\<exists>b. test_bits (last (map f [0..<n])) [c mod (4096 * 8)..<4096 * 8] = Inr b"
    using bm(2) [of "n - 1"] n(3) ne(2) by (intro test_bits_ok) auto
  then have "myreiserfs_fetch_disk_bitmap fs = Inr q"
    unfolding myreiserfs_fetch_disk_bitmap_def Let_def bs bm(1) c(1) sz_def [symmetric] cp
    using ne(1) q(1) lm by (auto simp: m_def [symmetric])
  then show ?thesis using q(2) lm bits by (auto simp: sz_def)
qed

section \<open>The sectors that are marked\<close>

lemma rfs_mark_ok:
  "\<forall>i \<in> set is. i div 8 < c \<and> i + off < 8 * length p \<Longrightarrow> c \<le> 8 * length bm \<Longrightarrow>
     \<exists>q u. rfs_mark c bm off is (p, used) = Inr (q, u) \<and> bits_added p (\<lambda>j. \<exists>i \<in> set is. j = i + off \<and> bits_of bm ! (i div 8)) q"
proof (induction "is" arbitrary: p used)
  case Nil
  then show ?case by (simp add: bits_added_def)
next
  case (Cons i "is")
  have t: "reiserfs_bitmap_test_bit c bm (i div 8) = Inr (bits_of bm ! (i div 8))"
    using Cons.prems by (auto simp: reiserfs_bitmap_test_bit_def bit_at_bits)
  obtain q where q: "setbit p (i + off) = Inr q" "length q = length p" "bits_of q = (bits_of p)[i + off := True]"
    using setbit_ok [of "i + off" p] Cons.prems(1) by auto
  define p' u' where "p' = (if bits_of bm ! (i div 8) then q else p)" and "u' = (if bits_of bm ! (i div 8) then used + 1 else used)"
  have p': "length p' = length p" "bits_of p' ! j \<longleftrightarrow> bits_of p ! j \<or> j = i + off \<and> bits_of bm ! (i div 8)" if "j < 8 * length p" for j
    using q that Cons.prems(1) by (auto simp: p'_def nth_list_update)
  have len: "length p' = length p" using q(2) by (simp add: p'_def)
  obtain r u where r: "rfs_mark c bm off is (p', u') = Inr (r, u)" "bits_added p' (\<lambda>j. \<exists>i \<in> set is. j = i + off \<and> bits_of bm ! (i div 8)) r"
    using Cons.IH [of p' u'] Cons.prems len by auto
  have "bits_added p (\<lambda>j. \<exists>i \<in> set (i # is). j = i + off \<and> bits_of bm ! (i div 8)) r"
    using r(2) p'(2) len by (auto simp: bits_added_def)
  moreover have "rfs_mark c bm off (i # is) (p, used) = rfs_mark c bm off is (p', u')"
    using t q(1) by (simp add: p'_def u'_def)
  ultimately show ?case using r(1) by (simp only:) blast
qed

definition rfs_sector_used :: "nat \<Rightarrow> nat \<Rightarrow> (nat \<Rightarrow> bool) \<Rightarrow> nat \<Rightarrow> bool" where
  "rfs_sector_used off c used i \<longleftrightarrow> i < off \<or> off \<le> i \<and> (i - off) div 8 < c \<and> used ((i - off) div 8)"

lemma rfs_sectors_ok:
  assumes c: "8 * c + off < 2 ^ 31" "c \<le> 8 * length bm" and w: "unat (blocks :: u32) = c" "unat (ofs div 512) = off"
    and sect: "lvm_sect = 0 \<or> lvm_sect = blocks * 8" and used: "\<And>j. j < c \<Longrightarrow> bits_of bm ! j = used j"
  shows "\<exists>p i1 i2. rfs_sectors lvm_sect c bm blocks ofs = Inr (p, i1, i2) \<and> marks p (rfs_sector_used off c used) \<and> 8 * length (bitmap p) \<le> 8 * c + off + 7"
proof -
  have nb: "unat (blocks * 8) = 8 * c"
  proof -
    have "blocks * 8 = of_nat (8 * c)" using w(1) by auto
    moreover have "unat (of_nat (8 * c) :: u32) = 8 * c" using c(1) by (intro unat_of_nat_small) simp
    ultimately show ?thesis by (simp only:)
  qed
  define lg where "lg = (8 * c + off + 7) div 8"
  let ?z = "replicate lg NUL"
  have room: "8 * c + off \<le> 8 * lg" by (simp add: lg_def)
  obtain p where p: "setbits ?z [0..<off] = Inr p" "bits_added ?z (\<lambda>i. i \<in> set [0..<off]) p"
    using setbits_ok [of "[0..<off]" ?z] room by auto
  have lp: "length p = lg" using p(2) by (simp add: bits_added_def)
  have range: "\<forall>i \<in> set [0..<8 * c]. i div 8 < c \<and> i + off < 8 * length p"
    using room lp by (auto simp: div_less_iff_less_mult)
  obtain q u where q: "rfs_mark c bm off [0..<8 * c] (p, 0) = Inr (q, u)"
      "bits_added p (\<lambda>j. \<exists>i \<in> set [0..<8 * c]. j = i + off \<and> bits_of bm ! (i div 8)) q"
    using rfs_mark_ok [OF range c(2), of 0] by blast
  have lq: "length q = lg" using q(2) lp by (simp add: bits_added_def)
  have "bits_of q ! i \<longleftrightarrow> rfs_sector_used off c used i" if "i < 8 * lg" for i
  proof -
    have "bits_of q ! i \<longleftrightarrow> i < off \<or> (\<exists>j < 8 * c. i = j + off \<and> bits_of bm ! (j div 8))"
      using p(2) q(2) that lp by (auto simp: bits_added_def bits_of_zeros)
    also have "\<dots> \<longleftrightarrow> rfs_sector_used off c used i"
      using used by (auto simp: rfs_sector_used_def le_iff_add)
    finally show ?thesis .
  qed
  moreover have "i < 8 * lg" if "rfs_sector_used off c used i" for i
    using that room by (auto simp: rfs_sector_used_def)
  ultimately have "marks \<lparr>bitmap = q, nb_sect = of_nat (8 * c + off)\<rparr> (rfs_sector_used off c used)" by (auto simp: marks_def lq)
  moreover have "8 * length q \<le> 8 * c + off + 7" by (simp add: lq lg_def)
  moreover have "rfs_sectors lvm_sect c bm blocks ofs =
      Inr (\<lparr>bitmap = q, nb_sect = of_nat (8 * c + off)\<rparr>, show_nat ((8 * c + off) mod 2 ^ 32), show_nat ((u + off) mod 2 ^ 32))"
    using p(1) q(1) sect unfolding rfs_sectors_def nb w(2) lg_def [symmetric] Let_def by auto
  ultimately show ?thesis by (metis params.select_convs(1))
qed

section \<open>The contract\<close>

text \<open>
  A device with a ReiserFS of \<open>c\<close> blocks of 4 KB, \<open>k\<close> blocks behind the start (LVM), with its super
  block in block \<open>sb\<close>: the number of bitmap blocks fits, the journal lies under the first of them
  and the whole file system is on the device. If LVM knows the size of the volume it is the same.
\<close>

definition rfs_layout :: "device \<Rightarrow> nat \<Rightarrow> nat \<Rightarrow> string \<Rightarrow> u32 \<Rightarrow> bool" where
  "rfs_layout d k sb rs sect \<longleftrightarrow>
     (let c = rs_block_count rs
      in rs_blocksize rs = 4096 \<and> sb \<in> {16, 2} \<and> 17 < c \<and> rs_bmap_nr rs = (c + 32767) div 32768 \<and>
         (sb = 2 \<longrightarrow> 3 + rs_bmap_nr rs \<le> 32768 \<and> 3 + rs_bmap_nr rs \<le> c) \<and> rs_journal_start rs + rs_journal_size rs + 1 \<le> 32768 \<and>
         8 * c + 8 * k < 2 ^ 31 \<and> 4096 * (k + c) \<le> length (dev_data d) \<and> (sect = 0 \<or> sect = of_nat c * 8))"

definition rfs_good :: "lvm_stack \<times> device \<Rightarrow> bool" where
  "rfs_good x \<longleftrightarrow> (case x of (st, d) \<Rightarrow>
     (case lvm_check st (Some d) 0 of
        Some (Inr (ofs, sect)) \<Rightarrow>
          unat ofs < 2 ^ 31 \<and> 4096 dvd unat ofs \<and>
          (case find_super d (ucast ofs) [16, 2] of
             None \<Rightarrow> False
           | Some (nr, rs) \<Rightarrow> rfs_layout d (unat ofs div 4096) (unat (nr - of_nat (unat ofs div 4096))) rs sect)
      | _ \<Rightarrow> False))"

text \<open>A sector is in use if it belongs to LVM, or to a block whose bit is set in the bitmap on the disk.\<close>

definition rfs_in_use :: "lvm_stack \<times> device \<Rightarrow> nat \<Rightarrow> bool" where
  "rfs_in_use x i = (case x of (st, d) \<Rightarrow>
     (case lvm_check st (Some d) 0 of
        Some (Inr (ofs, sect)) \<Rightarrow>
          (case find_super d (ucast ofs) [16, 2] of
             None \<Rightarrow> False
           | Some (nr, rs) \<Rightarrow>
               let k = unat ofs div 4096
               in rfs_sector_used (8 * k) (rs_block_count rs) (block_used d k (unat (nr - of_nat k))) i)
      | _ \<Rightarrow> False))"

lemma bmap_fits:
  assumes "rfs_layout d k sb rs sect" "j < rs_bmap_nr rs"
  shows "k + bmap_loc sb j < 2 ^ 32 \<and> 4096 * (k + bmap_loc sb j) + 4096 \<le> length (dev_data d)"
proof -
  have l: "bmap_loc sb j < rs_block_count rs"
    using assms by (auto simp: rfs_layout_def Let_def bmap_loc_def)
  have b: "8 * rs_block_count rs + 8 * k < 2 ^ 31" "4096 * (k + rs_block_count rs) \<le> length (dev_data d)"
    using assms(1) by (auto simp: rfs_layout_def Let_def)
  have "4096 * (k + bmap_loc sb j) + 4096 \<le> 4096 * (k + rs_block_count rs)" using l by simp
  then show ?thesis using l b by auto
qed

lemma find_super_nr: "find_super d ofs is = Some (nr, rs) \<Longrightarrow> \<exists>i \<in> set is. nr = i + sdivw ofs 4096"
  by (induction "is") (auto split: option.splits if_splits)

lemma rfs_open_ok:
  assumes f: "find_super d (of_nat (4096 * k)) [16, 2] = Some (nr, rs)" and l: "rfs_layout d k sb rs sect"
    and k: "4096 * k < 2 ^ 31" and nr: "nr = of_nat sb + of_nat k"
  shows "myreiserfs_open (Some d) (of_nat (4096 * k)) =
    Inr \<lparr>s_blocksize = 4096, s_rs = rs, b_blocknr = of_nat sb, ap_bitmap = map (disk_bitmap d k sb) [0..<rs_bmap_nr rs]\<rparr>"
proof -
  let ?fs = "\<lparr>s_blocksize = 4096, s_rs = rs, b_blocknr = of_nat sb, ap_bitmap = []\<rparr>"
  have l': "rs_blocksize rs = 4096" "sb \<in> {16, 2}" "sb = 2 \<Longrightarrow> 3 + rs_bmap_nr rs \<le> 32768"
      "rs_journal_start rs + rs_journal_size rs + 1 \<le> 32768"
    using l by (auto simp: rfs_layout_def Let_def)
  have sd: "sdivw (of_nat (4096 * k)) 4096 = of_nat k" using sdivw_small [OF k] by simp
  have first: "of_nat sb + 1 = (of_nat (bmap_loc sb 0) :: u32)" using l'(2) by (auto simp: bmap_loc_def)
  have "read_bitmap_loop d (of_nat (4096 * k)) 0 (rs_bmap_nr rs) (of_nat (bmap_loc sb 0)) ?fs =
      Inr (?fs\<lparr>ap_bitmap := map (disk_bitmap d k sb) [0..<rs_bmap_nr rs]\<rparr>)"
    using l' bmap_fits [OF l] by (intro read_bitmap_loop_ok [OF sd, where m = "rs_bmap_nr rs"]) auto
  then show ?thesis
    unfolding myreiserfs_open_def option.case f prod.case myreiserfs_read_bitmap_blocks_def Let_def l'(1) nr sd
    by (simp add: first)
qed

lemma rfs_unpack:
  assumes "rfs_good (st, d)"
  shows "\<exists>k sb rs sect nr ofs. lvm_check st (Some d) 0 = Some (Inr (ofs, sect)) \<and> ucast ofs = (of_nat (4096 * k) :: u32) \<and> 4096 * k < 2 ^ 31 \<and>
     find_super d (of_nat (4096 * k)) [16, 2] = Some (nr, rs) \<and> nr = of_nat sb + of_nat k \<and> rfs_layout d k sb rs sect \<and>
     rfs_in_use (st, d) = rfs_sector_used (8 * k) (rs_block_count rs) (block_used d k sb)"
proof -
  obtain ofs sect where c: "lvm_check st (Some d) 0 = Some (Inr (ofs, sect))"
    using assms by (auto simp: rfs_good_def split: option.splits sum.splits)
  obtain nr rs where f: "find_super d (ucast ofs) [16, 2] = Some (nr, rs)"
    using assms c by (auto simp: rfs_good_def split: option.splits)
  define k sb where "k = unat ofs div 4096" and "sb = unat (nr - of_nat k)"
  have g: "unat ofs < 2 ^ 31" "4096 dvd unat ofs" "rfs_layout d k sb rs sect"
    using assms c f by (auto simp: rfs_good_def k_def sb_def)
  have o: "unat ofs = 4096 * k" using g(2) by (simp add: k_def)
  then have u: "ucast ofs = (of_nat (4096 * k) :: u32)"
    by (metis of_nat_unat)
  have "rfs_in_use (st, d) = rfs_sector_used (8 * k) (rs_block_count rs) (block_used d k sb)"
    using c f by (intro ext) (simp add: rfs_in_use_def k_def sb_def Let_def)
  moreover have "nr = of_nat sb + of_nat k" by (simp add: sb_def)
  ultimately show ?thesis using c f u g(1,3) unfolding o by metis
qed

interpretation reiserfs: imager "\<lambda>env x. image_lvmreiserfs env (fst x) (Some (snd x))" rfs_good rfs_in_use
    "\<lambda>x. dev_data (snd x)" "''RFS3''"
proof
  fix x :: "lvm_stack \<times> device" and argv :: "string list" and env :: "('z, 'i) save_env"
  assume x: "rfs_good x" "usage_ok argv" "\<not> query_only argv"
  obtain st d where xd: "x = (st, d)" by (cases x)
  obtain k sb rs sect nr ofs where c: "lvm_check st (Some d) 0 = Some (Inr (ofs, sect))" and u: "ucast ofs = (of_nat (4096 * k) :: u32)" "4096 * k < 2 ^ 31"
    and f: "find_super d (of_nat (4096 * k)) [16, 2] = Some (nr, rs)" "nr = of_nat sb + of_nat k" and l: "rfs_layout d k sb rs sect"
    and use: "rfs_in_use x = rfs_sector_used (8 * k) (rs_block_count rs) (block_used d k sb)"
    using rfs_unpack [of st d] x(1) xd by blast
  let ?fs = "\<lparr>s_blocksize = 4096, s_rs = rs, b_blocknr = of_nat sb, ap_bitmap = map (disk_bitmap d k sb) [0..<rs_bmap_nr rs]\<rparr>"
  let ?c = "rs_block_count rs"
  have lc: "0 < ?c" "rs_bmap_nr rs = (?c + 32767) div 32768" "8 * ?c + 8 * k < 2 ^ 31" "sect = 0 \<or> sect = of_nat ?c * 8"
    using l by (auto simp: rfs_layout_def Let_def)
  have len: "length (disk_bitmap d k sb i) = 4096" if "i < rs_bmap_nr rs" for i
    using bmap_fits [OF l that] by (auto simp: disk_bitmap_def)
  obtain m where m: "myreiserfs_fetch_disk_bitmap ?fs = Inr m" "length m = (?c + 7) div 8" "\<forall>j < ?c. bits_of m ! j = block_used d k sb j"
    using fetch_ok [of ?fs "disk_bitmap d k sb" "rs_bmap_nr rs" ?c] len lc(1,2) by (auto simp: block_used_def)
  have uc: "unat (of_nat ?c :: u32) = ?c" using lc(3) by (intro unat_of_nat_small) simp
  have "unat (of_nat (4096 * k) :: u32) = 4096 * k" using u(2) by (intro unat_of_nat_small) simp
  then have uo: "unat ((of_nat (4096 * k) :: u32) div 512) = 8 * k" by (simp only: unat_div) simp
  have cm: "?c \<le> 8 * length m" unfolding m(2) by simp
  obtain p i1 i2 where p: "rfs_sectors sect ?c m (of_nat ?c) (of_nat (4096 * k)) = Inr (p, i1, i2)" "marks p (rfs_in_use x)" "8 * length (bitmap p) \<le> 8 * ?c + 8 * k + 7"
    using rfs_sectors_ok [OF lc(3) cm uc uo lc(4), of "block_used d k sb"] m(3) unfolding use by blast
  have "spans p (length (dev_data (snd x)))" using l by (intro spansI [OF p(3)]) (auto simp: rfs_layout_def Let_def xd)
  have "image_lvmreiserfs env (fst x) (Some (snd x)) argv = save_image env (dev_data (snd x)) argv p i1 i2 ''RFS3''"
    using x(2,3) c rfs_open_ok [OF f(1) l u(2) f(2)] m(1) p(1) unfolding image_lvmreiserfs_def xd by (simp add: u(1) del: of_nat_mult)
  with p(2) \<open>spans _ _\<close> show "\<exists>p i1 i2. image_lvmreiserfs env (fst x) (Some (snd x)) argv = save_image env (dev_data (snd x)) argv p i1 i2 ''RFS3'' \<and>
      marks p (rfs_in_use x) \<and> spans p (length (dev_data (snd x)))"
    by blast
next
  fix x :: "lvm_stack \<times> device" and i
  assume x: "rfs_good x" "rfs_in_use x i"
  obtain st d where xd: "x = (st, d)" by (cases x)
  obtain k sb rs sect where l: "rfs_layout d k sb rs sect" and use: "rfs_in_use x = rfs_sector_used (8 * k) (rs_block_count rs) (block_used d k sb)"
    using rfs_unpack [of st d] x(1) xd by blast
  have "4096 * (k + rs_block_count rs) \<le> length (dev_data d)" using l by (auto simp: rfs_layout_def Let_def)
  moreover have "i < 8 * (k + rs_block_count rs)" using x(2) unfolding use by (auto simp: rfs_sector_used_def)
  ultimately show "512 * i + 512 \<le> length (dev_data (snd x))" by (simp add: xd)
qed simp

section \<open>Properties\<close>

text \<open>
  C15 (\<open>image_lvmreiserfs\<close>): a ReiserFS of either format, alone or behind the LVM area of its device,
  is saved and restored in the LVM area and in every block that its bitmap on the disk marks as in
  use; all other bytes of the output are kept.
\<close>

theorem reiserfs_restores:
  assumes "rfs_good (st, d)" "usage_ok argv" "\<not> query_only argv" "env_ok env ''RFS3''" "unat off < 2 ^ 63"
  shows "\<exists>ui files s data' off'. image_lvmreiserfs env st (Some d) argv = Some (Inr (ui, files, s)) \<and> s_errors s = 0 \<and>
     restore_files (se_zlib env) files data off = Some (Inr (data', off')) \<and>
     volume_restored (dev_data d) (rfs_in_use (st, d)) data (unat off) data'"
  using reiserfs.main_restores [OF assms, of data] by simp

section \<open>Witness\<close>

definition sample_super :: string where
  "sample_super = le_bytes 4 18 @ replicate 40 NUL @ le_bytes 2 4096 @ replicate 6 NUL @ ''ReIsErFs'' @ replicate 10 NUL @
     le_bytes 2 1 @ replicate 4024 NUL"

definition sample_rfs :: device where
  "sample_rfs = \<lparr>dev_data = replicate 8192 NUL @ sample_super @ (CHR 0x0F # replicate 4095 NUL) @ replicate 57344 NUL, dev_blkgetsize = None\<rparr>"

lemma sample_rfs_blocks:
  "bread sample_rfs 16 4096 = Some (replicate 4096 NUL)" "bread sample_rfs 2 4096 = Some sample_super"
  by (simp_all add: bread_def sample_rfs_def sample_super_def)

lemma sample_rfs_plain: "lvm_check st (Some sample_rfs) 0 = Some (Inr (0, 0))"
proof -
  have "fread (dev_data sample_rfs) 0 1024 (st_buf st) = replicate 1024 NUL @ drop 1024 (st_buf st)"
    by (simp add: fread_def sample_rfs_def Let_def)
  then show ?thesis by (simp add: lvm_check_def lvm2_def word_at_def le_nat_zeros Let_def) (simp add: ret_run_def)
qed

lemma sample_super_fields:
  "rs_block_count sample_super = 18" "rs_journal_start sample_super = 0" "rs_journal_size sample_super = 0"
  "rs_blocksize sample_super = 4096" "rs_bmap_nr sample_super = 1" "is_reiserfs_magic_string sample_super"
  by (simp_all add: sample_super_def rs_block_count_def rs_journal_start_def rs_journal_size_def rs_blocksize_def rs_bmap_nr_def
      is_reiserfs_magic_string_def le32_at_def le16_at_def le_nat_le_bytes le_nat_zeros)

lemma sample_rfs_super: "find_super sample_rfs 0 [16, 2] = Some (2, sample_super)"
proof -
  have "sdivw 0 4096 = 0" by (simp add: sdivw_def)
  moreover have "\<not> is_reiserfs_magic_string (replicate 4096 NUL)" "\<not> is_reiser2fs_magic_string (replicate 4096 NUL)"
    by (simp_all add: is_reiserfs_magic_string_def is_reiser2fs_magic_string_def numeral_eq_Suc)
  ultimately show ?thesis by (simp add: sample_rfs_blocks sample_super_fields)
qed

lemma sample_rfs_good: "rfs_good (st, sample_rfs)"
  by (simp add: rfs_good_def sample_rfs_plain sample_rfs_super rfs_layout_def sample_super_fields Let_def del: find_super.simps)
     (simp add: sample_rfs_def sample_super_def)

theorem reiserfs_restores_witness:
  "rfs_in_use (sample_stack, sample_rfs) 31 \<and>
   (\<exists>ui files s data' off'. image_lvmreiserfs sample_save_env sample_stack (Some sample_rfs) [''image'', ''/dev/hda1'', ''P1''] = Some (Inr (ui, files, s)) \<and>
     s_errors s = 0 \<and> restore_files (se_zlib sample_save_env) files [] 0 = Some (Inr (data', off')) \<and>
     volume_restored (dev_data sample_rfs) (rfs_in_use (sample_stack, sample_rfs)) [] 0 data')"
proof -
  have "disk_bitmap sample_rfs 0 2 0 = CHR 0x0F # replicate 4095 NUL"
    by (simp add: disk_bitmap_def bmap_loc_def sample_rfs_def sample_super_def)
  then have "rfs_in_use (sample_stack, sample_rfs) 31"
    by (simp add: rfs_in_use_def sample_rfs_plain sample_rfs_super rfs_sector_used_def sample_super_fields block_used_def byte_bits_def del: find_super.simps)
  moreover have "env_ok sample_save_env ''RFS3''" by (intro sample_save_env_ok) (simp add: unmarked_def)
  ultimately show ?thesis
    using reiserfs_restores [OF sample_rfs_good, of "[''image'', ''/dev/hda1'', ''P1'']" sample_save_env 0 sample_stack "[]"]
    by (simp add: usage_ok_def query_only_def)
qed

end
