(* ===== verification/Image_Xfs.thy ===== *)
theory Image_Xfs
  imports Bitmap
begin

text \<open>
  \<^verbatim>\<open>client/revimage/image_xfs.c\<close>: saving an XFS file system. The bitmap starts with all blocks in use (a
  byte is a block of eight sectors); the blocks of the free list and of the free space tree of every
  allocation group are taken out. All numbers on the disk are big endian; the machine is little endian.

  A buffer holds the bytes that were read into it; looking behind them, where the memory was never
  written, is a fault. The position of the device is kept, because a seek that fails goes unnoticed.
\<close>

section \<open>Byte order\<close>

definition htonl :: "u32 \<Rightarrow> u32" where
  "htonl x = of_nat (le_nat (rev (le_bytes 4 (unat x))))"

definition htons :: "u16 \<Rightarrow> u16" where
  "htons x = of_nat (le_nat (rev (le_bytes 2 (unat x))))"

definition ntohll :: "u64 \<Rightarrow> u64" where
  "ntohll number =
     ucast (htonl (ucast (drop_bit 32 number AND 0xFFFFFFFF))) OR push_bit 32 (ucast (htonl (ucast (number AND 0xFFFFFFFF))))"

definition net32 :: "nat \<Rightarrow> string \<Rightarrow> u32 res" where
  "net32 p buf = (if p + 4 \<le> length buf then Inr (htonl (of_nat (le_nat (take 4 (drop p buf))))) else Inl OutOfBounds)"

definition net16 :: "nat \<Rightarrow> string \<Rightarrow> u16 res" where
  "net16 p buf = (if p + 2 \<le> length buf then Inr (htons (of_nat (le_nat (take 2 (drop p buf))))) else Inl OutOfBounds)"

definition net64 :: "nat \<Rightarrow> string \<Rightarrow> u64 res" where
  "net64 p buf = (if p + 8 \<le> length buf then Inr (ntohll (of_nat (le_nat (take 8 (drop p buf))))) else Inl OutOfBounds)"

section \<open>Reading the device\<close>

definition xfs_checkit :: "device option \<Rightarrow> unit res" where
  "xfs_checkit dev =
     (case dev of
        None \<Rightarrow> Inl (Exit 1)
      | Some d \<Rightarrow>
          let buf = take 256 (dev_data d)
          in if length buf \<noteq> 256 then Inl (Exit 1)
             else if take 4 buf = ''XFSB''
             then (if le_nat (rev (take 4 (drop 4 buf))) \<noteq> 4096 then Inl (Exit 1) else Inr ())
             else Inl (Exit 1))"

text \<open>An offset of \<open>2\<^sup>6\<^sup>3\<close> or more is negative; the seek fails and the position stays.\<close>

definition readdata :: "string \<Rightarrow> u64 \<Rightarrow> nat \<Rightarrow> nat \<Rightarrow> string \<times> nat" where
  "readdata data ofs sz pos =
     (let pos = (if 2 ^ 63 \<le> unat ofs then pos else unat ofs); bs = take sz (drop pos data)
      in (bs, pos + length bs))"

definition fs_block :: "u32 \<Rightarrow> u32 \<Rightarrow> u32 \<Rightarrow> u64" where
  "fs_block agblocks agno agbno = ucast agno * ucast agblocks + ucast agbno"

definition convertAgbToDaddr :: "u32 \<Rightarrow> u32 \<Rightarrow> u32 \<Rightarrow> u64" where
  "convertAgbToDaddr agblocks agno agbno = fs_block agblocks agno agbno * 4096"

definition convertAgToDaddr :: "u32 \<Rightarrow> u32 \<Rightarrow> u32 \<Rightarrow> u64" where
  "convertAgToDaddr agblocks agno ofs = convertAgbToDaddr agblocks agno 0 + ucast ofs * 512"

section \<open>Taking out free blocks\<close>

fun clear_blocks :: "string \<Rightarrow> u64 \<Rightarrow> nat \<Rightarrow> string res" where
  "clear_blocks bm base 0 = Inr bm"
| "clear_blocks bm base (Suc n) =
     (if unat base < length bm then clear_blocks (bm[unat base := NUL]) (base + 1) n else Inl BufOverflow)"

definition addtohist :: "u32 \<Rightarrow> string \<Rightarrow> u32 \<Rightarrow> u32 \<Rightarrow> u32 \<Rightarrow> string res" where
  "addtohist agblocks bm agno agbno len = clear_blocks bm (fs_block agblocks agno agbno) (unat len)"

text \<open>The state of the scan: the bitmap and the position of the device.\<close>

type_synonym xscan = "string \<times> nat"

definition XFS_AGFL_SIZE :: u32 where "XFS_AGFL_SIZE = 128"

partial_function (option) freelist_loop :: "u32 \<Rightarrow> string \<Rightarrow> u32 \<Rightarrow> u32 \<Rightarrow> u32 \<Rightarrow> string \<Rightarrow> string run" where
  "freelist_loop agblocks agfl agno fllast i bm =
     (case net32 (4 * unat i) agfl of
        Inl e \<Rightarrow> Some (Inl e)
      | Inr blockno \<Rightarrow>
          (case addtohist agblocks bm agno blockno 1 of
             Inl e \<Rightarrow> Some (Inl e)
           | Inr bm \<Rightarrow>
               if i = fllast then Some (Inr bm)
               else freelist_loop agblocks agfl agno fllast (if i + 1 = XFS_AGFL_SIZE then 0 else i + 1) bm))"

definition scanFreelist :: "string \<Rightarrow> u32 \<Rightarrow> string \<Rightarrow> xscan \<Rightarrow> xscan run" where
  "scanFreelist data agblocks agf st =
     (case st of (bm, pos) \<Rightarrow>
        bind_run (Some (net32 8 agf)) (\<lambda>agno.
        bind_run (Some (net32 48 agf)) (\<lambda>flcount.
          if flcount = 0 then ret_run (bm, pos)
          else case readdata data (convertAgToDaddr agblocks agno 3) 512 pos of (agfl, pos) \<Rightarrow>
               bind_run (Some (net32 40 agf)) (\<lambda>flfirst.
               bind_run (Some (net32 44 agf)) (\<lambda>fllast.
               bind_run (freelist_loop agblocks agfl agno fllast flfirst bm) (\<lambda>bm. ret_run (bm, pos)))))))"

text \<open>The records of a leaf, and the blocks below an inner block.\<close>

fun leaf_loop :: "u32 \<Rightarrow> u32 \<Rightarrow> string \<Rightarrow> nat list \<Rightarrow> string \<Rightarrow> string res" where
  "leaf_loop agblocks agno block [] bm = Inr bm"
| "leaf_loop agblocks agno block (i # is) bm =
     bind_res (net32 (16 + 8 * i) block) (\<lambda>start.
     bind_res (net32 (20 + 8 * i) block) (\<lambda>count.
     bind_res (addtohist agblocks bm agno start count) (leaf_loop agblocks agno block is)))"

fun each_res :: "('a \<Rightarrow> 's \<Rightarrow> 's res) \<Rightarrow> 'a list \<Rightarrow> 's \<Rightarrow> 's res" where
  "each_res f [] s = Inr s"
| "each_res f (x # xs) s = bind_res (f x s) (each_res f xs)"

definition mxr :: nat where "mxr = (4096 - 16) div (8 + 4)"

text \<open>\<open>scanSbtree\<close> reads the block \<open>root\<close> and calls \<open>scanfuncBno\<close> on it one level below.\<close>

fun scanfuncBno :: "string \<Rightarrow> u32 \<Rightarrow> u32 \<Rightarrow> nat \<Rightarrow> string \<Rightarrow> xscan \<Rightarrow> xscan res" where
  "scanfuncBno data agblocks agno 0 block st =
     (case st of (bm, pos) \<Rightarrow>
        bind_res (net16 6 block) (\<lambda>n.
        bind_res (leaf_loop agblocks agno block [0..<unat n] bm) (\<lambda>bm. Inr (bm, pos))))"
| "scanfuncBno data agblocks agno (Suc level) block st =
     bind_res (net16 6 block) (\<lambda>n.
       each_res (\<lambda>i st.
         bind_res (net32 (16 + mxr * 8 + 4 * i) block) (\<lambda>root.
           case st of (bm, pos) \<Rightarrow>
             case readdata data (convertAgbToDaddr agblocks agno root) 4096 pos of (buf, pos) \<Rightarrow>
               scanfuncBno data agblocks agno level buf (bm, pos))) [0..<unat n] st)"

definition scanSbtree :: "string \<Rightarrow> u32 \<Rightarrow> u32 \<Rightarrow> u32 \<Rightarrow> u32 \<Rightarrow> xscan \<Rightarrow> xscan res" where
  "scanSbtree data agblocks agno root levels st =
     (case st of (bm, pos) \<Rightarrow>
        case readdata data (convertAgbToDaddr agblocks agno root) 4096 pos of (buf, pos) \<Rightarrow>
          scanfuncBno data agblocks agno (unat (levels - 1)) buf (bm, pos))"

section \<open>The allocation groups\<close>

definition XFS_AGF_MAGIC :: u32 where "XFS_AGF_MAGIC = 0x58414746"

definition scan_group :: "string \<Rightarrow> u32 \<Rightarrow> u32 \<Rightarrow> xscan \<Rightarrow> xscan run" where
  "scan_group data agblocks i st =
     (case st of (bm, pos) \<Rightarrow>
        case readdata data (convertAgToDaddr agblocks i 1) 60 pos of (agf, pos) \<Rightarrow>
          bind_run (Some (net32 0 agf)) (\<lambda>magic.
            if magic \<noteq> XFS_AGF_MAGIC then Some (Inl (Exit 1))
            else bind_run (scanFreelist data agblocks agf (bm, pos)) (\<lambda>st.
                 bind_run (Some (net32 8 agf)) (\<lambda>agno.
                 bind_run (Some (net32 16 agf)) (\<lambda>root.
                 bind_run (Some (net32 28 agf)) (\<lambda>levels.
                   Some (scanSbtree data agblocks agno root levels st)))))))"

fun scan_groups :: "string \<Rightarrow> u32 \<Rightarrow> nat list \<Rightarrow> xscan \<Rightarrow> xscan run" where
  "scan_groups data agblocks [] st = ret_run st"
| "scan_groups data agblocks (i # is) st =
     bind_run (scan_group data agblocks (of_nat i) st) (scan_groups data agblocks is)"

text \<open>The bits of a byte are counted in two halves with a table.\<close>

definition nibble_bits :: "nat list" where
  "nibble_bits = [0, 1, 1, 2, 1, 2, 2, 3, 1, 2, 2, 3, 2, 3, 3, 4]"

definition byte_count :: "char \<Rightarrow> nat" where
  "byte_count c = nibble_bits ! (drop_bit 4 (of_char c)) + nibble_bits ! ((of_char c :: nat) AND 15)"

definition count_used :: "string \<Rightarrow> u64" where
  "count_used bm = foldl (\<lambda>used c. used + of_nat (byte_count c)) 0 bm"

text \<open>\<open>readsb\<close>: the super block has 200 bytes; the memory for the bitmap is asked for with 32 bits.\<close>

definition readsb :: "device option \<Rightarrow> (params \<times> string \<times> string) run" where
  "readsb dev =
     (case dev of
        None \<Rightarrow> Some (Inl (Exit 1))
      | Some d \<Rightarrow>
          let data = dev_data d; sb = take 200 data
          in if length sb \<noteq> 200 then Some (Inl (Exit 1))
             else bind_run (Some (net64 8 sb)) (\<lambda>blocks.
                  bind_run (Some (net64 144 sb)) (\<lambda>fblocks.
                  bind_run (Some (net32 88 sb)) (\<lambda>agcount.
                  bind_run (Some (net32 84 sb)) (\<lambda>agblocks.
                  bind_run (scan_groups data agblocks [0..<unat agcount] (replicate (unat (ucast blocks :: u32)) (CHR 0xFF), 0)) (\<lambda>(bm, pos).
                    let used = count_used bm; expected = (blocks - fblocks) * 8
                    in if used = expected \<or> expected < used
                       then ret_run (\<lparr>bitmap = bm, nb_sect = blocks * 8\<rparr>, show_nat (unat (blocks * 8)), show_nat (unat used))
                       else Some (Inl (Exit 1))))))))"

definition image_xfs :: "('z, 'i) save_env \<Rightarrow> device option \<Rightarrow> string list \<Rightarrow> saved run" where
  "image_xfs env dev argv =
     (if \<not> usage_ok argv then Some (Inl (Exit 1))
      else bind_run (Some (xfs_checkit dev)) (\<lambda>_.
           bind_run (readsb dev) (\<lambda>(p, info1, info2).
             if query_only argv then Some (Inl (Exit 0))
             else save_image env (case dev of None \<Rightarrow> [] | Some d \<Rightarrow> dev_data d) argv p info1 info2 ''XFS'')))"

section \<open>Big endian numbers\<close>

definition be_nat :: "string \<Rightarrow> nat" where
  "be_nat s = le_nat (rev s)"

lemma le_nat_append: "le_nat (a @ b) = le_nat a + 256 ^ length a * le_nat b"
  by (induction a) (auto simp: algebra_simps)

lemma htonl_bytes: "length s = 4 \<Longrightarrow> unat (htonl (of_nat (le_nat s))) = be_nat s"
proof -
  assume s: "length s = 4"
  have "unat (of_nat (le_nat s) :: u32) = le_nat s" using le_nat_less [of s] s by (intro unat_of_nat_small) simp
  then have "htonl (of_nat (le_nat s)) = of_nat (be_nat s)" using le_bytes_le_nat [of s] s by (simp add: htonl_def be_nat_def)
  moreover have "be_nat s < 2 ^ 32" using le_nat_less [of "rev s"] s by (simp add: be_nat_def)
  ultimately show ?thesis by (simp only: unat_of_nat_small)
qed

lemma htons_bytes: "length s = 2 \<Longrightarrow> unat (htons (of_nat (le_nat s))) = be_nat s"
proof -
  assume s: "length s = 2"
  have u16: "unat (of_nat n :: u16) = n" if "n < 2 ^ 16" for n using that by (simp add: unat_of_nat take_bit_eq_mod)
  have "unat (of_nat (le_nat s) :: u16) = le_nat s" using le_nat_less [of s] s by (intro u16) simp
  then have "htons (of_nat (le_nat s)) = of_nat (be_nat s)" using le_bytes_le_nat [of s] s by (simp add: htons_def be_nat_def)
  moreover have "be_nat s < 2 ^ 16" using le_nat_less [of "rev s"] s by (simp add: be_nat_def)
  ultimately show ?thesis by (simp only: u16)
qed

lemma net32_ok: "p + 4 \<le> length buf \<Longrightarrow> \<exists>w. net32 p buf = Inr w \<and> unat w = be_nat (take 4 (drop p buf))"
  by (simp add: net32_def htonl_bytes)

lemma net16_ok: "p + 2 \<le> length buf \<Longrightarrow> \<exists>w. net16 p buf = Inr w \<and> unat w = be_nat (take 2 (drop p buf))"
  by (simp add: net16_def htons_bytes)

lemma or_disjoint: "x < 2 ^ 32 \<Longrightarrow> (of_nat x OR push_bit 32 (of_nat y) :: u64) = of_nat (x + 2 ^ 32 * y)"
proof -
  assume x: "x < 2 ^ 32"
  have "bit (of_nat x :: u64) n \<Longrightarrow> n < 32" for n
  proof -
    assume "bit (of_nat x :: u64) n"
    then have "bit (take_bit 32 x) n" using x by (simp add: bit_of_nat_iff take_bit_nat_eq_self)
    then show "n < 32" by (simp add: bit_take_bit_iff)
  qed
  then have "(of_nat x :: u64) AND push_bit 32 (of_nat y) = 0"
    by (fastforce simp: bit_eq_iff bit_and_iff bit_push_bit_iff)
  from disjunctive_add_eq_or [OF this] show ?thesis by (simp add: push_bit_eq_mult mult.commute)
qed

lemma ntohll_bytes:
  assumes "length s = 8"
  shows "unat (ntohll (of_nat (le_nat s))) = be_nat s"
proof -
  define lo hi where "lo = take 4 s" and "hi = drop 4 s"
  have s: "s = lo @ hi" "length lo = 4" "length hi = 4" using assms by (simp_all add: lo_def hi_def)
  define x :: u64 where "x = of_nat (le_nat s)"
  have lt: "le_nat lo < 2 ^ 32" "le_nat hi < 2 ^ 32" "le_nat s < 2 ^ 64"
    using le_nat_less [of lo] le_nat_less [of hi] le_nat_less [of s] s assms by simp_all
  have sum: "le_nat s = le_nat lo + 2 ^ 32 * le_nat hi" unfolding s(1) le_nat_append using s(2) by simp
  have ux: "unat x = le_nat s" using lt(3) by (simp add: x_def unat_of_nat take_bit_eq_mod)
  have "unat (drop_bit 32 x AND 0xFFFFFFFF) = le_nat hi" "unat (x AND 0xFFFFFFFF) = le_nat lo"
  proof -
    have m: "(0xFFFFFFFF :: u64) = mask 32" by (simp add: mask_eq_exp_minus_1)
    show "unat (drop_bit 32 x AND 0xFFFFFFFF) = le_nat hi"
      unfolding m take_bit_eq_mask [symmetric] unsigned_take_bit_eq unsigned_drop_bit_eq ux sum
      using lt by (simp add: drop_bit_eq_div take_bit_eq_mod)
    show "unat (x AND 0xFFFFFFFF) = le_nat lo"
      unfolding m take_bit_eq_mask [symmetric] unsigned_take_bit_eq ux sum using lt by (simp add: take_bit_eq_mod)
  qed
  then have "ucast (drop_bit 32 x AND 0xFFFFFFFF) = (of_nat (le_nat hi) :: u32)" "ucast (x AND 0xFFFFFFFF) = (of_nat (le_nat lo) :: u32)"
    by (metis of_nat_unat)+
  then have "ntohll x = of_nat (unat (htonl (of_nat (le_nat hi)))) OR push_bit 32 (of_nat (unat (htonl (of_nat (le_nat lo)))))"
    by (simp add: ntohll_def)
  also have "\<dots> = of_nat (be_nat hi + 2 ^ 32 * be_nat lo)"
    unfolding htonl_bytes [OF s(2)] htonl_bytes [OF s(3)]
    using le_nat_less [of "rev hi"] s(3) by (intro or_disjoint) (simp add: be_nat_def)
  also have "be_nat hi + 2 ^ 32 * be_nat lo = be_nat s" by (simp add: be_nat_def s le_nat_append)
  finally have "ntohll x = of_nat (be_nat s)" .
  moreover have "be_nat s < 2 ^ 64" using le_nat_less [of "rev s"] assms by (simp add: be_nat_def)
  ultimately show ?thesis by (simp add: x_def unat_of_nat take_bit_eq_mod)
qed

lemma net64_ok: "p + 8 \<le> length buf \<Longrightarrow> \<exists>w. net64 p buf = Inr w \<and> unat w = be_nat (take 8 (drop p buf))"
  by (simp add: net64_def ntohll_bytes)

section \<open>Clearing extents\<close>

text \<open>Exactly the blocks in \<open>F\<close> are taken out.\<close>

definition blocks_cleared :: "string \<Rightarrow> (nat \<Rightarrow> bool) \<Rightarrow> string \<Rightarrow> bool" where
  "blocks_cleared bm F bm' \<longleftrightarrow> length bm' = length bm \<and> (\<forall>b < length bm. bm' ! b = (if F b then NUL else bm ! b))"

lemma blocks_cleared_refl: "(\<And>b. \<not> F b) \<Longrightarrow> blocks_cleared bm F bm"
  by (simp add: blocks_cleared_def)

lemma blocks_cleared_trans: "blocks_cleared a F b \<Longrightarrow> blocks_cleared b G c \<Longrightarrow> blocks_cleared a (\<lambda>x. F x \<or> G x) c"
  by (auto simp: blocks_cleared_def)

lemma blocks_cleared_cong: "blocks_cleared a F b \<Longrightarrow> (\<And>x. F x = G x) \<Longrightarrow> blocks_cleared a G b"
  by (simp add: blocks_cleared_def)

lemma clear_blocks_ok:
  "m + n \<le> length bm \<Longrightarrow> length bm < 2 ^ 32 \<Longrightarrow> \<exists>bm'. clear_blocks bm (of_nat m) n = Inr bm' \<and> blocks_cleared bm (\<lambda>b. m \<le> b \<and> b < m + n) bm'"
proof (induction n arbitrary: m bm)
  case 0
  then show ?case by (simp add: blocks_cleared_refl)
next
  case (Suc n)
  have u: "unat (of_nat m :: u64) = m" using Suc.prems unat_add_of_nat64 [of 0 m] by simp
  let ?b = "bm[m := NUL]"
  obtain bm' where b: "clear_blocks ?b (of_nat (m + 1)) n = Inr bm'" "blocks_cleared ?b (\<lambda>b. m + 1 \<le> b \<and> b < m + 1 + n) bm'"
    using Suc.IH [of "m + 1" ?b] Suc.prems by auto
  have "blocks_cleared bm (\<lambda>b. b = m) ?b" using Suc.prems(1) by (auto simp: blocks_cleared_def nth_list_update)
  then have "blocks_cleared bm (\<lambda>b. m \<le> b \<and> b < m + Suc n) bm'"
    by (rule blocks_cleared_cong [OF blocks_cleared_trans [OF _ b(2)]]) auto
  with b(1) u Suc.prems(1) show ?case by (simp add: add.commute)
qed

lemma ucast_of_nat32: "n < 2 ^ 32 \<Longrightarrow> (ucast (of_nat n :: u32) :: u64) = of_nat n"
  using unat_of_nat_small [of n] by (metis of_nat_unat)

lemma fs_block_of_nat:
  "ab < 2 ^ 32 \<Longrightarrow> ag < 2 ^ 32 \<Longrightarrow> r < 2 ^ 32 \<Longrightarrow> fs_block (of_nat ab) (of_nat ag) (of_nat r) = of_nat (ag * ab + r)"
  by (simp add: fs_block_def ucast_of_nat32)

lemma addtohist_ok:
  assumes "ab < 2 ^ 32" "ag < 2 ^ 32" "ag * ab + r + n \<le> length bm" "length bm < 2 ^ 32"
  shows "\<exists>bm'. addtohist (of_nat ab) bm (of_nat ag) (of_nat r) (of_nat n) = Inr bm' \<and>
     blocks_cleared bm (\<lambda>b. ag * ab + r \<le> b \<and> b < ag * ab + r + n) bm'"
proof -
  have "r < 2 ^ 32" "unat (of_nat n :: u32) = n" using assms by (auto intro!: unat_of_nat_small)
  with assms show ?thesis
    using clear_blocks_ok [of "ag * ab + r" n bm] by (simp add: addtohist_def fs_block_of_nat del: of_nat_add of_nat_mult)
qed

lemma each_res_cleared:
  assumes "\<And>i bm pos. i \<in> set is \<Longrightarrow> length bm = L \<Longrightarrow> \<exists>bm' pos'. f i (bm, pos) = Inr (bm', pos') \<and> blocks_cleared bm (F i) bm'"
    and "length bm = L"
  shows "\<exists>bm' pos'. each_res f is (bm, pos) = Inr (bm', pos') \<and> blocks_cleared bm (\<lambda>b. \<exists>i \<in> set is. F i b) bm'"
  using assms
proof (induction "is" arbitrary: bm pos)
  case (Cons i "is")
  obtain bm1 pos1 where 1: "f i (bm, pos) = Inr (bm1, pos1)" "blocks_cleared bm (F i) bm1"
    using Cons.prems(1) [of i bm pos] Cons.prems(2) by auto
  have "length bm1 = L" using 1(2) Cons.prems(2) by (simp add: blocks_cleared_def)
  then obtain bm2 pos2 where 2: "each_res f is (bm1, pos1) = Inr (bm2, pos2)" "blocks_cleared bm1 (\<lambda>b. \<exists>i \<in> set is. F i b) bm2"
    using Cons.IH [of bm1 pos1] Cons.prems(1) by auto
  have "blocks_cleared bm (\<lambda>b. \<exists>i \<in> set (i # is). F i b) bm2"
    by (rule blocks_cleared_cong [OF blocks_cleared_trans [OF 1(2) 2(2)]]) auto
  with 1(1) 2(1) show ?case by simp
qed (simp add: blocks_cleared_refl)

section \<open>The free space tree\<close>

definition be32_at :: "nat \<Rightarrow> string \<Rightarrow> nat" where
  "be32_at p b = be_nat (take 4 (drop p b))"

definition be16_at :: "nat \<Rightarrow> string \<Rightarrow> nat" where
  "be16_at p b = be_nat (take 2 (drop p b))"

definition be64_at :: "nat \<Rightarrow> string \<Rightarrow> nat" where
  "be64_at p b = be_nat (take 8 (drop p b))"

lemma be_nat_less: "be_nat s < 256 ^ length s"
  using le_nat_less [of "rev s"] by (simp add: be_nat_def)

lemma be32_at_less: "be32_at p b < 2 ^ 32"
proof -
  have "be32_at p b < 256 ^ length (take 4 (drop p b))" unfolding be32_at_def by (rule be_nat_less)
  also have "\<dots> \<le> 256 ^ 4" by (rule power_increasing) simp_all
  finally show ?thesis by simp
qed

lemma of_unat_eq: "unat w = n \<Longrightarrow> w = of_nat n"
  by auto

lemma net32_at: "p + 4 \<le> length b \<Longrightarrow> net32 p b = Inr (of_nat (be32_at p b))"
  using net32_ok [of p b] by (auto simp: be32_at_def intro: of_unat_eq)

lemma net64_at: "p + 8 \<le> length b \<Longrightarrow> net64 p b = Inr (of_nat (be64_at p b))"
  using net64_ok [of p b] by (auto simp: be64_at_def intro: of_unat_eq)

lemma net16_at: "p + 2 \<le> length b \<Longrightarrow> \<exists>w. net16 p b = Inr w \<and> unat w = be16_at p b"
  using net16_ok [of p b] by (simp add: be16_at_def)

text \<open>
  The tree that indexes the free extents of a group by block number: a leaf has extents (start and
  length, in blocks of the group), an inner block has the blocks below it.
\<close>

datatype free_tree = Leaf "(nat \<times> nat) list" | Node "(nat \<times> free_tree) list"

fun tree_free :: "free_tree \<Rightarrow> nat \<Rightarrow> bool" where
  "tree_free (Leaf rs) b \<longleftrightarrow> (\<exists>(s, n) \<in> set rs. s \<le> b \<and> b < s + n)"
| "tree_free (Node ts) b \<longleftrightarrow> (\<exists>(r, t) \<in> set ts. tree_free t b)"

text \<open>Block \<open>r\<close> of the group that starts at block \<open>base\<close>, and a tree that is stored in a group.\<close>

definition group_block :: "string \<Rightarrow> nat \<Rightarrow> nat \<Rightarrow> string" where
  "group_block data base r = take 4096 (drop (4096 * (base + r)) data)"

fun tree_at :: "string \<Rightarrow> nat \<Rightarrow> nat \<Rightarrow> nat \<Rightarrow> free_tree \<Rightarrow> nat \<Rightarrow> bool" where
  "tree_at data base lim 0 (Leaf rs) r \<longleftrightarrow>
     (let b = group_block data base r
      in length b = 4096 \<and> be16_at 6 b = length rs \<and> length rs \<le> 510 \<and>
         (\<forall>i < length rs. be32_at (16 + 8 * i) b = fst (rs ! i) \<and> be32_at (20 + 8 * i) b = snd (rs ! i) \<and>
            base + fst (rs ! i) + snd (rs ! i) \<le> lim))"
| "tree_at data base lim (Suc l) (Node ts) r \<longleftrightarrow>
     (let b = group_block data base r
      in length b = 4096 \<and> be16_at 6 b = length ts \<and> length ts \<le> 340 \<and>
         (\<forall>i < length ts. be32_at (2736 + 4 * i) b = fst (ts ! i) \<and> tree_at data base lim l (snd (ts ! i)) (fst (ts ! i))))"
| "tree_at data base lim l t r \<longleftrightarrow> False"

lemma tree_at_block: "tree_at data base lim l t r \<Longrightarrow> length (group_block data base r) = 4096"
  by (cases "(data, base, lim, l, t, r)" rule: tree_at.cases) (auto simp: Let_def)

lemma read_block:
  assumes "length (group_block data (ag * ab) r) = 4096" "length data < 2 ^ 63" "ab < 2 ^ 32" "ag < 2 ^ 32" "r < 2 ^ 32"
  shows "\<exists>pos'. readdata data (convertAgbToDaddr (of_nat ab) (of_nat ag) (of_nat r)) 4096 pos = (group_block data (ag * ab) r, pos')"
proof -
  have "4096 * (ag * ab + r) < 2 ^ 63" using assms(1,2) by (simp add: group_block_def)
  moreover have "convertAgbToDaddr (of_nat ab) (of_nat ag) (of_nat r) = of_nat (4096 * (ag * ab + r))"
    using assms(3-5) by (simp add: convertAgbToDaddr_def fs_block_of_nat)
  ultimately have "unat (convertAgbToDaddr (of_nat ab) (of_nat ag) (of_nat r)) = 4096 * (ag * ab + r)"
    using unat_add_of_nat64 [of 0 "4096 * (ag * ab + r)"] by simp
  then show ?thesis using \<open>4096 * (ag * ab + r) < 2 ^ 63\<close> by (simp add: readdata_def group_block_def Let_def)
qed

lemma leaf_loop_ok:
  assumes "ab < 2 ^ 32" "ag < 2 ^ 32" "L < 2 ^ 32" "length bm = L"
    "\<And>i. i \<in> set is \<Longrightarrow> 24 + 8 * i \<le> length block \<and> ag * ab + be32_at (16 + 8 * i) block + be32_at (20 + 8 * i) block \<le> L"
  shows "\<exists>bm'. leaf_loop (of_nat ab) (of_nat ag) block is bm = Inr bm' \<and>
     blocks_cleared bm (\<lambda>b. \<exists>i \<in> set is. ag * ab + be32_at (16 + 8 * i) block \<le> b \<and>
        b < ag * ab + be32_at (16 + 8 * i) block + be32_at (20 + 8 * i) block) bm'"
  using assms(4,5)
proof (induction "is" arbitrary: bm)
  case (Cons i "is")
  let ?F = "\<lambda>i b. ag * ab + be32_at (16 + 8 * i) block \<le> b \<and> b < ag * ab + be32_at (16 + 8 * i) block + be32_at (20 + 8 * i) block"
  have i: "24 + 8 * i \<le> length block" "ag * ab + be32_at (16 + 8 * i) block + be32_at (20 + 8 * i) block \<le> L"
    using Cons.prems(2) [of i] by simp_all
  obtain b1 where 1: "addtohist (of_nat ab) bm (of_nat ag) (of_nat (be32_at (16 + 8 * i) block)) (of_nat (be32_at (20 + 8 * i) block)) = Inr b1"
      "blocks_cleared bm (?F i) b1"
    using addtohist_ok [OF assms(1,2), of "be32_at (16 + 8 * i) block" _ bm] i(2) Cons.prems(1) assms(3) by blast
  have "length b1 = L" using 1(2) Cons.prems(1) by (simp add: blocks_cleared_def)
  then obtain b2 where 2: "leaf_loop (of_nat ab) (of_nat ag) block is b1 = Inr b2" "blocks_cleared b1 (\<lambda>b. \<exists>i \<in> set is. ?F i b) b2"
    using Cons.IH [of b1] Cons.prems(2) by auto
  have "blocks_cleared bm (\<lambda>b. \<exists>i \<in> set (i # is). ?F i b) b2"
    by (rule blocks_cleared_cong [OF blocks_cleared_trans [OF 1(2) 2(2)]]) auto
  moreover have "leaf_loop (of_nat ab) (of_nat ag) block (i # is) bm = Inr b2"
    using i(1) 1(1) 2(1) by (simp add: net32_at)
  ultimately show ?case by blast
qed (simp add: blocks_cleared_refl)

lemma bex_set_nth: "(\<exists>x \<in> set xs. P x) \<longleftrightarrow> (\<exists>i \<in> {0..<length xs}. P (xs ! i))"
  by (force simp: in_set_conv_nth)

lemma leaf_free_group:
  "(base \<le> b \<and> tree_free (Leaf rs) (b - base)) \<longleftrightarrow> (\<exists>i \<in> {0..<length rs}. base + fst (rs ! i) \<le> b \<and> b < base + fst (rs ! i) + snd (rs ! i))"
  by (simp only: tree_free.simps bex_set_nth split_beta) force

lemma node_free_group:
  "(base \<le> b \<and> tree_free (Node ts) (b - base)) \<longleftrightarrow> (\<exists>i \<in> {0..<length ts}. base \<le> b \<and> tree_free (snd (ts ! i)) (b - base))"
  by (simp only: tree_free.simps bex_set_nth split_beta) blast

lemma scanfuncBno_ok:
  assumes c: "length data < 2 ^ 63" "ab < 2 ^ 32" "ag < 2 ^ 32" "L < 2 ^ 32"
    and "tree_at data (ag * ab) L l t r" "length bm = L"
  shows "\<exists>bm' pos'. scanfuncBno data (of_nat ab) (of_nat ag) l (group_block data (ag * ab) r) (bm, pos) = Inr (bm', pos') \<and>
     blocks_cleared bm (\<lambda>b. ag * ab \<le> b \<and> tree_free t (b - ag * ab)) bm'"
  using assms(5,6)
proof (induction l arbitrary: t r bm pos)
  case 0
  then obtain rs where t: "t = Leaf rs" by (cases t) auto
  let ?b = "group_block data (ag * ab) r"
  have b: "length ?b = 4096" "be16_at 6 ?b = length rs" "length rs \<le> 510"
      "\<And>i. i < length rs \<Longrightarrow> be32_at (16 + 8 * i) ?b = fst (rs ! i) \<and> be32_at (20 + 8 * i) ?b = snd (rs ! i) \<and>
          ag * ab + fst (rs ! i) + snd (rs ! i) \<le> L"
    using 0(1) by (simp_all add: t Let_def)
  obtain w where w: "net16 6 ?b = Inr w" "unat w = length rs" using net16_at [of 6 ?b] b(1,2) by auto
  obtain bm' where bm': "leaf_loop (of_nat ab) (of_nat ag) ?b [0..<length rs] bm = Inr bm'"
      "blocks_cleared bm (\<lambda>x. \<exists>i \<in> set [0..<length rs]. ag * ab + be32_at (16 + 8 * i) ?b \<le> x \<and>
        x < ag * ab + be32_at (16 + 8 * i) ?b + be32_at (20 + 8 * i) ?b) bm'"
    using leaf_loop_ok [OF c(2-4) 0(2), of "[0..<length rs]" ?b] b by auto
  have "blocks_cleared bm (\<lambda>x. ag * ab \<le> x \<and> tree_free t (x - ag * ab)) bm'"
    using b(4) by (intro blocks_cleared_cong [OF bm'(2)]) (simp only: t leaf_free_group, simp)
  with w bm'(1) show ?case by simp
next
  case (Suc l)
  then obtain ts where t: "t = Node ts" by (cases t) auto
  let ?b = "group_block data (ag * ab) r"
  have b: "length ?b = 4096" "be16_at 6 ?b = length ts" "length ts \<le> 340"
      "\<And>i. i < length ts \<Longrightarrow> be32_at (2736 + 4 * i) ?b = fst (ts ! i) \<and> tree_at data (ag * ab) L l (snd (ts ! i)) (fst (ts ! i))"
    using Suc.prems(1) by (simp_all add: t Let_def)
  obtain w where w: "net16 6 ?b = Inr w" "unat w = length ts" using net16_at [of 6 ?b] b(1,2) by auto
  let ?f = "\<lambda>i st. bind_res (net32 (16 + mxr * 8 + 4 * i) ?b) (\<lambda>root.
      case st of (bm, pos) \<Rightarrow> case readdata data (convertAgbToDaddr (of_nat ab) (of_nat ag) root) 4096 pos of (buf, pos) \<Rightarrow>
        scanfuncBno data (of_nat ab) (of_nat ag) l buf (bm, pos))"
  have step: "\<exists>bm' pos'. ?f i (bm, pos) = Inr (bm', pos') \<and> blocks_cleared bm (\<lambda>x. ag * ab \<le> x \<and> tree_free (snd (ts ! i)) (x - ag * ab)) bm'"
    if i: "i \<in> set [0..<length ts]" and bm: "length bm = L" for i bm pos
  proof -
    have i': "be32_at (2736 + 4 * i) ?b = fst (ts ! i)" "tree_at data (ag * ab) L l (snd (ts ! i)) (fst (ts ! i))" using b(4) i by auto
    have n: "net32 (16 + mxr * 8 + 4 * i) ?b = Inr (of_nat (fst (ts ! i)))"
      using net32_at [of "2736 + 4 * i" ?b] b(1,3) i i'(1) by (simp add: mxr_def)
    have "fst (ts ! i) < 2 ^ 32" using be32_at_less [of "2736 + 4 * i" ?b] i'(1) by simp
    then obtain pos' where "readdata data (convertAgbToDaddr (of_nat ab) (of_nat ag) (of_nat (fst (ts ! i)))) 4096 pos =
        (group_block data (ag * ab) (fst (ts ! i)), pos')"
      using read_block [OF tree_at_block [OF i'(2)] c(1-3), of pos] by blast
    with n Suc.IH [OF i'(2) bm, of pos'] show ?thesis by simp
  qed
  have "\<exists>bm' pos'. each_res ?f [0..<length ts] (bm, pos) = Inr (bm', pos') \<and>
      blocks_cleared bm (\<lambda>x. \<exists>i \<in> set [0..<length ts]. ag * ab \<le> x \<and> tree_free (snd (ts ! i)) (x - ag * ab)) bm'"
    by (rule each_res_cleared) (rule step, assumption+, rule Suc.prems(2))
  then obtain bm' pos' where bm': "each_res ?f [0..<length ts] (bm, pos) = Inr (bm', pos')"
      "blocks_cleared bm (\<lambda>x. \<exists>i \<in> set [0..<length ts]. ag * ab \<le> x \<and> tree_free (snd (ts ! i)) (x - ag * ab)) bm'"
    by blast
  have "blocks_cleared bm (\<lambda>x. ag * ab \<le> x \<and> tree_free t (x - ag * ab)) bm'"
    by (intro blocks_cleared_cong [OF bm'(2)]) (simp only: t node_free_group, simp)
  with w bm'(1) show ?case by auto
qed

section \<open>The free list\<close>

text \<open>The free list is a ring of 128 entries; \<open>k\<close> entries behind \<open>first\<close>.\<close>

definition ring :: "nat \<Rightarrow> nat \<Rightarrow> nat" where
  "ring first k = (first + k) mod 128"

definition list_free :: "string \<Rightarrow> nat \<Rightarrow> nat \<Rightarrow> nat \<Rightarrow> bool" where
  "list_free agfl first n b \<longleftrightarrow> (\<exists>k \<le> n. b = be32_at (4 * ring first k) agfl)"

lemma of_nat32_eq: "a < 2 ^ 32 \<Longrightarrow> b < 2 ^ 32 \<Longrightarrow> (of_nat a :: u32) = of_nat b \<longleftrightarrow> a = b"
  by (metis unat_of_nat_small)

lemma next_entry:
  assumes "i < 128"
  shows "(if (of_nat i :: u32) + 1 = XFS_AGFL_SIZE then 0 else of_nat i + 1) = (of_nat (ring i 1) :: u32)"
proof -
  have "(of_nat i :: u32) + 1 = XFS_AGFL_SIZE \<longleftrightarrow> i = 127"
    using of_nat32_eq [of "i + 1" 128] assms by (simp add: XFS_AGFL_SIZE_def)
  then show ?thesis using assms by (auto simp: ring_def)
qed

lemma ring_ring: "ring (ring i j) k = ring i (j + k)"
  by (simp add: ring_def mod_simps add.assoc)

lemma list_free_Suc: "list_free agfl i (Suc n) b \<longleftrightarrow> b = be32_at (4 * ring i 0) agfl \<or> list_free agfl (ring i 1) n b"
proof -
  have "{..Suc n} = insert 0 (Suc ` {..n})" by (simp add: atMost_Suc_eq_insert_0)
  then have "(\<exists>k \<in> {..Suc n}. b = be32_at (4 * ring i k) agfl) \<longleftrightarrow> b = be32_at (4 * ring i 0) agfl \<or> (\<exists>k \<in> {..n}. b = be32_at (4 * ring i (Suc k)) agfl)"
    by (simp only: bex_simps)
  then show ?thesis by (simp add: list_free_def ring_ring atMost_iff Bex_def)
qed

lemma group_or: "(x = base + e \<or> base \<le> x \<and> P (x - base)) \<longleftrightarrow> base \<le> (x :: nat) \<and> (x - base = e \<or> P (x - base))"
  by auto

lemma freelist_step:
  assumes "length agfl = 512" "i < 128" "ab < 2 ^ 32" "ag < 2 ^ 32" "length bm < 2 ^ 32" "ag * ab + be32_at (4 * i) agfl < length bm"
  shows "\<exists>bm'. blocks_cleared bm (\<lambda>b. b = ag * ab + be32_at (4 * i) agfl) bm' \<and>
     freelist_loop (of_nat ab) agfl (of_nat ag) lst (of_nat i) bm =
       (if of_nat i = lst then Some (Inr bm') else freelist_loop (of_nat ab) agfl (of_nat ag) lst (of_nat (ring i 1)) bm')"
proof -
  obtain bm' where b: "addtohist (of_nat ab) bm (of_nat ag) (of_nat (be32_at (4 * i) agfl)) (of_nat 1) = Inr bm'"
      "blocks_cleared bm (\<lambda>b. ag * ab + be32_at (4 * i) agfl \<le> b \<and> b < ag * ab + be32_at (4 * i) agfl + 1) bm'"
    using addtohist_ok [OF assms(3,4), of "be32_at (4 * i) agfl" 1 bm] assms(5,6) by auto
  have "unat (of_nat i :: u32) = i" using assms(2) by (intro unat_of_nat_small) simp
  moreover have "net32 (4 * i) agfl = Inr (of_nat (be32_at (4 * i) agfl))" using assms(1,2) by (intro net32_at) simp
  moreover have "blocks_cleared bm (\<lambda>b. b = ag * ab + be32_at (4 * i) agfl) bm'" by (rule blocks_cleared_cong [OF b(2)]) auto
  ultimately show ?thesis using b(1) next_entry [OF assms(2)]
    by (intro exI [of _ bm']) (subst freelist_loop.simps, simp)
qed

lemma freelist_loop_ok:
  assumes c: "length agfl = 512" "ab < 2 ^ 32" "ag < 2 ^ 32" "L < 2 ^ 32"
    and "i < 128" "n < 128" "length bm = L" "\<And>k. k \<le> n \<Longrightarrow> ag * ab + be32_at (4 * ring i k) agfl < L"
  shows "\<exists>bm'. freelist_loop (of_nat ab) agfl (of_nat ag) (of_nat (ring i n)) (of_nat i) bm = Some (Inr bm') \<and>
     blocks_cleared bm (\<lambda>b. ag * ab \<le> b \<and> list_free agfl i n (b - ag * ab)) bm'"
  using assms(5-)
proof (induction n arbitrary: i bm)
  case 0
  then have r: "ring i 0 = i" by (simp add: ring_def)
  obtain bm' where b: "blocks_cleared bm (\<lambda>b. b = ag * ab + be32_at (4 * i) agfl) bm'"
      "freelist_loop (of_nat ab) agfl (of_nat ag) (of_nat (ring i 0)) (of_nat i) bm = Some (Inr bm')"
    using freelist_step [of agfl i ab ag bm "of_nat i"] c 0 r by auto
  have "blocks_cleared bm (\<lambda>b. ag * ab \<le> b \<and> list_free agfl i 0 (b - ag * ab)) bm'"
    by (rule blocks_cleared_cong [OF b(1)]) (auto simp: list_free_def r)
  with b(2) show ?case by blast
next
  case (Suc n)
  have r: "ring i 0 = i" "ring i 1 < 128" using Suc.prems(1) by (simp_all add: ring_def)
  have "ring i (Suc n) \<noteq> i" using Suc.prems(1,2)
    by (cases "i + Suc n < 128") (auto simp: ring_def mod_if)
  moreover have "ring i (Suc n) < 128" by (simp add: ring_def)
  ultimately have ne: "(of_nat i :: u32) \<noteq> of_nat (ring i (Suc n))"
    using Suc.prems(1) of_nat32_eq [of i "ring i (Suc n)"] by auto
  obtain b1 where 1: "blocks_cleared bm (\<lambda>b. b = ag * ab + be32_at (4 * i) agfl) b1"
      "freelist_loop (of_nat ab) agfl (of_nat ag) (of_nat (ring i (Suc n))) (of_nat i) bm =
       freelist_loop (of_nat ab) agfl (of_nat ag) (of_nat (ring i (Suc n))) (of_nat (ring i 1)) b1"
    using freelist_step [of agfl i ab ag bm "of_nat (ring i (Suc n))"] c Suc.prems(1,3) Suc.prems(4) [of 0] r ne by auto
  have "length b1 = L" using 1(1) Suc.prems(3) by (simp add: blocks_cleared_def)
  then obtain b2 where 2: "freelist_loop (of_nat ab) agfl (of_nat ag) (of_nat (ring (ring i 1) n)) (of_nat (ring i 1)) b1 = Some (Inr b2)"
      "blocks_cleared b1 (\<lambda>b. ag * ab \<le> b \<and> list_free agfl (ring i 1) n (b - ag * ab)) b2"
    using Suc.IH [OF r(2), of b1] Suc.prems(2) Suc.prems(4) by (auto simp: ring_ring)
  have "blocks_cleared bm (\<lambda>b. ag * ab \<le> b \<and> list_free agfl i (Suc n) (b - ag * ab)) b2"
    by (rule blocks_cleared_cong [OF blocks_cleared_trans [OF 1(1) 2(2)]]) (simp only: list_free_Suc r(1) group_or)
  with 1(2) 2(1) show ?case by (auto simp: ring_ring)
qed

section \<open>A file system on the disk\<close>

text \<open>
  The header of a group and its free list, and the blocks that are free in it: those of the list,
  when it has any, and those of the tree \<open>t\<close>.
\<close>

definition agf_at :: "string \<Rightarrow> nat \<Rightarrow> string" where
  "agf_at data base = take 60 (drop (4096 * base + 512) data)"

definition agfl_at :: "string \<Rightarrow> nat \<Rightarrow> string" where
  "agfl_at data base = take 512 (drop (4096 * base + 1536) data)"

definition fl_len :: "string \<Rightarrow> nat" where
  "fl_len agf = (be32_at 44 agf + 128 - be32_at 40 agf) mod 128"

definition group_free :: "string \<Rightarrow> nat \<Rightarrow> free_tree \<Rightarrow> nat \<Rightarrow> bool" where
  "group_free data base t b \<longleftrightarrow>
     (let agf = agf_at data base
      in (be32_at 48 agf \<noteq> 0 \<and> list_free (agfl_at data base) (be32_at 40 agf) (fl_len agf) b) \<or> tree_free t b)"

definition group_ok :: "string \<Rightarrow> nat \<Rightarrow> nat \<Rightarrow> nat \<Rightarrow> free_tree \<Rightarrow> bool" where
  "group_ok data ab lim ag t \<longleftrightarrow>
     (let base = ag * ab; agf = agf_at data base; agfl = agfl_at data base
      in length agf = 60 \<and> be32_at 0 agf = 0x58414746 \<and> be32_at 8 agf = ag \<and>
         (be32_at 48 agf \<noteq> 0 \<longrightarrow> length agfl = 512 \<and> be32_at 40 agf < 128 \<and> be32_at 44 agf < 128 \<and>
            (\<forall>k \<le> fl_len agf. base + be32_at (4 * ring (be32_at 40 agf) k) agfl < lim)) \<and>
         0 < be32_at 28 agf \<and> tree_at data base lim (be32_at 28 agf - 1) t (be32_at 16 agf))"

lemma read_header:
  assumes "length (take n (drop (4096 * (ag * ab) + 512 * k) data)) = n" "0 < n" "length data < 2 ^ 63" "ab < 2 ^ 32" "ag < 2 ^ 32" "k < 2 ^ 32"
  shows "\<exists>pos'. readdata data (convertAgToDaddr (of_nat ab) (of_nat ag) (of_nat k)) n pos =
     (take n (drop (4096 * (ag * ab) + 512 * k) data), pos')"
proof -
  have "4096 * (ag * ab) + 512 * k < 2 ^ 63" using assms(1-3) by simp
  moreover have "convertAgToDaddr (of_nat ab) (of_nat ag) (of_nat k) = of_nat (4096 * (ag * ab) + 512 * k)"
    using assms(4-6) fs_block_of_nat [of ab ag 0] by (simp add: convertAgToDaddr_def convertAgbToDaddr_def ucast_of_nat32)
  ultimately show ?thesis
    using unat_add_of_nat64 [of 0 "4096 * (ag * ab) + 512 * k"] by (simp add: readdata_def Let_def)
qed

lemma ring_fl_len: "be32_at 40 agf < 128 \<Longrightarrow> be32_at 44 agf < 128 \<Longrightarrow> ring (be32_at 40 agf) (fl_len agf) = be32_at 44 agf"
  by (simp add: ring_def fl_len_def mod_add_right_eq)

lemma of_nat32_zero: "n < 2 ^ 32 \<Longrightarrow> (of_nat n :: u32) = 0 \<longleftrightarrow> n = 0"
  using of_nat32_eq [of n 0] by simp

lemma scanFreelist_ok:
  assumes c: "length data < 2 ^ 63" "ab < 2 ^ 32" "ag < 2 ^ 32" "L < 2 ^ 32" "length bm = L" and g: "group_ok data ab L ag t"
  shows "\<exists>bm' pos'. scanFreelist data (of_nat ab) (agf_at data (ag * ab)) (bm, pos) = Some (Inr (bm', pos')) \<and>
     blocks_cleared bm (\<lambda>b. ag * ab \<le> b \<and> be32_at 48 (agf_at data (ag * ab)) \<noteq> 0 \<and>
        list_free (agfl_at data (ag * ab)) (be32_at 40 (agf_at data (ag * ab))) (fl_len (agf_at data (ag * ab))) (b - ag * ab)) bm'"
proof -
  let ?agf = "agf_at data (ag * ab)" and ?agfl = "agfl_at data (ag * ab)"
  have l: "length ?agf = 60" "be32_at 8 ?agf = ag" using g by (auto simp: group_ok_def Let_def)
  have n: "net32 q ?agf = Inr (of_nat (be32_at q ?agf))" if "q \<le> 56" for q using l(1) that by (intro net32_at) simp
  show ?thesis
  proof (cases "be32_at 48 ?agf = 0")
    case True
    then show ?thesis using n by (simp add: scanFreelist_def blocks_cleared_refl) (simp add: ret_run_def blocks_cleared_refl)
  next
    case False
    then have f: "length ?agfl = 512" "be32_at 40 ?agf < 128" "be32_at 44 ?agf < 128"
        "\<And>k. k \<le> fl_len ?agf \<Longrightarrow> ag * ab + be32_at (4 * ring (be32_at 40 ?agf) k) ?agfl < L"
      using g by (auto simp: group_ok_def Let_def)
    have "fl_len ?agf < 128" by (simp add: fl_len_def)
    from freelist_loop_ok [OF f(1) c(2-4) f(2) this c(5) f(4)]
    obtain bm' where b: "freelist_loop (of_nat ab) ?agfl (of_nat ag) (of_nat (be32_at 44 ?agf)) (of_nat (be32_at 40 ?agf)) bm = Some (Inr bm')"
        "blocks_cleared bm (\<lambda>b. ag * ab \<le> b \<and> list_free ?agfl (be32_at 40 ?agf) (fl_len ?agf) (b - ag * ab)) bm'"
      unfolding ring_fl_len [OF f(2,3)] by auto
    obtain pos' where "readdata data (convertAgToDaddr (of_nat ab) (of_nat ag) 3) 512 pos = (?agfl, pos')"
      using read_header [of 512 ag ab 3 data pos] f(1) c(1-3) by (auto simp: agfl_at_def)
    with b(1) n l(2) False have "scanFreelist data (of_nat ab) ?agf (bm, pos) = Some (Inr (bm', pos'))"
      using of_nat32_zero [OF be32_at_less, of 48 ?agf] by (simp add: scanFreelist_def) (simp add: ret_run_def)
    with b(2) False show ?thesis by auto
  qed
qed

lemma scan_group_ok:
  assumes c: "length data < 2 ^ 63" "ab < 2 ^ 32" "ag < 2 ^ 32" "L < 2 ^ 32" "length bm = L" and g: "group_ok data ab L ag t"
  shows "\<exists>bm' pos'. scan_group data (of_nat ab) (of_nat ag) (bm, pos) = Some (Inr (bm', pos')) \<and>
     blocks_cleared bm (\<lambda>b. ag * ab \<le> b \<and> group_free data (ag * ab) t (b - ag * ab)) bm'"
proof -
  let ?agf = "agf_at data (ag * ab)"
  have l: "length ?agf = 60" "be32_at 0 ?agf = 0x58414746" "be32_at 8 ?agf = ag" "0 < be32_at 28 ?agf"
      "tree_at data (ag * ab) L (be32_at 28 ?agf - 1) t (be32_at 16 ?agf)"
    using g by (auto simp: group_ok_def Let_def)
  have n: "net32 q ?agf = Inr (of_nat (be32_at q ?agf))" if "q \<le> 56" for q using l(1) that by (intro net32_at) simp
  obtain pos1 where 1: "readdata data (convertAgToDaddr (of_nat ab) (of_nat ag) 1) 60 pos = (?agf, pos1)"
    using read_header [of 60 ag ab 1 data pos] l(1) c(1-3) by (auto simp: agf_at_def)
  obtain bm2 pos2 where 2: "scanFreelist data (of_nat ab) ?agf (bm, pos1) = Some (Inr (bm2, pos2))"
      "blocks_cleared bm (\<lambda>b. ag * ab \<le> b \<and> be32_at 48 ?agf \<noteq> 0 \<and>
        list_free (agfl_at data (ag * ab)) (be32_at 40 ?agf) (fl_len ?agf) (b - ag * ab)) bm2"
    using scanFreelist_ok [OF assms] by blast
  have len: "length bm2 = L" using 2(2) c(5) by (simp add: blocks_cleared_def)
  obtain pos3 where 3: "readdata data (convertAgbToDaddr (of_nat ab) (of_nat ag) (of_nat (be32_at 16 ?agf))) 4096 pos2 =
      (group_block data (ag * ab) (be32_at 16 ?agf), pos3)"
    using read_block [OF tree_at_block [OF l(5)] c(1-3) be32_at_less] by blast
  have "of_nat (be32_at 28 ?agf) - 1 = (of_nat (be32_at 28 ?agf - 1) :: u32)" using l(4) by (simp add: of_nat_diff)
  then have lev: "unat (of_nat (be32_at 28 ?agf) - 1 :: u32) = be32_at 28 ?agf - 1"
    using be32_at_less [of 28 ?agf] by (simp only: unat_of_nat_small less_imp_diff_less)
  obtain bm4 pos4 where 4: "scanfuncBno data (of_nat ab) (of_nat ag) (be32_at 28 ?agf - 1) (group_block data (ag * ab) (be32_at 16 ?agf)) (bm2, pos3) = Inr (bm4, pos4)"
      "blocks_cleared bm2 (\<lambda>b. ag * ab \<le> b \<and> tree_free t (b - ag * ab)) bm4"
    using scanfuncBno_ok [OF c(1-4) l(5) len] by blast
  have "scanSbtree data (of_nat ab) (of_nat ag) (of_nat (be32_at 16 ?agf)) (of_nat (be32_at 28 ?agf)) (bm2, pos2) = Inr (bm4, pos4)"
    using 3 4(1) lev by (simp add: scanSbtree_def)
  with 1 2(1) n l(2,3) have "scan_group data (of_nat ab) (of_nat ag) (bm, pos) = Some (Inr (bm4, pos4))"
    by (simp add: scan_group_def XFS_AGF_MAGIC_def)
  moreover have "blocks_cleared bm (\<lambda>b. ag * ab \<le> b \<and> group_free data (ag * ab) t (b - ag * ab)) bm4"
    by (rule blocks_cleared_cong [OF blocks_cleared_trans [OF 2(2) 4(2)]]) (auto simp: group_free_def Let_def)
  ultimately show ?thesis by blast
qed

lemma scan_groups_ok:
  assumes c: "length data < 2 ^ 63" "ab < 2 ^ 32" "L < 2 ^ 32" and "length bm = L" "\<And>i. i \<in> set is \<Longrightarrow> i < 2 ^ 32 \<and> group_ok data ab L i (ts i)"
  shows "\<exists>bm' pos'. scan_groups data (of_nat ab) is (bm, pos) = Some (Inr (bm', pos')) \<and>
     blocks_cleared bm (\<lambda>b. \<exists>i \<in> set is. i * ab \<le> b \<and> group_free data (i * ab) (ts i) (b - i * ab)) bm'"
  using assms(4,5)
proof (induction "is" arbitrary: bm pos)
  case Nil
  then show ?case by (simp add: ret_run_def blocks_cleared_refl)
next
  case (Cons i "is")
  have i: "i < 2 ^ 32" "group_ok data ab L i (ts i)" using Cons.prems(2) by simp_all
  obtain b1 p1 where 1: "scan_group data (of_nat ab) (of_nat i) (bm, pos) = Some (Inr (b1, p1))"
      "blocks_cleared bm (\<lambda>b. i * ab \<le> b \<and> group_free data (i * ab) (ts i) (b - i * ab)) b1"
    using scan_group_ok [OF c(1,2) i(1) c(3) Cons.prems(1) i(2)] by blast
  have "length b1 = L" using 1(2) Cons.prems(1) by (simp add: blocks_cleared_def)
  from Cons.IH [OF this Cons.prems(2), of p1]
  obtain b2 p2 where 2: "scan_groups data (of_nat ab) is (b1, p1) = Some (Inr (b2, p2))"
      "blocks_cleared b1 (\<lambda>b. \<exists>i \<in> set is. i * ab \<le> b \<and> group_free data (i * ab) (ts i) (b - i * ab)) b2"
    by auto
  have "blocks_cleared bm (\<lambda>b. \<exists>i \<in> set (i # is). i * ab \<le> b \<and> group_free data (i * ab) (ts i) (b - i * ab)) b2"
    by (rule blocks_cleared_cong [OF blocks_cleared_trans [OF 1(2) 2(2)]]) auto
  with 1(1) 2(1) show ?case by simp
qed

text \<open>
  The file system: its blocks are on the device, every group is well-formed, and the super block does
  not count fewer free blocks than the groups have. \<open>ts\<close> gives the tree of each group.
\<close>

definition xfs_free :: "device \<times> (nat \<Rightarrow> free_tree) \<Rightarrow> nat \<Rightarrow> bool" where
  "xfs_free x b \<longleftrightarrow>
     (case x of (d, ts) \<Rightarrow>
        let sb = take 200 (dev_data d); ab = be32_at 84 sb
        in \<exists>i \<in> set [0..<be32_at 88 sb]. i * ab \<le> b \<and> group_free (dev_data d) (i * ab) (ts i) (b - i * ab))"

definition xfs_good :: "device \<times> (nat \<Rightarrow> free_tree) \<Rightarrow> bool" where
  "xfs_good x \<longleftrightarrow>
     (case x of (d, ts) \<Rightarrow>
        let data = dev_data d; sb = take 200 data; n = be64_at 8 sb; free = be64_at 144 sb
        in 256 \<le> length data \<and> length data < 2 ^ 63 \<and> take 4 data = ''XFSB'' \<and> be32_at 4 data = 4096 \<and>
           4096 * n \<le> length data \<and> n < 2 ^ 32 \<and> free \<le> n \<and>
           (\<forall>i < be32_at 88 sb. group_ok data (be32_at 84 sb) n i (ts i)) \<and>
           length (filter (xfs_free x) [0..<n]) \<le> free)"

definition xfs_in_use :: "device \<times> (nat \<Rightarrow> free_tree) \<Rightarrow> nat \<Rightarrow> bool" where
  "xfs_in_use x i \<longleftrightarrow> i < 8 * be64_at 8 (take 200 (dev_data (fst x))) \<and> \<not> xfs_free x (i div 8)"

lemma count_used_eq: "foldl (\<lambda>used c. used + of_nat (byte_count c)) a bm = a + of_nat (sum_list (map byte_count bm))"
  by (induction bm arbitrary: a) (simp_all add: add.assoc)

lemma byte_count_ends: "byte_count NUL = 0" "byte_count (CHR 0xFF) = 8"
  by (simp_all add: byte_count_def nibble_bits_def drop_bit_eq_div)

lemma cleared_map: "blocks_cleared (replicate n c) F bm \<Longrightarrow> bm = map (\<lambda>b. if F b then NUL else c) [0..<n]"
  by (intro nth_equalityI) (auto simp: blocks_cleared_def)

lemma count_cleared:
  assumes "blocks_cleared (replicate n (CHR 0xFF)) F bm"
  shows "count_used bm = of_nat (8 * (n - length (filter F [0..<n])))"
proof -
  have "sum_list (map byte_count (map (\<lambda>b. if F b then NUL else CHR 0xFF) xs)) = 8 * (length xs - length (filter F xs))" for xs
  proof (induction xs)
    case (Cons x xs)
    then show ?case using length_filter_le [of F xs] by (auto simp: byte_count_ends Suc_diff_le)
  qed simp
  from this [of "[0..<n]"] show ?thesis
    unfolding count_used_def count_used_eq cleared_map [OF assms] by (simp del: map_map)
qed

lemma byte_bits_ends: "k < 8 \<Longrightarrow> \<not> byte_bits NUL ! k" "k < 8 \<Longrightarrow> byte_bits (CHR 0xFF) ! k"
proof -
  assume k: "k < 8"
  have "(of_char (CHR 0xFF) :: nat) = mask 8" by (simp add: mask_eq_exp_minus_1)
  with k show "byte_bits (CHR 0xFF) ! k" by (simp only: byte_bits_bit bit_mask_iff) simp
qed (simp add: byte_bits_bit)

lemma bits_of_cleared:
  assumes "blocks_cleared (replicate n (CHR 0xFF)) F bm" "i < 8 * n"
  shows "bits_of bm ! i \<longleftrightarrow> \<not> F (i div 8)"
proof -
  have l: "length bm = n" "bm ! (i div 8) = (if F (i div 8) then NUL else CHR 0xFF)"
    using assms by (simp_all add: blocks_cleared_def less_mult_imp_div_less mult.commute)
  have "bits_of bm ! i = byte_bits (bm ! (i div 8)) ! (i mod 8)"
    unfolding byte_bits_bit [OF mod_less_divisor [OF zero_less_numeral]] using bits_of_nth [of i bm] assms(2) l(1)
    by (simp add: bit_eq_iff [of _ 0] bit_and_iff bit_exp_iff)
  also have "\<dots> \<longleftrightarrow> \<not> F (i div 8)" unfolding l(2) by (simp add: byte_bits_ends)
  finally show ?thesis .
qed

lemma sub_mono64: "a < 2 ^ 64 \<Longrightarrow> b < 2 ^ 64 \<Longrightarrow> (of_nat a :: u64) < of_nat b \<longleftrightarrow> a < b"
  using unat_add_of_nat64 [of 0 a] unat_add_of_nat64 [of 0 b] by (simp add: word_less_nat_alt)

lemma unat_ucast_of_nat: "n < 2 ^ 32 \<Longrightarrow> unat (ucast (of_nat n :: u64) :: u32) = n"
proof -
  assume n: "n < 2 ^ 32"
  have "ucast (of_nat n :: u64) = (of_nat (unat (of_nat n :: u64)) :: u32)" by simp
  also have "unat (of_nat n :: u64) = n" using unat_add_of_nat64 [of 0 n] n by simp
  finally show ?thesis using unat_of_nat_small [OF n] by simp
qed

lemma readsb_ok:
  assumes "xfs_good (d, ts)"
  shows "\<exists>p i1 i2. readsb (Some d) = Some (Inr (p, i1, i2)) \<and> marks p (xfs_in_use (d, ts)) \<and> spans p (length (dev_data d))"
proof -
  let ?data = "dev_data d"
  let ?sb = "take 200 ?data"
  let ?n = "be64_at 8 ?sb" and ?f = "be64_at 144 ?sb" and ?ab = "be32_at 84 ?sb" and ?ag = "be32_at 88 ?sb"
  have g: "256 \<le> length ?data" "length ?data < 2 ^ 63" "4096 * ?n \<le> length ?data" "?n < 2 ^ 32" "?f \<le> ?n"
      "\<And>i. i < ?ag \<Longrightarrow> group_ok ?data ?ab ?n i (ts i)" "length (filter (xfs_free (d, ts)) [0..<?n]) \<le> ?f"
    using assms by (simp_all add: xfs_good_def Let_def)
  have free: "xfs_free (d, ts) = (\<lambda>b. \<exists>i \<in> set [0..<?ag]. i * ?ab \<le> b \<and> group_free ?data (i * ?ab) (ts i) (b - i * ?ab))"
    by (intro ext) (simp add: xfs_free_def Let_def)
  have "i < 2 ^ 32 \<and> group_ok ?data ?ab ?n i (ts i)" if "i \<in> set [0..<?ag]" for i
    using that g(6) be32_at_less [of 88 ?sb] by auto
  from scan_groups_ok [OF g(2) be32_at_less g(4) length_replicate this, of "[0..<?ag]" "CHR 0xFF" 0]
  obtain bm pos where b: "scan_groups ?data (of_nat ?ab) [0..<?ag] (replicate ?n (CHR 0xFF), 0) = Some (Inr (bm, pos))"
      "blocks_cleared (replicate ?n (CHR 0xFF)) (xfs_free (d, ts)) bm"
    unfolding free by auto
  let ?used = "?n - length (filter (xfs_free (d, ts)) [0..<?n])"
  have used: "count_used bm = of_nat (8 * ?used)" using count_cleared [OF b(2)] .
  have "(of_nat ?n - of_nat ?f) * 8 = (of_nat (8 * (?n - ?f)) :: u64)" using g(5) by (simp add: of_nat_diff)
  moreover have "(of_nat (8 * (?n - ?f)) :: u64) \<le> of_nat (8 * ?used)"
    using sub_mono64 [of "8 * ?used" "8 * (?n - ?f)"] g(4,5,7) by (auto simp: not_less [symmetric])
  ultimately have ok: "count_used bm = (of_nat ?n - of_nat ?f) * 8 \<or> (of_nat ?n - of_nat ?f) * 8 < count_used bm"
    unfolding used by (simp only:) (auto simp: order_le_less)
  have u: "unat (of_nat ?ag :: u32) = ?ag" using be32_at_less by (rule unat_of_nat_small)
  have un: "unat (ucast (of_nat ?n :: u64) :: u32) = ?n" using g(4) by (rule unat_ucast_of_nat)
  let ?p = "\<lparr>bitmap = bm, nb_sect = of_nat ?n * 8\<rparr>"
  have "\<exists>i1 i2. readsb (Some d) = Some (Inr (?p, i1, i2))"
    unfolding readsb_def using g(1) ok by (simp add: Let_def net32_at net64_at u un b(1)) (simp add: ret_run_def)
  moreover have "length bm = ?n" using b(2) by (simp add: blocks_cleared_def)
  moreover have "marks ?p (xfs_in_use (d, ts))"
    using \<open>length bm = ?n\<close> bits_of_cleared [OF b(2)] by (auto simp: marks_def xfs_in_use_def)
  moreover have "spans ?p (length ?data)" using g(3,4) \<open>length bm = ?n\<close> by (simp add: spans_def)
  ultimately show ?thesis by blast
qed

interpretation xfs: imager "\<lambda>env x. image_xfs env (Some (fst x))" xfs_good xfs_in_use "\<lambda>x. dev_data (fst x)" "''XFS''"
proof
  fix x :: "device \<times> (nat \<Rightarrow> free_tree)" and argv :: "string list" and env :: "('z, 'i) save_env"
  assume x: "xfs_good x" "usage_ok argv" "\<not> query_only argv"
  obtain d ts where xd: "x = (d, ts)" by (cases x)
  obtain p i1 i2 where p: "readsb (Some d) = Some (Inr (p, i1, i2))" "marks p (xfs_in_use x)" "spans p (length (dev_data d))"
    using readsb_ok x(1) unfolding xd by blast
  have "256 \<le> length (dev_data d)" "take 4 (dev_data d) = ''XFSB''" "be32_at 4 (dev_data d) = 4096"
    using x(1) by (simp_all add: xd xfs_good_def Let_def)
  then have "xfs_checkit (Some d) = Inr ()" by (simp add: xfs_checkit_def be32_at_def be_nat_def take_drop Let_def min_absorb2)
  then have "image_xfs env (Some d) argv = save_image env (dev_data d) argv p i1 i2 ''XFS''"
    using x(2,3) p(1) by (simp add: image_xfs_def)
  with p(2,3) show "\<exists>p i1 i2. image_xfs env (Some (fst x)) argv = save_image env (dev_data (fst x)) argv p i1 i2 ''XFS'' \<and>
      marks p (xfs_in_use x) \<and> spans p (length (dev_data (fst x)))"
    unfolding xd fst_conv by blast
next
  fix x :: "device \<times> (nat \<Rightarrow> free_tree)" and i
  assume x: "xfs_good x" "xfs_in_use x i"
  obtain d ts where xd: "x = (d, ts)" by (cases x)
  have "4096 * be64_at 8 (take 200 (dev_data d)) \<le> length (dev_data d)" using x(1) by (simp add: xd xfs_good_def Let_def)
  then show "512 * i + 512 \<le> length (dev_data (fst x))" using x(2) by (simp add: xd xfs_in_use_def)
qed simp

lemma freelist_no_result:
  assumes "freelist_loop agblocks agfl agno lst i bm = Some y"
  shows "\<not> (128 \<le> unat lst \<and> (\<exists>ab ag j. agblocks = of_nat ab \<and> agno = of_nat ag \<and> i = of_nat j \<and> j < 128 \<and> ab < 2 ^ 32 \<and> ag < 2 ^ 32 \<and>
     length agfl = 512 \<and> length bm < 2 ^ 32 \<and> (\<forall>k < 128. ag * ab + be32_at (4 * k) agfl < length bm)))"
    (is "\<not> ?P agblocks agfl agno lst i bm")
proof (rule freelist_loop.raw_induct [OF _ assms, where P = "\<lambda>agblocks agfl agno lst i bm _. \<not> ?P agblocks agfl agno lst i bm"])
  fix loop :: "u32 \<Rightarrow> string \<Rightarrow> u32 \<Rightarrow> u32 \<Rightarrow> u32 \<Rightarrow> string \<Rightarrow> string run" and agblocks agfl agno lst i bm y
  assume IH: "\<And>agblocks agfl agno lst i bm y. loop agblocks agfl agno lst i bm = Some y \<Longrightarrow> \<not> ?P agblocks agfl agno lst i bm"
    and step: "(case net32 (4 * unat i) agfl of Inl e \<Rightarrow> Some (Inl e)
      | Inr blockno \<Rightarrow> (case addtohist agblocks bm agno blockno 1 of Inl e \<Rightarrow> Some (Inl e)
           | Inr bm \<Rightarrow> if i = lst then Some (Inr bm)
               else loop agblocks agfl agno lst (if i + 1 = XFS_AGFL_SIZE then 0 else i + 1) bm)) = Some y"
  show "\<not> ?P agblocks agfl agno lst i bm"
  proof
    assume "?P agblocks agfl agno lst i bm"
    then obtain ab ag j where l: "128 \<le> unat lst" and eq: "agblocks = of_nat ab" "agno = of_nat ag" "i = of_nat j" and
      P: "j < 128" "ab < 2 ^ 32" "ag < 2 ^ 32" "length agfl = 512" "length bm < 2 ^ 32" "\<forall>k < 128. ag * ab + be32_at (4 * k) agfl < length bm"
      by (elim conjE exE) (rule that)
    have u: "unat i = j" unfolding eq using P(1) by (intro unat_of_nat_small) simp
    obtain bm' where b: "addtohist agblocks bm agno (of_nat (be32_at (4 * j) agfl)) (of_nat 1) = Inr bm'" "blocks_cleared bm
        (\<lambda>b. ag * ab + be32_at (4 * j) agfl \<le> b \<and> b < ag * ab + be32_at (4 * j) agfl + 1) bm'"
      using addtohist_ok [OF P(2,3), of "be32_at (4 * j) agfl" 1 bm] P(1,5,6) unfolding eq by (auto simp: Suc_le_eq)
    have "i \<noteq> lst" using u l P(1) by auto
    moreover have "net32 (4 * unat i) agfl = Inr (of_nat (be32_at (4 * j) agfl))" unfolding u using P(1,4) by (intro net32_at) simp
    moreover have "length bm' = length bm" using b(2) by (simp add: blocks_cleared_def)
    ultimately have "loop agblocks agfl agno lst (of_nat (ring j 1)) bm' = Some y"
      using step b(1) next_entry [OF P(1)] unfolding eq(3) by simp
    moreover have "?P agblocks agfl agno lst (of_nat (ring j 1)) bm'"
      using l P \<open>length bm' = length bm\<close> eq(1,2) by (intro conjI exI [of _ ab] exI [of _ ag] exI [of _ "ring j 1"]) (simp_all add: ring_def)
    ultimately show False using IH by blast
  qed
qed

section \<open>Properties\<close>

text \<open>
  C16 (\<open>image_xfs\<close>): an XFS whose groups are well-formed is saved and restored in every block that is
  neither on the free list nor in the free space tree of its group; all other bytes of the output are
  kept.
\<close>

theorem xfs_restores:
  assumes "xfs_good (d, ts)" "usage_ok argv" "\<not> query_only argv" "env_ok env ''XFS''" "unat off < 2 ^ 63"
  shows "\<exists>ui files s data' off'. image_xfs env (Some d) argv = Some (Inr (ui, files, s)) \<and> s_errors s = 0 \<and>
     restore_files (se_zlib env) files data off = Some (Inr (data', off')) \<and>
     volume_restored (dev_data d) (xfs_in_use (d, ts)) data (unat off) data'"
  using xfs.main_restores [OF assms, of data] by simp

text \<open>
  C17 (\<open>scanSbtree\<close>): on a tree stored in a group, of any depth, the recursive scan returns and takes
  exactly the extents of the tree out of the bitmap.
\<close>

theorem scanSbtree_refines_tree:
  assumes "length data < 2 ^ 63" "ab < 2 ^ 32" "ag < 2 ^ 32" "length bm < 2 ^ 32" "levels < 2 ^ 32" "root < 2 ^ 32"
    "0 < levels" "tree_at data (ag * ab) (length bm) (levels - 1) t root"
  shows "\<exists>bm' pos'. scanSbtree data (of_nat ab) (of_nat ag) (of_nat root) (of_nat levels) (bm, pos) = Inr (bm', pos') \<and>
     blocks_cleared bm (\<lambda>b. ag * ab \<le> b \<and> tree_free t (b - ag * ab)) bm'"
proof -
  obtain pos1 where 1: "readdata data (convertAgbToDaddr (of_nat ab) (of_nat ag) (of_nat root)) 4096 pos = (group_block data (ag * ab) root, pos1)"
    using read_block [OF tree_at_block [OF assms(8)] assms(1-3,6)] by blast
  have "of_nat levels - 1 = (of_nat (levels - 1) :: u32)" using assms(7) by (simp add: of_nat_diff)
  then have "unat (of_nat levels - 1 :: u32) = levels - 1" using assms(5) by (simp only: unat_of_nat_small less_imp_diff_less)
  with 1 show ?thesis using scanfuncBno_ok [OF assms(1-4,8) refl, of pos1] by (simp add: scanSbtree_def)
qed

text \<open>
  (\<open>ntohll\<close>): reading eight bytes as a number of the little endian machine and swapping the halves
  and their bytes gives the big endian value of the bytes.
\<close>

theorem ntohll_big_endian: "length s = 8 \<Longrightarrow> unat (ntohll (of_nat (le_nat s))) = be_nat s"
  by (rule ntohll_bytes)

text \<open>
  (\<open>scanFreelist\<close>): when the header says that the last entry of the free list is behind its 128
  entries, the loop never returns: the index goes round the ring and does not meet it.
\<close>

theorem freelist_hangs:
  assumes "128 \<le> lst" "lst < 2 ^ 32" "first < 128" "length agfl = 512" "ab < 2 ^ 32" "ag < 2 ^ 32" "length bm < 2 ^ 32"
    "\<forall>k < 128. ag * ab + be32_at (4 * k) agfl < length bm"
  shows "freelist_loop (of_nat ab) agfl (of_nat ag) (of_nat lst) (of_nat first) bm = None"
proof -
  have "128 \<le> unat (of_nat lst :: u32)" using unat_of_nat_small [OF assms(2)] assms(1) by simp
  then show ?thesis using freelist_no_result [of "of_nat ab" agfl "of_nat ag" "of_nat lst" "of_nat first" bm] assms(3-)
    by (cases "freelist_loop (of_nat ab) agfl (of_nat ag) (of_nat lst) (of_nat first) bm") blast+
qed

section \<open>Witnesses\<close>

text \<open>
  A file system of five blocks and one group: the free list has the blocks 2 and 3 (its entries 127
  and 0), the tree has block 4.
\<close>

definition be_bytes :: "nat \<Rightarrow> nat \<Rightarrow> string" where
  "be_bytes n x = rev (le_bytes n x)"

definition sample_sb :: string where
  "sample_sb = ''XFSB'' @ be_bytes 4 4096 @ be_bytes 8 5 @ replicate 68 NUL @ be_bytes 4 5 @ be_bytes 4 1 @ replicate 52 NUL @ be_bytes 8 3 @ replicate 360 NUL"

definition sample_agf :: string where
  "sample_agf = be_bytes 4 0x58414746 @ be_bytes 4 1 @ be_bytes 4 0 @ be_bytes 4 5 @ be_bytes 4 1 @ replicate 8 NUL @
     be_bytes 4 1 @ replicate 8 NUL @ be_bytes 4 127 @ be_bytes 4 0 @ be_bytes 4 2 @ replicate 8 NUL"

definition sample_agfl :: string where
  "sample_agfl = be_bytes 4 3 @ replicate 504 NUL @ be_bytes 4 2"

definition sample_leaf :: string where
  "sample_leaf = ''ABTB'' @ be_bytes 2 0 @ be_bytes 2 1 @ replicate 8 NUL @ be_bytes 4 4 @ be_bytes 4 1 @ replicate 4072 NUL"

definition sample_xfs :: device where
  "sample_xfs = \<lparr>dev_data = sample_sb @ sample_agf @ replicate 964 NUL @ sample_agfl @ replicate 2048 NUL @ sample_leaf @ replicate 12288 (CHR ''x''),
     dev_blkgetsize = None\<rparr>"

definition sample_trees :: "nat \<Rightarrow> free_tree" where
  "sample_trees i = Leaf [(4, 1)]"

lemma be_bytes_simps: "length (be_bytes n x) = n" "be_nat (be_bytes n x) = x mod 256 ^ n"
  by (simp_all add: be_bytes_def be_nat_def le_nat_le_bytes)

lemma sample_lengths: "length sample_sb = 512" "length sample_agf = 60" "length sample_agfl = 512" "length sample_leaf = 4096"
  by (simp_all add: sample_sb_def sample_agf_def sample_agfl_def sample_leaf_def be_bytes_simps)

lemmas sample_at = be32_at_def be16_at_def be64_at_def be_bytes_simps

lemma sample_sb_fields:
  "be64_at 8 (take 200 sample_sb) = 5" "be64_at 144 (take 200 sample_sb) = 3" "be32_at 84 (take 200 sample_sb) = 5" "be32_at 88 (take 200 sample_sb) = 1"
  by (simp_all add: sample_sb_def sample_at)

lemma sample_agf_fields:
  "be32_at 0 sample_agf = 0x58414746" "be32_at 8 sample_agf = 0" "be32_at 16 sample_agf = 1" "be32_at 28 sample_agf = 1"
  "be32_at 40 sample_agf = 127" "be32_at 44 sample_agf = 0" "be32_at 48 sample_agf = 2"
  by (simp_all add: sample_agf_def sample_at)

lemma sample_agfl_fields: "be32_at 0 sample_agfl = 3" "be32_at 508 sample_agfl = 2"
  by (simp_all add: sample_agfl_def sample_at)

lemma sample_leaf_fields: "be16_at 6 sample_leaf = 1" "be32_at 16 sample_leaf = 4" "be32_at 20 sample_leaf = 1"
  by (simp_all add: sample_leaf_def sample_at)

lemma sample_parts:
  "take 200 (dev_data sample_xfs) = take 200 sample_sb" "agf_at (dev_data sample_xfs) 0 = sample_agf" "agfl_at (dev_data sample_xfs) 0 = sample_agfl"
  "group_block (dev_data sample_xfs) 0 1 = sample_leaf" "length (dev_data sample_xfs) = 20480"
  by (simp_all add: sample_xfs_def agf_at_def agfl_at_def group_block_def sample_lengths)

lemma sample_tree: "tree_at (dev_data sample_xfs) 0 5 0 (sample_trees 0) 1"
  using sample_parts(4) by (simp add: sample_trees_def sample_leaf_fields sample_lengths)

lemma sample_free: "xfs_free (sample_xfs, sample_trees) b \<longleftrightarrow> b = 2 \<or> b = 3 \<or> b = 4"
proof -
  have "list_free sample_agfl 127 1 b \<longleftrightarrow> b = 2 \<or> b = 3"
    by (auto simp: list_free_def ring_def sample_agfl_fields le_Suc_eq)
  then show ?thesis
    by (auto simp: xfs_free_def group_free_def sample_parts sample_sb_fields sample_agf_fields fl_len_def sample_trees_def Let_def)
qed

lemma sample_group: "group_ok (dev_data sample_xfs) 5 5 0 (sample_trees 0)"
proof -
  have "127 + k < 128 \<or> k = 1" if "k \<le> 1" for k :: nat using that by auto
  then show ?thesis using sample_tree
    by (auto simp: group_ok_def sample_parts sample_agf_fields sample_lengths fl_len_def ring_def le_Suc_eq sample_agfl_fields simp del: tree_at.simps)
qed

lemma sample_xfs_good: "xfs_good (sample_xfs, sample_trees)"
proof -
  have "take 4 (dev_data sample_xfs) = ''XFSB''" "be32_at 4 (dev_data sample_xfs) = 4096"
    by (simp_all add: sample_xfs_def sample_sb_def sample_at)
  moreover have "filter (xfs_free (sample_xfs, sample_trees)) [0..<5] = [2, 3, 4]"
    by (simp add: sample_free upt_rec)
  ultimately show ?thesis
    using sample_group by (simp add: xfs_good_def sample_parts sample_sb_fields Let_def)
qed

theorem xfs_restores_witness:
  "xfs_in_use (sample_xfs, sample_trees) 15 \<and>
   (\<exists>ui files s data' off'. image_xfs sample_save_env (Some sample_xfs) [''image'', ''/dev/hda1'', ''P1''] = Some (Inr (ui, files, s)) \<and>
     s_errors s = 0 \<and> restore_files (se_zlib sample_save_env) files [] 0 = Some (Inr (data', off')) \<and>
     volume_restored (dev_data sample_xfs) (xfs_in_use (sample_xfs, sample_trees)) [] 0 data')"
proof -
  have "env_ok sample_save_env ''XFS''" by (intro sample_save_env_ok) (simp add: unmarked_def)
  then show ?thesis
    using xfs_restores [OF sample_xfs_good, of "[''image'', ''/dev/hda1'', ''P1'']" sample_save_env 0 "[]"]
    by (simp add: usage_ok_def query_only_def xfs_in_use_def sample_parts sample_sb_fields sample_free)
qed

theorem scanSbtree_refines_tree_witness:
  "\<exists>bm' pos'. scanSbtree (dev_data sample_xfs) 5 0 1 1 (replicate 5 (CHR 0xFF), 0) = Inr (bm', pos') \<and>
     blocks_cleared (replicate 5 (CHR 0xFF)) (tree_free (sample_trees 0)) bm'"
  using scanSbtree_refines_tree [of "dev_data sample_xfs" 5 0 "replicate 5 (CHR 0xFF)" 1 1 "sample_trees 0" 0] sample_tree
  by (simp add: sample_parts del: tree_at.simps tree_free.simps)

theorem ntohll_big_endian_witness: "unat (ntohll 0x0100000000000000) = 1"
  using ntohll_big_endian [of "[NUL, NUL, NUL, NUL, NUL, NUL, NUL, CHR 0x01]"] by (simp add: be_nat_def)

theorem freelist_hangs_witness: "freelist_loop 5 sample_agfl 0 128 0 (replicate 5 (CHR 0xFF)) = None"
proof -
  have "be32_at (4 * k) sample_agfl < 5" if k: "k < 128" for k
  proof -
    consider "k = 0" | "k = 127" | "1 \<le> k" "k < 127" using k by linarith
    then show ?thesis
    proof cases
      case 3
      then have "take 4 (drop (4 * k) sample_agfl) = replicate 4 NUL" by (simp add: sample_agfl_def be_bytes_simps)
      then show ?thesis by (simp add: be32_at_def be_nat_def le_nat_zeros)
    qed (simp_all add: sample_agfl_fields)
  qed
  then show ?thesis using freelist_hangs [of 128 0 sample_agfl 5 0 "replicate 5 (CHR 0xFF)"] by (simp add: sample_lengths)
qed

end
