(* ===== verification/Image_Restore.thy ===== *)
theory Image_Restore
  imports Restore Image_Raw Image_E2fs Image_Reiserfs Image_Xfs
begin

text \<open>
  The image programs together with \<open>restore\<close> of the restore program: what the contract of an image
  program (\<open>imager\<close>) gives for the files that the restore program reads and the disk it writes.
\<close>

section \<open>From the contract of an image program\<close>

text \<open>
  The restore program looks for \<^verbatim>\<open>BLOCKS=\<close> in the header of each file; the options of the user must not have it.
\<close>

definition autorestore_env :: "('z, 'i) save_env \<Rightarrow> string \<Rightarrow> bool" where
  "autorestore_env env info \<longleftrightarrow> zlib_ok (se_zlib env) \<and> level_ok (se_level env) \<and>
     (\<exists>fs. options_clean (se_options env) info fs \<and> (\<forall>i. strstr (fs i) ''BLOCKS='' = None)) \<and>
     se_space env = None \<and> length (se_stack env) = TOTALLG"

lemma spans_holds:
  assumes "marks p S" "spans p n" "\<And>i. S i \<Longrightarrow> 512 * i + 512 \<le> n" "off + n \<le> length data"
  shows "disk_holds data off (bitmap p)"
proof -
  have "block_count (bitmap p) = (length (bitmap p) + ALLOCLG - 1) div ALLOCLG" by (simp add: block_count_def)
  then have "block_count (bitmap p) * ALLOCLG \<le> length (bitmap p) + ALLOCLG - 1" using div_times_less_eq_dividend [of "length (bitmap p) + ALLOCLG - 1" ALLOCLG] by simp
  then have "(block_count (bitmap p) - 1) * ALLOCLG \<le> length (bitmap p) - 1" by (simp add: diff_mult_distrib)
  then have "4096 * ((block_count (bitmap p) - 1) * ALLOCLG) \<le> n" using assms(2) by (cases "length (bitmap p)") (auto simp: spans_def)
  moreover have "off + 512 * j + 512 \<le> length data" if "j < 8 * length (bitmap p)" "bits_of (bitmap p) ! j" for j
    using assms(1) assms(3) [of j] assms(4) that by (simp add: marks_def)
  ultimately show ?thesis using assms(4) by (simp add: disk_holds_def)
qed

context imager
begin

lemma main_autorestores:
  assumes "good x" "usage_ok argv" "\<not> query_only argv" "autorestore_env env info" "512 * unat sect + length (disk x) \<le> length data" "length buf = BUFSIZE"
  shows "\<exists>ui files s. main env x argv = Some (Inr (ui, files, s)) \<and>
     (\<forall>fetch nolrs bmp. serves fetch files \<longrightarrow>
        (\<exists>data' buf' bmp'. restore (se_zlib env) nolrs fetch buf bmp (Some data) sect = Some (Inr (Some data', 0, buf', bmp')) \<and>
           length data' = length data \<and> volume_restored (disk x) (in_use x) data (512 * unat sect) data'))"
proof -
  obtain p i1 i2 where p: "main env x argv = save_image env (disk x) argv p i1 i2 info" "marks p (in_use x)" "spans p (length (disk x))"
    using main_saves [OF assms(1-3)] by blast
  note on = on_disk [OF assms(1)]
  have holds: "disk_holds data (512 * unat sect) (bitmap p)" by (rule spans_holds [OF p(2,3) on assms(5)])
  have small: "length (bitmap p) < 2 ^ 32" using p(3) by (simp add: spans_def)
  obtain fs where fs: "options_clean (se_options env) info fs" "\<forall>i. strstr (fs i) ''BLOCKS='' = None"
    and env: "zlib_ok (se_zlib env)" "level_ok (se_level env)" "se_space env = None" "length (se_stack env) = TOTALLG"
    using assms(4) by (auto simp: autorestore_env_def)
  have "block_count (bitmap p) < 2 ^ 32" using block_count_small [OF small] by simp
  then obtain first where first: "firststring (nb_sect p) (block_count (bitmap p)) info = Inr first"
    using firststring_fits [OF _ info_short] by blast
  have ok: "sectors_ok (disk x) 0 (bits_of (bitmap p))" using p(2) on by (auto simp: sectors_ok_iff marks_def)
  obtain files s where c: "compress_volume (se_zlib env) (se_level env) (se_options env) None (se_stack env) (disk x) (nb_sect p) (bitmap p) info = Some (Inr (files, s))"
      "list_all2 (encodes (se_zlib env)) files (file_plain fs (disk x) 0 (block_count (bitmap p)) first (bitmap p) 0)"
    using compress_volume_sat [OF env(1,2) fs(1) first ok env(4)] by blast
  have "\<exists>ui. main env x argv = Some (Inr (ui, files, s))" using c(1) env(3) by (simp add: p(1) save_image_def) (simp add: ret_run_def)
  moreover have "\<exists>data' buf' bmp'. restore (se_zlib env) nolrs fetch buf bmp (Some data) sect = Some (Inr (Some data', 0, buf', bmp')) \<and>
           length data' = length data \<and> volume_restored (disk x) (in_use x) data (512 * unat sect) data'" if "serves fetch files" for fetch nolrs bmp
    using restore_image_files [OF fs first ok small holds assms(6) c(2) that] restored_marks [OF p(2)] by blast
  ultimately show ?thesis by blast
qed

end

section \<open>Properties\<close>

text \<open>
  C7 (\<open>image_e2fs\<close>, \<open>restore\<close>): an ext2 volume saved by its image program is put back by the restore
  program at any sector of a disk that has room for it: all sectors of the blocks in use are as on the
  volume, all other bytes of the disk are kept.
\<close>

theorem e2fs_autorestores:
  assumes "e2fs_good (lib, d)" "usage_ok argv" "\<not> query_only argv" "autorestore_env env ''E2FS=1|TYPE=131''"
    and "512 * unat sect + length (dev_data d) \<le> length data" "length buf = BUFSIZE"
  shows "\<exists>ui files s. image_e2fs env lib (Some d) argv = Some (Inr (ui, files, s)) \<and>
     (\<forall>fetch nolrs bmp. serves fetch files \<longrightarrow>
        (\<exists>data' buf' bmp'. restore (se_zlib env) nolrs fetch buf bmp (Some data) sect = Some (Inr (Some data', 0, buf', bmp')) \<and>
           length data' = length data \<and> volume_restored (dev_data d) (e2fs_in_use (e2fs_view (lib, d))) data (512 * unat sect) data'))"
  using e2fs.main_autorestores [of "(lib, d)", OF assms(1-4), of sect data buf] assms(5,6) by simp

section \<open>Witnesses\<close>

lemma sample_autorestore_env: "unmarked info \<Longrightarrow> autorestore_env sample_save_env info"
  by (auto simp: autorestore_env_def sample_save_env_def stored_zlib_ok level_ok_None options_clean_def filestring_def unmarked_def intro!: exI [of _ "\<lambda>_. []"])

theorem e2fs_autorestores_witness:
  "\<exists>ui files s. image_e2fs sample_save_env sample_ext2_lib (Some sample_ext2_disk) [''image'', ''/dev/hda1'', ''P1''] = Some (Inr (ui, files, s)) \<and>
     (\<forall>fetch nolrs bmp. serves fetch files \<longrightarrow>
        (\<exists>data' buf' bmp'. restore (se_zlib sample_save_env) nolrs fetch (replicate BUFSIZE NUL) bmp (Some (replicate 8192 (CHR ''z''))) 2 =
             Some (Inr (Some data', 0, buf', bmp')) \<and> length data' = 8192 \<and>
           volume_restored (dev_data sample_ext2_disk) (e2fs_in_use (e2fs_view (sample_ext2_lib, sample_ext2_disk))) (replicate 8192 (CHR ''z'')) 1024 data'))"
proof -
  have "autorestore_env sample_save_env ''E2FS=1|TYPE=131''" by (intro sample_autorestore_env) (simp add: unmarked_def)
  moreover have "length (dev_data sample_ext2_disk) = 4096" by (simp add: sample_ext2_disk_def)
  ultimately show ?thesis
    using e2fs_autorestores [OF sample_ext2_good, of "[''image'', ''/dev/hda1'', ''P1'']" sample_save_env 2 "replicate 8192 (CHR ''z'')" "replicate BUFSIZE NUL"]
    by (simp add: usage_ok_def query_only_def)
qed

end
