(* ===== verification/Ptabs.thy ===== *)
theory Ptabs
  imports Restore
begin

text \<open>
  The sectors around the partition tables: \<open>save_raw\<close> of \<^verbatim>\<open>client/revimage/autosave/autosave.c\<close> appends them
  to the file \<^verbatim>\<open>PTABS\<close> of a disk, each with its number in front, and \<open>restore_raw\<close> of
  \<^verbatim>\<open>client/revimage/autorestore/autorestore.c\<close> writes them back. Disks have a fixed size, as in \<open>Restore\<close>; the
  buffers of both programs keep the bytes they had when a read is short.
\<close>

section \<open>Saving\<close>

text \<open>
  The state of the disk is its contents and the position; \<open>buf\<close> is the buffer and \<open>out\<close> the file. The
  counter has 32 bits, so the loop may not end.
\<close>

definition read_at :: "nat \<Rightarrow> ofile \<Rightarrow> string \<Rightarrow> ofile \<times> string" where
  "read_at n f buf = (case f of (data, p) \<Rightarrow> let bs = take n (drop p data) in ((data, p + length bs), bs @ drop (length bs) buf))"

partial_function (option) save_raw_loop :: "u32 \<Rightarrow> u32 \<Rightarrow> ofile \<Rightarrow> string \<Rightarrow> string \<Rightarrow> (ofile \<times> string) option" where
  "save_raw_loop stop s f buf out =
     (if s \<le> stop
      then (case read_at 512 (the (fst (lseek64 (512 * unat s) (Some f)))) buf of
              (f, buf) \<Rightarrow> save_raw_loop stop (s + 1) f buf (out @ le_bytes 4 (unat s) @ take 512 buf))
      else Some (f, out))"

definition save_raw :: "u32 \<Rightarrow> u32 \<Rightarrow> string \<Rightarrow> ofile \<Rightarrow> string \<Rightarrow> (ofile \<times> string) option" where
  "save_raw start stop buf f out = save_raw_loop stop start f buf out"

section \<open>Restoring\<close>

text \<open>
  \<open>fp\<close> is what is left of the file, \<open>None\<close> when it could not be opened: then \<open>read\<close> gives -1, which is not 0.
  The result is the disk and the number of errors shown.
\<close>

definition write_record :: "string \<Rightarrow> ofile option \<times> nat \<Rightarrow> ofile option \<times> nat" where
  "write_record buf st =
     (case st of (f, errs) \<Rightarrow>
        let (f, ok1) = lseek64 (512 * le_nat (take 4 buf)) f;
            (f, ok2) = dev_write (take 512 (drop 4 buf)) f
        in (f, errs + (if ok1 then 0 else 1) + (if ok2 then 0 else 1)))"

partial_function (option) restore_raw_loop :: "string option \<Rightarrow> string \<Rightarrow> ofile option \<times> nat \<Rightarrow> (ofile option \<times> nat) option" where
  "restore_raw_loop fp buf st =
     (if fp = Some [] then Some st
      else let bs = (case fp of None \<Rightarrow> [] | Some r \<Rightarrow> take 516 r); buf = bs @ drop (length bs) buf
           in restore_raw_loop (map_option (drop 516) fp) buf (write_record buf st))"

definition restore_raw :: "string \<Rightarrow> string option \<Rightarrow> string option \<Rightarrow> (string option \<times> nat) option" where
  "restore_raw buf device fp =
     map_option (\<lambda>(f, errs). (map_option fst f, errs)) (restore_raw_loop fp buf (map_option (\<lambda>d. (d, 0)) device, 0))"

section \<open>Records\<close>

text \<open>The records of the sectors \<open>ss\<close> of a disk, and a disk that has them.\<close>

definition records :: "string \<Rightarrow> nat list \<Rightarrow> string" where
  "records disk ss = concat (map (\<lambda>s. le_bytes 4 s @ sector_at disk (512 * s)) ss)"

definition has_sectors :: "string \<Rightarrow> nat list \<Rightarrow> bool" where
  "has_sectors disk ss \<longleftrightarrow> (\<forall>s \<in> set ss. s < 2 ^ 32 \<and> 512 * s + 512 \<le> length disk)"

lemma records_append: "records disk (a @ b) = records disk a @ records disk b"
  by (simp add: records_def)

lemma of_nat32_le: "a < 2 ^ 32 \<Longrightarrow> b < 2 ^ 32 \<Longrightarrow> (of_nat a :: u32) \<le> of_nat b \<longleftrightarrow> a \<le> b"
  using unat_of_nat_small [of a] unat_of_nat_small [of b] by (simp add: word_le_nat_alt)

lemma save_raw_loop_ok:
  assumes "stop < 2 ^ 32 - 1" "has_sectors disk [s..<Suc stop]" "s \<le> Suc stop" "length buf = 1024"
  shows "\<exists>p'. save_raw_loop (of_nat stop) (of_nat s) (disk, p) buf out = Some ((disk, p'), out @ records disk [s..<Suc stop])"
  using assms(2-)
proof (induction "Suc stop - s" arbitrary: s p buf out)
  case 0
  then have "s = Suc stop" by simp
  then have "\<not> (of_nat s :: u32) \<le> of_nat stop" using assms(1) of_nat32_le [of s stop] by simp
  then show ?case using \<open>s = Suc stop\<close> by (subst save_raw_loop.simps) (simp add: records_def)
next
  case (Suc n)
  then have s: "s \<le> stop" "512 * s + 512 \<le> length disk" "s < 2 ^ 32" by (auto simp: has_sectors_def)
  have u: "unat (of_nat s :: u32) = s" using s(3) by (rule unat_of_nat_small)
  have le: "(of_nat s :: u32) \<le> of_nat stop" using s assms(1) of_nat32_le [of s stop] by simp
  let ?b = "sector_at disk (512 * s)"
  have b: "take 512 (drop (512 * s) disk) = ?b" "length ?b = 512" using s(2) by (simp_all add: sector_at_def)
  have "[s..<Suc stop] = s # [Suc s..<Suc stop]" using s(1) by (simp add: upt_conv_Cons)
  then have rec: "records disk [s..<Suc stop] = le_bytes 4 s @ ?b @ records disk [Suc s..<Suc stop]" by (simp add: records_def)
  have "has_sectors disk [Suc s..<Suc stop]" using Suc.prems(1) by (auto simp: has_sectors_def)
  then obtain p' where "save_raw_loop (of_nat stop) (of_nat (Suc s)) (disk, 512 * s + 512) (?b @ drop 512 buf) (out @ le_bytes 4 s @ ?b) =
      Some ((disk, p'), (out @ le_bytes 4 s @ ?b) @ records disk [Suc s..<Suc stop])"
    using Suc.hyps(1) [of "Suc s" "?b @ drop 512 buf" "512 * s + 512" "out @ le_bytes 4 s @ ?b"] Suc.hyps(2) Suc.prems(3) s(1) b(2)
    by (force simp del: upt_Suc)
  then show ?case using le s(2) b u rec
    by (subst save_raw_loop.simps) (simp add: read_at_def lseek64_def add.commute Let_def del: upt_Suc)
qed

lemma save_raw_no_result:
  assumes "save_raw_loop stop s f buf out = Some y"
  shows "stop \<noteq> - 1"
proof (rule save_raw_loop.raw_induct [OF _ assms, where P = "\<lambda>stop s f buf out _. stop \<noteq> - 1"])
  fix loop :: "u32 \<Rightarrow> u32 \<Rightarrow> ofile \<Rightarrow> string \<Rightarrow> string \<Rightarrow> (ofile \<times> string) option" and stop s f buf out y
  assume IH: "\<And>stop s f buf out y. loop stop s f buf out = Some y \<Longrightarrow> stop \<noteq> - 1"
    and step: "(if s \<le> stop then (case read_at 512 (the (fst (lseek64 (512 * unat s) (Some f)))) buf of
        (f, buf) \<Rightarrow> loop stop (s + 1) f buf (out @ le_bytes 4 (unat s) @ take 512 buf)) else Some (f, out)) = Some y"
  show "stop \<noteq> - 1"
  proof
    assume m: "stop = - 1"
    then have "s \<le> stop" by (simp add: word_n1_ge)
    with step obtain f' buf' where "loop stop (s + 1) f' buf' (out @ le_bytes 4 (unat s) @ take 512 buf') = Some y"
      by (cases "read_at 512 (the (fst (lseek64 (512 * unat s) (Some f)))) buf") simp
    with IH m show False by blast
  qed
qed

section \<open>Writing the records back\<close>

lemma write_record_ok:
  assumes "s < 2 ^ 32" "512 * s + 512 \<le> length data" "length sec = 512" "take 516 buf = le_bytes 4 s @ sec"
  shows "write_record buf (Some (data, p), errs) = (Some (write_at data (512 * s) sec, 512 * s + 512), errs)"
proof -
  have "take 4 buf = le_bytes 4 s" using arg_cong [OF assms(4), of "take 4"] by (simp add: min_def)
  moreover have "take 512 (drop 4 buf) = sec" using arg_cong [OF assms(4), of "drop 4"] assms(3) by (simp add: drop_take)
  ultimately show ?thesis using assms(1-3)
    by (simp add: write_record_def lseek64_def dev_write_def le_nat_le_bytes file_write_def Let_def)
qed

text \<open>After a restore of the sectors \<open>ss\<close>: they are those of the disk, all other bytes are kept.\<close>

definition sectors_restored :: "string \<Rightarrow> nat list \<Rightarrow> string \<Rightarrow> string \<Rightarrow> bool" where
  "sectors_restored disk ss data data' \<longleftrightarrow> length data' = length data \<and>
     (\<forall>s \<in> set ss. sector_at data' (512 * s) = sector_at disk (512 * s)) \<and> keeps data data' {q. q div 512 \<in> set ss}"

lemma restored_one:
  assumes "512 * s + 512 \<le> length data" "512 * s + 512 \<le> length disk"
  shows "sectors_restored disk [s] data (write_at data (512 * s) (sector_at disk (512 * s)))"
proof -
  have l: "length (sector_at disk (512 * s)) = 512" using assms(2) by (simp add: sector_at_def)
  have "{512 * s ..< 512 * s + 512} \<subseteq> {q. q div 512 \<in> set [s]}" by (auto intro: div_nat_eqI)
  then have "keeps data (write_at data (512 * s) (sector_at disk (512 * s))) {q. q div 512 \<in> set [s]}"
    using keeps_mono [OF keeps_write_at [OF l]] by blast
  then show ?thesis using assms(1) l by (simp add: sectors_restored_def sector_write_at length_write_at max_def)
qed

lemma restored_join:
  assumes "sectors_restored disk a data d1" "sectors_restored disk b d1 d2" "has_sectors data a"
  shows "sectors_restored disk (a @ b) data d2"
proof -
  have "sector_at d2 (512 * s) = sector_at disk (512 * s)" if "s \<in> set a" "s \<notin> set b" for s
  proof -
    have "{q. q div 512 \<in> set b} \<inter> {512 * s ..< 512 * s + 512} = {}"
    proof -
      have "q div 512 = s" if "512 * s \<le> q" "q < 512 * s + 512" for q using that by (intro div_nat_eqI) simp_all
      then show ?thesis using that(2) by auto
    qed
    moreover have "512 * s + 512 \<le> length d1" using assms(1,3) that(1) by (auto simp: has_sectors_def sectors_restored_def)
    ultimately have "sector_at d2 (512 * s) = sector_at d1 (512 * s)"
      using assms(2) by (intro keeps_sector [of d1 d2 "{q. q div 512 \<in> set b}"]) (simp_all add: sectors_restored_def)
    with assms(1) that(1) show ?thesis by (simp add: sectors_restored_def)
  qed
  moreover have "keeps data d2 {q. q div 512 \<in> set (a @ b)}"
    using keeps_trans [of data d1 _ d2] assms(1,2) by (fastforce simp: sectors_restored_def elim: keeps_mono)
  ultimately show ?thesis using assms(1,2) by (auto simp: sectors_restored_def)
qed

lemma restore_raw_loop_ok:
  "has_sectors disk ss \<Longrightarrow> has_sectors data ss \<Longrightarrow> length buf = 1024 \<Longrightarrow>
   \<exists>data' p'. restore_raw_loop (Some (records disk ss)) buf (Some (data, p), errs) = Some (Some (data', p'), errs) \<and>
     sectors_restored disk ss data data'"
proof (induction ss arbitrary: data p buf)
  case Nil
  then show ?case by (subst restore_raw_loop.simps) (simp add: records_def sectors_restored_def)
next
  case (Cons s ss)
  have s: "s < 2 ^ 32" "512 * s + 512 \<le> length disk" "512 * s + 512 \<le> length data" using Cons.prems(1,2) by (auto simp: has_sectors_def)
  let ?sec = "sector_at disk (512 * s)"
  let ?r = "le_bytes 4 s @ ?sec"
  let ?d = "write_at data (512 * s) ?sec"
  have l: "length ?sec = 512" using s(2) by (simp add: sector_at_def)
  have rec: "records disk (s # ss) = ?r @ records disk ss" by (simp add: records_def)
  have one: "sectors_restored disk [s] data ?d" using s(2,3) by (intro restored_one)
  have "has_sectors ?d ss" using Cons.prems(2) one by (simp add: has_sectors_def sectors_restored_def)
  then obtain data' p' where IH: "restore_raw_loop (Some (records disk ss)) (?r @ drop 516 buf) (Some (?d, 512 * s + 512), errs) = Some (Some (data', p'), errs)"
      "sectors_restored disk ss ?d data'"
    using Cons.IH [of ?d "?r @ drop 516 buf" "512 * s + 512"] Cons.prems(1,3) l by (auto simp: has_sectors_def)
  have "write_record (?r @ drop 516 buf) (Some (data, p), errs) = (Some (?d, 512 * s + 512), errs)"
    using s(1,3) l by (intro write_record_ok) simp_all
  then have "restore_raw_loop (Some (records disk (s # ss))) buf (Some (data, p), errs) = Some (Some (data', p'), errs)"
    unfolding rec using IH(1) l by (subst restore_raw_loop.simps) (auto simp: Let_def)
  moreover have "sectors_restored disk ([s] @ ss) data data'"
    using restored_join [OF one IH(2)] Cons.prems(2) by (simp add: has_sectors_def)
  ultimately show ?case by auto
qed

text \<open>Several calls of \<open>save_raw\<close> on one disk, with the first and last sectors of each.\<close>

fun save_ranges :: "(u32 \<times> u32) list \<Rightarrow> string \<Rightarrow> ofile \<Rightarrow> string \<Rightarrow> (ofile \<times> string) option" where
  "save_ranges [] buf f out = Some (f, out)"
| "save_ranges ((a, b) # rs) buf f out =
     (case save_raw a b buf f out of None \<Rightarrow> None | Some (f, out) \<Rightarrow> save_ranges rs buf f out)"

definition range_sectors :: "(u32 \<times> u32) list \<Rightarrow> nat list" where
  "range_sectors rs = concat (map (\<lambda>(a, b). [unat a..<Suc (unat b)]) rs)"

lemma save_raw_ok:
  assumes "b \<noteq> - 1" "has_sectors disk [unat a..<Suc (unat b)]" "length buf = 1024"
  shows "\<exists>p'. save_raw a b buf (disk, p) out = Some ((disk, p'), out @ records disk [unat a..<Suc (unat b)])"
proof (cases "unat a \<le> Suc (unat b)")
  case True
  have "unat b < 2 ^ 32" using unsigned_less [of b] by simp
  moreover have "unat (- 1 :: u32) = 2 ^ 32 - 1" by (simp add: unsigned_minus_1_eq_mask mask_eq_exp_minus_1)
  then have "unat b \<noteq> 2 ^ 32 - 1" using assms(1) by (metis word_unat_eq_iff)
  ultimately have "unat b < 2 ^ 32 - 1" by simp
  from save_raw_loop_ok [OF this assms(2) True assms(3), of p out] show ?thesis by (simp add: save_raw_def)
next
  case False
  then have "\<not> a \<le> b" by (simp add: word_le_nat_alt)
  then show ?thesis using False by (simp add: save_raw_def records_def save_raw_loop.simps)
qed

lemma save_ranges_ok:
  "\<forall>(a, b) \<in> set rs. b \<noteq> - 1 \<Longrightarrow> has_sectors disk (range_sectors rs) \<Longrightarrow> length buf = 1024 \<Longrightarrow>
   \<exists>p'. save_ranges rs buf (disk, p) out = Some ((disk, p'), out @ records disk (range_sectors rs))"
proof (induction rs arbitrary: p out)
  case Nil
  then show ?case by (simp add: range_sectors_def records_def)
next
  case (Cons r rs)
  obtain a b where r: "r = (a, b)" by (cases r)
  have rng: "range_sectors (r # rs) = [unat a..<Suc (unat b)] @ range_sectors rs" by (simp add: range_sectors_def r del: upt_Suc)
  have h: "has_sectors disk [unat a..<Suc (unat b)]" "has_sectors disk (range_sectors rs)"
    using Cons.prems(2) unfolding rng has_sectors_def by (auto simp del: upt_Suc)
  obtain p1 where "save_raw a b buf (disk, p) out = Some ((disk, p1), out @ records disk [unat a..<Suc (unat b)])"
    using save_raw_ok [OF _ h(1) Cons.prems(3), of p out] Cons.prems(1) r by (auto simp del: upt_Suc)
  with Cons.IH [OF _ h(2) Cons.prems(3), of p1 "out @ records disk [unat a..<Suc (unat b)]"] Cons.prems(1) show ?case
    unfolding rng by (auto simp: r records_append simp del: upt_Suc)
qed

lemma restore_raw_no_result:
  assumes "restore_raw_loop fp buf st = Some y"
  shows "fp \<noteq> None"
proof (rule restore_raw_loop.raw_induct [OF _ assms, where P = "\<lambda>fp buf st _. fp \<noteq> None"])
  fix loop :: "string option \<Rightarrow> string \<Rightarrow> ofile option \<times> nat \<Rightarrow> (ofile option \<times> nat) option" and fp buf st y
  assume IH: "\<And>fp buf st y. loop fp buf st = Some y \<Longrightarrow> fp \<noteq> None"
    and step: "(if fp = Some [] then Some st
      else let bs = (case fp of None \<Rightarrow> [] | Some r \<Rightarrow> take 516 r); buf = bs @ drop (length bs) buf
           in loop (map_option (drop 516) fp) buf (write_record buf st)) = Some y"
  show "fp \<noteq> None"
  proof
    assume "fp = None"
    with step have "loop None buf (write_record buf st) = Some y" by (simp add: Let_def)
    with IH show False by blast
  qed
qed

section \<open>Properties\<close>

text \<open>
  C8 (\<open>save_raw\<close>, \<open>restore_raw\<close>): whatever ranges of sectors of a disk are saved to its \<^verbatim>\<open>PTABS\<close>, one after
  the other and possibly overlapping, the restore reads the file to its end, shows no error, and
  makes exactly these sectors the same as on the saved disk; all other bytes are kept.
\<close>

theorem ptabs_roundtrip:
  assumes "\<forall>(a, b) \<in> set rs. b \<noteq> - 1" "has_sectors disk (range_sectors rs)" "has_sectors data (range_sectors rs)"
    and "length buf = 1024" "length buf' = 1024"
  shows "\<exists>f out data'. save_ranges rs buf (disk, p) [] = Some (f, out) \<and>
     restore_raw buf' (Some data) (Some out) = Some (Some data', 0) \<and> sectors_restored disk (range_sectors rs) data data'"
proof -
  obtain p' where "save_ranges rs buf (disk, p) [] = Some ((disk, p'), records disk (range_sectors rs))"
    using save_ranges_ok [OF assms(1,2,4), of p "[]"] by auto
  moreover obtain data' p'' where
      "restore_raw_loop (Some (records disk (range_sectors rs))) buf' (Some (data, 0), 0) = Some (Some (data', p''), 0)"
      "sectors_restored disk (range_sectors rs) data data'"
    using restore_raw_loop_ok [OF assms(2,3,5)] by blast
  ultimately show ?thesis by (simp add: restore_raw_def)
qed

text \<open>
  (\<open>save_raw\<close>): when the last sector is the largest number of 32 bits, the loop never ends, whatever the
  disk: the counter wraps to 0. \<open>save\<close> computes the last sector of a dynamic disk as \<open>config_start +
  config_size - 1\<close> from the disk, without a check.
\<close>

theorem save_raw_endless: "config_start + config_size = 0 \<Longrightarrow> save_raw start (config_start + config_size - 1) buf f out = None"
  using save_raw_no_result [of "- 1" start f buf out] by (cases "save_raw_loop (- 1) start f buf out") (auto simp: save_raw_def)

text \<open>
  (\<open>restore_raw\<close>): when the file with the partition tables cannot be opened, the loop never ends:
  \<open>read\<close> gives -1, which is not taken for the end, and the buffer is written to the disk again and again.
\<close>

theorem ptabs_missing_endless: "restore_raw buf device None = None"
  using restore_raw_no_result [of None buf "(map_option (\<lambda>d. (d, 0)) device, 0)"]
  by (cases "restore_raw_loop None buf (map_option (\<lambda>d. (d, 0)) device, 0)") (auto simp: restore_raw_def)

section \<open>Witnesses\<close>

theorem ptabs_roundtrip_witness:
  "\<exists>f out data'. save_ranges [(0, 1), (1, 2)] (replicate 1024 NUL) (sample_disk, 0) [] = Some (f, out) \<and>
     restore_raw (replicate 1024 NUL) (Some (replicate 2048 (CHR ''z''))) (Some out) = Some (Some data', 0) \<and>
     sectors_restored sample_disk [0, 1, 1, 2] (replicate 2048 (CHR ''z'')) data'"
proof -
  have r: "range_sectors [(0, 1), (1, 2)] = [0, 1, 1, 2]" by (simp add: range_sectors_def upt_rec)
  show ?thesis
    using ptabs_roundtrip [of "[(0, 1), (1, 2)]" sample_disk "replicate 2048 (CHR ''z'')" "replicate 1024 NUL" "replicate 1024 NUL" 0]
    unfolding r by (simp add: has_sectors_def sample_disk_def)
qed

theorem save_raw_endless_witness: "save_raw 0 (0 + 0 - 1) (replicate 1024 NUL) (sample_disk, 0) [] = None"
  by (rule save_raw_endless) simp

end
