(* ===== verification/Sscanf.thy ===== *)
theory Sscanf
  imports LRS_Prelude
begin

text \<open>
  \<open>sscanf\<close> and \<open>fscanf\<close> as the save and restore programs use them: the format string is read as
  directives, and a scan gives the values that are assigned before the first failure and what is left
  of the input. Also the loop \<open>while (!feof(f)) { fgets(buf, n, f); ... }\<close> of these programs, which
  looks at the last line twice.
\<close>

section \<open>Formats\<close>

datatype directive = Blank | Exactly char | Signed bool | Unsigned bool | Word bool

text \<open>The flag says whether the value is assigned (no star).\<close>

definition conversion :: "bool \<Rightarrow> char \<Rightarrow> directive" where
  "conversion b c = (if c = CHR ''d'' then Signed b else if c = CHR ''u'' then Unsigned b else Word b)"

definition literal :: "char \<Rightarrow> directive" where
  "literal c = (if isspace c then Blank else Exactly c)"

text \<open>The reader of a format is in plain text, behind a percent sign, or behind a percent sign and a star.\<close>

datatype reader = Plain | Percent | Star

fun directives :: "reader \<Rightarrow> string \<Rightarrow> directive list" where
  "directives q [] = []"
| "directives Plain (c # s) = (if c = CHR ''%'' then directives Percent s else literal c # directives Plain s)"
| "directives Percent (c # s) = (if c = CHR ''*'' then directives Star s else conversion True c # directives Plain s)"
| "directives Star (c # s) = conversion False c # directives Plain s"

datatype sval = Num int | Text string

text \<open>\<open>%u\<close>: as \<open>strtoul\<close> on 32 bits, with an optional sign; a value that does not fit is the largest one.\<close>

definition scan_uint :: "string \<Rightarrow> (nat \<times> string) option" where
  "scan_uint s =
     (case dropWhile isspace s of
        [] \<Rightarrow> None
      | c # cs \<Rightarrow>
          if isdigit c then (let (n, r) = scan_digits 0 (c # cs) in Some (min n (2 ^ 32 - 1), r))
          else if (c = CHR ''-'' \<or> c = CHR ''+'') \<and> cs \<noteq> [] \<and> isdigit (hd cs)
          then (let (n, r) = scan_digits 0 cs
                in Some (if 2 ^ 32 - 1 < n then 2 ^ 32 - 1 else if c = CHR ''-'' then unat (- (of_nat n :: u32)) else n, r))
          else None)"

definition scan_text :: "string \<Rightarrow> (string \<times> string) option" where
  "scan_text s =
     (let t = dropWhile isspace s; w = takeWhile (\<lambda>c. \<not> isspace c) t
      in if w = [] then None else Some (w, dropWhile (\<lambda>c. \<not> isspace c) t))"

fun scan :: "directive list \<Rightarrow> string \<Rightarrow> sval list \<times> string" where
  "scan [] s = ([], s)"
| "scan (Blank # ds) s = scan ds (dropWhile isspace s)"
| "scan (Exactly c # ds) s = (case s of x # t \<Rightarrow> if x = c then scan ds t else ([], s) | [] \<Rightarrow> ([], s))"
| "scan (Signed b # ds) s =
     (case scan_int s of None \<Rightarrow> ([], dropWhile isspace s) | Some (i, r) \<Rightarrow> (case scan ds r of (vs, r) \<Rightarrow> (if b then Num i # vs else vs, r)))"
| "scan (Unsigned b # ds) s =
     (case scan_uint s of None \<Rightarrow> ([], dropWhile isspace s) | Some (i, r) \<Rightarrow> (case scan ds r of (vs, r) \<Rightarrow> (if b then Num (int i) # vs else vs, r)))"
| "scan (Word b # ds) s =
     (case scan_text s of None \<Rightarrow> ([], dropWhile isspace s) | Some (w, r) \<Rightarrow> (case scan ds r of (vs, r) \<Rightarrow> (if b then Text w # vs else vs, r)))"

definition sscanf :: "string \<Rightarrow> string \<Rightarrow> sval list" where
  "sscanf format s = fst (scan (directives Plain format) s)"

section \<open>Scanning what was printed\<close>

lemma scan_uint_show_nat:
  assumes "no_digit_head r" "n < 2 ^ 32"
  shows "scan_uint (show_nat n @ r) = Some (n, r)"
proof -
  obtain c cs where c: "show_nat n = c # cs" "isdigit c" "\<not> isspace c" by (rule show_nat_cases)
  have d: "scan_digits 0 (c # cs @ r) = (n, r)"
    using scan_digits_show_nat [OF assms(1), of n] c by simp
  from c assms(2) show ?thesis
    by (simp add: scan_uint_def d del: scan_digits.simps)
qed

lemma scan_uint_blank [simp]: "isspace c \<Longrightarrow> scan_uint (c # s) = scan_uint s"
  by (simp add: scan_uint_def)

lemma scan_text_blank [simp]: "isspace c \<Longrightarrow> scan_text (c # s) = scan_text s"
  by (simp add: scan_text_def)

text \<open>A word, and that nothing of it is scanned on.\<close>

definition is_word :: "string \<Rightarrow> bool" where
  "is_word w \<longleftrightarrow> w \<noteq> [] \<and> (\<forall>c \<in> set w. \<not> isspace c)"

definition word_ends :: "string \<Rightarrow> bool" where
  "word_ends r \<longleftrightarrow> (case r of [] \<Rightarrow> True | c # _ \<Rightarrow> isspace c)"

lemma scan_text_word: "is_word w \<Longrightarrow> word_ends r \<Longrightarrow> scan_text (w @ r) = Some (w, r)"
proof -
  assume w: "is_word w" "word_ends r"
  then have d: "dropWhile isspace (w @ r) = w @ r" by (cases w) (auto simp: is_word_def)
  have "takeWhile (\<lambda>c. \<not> isspace c) (w @ r) = w" "dropWhile (\<lambda>c. \<not> isspace c) (w @ r) = r"
    using w by (cases r; simp add: is_word_def word_ends_def)+
  with d w show ?thesis by (simp add: scan_text_def is_word_def)
qed

section \<open>Lines until feof\<close>

text \<open>
  After the last line \<open>feof\<close> is only set when the read met the end of the file; otherwise \<open>fgets\<close> fails
  once, and the buffer still has the last line, or what was in it before (\<open>junk\<close>) if there was no line.
\<close>

definition feof_lines :: "nat \<Rightarrow> string \<Rightarrow> string \<Rightarrow> string list" where
  "feof_lines n junk s =
     (let ls = fgets_all n s
      in if ls = [] then [junk]
         else if last (last ls) = NL \<or> length (last ls) = n - 1 then ls @ [last ls] else ls)"

end
