(* ===== verification/Disk_Maps.thy ===== *)
theory Disk_Maps
  imports Ptabs Sscanf
begin

text \<open>
  The tables of \<^verbatim>\<open>client/revimage/autosave/autosave.c\<close>: the numbers the BIOS gives to the disks
  (\<open>loadhdmap\<close>, \<open>gethdbios\<close>), the partitions that are not saved (\<open>loadexcludemap\<close>, \<open>isexcluded\<close>), the
  prefix of the file names of a disk (\<open>dnum2pre\<close>), the partitions in the order they are found
  (\<open>get_nextpart\<close>), and the test for a disk of the logical disk manager (\<open>ldm_check\<close>).

  Both tables are static arrays of 65536 words; an index outside of them is a fault. A shift by 32 or
  more uses the low five bits of the count, as the machine does.
\<close>

section \<open>Tables read from a file\<close>

type_synonym tab = "nat \<Rightarrow> u32"

definition tab_size :: nat where "tab_size = 65536"

text \<open>
  The loop \<open>while (!feof(f)) if (fscanf(f, "%d=%d\n", &d, &n) == 2) ...\<close>: a scan that fails in front of a
  character leaves it there, and the loop does not end. \<open>upd\<close> is what is done with a pair.
\<close>

partial_function (option) load_pairs :: "string \<Rightarrow> (u32 \<Rightarrow> u32 \<Rightarrow> tab \<Rightarrow> tab res) \<Rightarrow> string \<Rightarrow> tab \<Rightarrow> tab run" where
  "load_pairs format upd s t =
     (case scan (directives Plain format) s of
        (vs, r) \<Rightarrow>
          (case (case vs of [Num d, Num n] \<Rightarrow> upd (of_int d) (of_int n) t | _ \<Rightarrow> Inr t) of
             Inl e \<Rightarrow> Some (Inl e)
           | Inr t \<Rightarrow> if r = [] then Some (Inr t) else load_pairs format upd r t))"

definition set_entry :: "(u32 \<Rightarrow> u32) \<Rightarrow> u32 \<Rightarrow> tab \<Rightarrow> tab res" where
  "set_entry f d t = (if unat d < tab_size then Inr (t(unat d := f (t (unat d)))) else Inl BufOverflow)"

text \<open>The first 256 entries are reset; the others are as the program started with them.\<close>

definition no_disks :: tab where
  "no_disks i = (if i < 256 then 0xFFFFFFFF else 0)"

definition loadhdmap :: "string option \<Rightarrow> (bool \<times> tab) run" where
  "loadhdmap f =
     (case f of None \<Rightarrow> ret_run (False, no_disks)
      | Some s \<Rightarrow> bind_run (load_pairs (''%d=%d'' @ [NL]) (\<lambda>d n. set_entry (\<lambda>_. n) d) s no_disks) (\<lambda>t. ret_run (True, t)))"

definition exclude_entry :: "u32 \<Rightarrow> u32 \<Rightarrow> tab \<Rightarrow> tab res" where
  "exclude_entry d n = set_entry (\<lambda>x. if n = 0 then 0xFFFFFFFF else x OR push_bit (unat (n - 1) mod 32) 1) d"

definition loadexcludemap :: "string option \<Rightarrow> tab run" where
  "loadexcludemap f =
     (case f of None \<Rightarrow> ret_run (\<lambda>_. 0) | Some s \<Rightarrow> load_pairs (''%d:%d'' @ [NL]) exclude_entry s (\<lambda>_. 0))"

definition isexcluded :: "tab \<Rightarrow> int \<Rightarrow> int \<Rightarrow> bool res" where
  "isexcluded t disk part =
     (if 0 \<le> disk \<and> disk < int tab_size
      then Inr (t (nat disk) AND push_bit (nat ((part - 1) mod 32)) 1 \<noteq> 0)
      else Inl OutOfBounds)"

section \<open>Numbers of disks\<close>

text \<open>The last number given and the table; a disk is recognised by its size or its size plus one.\<close>

record bios =
  lastnum :: int
  has_hdmap :: bool
  hdmap :: tab

definition find_size :: "u32 \<Rightarrow> tab \<Rightarrow> nat option" where
  "find_size sect t = find (\<lambda>i. sect = t i \<or> sect + 1 = t i) [0..<256]"

definition gethdbios :: "u32 \<Rightarrow> bios \<Rightarrow> int \<times> bios" where
  "gethdbios sect b =
     (let b = b\<lparr>lastnum := lastnum b + 1\<rparr>
      in if \<not> has_hdmap b then (lastnum b + 128, b)
         else case find_size sect (hdmap b) of
                None \<Rightarrow> (lastnum b + 128, b\<lparr>hdmap := (hdmap b)(256 := 0xFFFFFFFF)\<rparr>)
              | Some i \<Rightarrow> (int i + 128, b\<lparr>lastnum := int i, hdmap := (hdmap b)(i := 0xFFFFFFFF)\<rparr>))"

definition upper_hex :: "nat \<Rightarrow> char" where
  "upper_hex n = (if n < 10 then char_of (48 + n) else char_of (55 + n))"

definition dnum2pre :: "int \<Rightarrow> string" where
  "dnum2pre dnum =
     (if 0xFFF \<le> dnum then let n = nat (dnum mod 256) in ''Lvm'' @ [upper_hex (n div 16), upper_hex (n mod 16)]
      else let c = char_of (nat ((80 + (dnum - 128)) mod 256)) in if c = NUL then [] else [c])"

section \<open>Partitions\<close>

record part =
  p_device :: string
  p_minor :: int
  p_major :: int

text \<open>A line of \<^verbatim>\<open>/proc/partitions\<close>; device mapper entries are ignored.\<close>

definition proc_part :: "string \<Rightarrow> part option" where
  "proc_part l =
     (case sscanf ''%d %d %*d %s'' l of
        [Num ma, Num mi, Text dev] \<Rightarrow> if ma \<noteq> 254 then Some \<lparr>p_device = dev, p_minor = mi, p_major = ma\<rparr> else None
      | _ \<Rightarrow> None)"

text \<open>
  An entry of \<^verbatim>\<open>/dev/mapper\<close>: its name and, unless \<open>lstat\<close> fails, whether it is a block device and its
  numbers. Entries that are no block devices are skipped.
\<close>

type_synonym dirent = "string \<times> (bool \<times> int \<times> int) option"

definition mapper_part :: "dirent \<Rightarrow> part option" where
  "mapper_part e =
     (case e of (name, st) \<Rightarrow>
        if name = ''.'' \<or> name = ''..'' \<or> name = ''control'' then None
        else case st of
               Some (True, ma, mi) \<Rightarrow> Some \<lparr>p_device = snprintf 255 (''mapper/'' @ name), p_minor = mi, p_major = ma\<rparr>
             | _ \<Rightarrow> None)"

text \<open>What the calls of \<open>get_nextpart\<close> give, one after the other, until they give nothing.\<close>

definition get_parts :: "string option \<Rightarrow> dirent list option \<Rightarrow> part list res" where
  "get_parts proc mapper =
     (case proc of
        None \<Rightarrow> Inl (Exit 1)
      | Some s \<Rightarrow> Inr (List.map_filter (\<lambda>l. proc_part (cstr l)) (fgets_all 255 s) @
                       (case mapper of None \<Rightarrow> [] | Some es \<Rightarrow> List.map_filter mapper_part es)))"

text \<open>The numbers of whole disks (IDE, SCSI, Compaq).\<close>

definition whole_disk :: "int \<Rightarrow> int \<Rightarrow> bool" where
  "whole_disk major minor \<longleftrightarrow>
     (major = 3 \<or> major = 22 \<or> major = 33 \<or> major = 34) \<and> minor AND 0x3F = 0 \<or>
     (major = 8 \<or> major = 65 \<or> (72 \<le> major \<and> major \<le> 79) \<or> (104 \<le> major \<and> major \<le> 111)) \<and> minor AND 0xF = 0"

section \<open>The logical disk manager\<close>

definition swab64 :: "u64 \<Rightarrow> u64" where
  "swab64 x =
     push_bit 56 (x AND 0x00000000000000FF) OR push_bit 40 (x AND 0x000000000000FF00) OR
     push_bit 24 (x AND 0x0000000000FF0000) OR push_bit 8 (x AND 0x00000000FF000000) OR
     drop_bit 8 (x AND 0x000000FF00000000) OR drop_bit 24 (x AND 0x0000FF0000000000) OR
     drop_bit 40 (x AND 0x00FF000000000000) OR drop_bit 56 (x AND 0xFF00000000000000)"

definition u64_at :: "nat \<Rightarrow> string \<Rightarrow> u64" where
  "u64_at p buf = of_nat (le_nat (take 8 (drop p buf)))"

text \<open>The start and the size of the database, if there is one; \<open>buf\<close> is the buffer on the stack.\<close>

definition ldm_check :: "string \<Rightarrow> ofile \<Rightarrow> ofile \<times> (u64 \<times> u64) option" where
  "ldm_check buf f =
     (case read_at 512 (the (fst (lseek64 (6 * 512) (Some f)))) buf of
        (f, buf) \<Rightarrow>
          (f, if take 8 buf = ''PRIVHEAD'' then Some (swab64 (u64_at 0x12B buf), swab64 (u64_at 0x133 buf)) else None))"

section \<open>Reading printed pairs\<close>

definition print_pair :: "char \<Rightarrow> nat \<times> nat \<Rightarrow> string" where
  "print_pair sep p = show_nat (fst p) @ sep # show_nat (snd p) @ [NL]"

definition print_pairs :: "char \<Rightarrow> (nat \<times> nat) list \<Rightarrow> string" where
  "print_pairs sep ps = concat (map (print_pair sep) ps)"

fun add_pairs :: "(u32 \<Rightarrow> u32 \<Rightarrow> tab \<Rightarrow> tab res) \<Rightarrow> (nat \<times> nat) list \<Rightarrow> tab \<Rightarrow> tab res" where
  "add_pairs upd [] t = Inr t"
| "add_pairs upd ((d, n) # ps) t = bind_res (upd (of_nat d) (of_nat n) t) (add_pairs upd ps)"

lemma dropWhile_pairs: "dropWhile isspace (print_pairs sep ps) = print_pairs sep ps"
proof (cases ps)
  case (Cons p qs)
  obtain c cs where "show_nat (fst p) = c # cs" "isdigit c" "\<not> isspace c" by (rule show_nat_cases)
  with Cons show ?thesis by (simp add: print_pairs_def print_pair_def)
qed (simp add: print_pairs_def)

lemma scan_pair:
  assumes "\<not> isdigit sep" "\<not> isspace sep" "sep \<noteq> CHR ''%''" "d < 2 ^ 31" "n < 2 ^ 31"
  shows "scan (directives Plain (''%d'' @ sep # ''%d'' @ [NL])) (print_pairs sep ((d, n) # ps)) = ([Num (int d), Num (int n)], print_pairs sep ps)"
proof -
  have ds: "directives Plain (''%d'' @ sep # ''%d'' @ [NL]) = [Signed True, Exactly sep, Signed True, Blank]"
    using assms(2,3) by (simp add: conversion_def literal_def isspace_def)
  have "print_pairs sep ((d, n) # ps) = show_nat d @ sep # show_nat n @ NL # print_pairs sep ps"
    by (simp add: print_pairs_def print_pair_def)
  moreover have "scan_int (show_nat d @ sep # show_nat n @ NL # print_pairs sep ps) = Some (int d, sep # show_nat n @ NL # print_pairs sep ps)"
    "scan_int (show_nat n @ NL # print_pairs sep ps) = Some (int n, NL # print_pairs sep ps)"
    using assms(1,4,5) by (simp_all add: scan_int_show_nat isdigit_def)
  moreover have "isspace NL" by (simp add: isspace_def)
  ultimately show ?thesis unfolding ds by (simp add: dropWhile_pairs)
qed

lemma load_printed:
  assumes "\<not> isdigit sep" "\<not> isspace sep" "sep \<noteq> CHR ''%''"
  shows "\<forall>(d, n) \<in> set ps. d < 2 ^ 31 \<and> n < 2 ^ 31 \<Longrightarrow> ps \<noteq> [] \<Longrightarrow>
     load_pairs (''%d'' @ sep # ''%d'' @ [NL]) upd (print_pairs sep ps) t = Some (add_pairs upd ps t)"
proof (induction ps arbitrary: t)
  case (Cons p ps)
  obtain d n where p: "p = (d, n)" by (cases p)
  have sc: "scan (directives Plain (''%d'' @ sep # ''%d'' @ [NL])) (print_pairs sep ((d, n) # ps)) = ([Num (int d), Num (int n)], print_pairs sep ps)"
    using Cons.prems(1) p by (intro scan_pair assms) auto
  have nil: "print_pairs sep ps = [] \<longleftrightarrow> ps = []" by (cases ps) (auto simp: print_pairs_def print_pair_def)
  show ?case
  proof (cases "upd (of_nat d) (of_nat n) t")
    case (Inl e)
    then show ?thesis unfolding p by (subst load_pairs.simps) (simp add: sc del: directives.simps append_Cons)
  next
    case (Inr t')
    then have "load_pairs (''%d'' @ sep # ''%d'' @ [NL]) upd (print_pairs sep ((d, n) # ps)) t =
        (if ps = [] then Some (Inr t') else load_pairs (''%d'' @ sep # ''%d'' @ [NL]) upd (print_pairs sep ps) t')"
      by (subst load_pairs.simps) (simp add: sc nil del: directives.simps append_Cons)
    then show ?thesis unfolding p using Cons.IH [of t'] Cons.prems(1) Inr by (cases "ps = []") simp_all
  qed
qed simp

lemma load_nothing: "load_pairs (''%d'' @ sep # f) upd [] t = Some (Inr t)"
  by (subst load_pairs.simps) (simp add: conversion_def scan_int_def)

lemma load_printed':
  assumes "\<forall>(d, n) \<in> set ps. d < 2 ^ 31 \<and> n < 2 ^ 31" "sep = CHR ''='' \<or> sep = CHR '':''"
  shows "load_pairs (''%d'' @ sep # ''%d'' @ [NL]) upd (print_pairs sep ps) t = Some (add_pairs upd ps t)"
proof (cases "ps = []")
  case True
  then show ?thesis using load_nothing [of sep "''%d'' @ [NL]" upd t] by (simp add: print_pairs_def)
next
  case False
  have "\<not> isdigit sep" "\<not> isspace sep" "sep \<noteq> CHR ''%''" using assms(2) by (auto simp: isdigit_def isspace_def)
  from load_printed [OF this assms(1) False] show ?thesis .
qed

section \<open>Excluded partitions\<close>

lemma exclude_entry_bits:
  assumes "d < tab_size" "n \<le> 32"
  shows "\<exists>t'. exclude_entry (of_nat d) (of_nat n) t = Inr t' \<and>
     (\<forall>i k. k < 32 \<longrightarrow> bit (t' i) k = (bit (t i) k \<or> i = d \<and> (n = 0 \<or> n = k + 1)))"
proof -
  have u: "unat (of_nat d :: u32) = d" using assms(1) by (intro unat_of_nat_small) (simp add: tab_size_def)
  have all: "(0xFFFFFFFF :: u32) = - 1" by simp
  show ?thesis
  proof (cases n)
    case 0
    then show ?thesis using assms(1) u by (simp add: exclude_entry_def set_entry_def all)
  next
    case (Suc m)
    have "(of_nat n :: u32) - 1 = of_nat m" using Suc by simp
    moreover have "unat (of_nat m :: u32) = m" "unat (of_nat n :: u32) = n" using assms(2) Suc by (intro unat_of_nat_small; simp)+
    then have "(of_nat n :: u32) \<noteq> 0" using Suc by auto
    ultimately show ?thesis using assms u Suc \<open>unat (of_nat m :: u32) = m\<close>
      by (auto simp: exclude_entry_def set_entry_def bit_or_iff bit_push_bit_iff bit_1_iff bit_exp_iff)
  qed
qed

lemma add_excluded:
  "\<forall>(d, n) \<in> set ps. d < tab_size \<and> n \<le> 32 \<Longrightarrow>
   \<exists>t'. add_pairs exclude_entry ps t = Inr t' \<and> (\<forall>i k. k < 32 \<longrightarrow> bit (t' i) k = (bit (t i) k \<or> (i, 0) \<in> set ps \<or> (i, k + 1) \<in> set ps))"
proof (induction ps arbitrary: t)
  case (Cons p ps)
  obtain d n where p: "p = (d, n)" by (cases p)
  obtain t1 where t1: "exclude_entry (of_nat d) (of_nat n) t = Inr t1" "\<And>i k. k < 32 \<Longrightarrow> bit (t1 i) k = (bit (t i) k \<or> i = d \<and> (n = 0 \<or> n = k + 1))"
    using exclude_entry_bits [of d n t] Cons.prems p by auto
  obtain t2 where t2: "add_pairs exclude_entry ps t1 = Inr t2" "\<And>i k. k < 32 \<Longrightarrow> bit (t2 i) k = (bit (t1 i) k \<or> (i, 0) \<in> set ps \<or> (i, k + 1) \<in> set ps)"
    using Cons.IH [of t1] Cons.prems by auto
  have "bit (t2 i) k = (bit (t i) k \<or> (i, 0) \<in> set (p # ps) \<or> (i, k + 1) \<in> set (p # ps))" if "k < 32" for i k
    using t1(2) [OF that] t2(2) [OF that] by (auto simp: p)
  with t1(1) t2(1) show ?case by (auto simp: p)
qed simp

lemma isexcluded_bit:
  assumes "d < tab_size" "1 \<le> p" "p \<le> 32"
  shows "isexcluded t (int d) (int p) = Inr (bit (t d) (p - 1))"
proof -
  have "nat ((int p - 1) mod 32) = p - 1" using assms(2,3) by (simp add: nat_mod_distrib of_nat_diff)
  then show ?thesis using assms(1) by (simp add: isexcluded_def bit_iff_and_push_bit_not_eq_0)
qed

section \<open>The numbers of the disks\<close>

fun bios_numbers :: "u32 list \<Rightarrow> bios \<Rightarrow> int list" where
  "bios_numbers [] b = []"
| "bios_numbers (s # ss) b = (case gethdbios s b of (n, b) \<Rightarrow> n # bios_numbers ss b)"

lemma numbers_in_order: "\<not> has_hdmap b \<Longrightarrow> bios_numbers ss b = map (\<lambda>k. lastnum b + 129 + int k) [0..<length ss]"
proof (induction ss arbitrary: b)
  case (Cons s ss)
  have "map (\<lambda>k. lastnum b + 129 + int k) [0..<length (s # ss)] = (lastnum b + 129) # map (\<lambda>k. lastnum b + 1 + 129 + int k) [0..<length ss]"
    by (simp add: upt_conv_Cons comp_def add.assoc flip: map_Suc_upt del: upt_Suc)
  with Cons show ?case by (simp add: gethdbios_def Let_def)
qed simp

lemma find_size_Some: "find_size s t = Some i \<Longrightarrow> i < 256 \<and> (t i = s \<or> t i = s + 1)"
  unfolding find_size_def by (auto simp: find_Some_iff)

text \<open>Every disk of the list is found in the table, at its turn.\<close>

fun all_found :: "u32 list \<Rightarrow> bios \<Rightarrow> bool" where
  "all_found [] b \<longleftrightarrow> True"
| "all_found (s # ss) b \<longleftrightarrow> find_size s (hdmap b) \<noteq> None \<and> all_found ss (snd (gethdbios s b))"

lemma gethdbios_found:
  "has_hdmap b \<Longrightarrow> find_size s (hdmap b) = Some i \<Longrightarrow>
   gethdbios s b = (int i + 128, b\<lparr>lastnum := int i, hdmap := (hdmap b)(i := - 1)\<rparr>)"
proof -
  have "(0xFFFFFFFF :: u32) = - 1" by simp
  then show "has_hdmap b \<Longrightarrow> find_size s (hdmap b) = Some i \<Longrightarrow> ?thesis" by (simp only: gethdbios_def Let_def) simp
qed

text \<open>A mark is never the size of a disk: no number is given twice.\<close>

lemma numbers_found:
  "has_hdmap b \<Longrightarrow> all_found ss b \<Longrightarrow> \<forall>s \<in> set ss. s \<noteq> - 1 \<and> s + 1 \<noteq> - 1 \<Longrightarrow>
   distinct (bios_numbers ss b) \<and> (\<forall>n \<in> set (bios_numbers ss b). \<exists>i < 256. n = int i + 128 \<and> hdmap b i \<noteq> - 1) \<and>
   list_all2 (\<lambda>s n. \<exists>i < 256. n = int i + 128 \<and> (hdmap b i = s \<or> hdmap b i = s + 1)) ss (bios_numbers ss b)"
proof (induction ss arbitrary: b)
  case (Cons s ss)
  obtain i where f: "find_size s (hdmap b) = Some i" using Cons.prems(2) by auto
  let ?b = "b\<lparr>lastnum := int i, hdmap := (hdmap b)(i := - 1)\<rparr>"
  have g: "gethdbios s b = (int i + 128, ?b)" using gethdbios_found [OF Cons.prems(1) f] .
  have i: "i < 256" "hdmap b i = s \<or> hdmap b i = s + 1" "hdmap b i \<noteq> - 1"
    using find_size_Some [OF f] Cons.prems(3) by auto
  have IH: "distinct (bios_numbers ss ?b)" "\<forall>n \<in> set (bios_numbers ss ?b). \<exists>j < 256. n = int j + 128 \<and> hdmap ?b j \<noteq> - 1"
      "list_all2 (\<lambda>s n. \<exists>j < 256. n = int j + 128 \<and> (hdmap ?b j = s \<or> hdmap ?b j = s + 1)) ss (bios_numbers ss ?b)"
    using Cons.IH [of ?b] Cons.prems g by auto
  have "int i + 128 \<notin> set (bios_numbers ss ?b)" using IH(2) by fastforce
  moreover have "\<forall>n \<in> set (bios_numbers ss ?b). \<exists>j < 256. n = int j + 128 \<and> hdmap b j \<noteq> - 1"
    using IH(2) by (fastforce split: if_splits)
  moreover have "list_all2 (\<lambda>s n. \<exists>j < 256. n = int j + 128 \<and> (hdmap b j = s \<or> hdmap b j = s + 1)) ss (bios_numbers ss ?b)"
  proof (rule list.rel_mono_strong [OF IH(3)])
    fix s n
    assume "s \<in> set ss" "\<exists>j < 256. n = int j + 128 \<and> (hdmap ?b j = s \<or> hdmap ?b j = s + 1)"
    moreover have "s \<noteq> - 1 \<and> s + 1 \<noteq> - 1" using Cons.prems(3) \<open>s \<in> set ss\<close> by simp
    ultimately show "\<exists>j < 256. n = int j + 128 \<and> (hdmap b j = s \<or> hdmap b j = s + 1)" by (auto split: if_splits)
  qed
  ultimately show ?case using IH(1) i g by auto
qed simp

lemma stuck_no_result:
  assumes "load_pairs (''%d'' @ f) upd s t = Some y"
  shows "\<not> (\<exists>c cs. s = c # cs \<and> \<not> isdigit c \<and> \<not> isspace c \<and> c \<noteq> CHR ''-'' \<and> c \<noteq> CHR ''+'')"
proof (rule load_pairs.raw_induct [OF _ assms, where P = "\<lambda>format upd s t _. (\<exists>f. format = ''%d'' @ f) \<longrightarrow>
      \<not> (\<exists>c cs. s = c # cs \<and> \<not> isdigit c \<and> \<not> isspace c \<and> c \<noteq> CHR ''-'' \<and> c \<noteq> CHR ''+'')", rule_format, rotated])
  show "\<exists>f'. ''%d'' @ f = ''%d'' @ f'" by blast
next
  fix loop :: "string \<Rightarrow> (u32 \<Rightarrow> u32 \<Rightarrow> tab \<Rightarrow> tab res) \<Rightarrow> string \<Rightarrow> tab \<Rightarrow> tab run" and format upd s t y
  assume IH: "\<And>format upd s t y. loop format upd s t = Some y \<Longrightarrow> \<exists>f. format = ''%d'' @ f \<Longrightarrow>
      \<not> (\<exists>c cs. s = c # cs \<and> \<not> isdigit c \<and> \<not> isspace c \<and> c \<noteq> CHR ''-'' \<and> c \<noteq> CHR ''+'')"
    and step: "(case scan (directives Plain format) s of (vs, r) \<Rightarrow>
          (case (case vs of [Num d, Num n] \<Rightarrow> upd (of_int d) (of_int n) t | _ \<Rightarrow> Inr t) of Inl e \<Rightarrow> Some (Inl e)
           | Inr t \<Rightarrow> if r = [] then Some (Inr t) else loop format upd r t)) = Some y"
    and fmt: "\<exists>f. format = ''%d'' @ f"
  show "\<not> (\<exists>c cs. s = c # cs \<and> \<not> isdigit c \<and> \<not> isspace c \<and> c \<noteq> CHR ''-'' \<and> c \<noteq> CHR ''+'')"
  proof
    assume "\<exists>c cs. s = c # cs \<and> \<not> isdigit c \<and> \<not> isspace c \<and> c \<noteq> CHR ''-'' \<and> c \<noteq> CHR ''+''"
    then obtain c cs where c: "s = c # cs" "\<not> isdigit c" "\<not> isspace c" "c \<noteq> CHR ''-''" "c \<noteq> CHR ''+''" by blast
    obtain f where f: "format = ''%d'' @ f" using fmt by blast
    have "scan (directives Plain format) s = ([], s)" using c by (simp add: f conversion_def scan_int_def)
    with step c(1) have "loop format upd s t = Some y" by simp
    with IH [OF _ fmt] c show False by blast
  qed
qed

section \<open>Properties\<close>

text \<open>
  C24 (\<open>loadexcludemap\<close>, \<open>isexcluded\<close>): after reading a file of lines \<open>disk:partition\<close>, a partition from 1
  to 32 of a disk is excluded exactly when it, or partition 0 of its disk, is on a line.
\<close>

theorem excluded_iff_listed:
  assumes "\<forall>(d, n) \<in> set ps. d < 65536 \<and> n \<le> 32"
  shows "\<exists>t. loadexcludemap (Some (print_pairs (CHR '':'') ps)) = Some (Inr t) \<and>
     (\<forall>d p. d < 65536 \<and> 1 \<le> p \<and> p \<le> 32 \<longrightarrow> isexcluded t (int d) (int p) = Inr ((d, 0) \<in> set ps \<or> (d, p) \<in> set ps))"
proof -
  have small: "\<forall>(d, n) \<in> set ps. d < 2 ^ 31 \<and> n < 2 ^ 31" "\<forall>(d, n) \<in> set ps. d < tab_size \<and> n \<le> 32"
    using assms by (auto simp: tab_size_def)
  obtain t where t: "add_pairs exclude_entry ps (\<lambda>_. 0) = Inr t" "\<And>i k. k < 32 \<Longrightarrow> bit (t i) k = ((i, 0) \<in> set ps \<or> (i, k + 1) \<in> set ps)"
    using add_excluded [OF small(2), of "\<lambda>_. 0"] by auto
  have "loadexcludemap (Some (print_pairs (CHR '':'') ps)) = Some (Inr t)"
    using load_printed' [OF small(1), of "CHR '':''" exclude_entry "\<lambda>_. 0"] t(1) by (simp add: loadexcludemap_def)
  moreover have "isexcluded t (int d) (int p) = Inr ((d, 0) \<in> set ps \<or> (d, p) \<in> set ps)" if "d < 65536" "1 \<le> p" "p \<le> 32" for d p
    using isexcluded_bit [of d p t] t(2) [of "p - 1" d] that by (simp add: tab_size_def)
  ultimately show ?thesis by blast
qed

text \<open>
  C28 (\<open>gethdbios\<close>): as long as every disk is found in the table of sizes, all disks get different numbers,
  and each gets the number of an entry with its size or its size plus one.
\<close>

theorem hdmap_numbers_distinct:
  assumes "has_hdmap b" "all_found ss b" "\<forall>s \<in> set ss. s \<noteq> - 1 \<and> s + 1 \<noteq> - 1"
  shows "distinct (bios_numbers ss b) \<and>
     list_all2 (\<lambda>s n. \<exists>i < 256. n = int i + 128 \<and> (hdmap b i = s \<or> hdmap b i = s + 1)) ss (bios_numbers ss b)"
  using numbers_found [OF assms] by blast

text \<open>
  (\<open>gethdbios\<close>): a disk that is not in the table gets the number after the last one, without a look at
  the table: when the disk with that number comes next, both have the same number, and the files of
  the second go to the names of the first.
\<close>

theorem unknown_disk_collides:
  assumes "has_hdmap b" "find_size s (hdmap b) = None" "find_size s' (hdmap b) = Some i" "int i = lastnum b + 1"
  shows "bios_numbers [s, s'] b = [int i + 128, int i + 128]"
proof -
  have "find_size s' ((hdmap b)(256 := 0xFFFFFFFF)) = find_size s' (hdmap b)"
    unfolding find_size_def by (rule find_cong) auto
  then show ?thesis using assms by (simp add: gethdbios_def Let_def)
qed

text \<open>
  (\<open>loadhdmap\<close>, \<open>loadexcludemap\<close>): when the file starts with a character that cannot start a number, the loop
  never ends: the scan leaves the character in place and \<open>feof\<close> stays false.
\<close>

theorem map_file_hangs:
  assumes "\<not> isdigit c" "\<not> isspace c" "c \<noteq> CHR ''-''" "c \<noteq> CHR ''+''"
  shows "loadhdmap (Some (c # cs)) = None \<and> loadexcludemap (Some (c # cs)) = None"
proof -
  have "load_pairs (''%d'' @ f) upd (c # cs) t = None" for f upd t
    using stuck_no_result [of f upd "c # cs" t] assms by (cases "load_pairs (''%d'' @ f) upd (c # cs) t") auto
  from this [of "''=%d'' @ [NL]"] this [of "'':%d'' @ [NL]"] show ?thesis
    by (simp add: loadhdmap_def loadexcludemap_def)
qed

section \<open>Witnesses\<close>

theorem excluded_iff_listed_witness:
  "\<exists>t. loadexcludemap (Some (print_pairs (CHR '':'') [(0, 2), (1, 0)])) = Some (Inr t) \<and>
     isexcluded t 0 1 = Inr False \<and> isexcluded t 0 2 = Inr True \<and> isexcluded t 1 7 = Inr True"
proof -
  define ps :: "(nat \<times> nat) list" where "ps = [(0, 2), (1, 0)]"
  have "\<forall>(d, n) \<in> set ps. d < 65536 \<and> n \<le> 32" by (simp add: ps_def)
  from excluded_iff_listed [OF this] obtain t where t: "loadexcludemap (Some (print_pairs (CHR '':'') ps)) = Some (Inr t)"
      "\<forall>d p. d < 65536 \<and> 1 \<le> p \<and> p \<le> 32 \<longrightarrow> isexcluded t (int d) (int p) = Inr ((d, 0) \<in> set ps \<or> (d, p) \<in> set ps)"
    by blast
  from t(1) t(2) [rule_format, of 0 1] t(2) [rule_format, of 0 2] t(2) [rule_format, of 1 7] show ?thesis
    by (simp add: ps_def)
qed

definition sample_bios :: bios where
  "sample_bios = \<lparr>lastnum = - 1, has_hdmap = True, hdmap = no_disks(0 := 1000, 1 := 2001)\<rparr>"

lemma sample_find: "find_size 2000 (hdmap sample_bios) = Some 1" "find_size 1000 (hdmap sample_bios) = Some 0"
    "find_size 1000 ((hdmap sample_bios)(1 := - 1)) = Some 0" "find_size 5 (hdmap sample_bios) = None"
proof -
  have u: "[0..<256] = 0 # 1 # [2..<256]" by (simp add: upt_conv_Cons)
  show "find_size 2000 (hdmap sample_bios) = Some 1" "find_size 1000 (hdmap sample_bios) = Some 0"
    "find_size 1000 ((hdmap sample_bios)(1 := - 1)) = Some 0"
    unfolding find_size_def u by (simp_all add: sample_bios_def)
  show "find_size 5 (hdmap sample_bios) = None"
    unfolding find_size_def by (auto simp: find_None_iff sample_bios_def no_disks_def)
qed

theorem hdmap_numbers_distinct_witness:
  "distinct (bios_numbers [2000, 1000] sample_bios)"
proof -
  have "has_hdmap sample_bios" by (simp add: sample_bios_def)
  then show ?thesis using hdmap_numbers_distinct [of sample_bios "[2000, 1000]"] gethdbios_found [OF _ sample_find(1)] sample_find
    by simp
qed

theorem unknown_disk_collides_witness: "bios_numbers [5, 1000] sample_bios = [128, 128]"
  using unknown_disk_collides [of sample_bios 5 1000 0] sample_find by (simp add: sample_bios_def)

theorem map_file_hangs_witness: "loadhdmap (Some ''# disks'') = None \<and> loadexcludemap (Some ''# disks'') = None"
  by (rule map_file_hangs) (simp_all add: isdigit_def isspace_def)

end
