(* ===== verification/Autosave.thy ===== *)
theory Autosave
  imports Disk_Maps
begin

text \<open>
  \<^verbatim>\<open>client/revimage/autosave/autosave.c\<close>: the program that saves all partitions of a computer. \<open>save\<close> goes over the
  partitions, saves the sectors around the partition tables, finds for each partition the image
  program that accepts it and runs it, and writes the script \<^verbatim>\<open>conf.txt\<close> by which the restore program
  and the boot loader put everything back.

  What the program finds around it is the record \<open>host\<close>: the two lists of partitions, the devices, the
  output of \<open>sfdisk\<close>, the exit status of a command, whether an image is already there, and the bytes
  on the stack. What it does is the record \<open>save_st\<close>: the texts it writes and the commands it runs.
\<close>

section \<open>The surroundings\<close>

text \<open>A device: its start on the disk (\<open>None\<close> when \<open>HDIO_GETGEO\<close> fails), its size in sectors, its contents.\<close>

record dinfo =
  di_start :: "u32 option"
  di_size :: u32
  di_data :: string

record host =
  h_proc :: "string option"
  h_mapper :: "dirent list option"
  h_dev :: "string \<Rightarrow> dinfo option"
  h_sfdisk :: "string \<Rightarrow> string"
  h_system :: "string \<Rightarrow> int"
  h_present :: bool
  h_stack :: string

record options =
  revoraw :: bool
  nolrs :: bool
  revosave :: string
  revobin :: string

record save_st =
  dnum :: int
  sv_bios :: bios
  excl :: tab
  majorn :: string
  fmajor :: ofile
  conf :: string
  CONF :: string
  tabs :: "string \<Rightarrow> string"
  files :: "(string \<times> string) list"
  cmds :: "string list"
  sv_ui :: "string list list"
  should_backup_lvm :: bool
  backuped :: nat

section \<open>Small steps\<close>

definition tmprintf :: "string \<Rightarrow> string" where
  "tmprintf s = snprintf 1023 s"

definition logtxt :: "options \<Rightarrow> string" where
  "logtxt op = tmprintf (revosave op @ ''/log.txt'')"

text \<open>
  \<open>mysystem\<close>: the command is copied with \<open>strncpy\<close>, which leaves out the NUL of a command that is too
  long; the strings appended to it then run off the buffer.
\<close>

definition mysystem :: "host \<Rightarrow> options \<Rightarrow> string \<Rightarrow> save_st \<Rightarrow> (bool \<times> save_st) res" where
  "mysystem h op s st =
     (if length s + length (logtxt op) + 6 < 1024
      then let cmd = s @ '' 2>> '' @ logtxt op in Inr (h_system h cmd = 0, st\<lparr>cmds := cmds st @ [cmd]\<rparr>)
      else Inl OutOfBounds)"

definition out_conf :: "string \<Rightarrow> save_st \<Rightarrow> save_st" where
  "out_conf s st = st\<lparr>conf := conf st @ s\<rparr>"

definition out_CONF :: "string \<Rightarrow> save_st \<Rightarrow> save_st" where
  "out_CONF s st = st\<lparr>CONF := CONF st @ s\<rparr>"

definition fatal :: "options \<Rightarrow> save_st \<Rightarrow> save_st" where
  "fatal op st = (if nolrs op then st else st\<lparr>cmds := cmds st @ [''revosendlog 8'']\<rparr>)"

definition ui_error :: "string \<Rightarrow> save_st \<Rightarrow> save_st" where
  "ui_error s st = st\<lparr>sv_ui := sv_ui st @ [[''misc_error'', ''Backup error'', s]]\<rparr>"

text \<open>\<open>%x\<close>: an optional sign, an optional \<open>0x\<close>, hexadecimal digits.\<close>

definition hex_val :: "char \<Rightarrow> nat option" where
  "hex_val c =
     (let n = of_char c :: nat
      in if 48 \<le> n \<and> n \<le> 57 then Some (n - 48)
         else if 97 \<le> n \<and> n \<le> 102 then Some (n - 87)
         else if 65 \<le> n \<and> n \<le> 70 then Some (n - 55) else None)"

fun scan_hexdigits :: "nat \<Rightarrow> string \<Rightarrow> nat \<times> string" where
  "scan_hexdigits a [] = (a, [])"
| "scan_hexdigits a (c # cs) = (case hex_val c of None \<Rightarrow> (a, c # cs) | Some v \<Rightarrow> scan_hexdigits (16 * a + v) cs)"

definition hex_start :: "string \<Rightarrow> bool" where
  "hex_start s \<longleftrightarrow> s \<noteq> [] \<and> hex_val (hd s) \<noteq> None"

definition scan_hex :: "string \<Rightarrow> (u32 \<times> string) option" where
  "scan_hex s =
     (let neg = take 1 s = ''-''; t = (if neg \<or> take 1 s = ''+'' then drop 1 s else s);
          t = (if (take 2 t = ''0x'' \<or> take 2 t = ''0X'') \<and> hex_start (drop 2 t) then drop 2 t else t)
      in if hex_start t
         then (case scan_hexdigits 0 t of (n, r) \<Rightarrow>
                 let w = (of_nat (min n (2 ^ 32 - 1)) :: u32) in Some (if neg then - w else w, r))
         else None)"

lemma scan_hexdigits_length: "length (snd (scan_hexdigits a s)) \<le> length s"
  by (induction a s rule: scan_hexdigits.induct) (auto split: option.splits)

lemma scan_hex_length: "scan_hex s = Some (w, r) \<Longrightarrow> length r \<le> length s"
  using scan_hexdigits_length by (auto simp: scan_hex_def Let_def split: prod.splits if_splits)
    (metis diff_le_self le_trans length_drop snd_conv)+

text \<open>The last number in the output of \<open>sfdisk\<close>: after each scan one character is skipped.\<close>

function last_hex :: "u32 \<Rightarrow> string \<Rightarrow> u32" where
  "last_hex t s =
     (case dropWhile isspace s of
        [] \<Rightarrow> t
      | c # cs \<Rightarrow> (case scan_hex (c # cs) of
                     None \<Rightarrow> last_hex t cs
                   | Some (w, r) \<Rightarrow> if r = [] then w else last_hex w (tl r)))"
  by pat_completeness auto
termination
proof (relation "measure (\<lambda>(t, s). length s)")
  fix t :: u32 and s c cs
  assume "dropWhile isspace s = c # cs"
  then show "((t, cs), t, s) \<in> measure (\<lambda>(t, s). length s)"
    by (metis in_measure le_imp_less_Suc length_Cons length_dropWhile_le old.prod.case less_le_trans lessI)
  fix x :: "u32 \<times> string" and w r
  assume "dropWhile isspace s = c # cs" "scan_hex (c # cs) = Some x" "(w, r) = x" "r \<noteq> []"
  then have "length (tl r) < length (c # cs)" "length (c # cs) \<le> length s"
    using scan_hex_length [of "c # cs" w r] length_dropWhile_le [of isspace s] by (cases r; auto)+
  then show "((w, tl r), t, s) \<in> measure (\<lambda>(t, s). length s)" by simp
qed simp

declare last_hex.simps [simp del]

definition lower_hex :: "nat \<Rightarrow> char" where
  "lower_hex n = (if n < 10 then char_of (48 + n) else char_of (87 + n))"

fun show_hex :: "nat \<Rightarrow> string" where
  "show_hex n = (if n < 16 then [lower_hex n] else show_hex (n div 16) @ [lower_hex (n mod 16)])"

declare show_hex.simps [simp del]

text \<open>\<open>%d\<close> of an unsigned word prints it as a signed number.\<close>

definition show_word :: "u32 \<Rightarrow> string" where
  "show_word w = show_int (sint w)"

section \<open>The start of a disk\<close>

text \<open>\<open>save_raw\<close> on the open disk; the file is named after the number of the disk.\<close>

definition raw_step :: "host \<Rightarrow> u32 \<Rightarrow> u32 \<Rightarrow> save_st \<Rightarrow> save_st run" where
  "raw_step h start stop st =
     (let pre = dnum2pre (dnum st)
      in case save_raw start stop (h_stack h) (fmajor st) (tabs st pre) of
           None \<Rightarrow> None
         | Some (f, out) \<Rightarrow> ret_run (st\<lparr>fmajor := f, tabs := (tabs st)(pre := out)\<rparr>))"

definition new_disk :: "host \<Rightarrow> options \<Rightarrow> int \<Rightarrow> int \<Rightarrow> string \<Rightarrow> u32 \<Rightarrow> u32 \<Rightarrow> save_st \<Rightarrow> (u32 \<times> save_st) run" where
  "new_disk h op major minor device s ttype st =
     (case gethdbios s (sv_bios st) of (n, b) \<Rightarrow>
        let st = st\<lparr>dnum := n, sv_bios := b, fmajor := (case h_dev h device of None \<Rightarrow> ([], 0) | Some d \<Rightarrow> (di_data d, 0))\<rparr>;
            st = out_CONF (''D:'' @ show_int n @ '' L:'' @ show_nat (unat s) @ [NL] @ ''R'' @ [NL]) st;
            st = st\<lparr>files := files st @ [(tmprintf (revosave op @ ''/size'' @ pad0 2 (show_hex (nat major)) @ pad0 2 (show_hex (nat minor)) @ ''.txt''),
                                           show_nat (unat (s div 2)))]\<rparr>;
            st = out_conf (''# Comment next line to remove PTABS reconstruction'' @ [NL]) st;
            st = out_conf (''ptabs (hd'' @ show_int (n - 128) @ '') (nd)PATH/'' @ dnum2pre n @ ''TABS'' @ [NL]) st
        in case ldm_check (h_stack h) (fmajor st) of
             (f, None) \<Rightarrow> ret_run (ttype, st\<lparr>fmajor := f\<rparr>)
           | (f, Some (start, lg)) \<Rightarrow>
               bind_run (raw_step h (ucast start) (ucast (start + lg - 1)) (st\<lparr>fmajor := f\<rparr>)) (\<lambda>st. ret_run (0x42, st)))"

section \<open>One partition\<close>

text \<open>The first image program of a list that accepts the device is run.\<close>

fun try_images :: "host \<Rightarrow> options \<Rightarrow> string \<Rightarrow> string \<Rightarrow> string list \<Rightarrow> save_st \<Rightarrow> (string option \<times> save_st) res" where
  "try_images h op device dest [] st = Inr (None, st)"
| "try_images h op device dest (fs # fss) st =
     bind_res (mysystem h op (tmprintf (revobin op @ ''/image_'' @ fs @ '' '' @ device @ '' ?'')) st) (\<lambda>(ok, st).
       if ok then bind_res (mysystem h op (tmprintf (revobin op @ ''/image_'' @ fs @ '' '' @ device @ '' '' @ dest)) st) (\<lambda>(_, st). Inr (Some fs, st))
       else try_images h op device dest fss st)"

definition fslist :: "string list" where
  "fslist = [''swap'', ''e2fs'', ''fat'', ''ntfs'', ''xfs'', ''jfs'', ''ufs'', ''lvmreiserfs'']"

text \<open>All programs in the order they are tried, depending on the options and the type of the partition.\<close>

definition save_fs :: "host \<Rightarrow> options \<Rightarrow> string \<Rightarrow> string \<Rightarrow> u32 \<Rightarrow> save_st \<Rightarrow> (bool \<times> save_st) res" where
  "save_fs h op device dest ttype st =
     bind_res (if revoraw op then try_images h op device dest [''raw''] st else Inr (None, st)) (\<lambda>(r, st).
     if r \<noteq> None then Inr (True, st)
     else bind_res (try_images h op device dest fslist st) (\<lambda>(r, st).
     if r \<noteq> None then Inr (True, st)
     else bind_res (if ttype = 0x8E then try_images h op device dest [''lvm''] st else Inr (None, st)) (\<lambda>(r, st).
     if r \<noteq> None then Inr (True, st\<lparr>should_backup_lvm := True\<rparr>)
     else bind_res (if ttype = 0x12 \<or> ttype = 0xEE \<or> ttype = 0xEF then try_images h op device dest [''raw''] st else Inr (None, st)) (\<lambda>(r, st).
       Inr (r \<noteq> None, st)))))"

text \<open>The lines of the script for a partition, and the name of its image.\<close>

definition part_lines :: "bool \<Rightarrow> int \<Rightarrow> int \<Rightarrow> u32 \<Rightarrow> u32 \<Rightarrow> u32 \<Rightarrow> string \<Rightarrow> string" where
  "part_lines isdm n poff tmin tmax ttype dev =
     '' # (hd'' @ show_int (n - 128) @ '','' @ show_int (poff - 1) @ '') '' @ show_nat (unat tmin) @ '' '' @ show_nat (unat tmax) @ '' '' @ show_word ttype @ [NL] @
     '' partcopy (hd'' @ show_int (n - 128) @ '','' @ show_int (poff - 1) @ '') '' @ show_nat (unat tmin) @ '' PATH/'' @ dnum2pre n @
     (if isdm then '' '' @ dev else show_int poff) @ [NL]"

definition destfile :: "options \<Rightarrow> bool \<Rightarrow> int \<Rightarrow> int \<Rightarrow> string" where
  "destfile op isdm n poff = snprintf 63 (revosave op @ ''/'' @ dnum2pre n @ (if isdm then [] else show_int poff))"

definition unsupported :: "string \<Rightarrow> int \<Rightarrow> int \<Rightarrow> u32 \<Rightarrow> string" where
  "unsupported txt n poff ttype = txt @ ''(disk '' @ show_int n @ '', part '' @ show_int poff @ '', type '' @ show_hex (unat ttype) @ '')''"

definition extended :: "u32 \<Rightarrow> bool" where
  "extended t \<longleftrightarrow> t = 0x05 \<or> t = 0x85 \<or> t = 0x0F \<or> t = 0xA5"

definition write_part :: "host \<Rightarrow> options \<Rightarrow> bool \<Rightarrow> int \<Rightarrow> u32 \<Rightarrow> u32 \<Rightarrow> u32 \<Rightarrow> string \<Rightarrow> string \<Rightarrow> save_st \<Rightarrow> save_st res" where
  "write_part h op isdm poff tmin tmax ttype dev device st =
     (let n = dnum st;
          st = out_CONF (''P'' @ ljust 2 (show_int poff) @ '', S:'' @ show_nat (unat tmin) @ '' , E:'' @ show_nat (unat tmax) @ '' , t:'' @ show_word ttype @ [NL]) st;
          st = out_conf (part_lines isdm n poff tmin tmax ttype dev) st
      in bind_res (save_fs h op device (destfile op isdm n poff) ttype st) (\<lambda>(ok, st).
           if ok then Inr st
           else Inr (ui_error (unsupported (''Unsupported or corrupted file system...'' @ [NL, NL]) n poff ttype)
                     (fatal op (out_conf (unsupported ''# ERROR: Unsupported or corrupted FS...'' n poff ttype @ [NL]) st)))))"

text \<open>Where the sectors around the start of a partition begin.\<close>

definition table_start :: "int \<Rightarrow> u32 \<Rightarrow> u32" where
  "table_start poff start = (if 5 \<le> poff then if start \<le> 63 then 0 else start - 63 else start)"

text \<open>The type of a partition from \<open>sfdisk\<close>; the command is written into a buffer of 256 bytes.\<close>

definition type_query :: "string \<Rightarrow> int \<Rightarrow> string" where
  "type_query disk poff = ''/sbin/sfdisk --id '' @ disk @ '' '' @ show_int poff"

definition ask_type :: "host \<Rightarrow> int \<Rightarrow> save_st \<Rightarrow> (u32 \<times> save_st) res" where
  "ask_type h poff st =
     bind_res (strcpy 256 (type_query (majorn st) poff)) (\<lambda>c. Inr (last_hex (- 1) (h_sfdisk h c), st\<lparr>cmds := cmds st @ [c]\<rparr>))"

definition part_body :: "host \<Rightarrow> options \<Rightarrow> part \<Rightarrow> string \<Rightarrow> bool \<Rightarrow> u32 \<Rightarrow> u32 \<Rightarrow> save_st \<Rightarrow> save_st run" where
  "part_body h op p device isdm start s st =
     (let poff = (if isdm then 0 else p_minor p AND 0xF); first = (start = 0 \<and> \<not> isdm)
      in bind_run (if first then bind_run (Some (strcpy 256 device)) (\<lambda>m. ret_run (- 1, st\<lparr>majorn := m\<rparr>))
                   else if isdm then ret_run (- 1, st)
                   else Some (ask_type h poff st)) (\<lambda>(ttype, st).
         let whole = (whole_disk (p_major p) (p_minor p) \<or> first)
         in bind_run (if whole then new_disk h op (p_major p) (p_minor p) device s ttype st else ret_run (ttype, st)) (\<lambda>(ttype, st).
            bind_run (if isdm then ret_run st else raw_step h (table_start poff start) (start + 62) st) (\<lambda>st.
              if whole \<or> s \<le> 63 \<or> extended ttype then ret_run st
              else bind_run (Some (isexcluded (excl st) (dnum st - 128) poff)) (\<lambda>ex.
                     if ex then ret_run st
                     else Some (write_part h op isdm poff start (start + s - 1) ttype (p_device p) device st))))))"

definition save_part :: "host \<Rightarrow> options \<Rightarrow> part \<Rightarrow> save_st \<Rightarrow> save_st run" where
  "save_part h op p st =
     (let isdm = (p_major p = 254); device = ''/dev/'' @ p_device p;
          st = st\<lparr>backuped := backuped st + 1, dnum := (if isdm then 0x1000 + p_minor p else dnum st)\<rparr>
      in if isdm \<and> \<not> should_backup_lvm st then ret_run st
         else case h_dev h device of
                None \<Rightarrow> ret_run st
              | Some d \<Rightarrow>
                  if isdm then part_body h op p device True 0 (di_size d) st
                  else case di_start d of
                         None \<Rightarrow> ret_run st
                       | Some start \<Rightarrow> part_body h op p device False start (di_size d) st)"

fun save_parts :: "host \<Rightarrow> options \<Rightarrow> part list \<Rightarrow> save_st \<Rightarrow> save_st run" where
  "save_parts h op [] st = ret_run st"
| "save_parts h op (p # ps) st = bind_run (save_part h op p st) (save_parts h op ps)"

section \<open>The whole image\<close>

definition save :: "host \<Rightarrow> options \<Rightarrow> save_st \<Rightarrow> save_st run" where
  "save h op st =
     (if h_present h then Some (Inl (Exit 1))
      else bind_run (Some (get_parts (h_proc h) (h_mapper h))) (\<lambda>ps.
           bind_run (save_parts h op ps ((out_conf (''# Partcopy commands...'' @ [NL]) st)\<lparr>dnum := 127, backuped := 0, should_backup_lvm := False\<rparr>)) (\<lambda>st.
             let st = out_CONF (''E'' @ [NL]) st
             in ret_run (if backuped st = 0
                         then ui_error (''Nothing was backuped !'' @ [NL] @ ''Maybe your disk controller was not recognized...'') (fatal op st)
                         else st))))"

definition start_st :: "bios \<Rightarrow> tab \<Rightarrow> save_st" where
  "start_st b ex = \<lparr>dnum = 0, sv_bios = b, excl = ex, majorn = [], fmajor = ([], 0), conf = [], CONF = [], tabs = (\<lambda>_. []), files = [],
     cmds = [], sv_ui = [], should_backup_lvm = False, backuped = 0\<rparr>"

definition saveimage :: "host \<Rightarrow> options \<Rightarrow> string \<Rightarrow> string \<Rightarrow> bios \<Rightarrow> tab \<Rightarrow> save_st run" where
  "saveimage h op hostname date b ex =
     bind_run (save h op (out_conf (''title Image '' @ hostname @ [NL] @ ''desc ('' @ date @ '')'' @ [NL]) (start_st b ex))) (\<lambda>st.
       let st = out_conf (''# Boot on 1st disk 0'' @ [NL] @ '' root (hd0)'' @ [NL] @ '' chainloader +1'' @ [NL] @ [NL]) st
       in ret_run (st\<lparr>cmds := cmds st @ [tmprintf (''mv -f '' @ revosave op @ ''/conf.tmp '' @ revosave op @ ''/conf.txt'')]\<rparr>))"

end
