(* ===== verification/Autorestore.thy ===== *)
theory Autorestore
  imports Disk_Maps
begin

text \<open>
  \<^verbatim>\<open>client/revimage/autorestore/autorestore.c\<close>: the program that restores all partitions of a computer. It builds the
  table of the disks (\<open>makehdmap\<close>), checks their sizes (\<open>checkhdspace\<close>) and carries out the script
  \<^verbatim>\<open>conf.txt\<close> (\<open>restoreimage\<close>). The script is read line by line into a list of actions, which are then
  carried out in order; reading does not depend on the disks. Restoring the image files and the
  partition tables themselves is in \<open>Restore\<close> and \<open>Ptabs\<close>.
\<close>

section \<open>The disks\<close>

text \<open>
  The options of the command line that matter here, and \<open>usable\<close>: how many bytes \<open>malloc(n)\<close> really
  gives (at least \<open>n\<close>).
\<close>

record ropts =
  ro_nospc :: bool
  ro_ntblfix :: bool
  ro_nolrs :: bool
  ro_outdir :: "string option"
  usable :: "nat \<Rightarrow> nat"

text \<open>
  \<open>checkhdspace\<close>: the size of the saved disk, in KB, is in a file named after its numbers. When the disk is too small the
  program shows a message and then waits for ever. \<open>fscanf\<close> gives 0 if there is no number.
\<close>

definition checkhdspace :: "ropts \<Rightarrow> (nat \<Rightarrow> nat \<Rightarrow> string option) \<Rightarrow> nat \<Rightarrow> nat \<Rightarrow> nat \<Rightarrow> unit run" where
  "checkhdspace op sizes major minor sect =
     (if ro_nospc op then ret_run ()
      else case sizes major minor of
             None \<Rightarrow> ret_run ()
           | Some s \<Rightarrow>
               let orig = (case scan_uint s of None \<Rightarrow> 0 | Some (n, _) \<Rightarrow> n)
               in if sect < orig then None else ret_run ())"

definition dev_path :: "ropts \<Rightarrow> string \<Rightarrow> string" where
  "dev_path op dev = (case ro_outdir op of None \<Rightarrow> ''/dev/'' | Some d \<Rightarrow> d @ ''/'') @ dev"

text \<open>One line of \<^verbatim>\<open>/proc/partitions\<close>: a whole disk is checked and gets the next number.\<close>

definition map_line :: "ropts \<Rightarrow> (nat \<Rightarrow> nat \<Rightarrow> string option) \<Rightarrow> string \<Rightarrow> string list \<Rightarrow> string list run" where
  "map_line op sizes l m =
     (case sscanf ('' %u %u %u %s'' @ [NL]) l of
        [Num major, Num minor, Num sec, Text dev] \<Rightarrow>
          if whole_disk major minor
          then bind_run (checkhdspace op sizes (nat major) (nat minor) (nat sec)) (\<lambda>_.
                 let str = dev_path op dev
                 in if length str < usable op (2 * length dev) then ret_run (m @ [str]) else Some (Inl BufOverflow))
          else ret_run m
      | _ \<Rightarrow> ret_run m)"

fun map_lines :: "ropts \<Rightarrow> (nat \<Rightarrow> nat \<Rightarrow> string option) \<Rightarrow> string list \<Rightarrow> string list \<Rightarrow> string list run" where
  "map_lines op sizes [] m = ret_run m"
| "map_lines op sizes (l # ls) m = bind_run (map_line op sizes (cstr l) m) (map_lines op sizes ls)"

text \<open>The table of the disks is a list here; the entries after it are NULL.\<close>

definition makehdmap :: "ropts \<Rightarrow> (nat \<Rightarrow> nat \<Rightarrow> string option) \<Rightarrow> string \<Rightarrow> string option \<Rightarrow> string list run" where
  "makehdmap op sizes junk proc =
     (case proc of None \<Rightarrow> ret_run [] | Some s \<Rightarrow> map_lines op sizes (feof_lines 255 junk s) [])"

section \<open>The script\<close>

datatype action =
    RestoreRaw "string option" string
  | RestoreImage "string option" u32 string
  | Run string

definition disk_of :: "string list \<Rightarrow> nat \<Rightarrow> string option res" where
  "disk_of m d = (if d < 65536 then Inr (if d < length m then Some (m ! d) else None) else Inl OutOfBounds)"

text \<open>\<open>strtok\<close>: the second word of a line, words being separated by spaces only.\<close>

definition strtok2 :: "string \<Rightarrow> string option" where
  "strtok2 l =
     (let sp = (\<lambda>c. c = CHR '' '');
          r = dropWhile sp (dropWhile (\<lambda>c. \<not> sp c) (dropWhile sp l))
      in if r = [] then None else Some (takeWhile (\<lambda>c. \<not> sp c) r))"

definition setdefault :: "string option \<Rightarrow> action" where
  "setdefault v = Run (''revosetdefault '' @ (case v of None \<Rightarrow> ''0'' | Some s \<Rightarrow> s))"

text \<open>The command for the NT boot loader: a missing disk is printed as \<^verbatim>\<open>(null)\<close>; the buffer has 255 bytes.\<close>

definition ntblfix :: "string option \<Rightarrow> nat \<Rightarrow> action res" where
  "ntblfix disk d1 =
     bind_res (strcpy 255 (''ntblfix '' @ (case disk of None \<Rightarrow> ''(null)'' | Some s \<Rightarrow> s) @ '' '' @ show_int (int d1 + 1))) (\<lambda>c. Inr (Run c))"

text \<open>One line; the flag says whether the volume groups were already scanned.\<close>

definition lvm_scan :: action where
  "lvm_scan = Run ''lvm vgscan >/dev/null 2>&1; lvm vgchange -ay >/dev/null 2>&1''"

definition partcopy_line :: "ropts \<Rightarrow> string list \<Rightarrow> string \<Rightarrow> bool \<Rightarrow> (bool \<times> action list) res" where
  "partcopy_line op m l vgscan =
     (case sscanf '' partcopy (hd%u,%u) %u PATH/%s'' l of
        [Num d1, Num d2, Num sect, Text f] \<Rightarrow>
          if 3968 \<le> d1 \<and> d2 = 2 ^ 32 - 1
          then (case sscanf '' partcopy (hd%*u,%*u) %*u PATH/%*s %s'' l of
                  [Text dev] \<Rightarrow> Inr (True, (if vgscan then [] else [lvm_scan]) @ [RestoreImage (Some (''/dev/'' @ dev)) (of_int sect) f])
                | _ \<Rightarrow> Inl (Exit 1))
          else bind_res (disk_of m (nat d1)) (\<lambda>disk.
                 bind_res (if sect = 63 \<and> ro_ntblfix op then bind_res (ntblfix disk (nat d1)) (\<lambda>a. Inr [a]) else Inr []) (\<lambda>fix.
                   Inr (vgscan, RestoreImage disk (of_int sect) f # fix)))
      | _ \<Rightarrow> Inr (vgscan, []))"

definition ptabs_line :: "string list \<Rightarrow> string \<Rightarrow> action list res" where
  "ptabs_line m l =
     (case sscanf '' ptabs (hd%u) (nd)PATH/%s'' l of
        [Num d1, Text f] \<Rightarrow> bind_res (disk_of m (nat d1)) (\<lambda>disk. Inr [RestoreRaw disk f])
      | _ \<Rightarrow> Inr [])"

definition script_line :: "ropts \<Rightarrow> string list \<Rightarrow> string \<Rightarrow> bool \<Rightarrow> (bool \<times> action list) res" where
  "script_line op m l vgscan =
     (case sscanf ''%s'' l of
        [Text key] \<Rightarrow>
          if key = ''ptabs'' then bind_res (ptabs_line m l) (\<lambda>as. Inr (vgscan, as))
          else if key = ''partcopy'' then partcopy_line op m l vgscan
          else if key = ''setdefault'' \<and> \<not> ro_nolrs op then Inr (vgscan, [setdefault (strtok2 l)])
          else if key = ''chainloader'' \<and> \<not> ro_nolrs op then Inr (vgscan, [setdefault (Some ''0'')])
          else Inr (vgscan, [])
      | _ \<Rightarrow> Inr (vgscan, []))"

text \<open>The actions of a list of lines, and the fault that ends the program after them, if there is one.\<close>

type_synonym script_run = "action list \<times> c_fault option"

fun script_lines :: "ropts \<Rightarrow> string list \<Rightarrow> string list \<Rightarrow> bool \<Rightarrow> script_run" where
  "script_lines op m [] vg = ([], None)"
| "script_lines op m (l # ls) vg =
     (case script_line op m (cstr l) vg of
        Inl e \<Rightarrow> ([], Some e)
      | Inr (vg, as) \<Rightarrow> (case script_lines op m ls vg of (bs, e) \<Rightarrow> (as @ bs, e)))"

text \<open>What \<open>restoreimage\<close> does with a script; \<open>junk\<close> is what is on the stack. Without a script nothing is done.\<close>

definition restoreimage :: "ropts \<Rightarrow> string list \<Rightarrow> string \<Rightarrow> string option \<Rightarrow> script_run" where
  "restoreimage op m junk script =
     (case script of None \<Rightarrow> ([], None) | Some s \<Rightarrow> script_lines op m (feof_lines 250 junk s) False)"

section \<open>The last line\<close>

text \<open>A text of full lines, each short enough for a buffer of \<open>n\<close> bytes.\<close>

definition short_line :: "nat \<Rightarrow> string \<Rightarrow> bool" where
  "short_line n l \<longleftrightarrow> NL \<notin> set l \<and> length l + 1 < n"

definition unlines :: "string list \<Rightarrow> string" where
  "unlines ls = concat (map (\<lambda>l. l @ [NL]) ls)"

lemma fgets_unlines: "\<forall>l \<in> set ls. short_line n l \<Longrightarrow> fgets_all n (unlines ls) = map (\<lambda>l. l @ [NL]) ls"
proof (induction ls)
  case (Cons l ls)
  have "fgets_all n (l @ NL # unlines ls) = (l @ [NL]) # fgets_all n (unlines ls)"
    using Cons.prems by (intro fgets_all_line) (auto simp: short_line_def)
  with Cons show ?case by (simp add: unlines_def)
qed (simp add: unlines_def)

lemma feof_unlines:
  assumes "\<forall>l \<in> set ls. short_line n l" "ls \<noteq> []"
  shows "feof_lines n junk (unlines ls) = map (\<lambda>l. l @ [NL]) (ls @ [last ls])"
  using assms by (simp add: feof_lines_def fgets_unlines last_map Let_def)

lemma script_lines_append:
  "script_lines op m (a @ b) vg =
     (case script_lines op m a vg of (as, Some e) \<Rightarrow> (as, Some e)
      | (as, None) \<Rightarrow> (case script_lines op m b (fold (\<lambda>l v. case script_line op m (cstr l) v of Inr (w, _) \<Rightarrow> w | Inl _ \<Rightarrow> v) a vg) of (bs, e) \<Rightarrow> (as @ bs, e)))"
  by (induction a arbitrary: vg) (auto split: sum.splits prod.splits option.splits)

section \<open>The table of the disks\<close>

text \<open>A line of \<^verbatim>\<open>/proc/partitions\<close> as the kernel prints it.\<close>

record pline =
  pl_major :: nat
  pl_minor :: nat
  pl_size :: nat
  pl_name :: string

definition print_pline :: "pline \<Rightarrow> string" where
  "print_pline p = '' '' @ show_nat (pl_major p) @ '' '' @ show_nat (pl_minor p) @ '' '' @ show_nat (pl_size p) @ '' '' @ pl_name p"

definition pline_ok :: "pline \<Rightarrow> bool" where
  "pline_ok p \<longleftrightarrow> pl_major p < 2 ^ 32 \<and> pl_minor p < 2 ^ 32 \<and> pl_size p < 2 ^ 32 \<and> is_word (pl_name p) \<and> NUL \<notin> set (pl_name p) \<and> length (pl_name p) \<le> 200"

definition pline_disk :: "pline \<Rightarrow> bool" where
  "pline_disk p \<longleftrightarrow> whole_disk (int (pl_major p)) (int (pl_minor p))"

lemma is_space_chars [simp]: "isspace (CHR '' '')" "isspace NL" "\<not> isdigit (CHR '' '')" "\<not> isdigit NL"
  by (simp_all add: isspace_def isdigit_def)

lemma scan_pline:
  assumes "pline_ok p"
  shows "sscanf ('' %u %u %u %s'' @ [NL]) (print_pline p @ [NL]) = [Num (int (pl_major p)), Num (int (pl_minor p)), Num (int (pl_size p)), Text (pl_name p)]"
proof -
  have ds: "directives Plain ('' %u %u %u %s'' @ [NL]) = [Blank, Unsigned True, Blank, Unsigned True, Blank, Unsigned True, Blank, Word True, Blank]"
    by (simp add: conversion_def literal_def)
  have w: "dropWhile isspace (pl_name p @ r) = pl_name p @ r" for r using assms by (cases "pl_name p") (auto simp: pline_ok_def is_word_def)
  have n: "dropWhile isspace (show_nat k @ r) = show_nat k @ r" for k r by (rule show_nat_cases [of k]) simp
  have u: "scan_uint (show_nat (pl_major p) @ CHR '' '' # r) = Some (pl_major p, CHR '' '' # r)"
      "scan_uint (show_nat (pl_minor p) @ CHR '' '' # r) = Some (pl_minor p, CHR '' '' # r)"
      "scan_uint (show_nat (pl_size p) @ CHR '' '' # r) = Some (pl_size p, CHR '' '' # r)" for r
    using assms by (auto simp: pline_ok_def intro!: scan_uint_show_nat)
  have t: "scan_text (pl_name p @ [NL]) = Some (pl_name p, [NL])" using assms by (intro scan_text_word) (auto simp: pline_ok_def word_ends_def)
  show ?thesis unfolding sscanf_def ds print_pline_def by (simp add: n w u t)
qed

lemma map_line_disk:
  assumes "pline_ok p" "pline_disk p" "checkhdspace op sizes (pl_major p) (pl_minor p) (pl_size p) = ret_run ()"
  shows "map_line op sizes (print_pline p @ [NL]) m =
     (if length (dev_path op (pl_name p)) < usable op (2 * length (pl_name p)) then ret_run (m @ [dev_path op (pl_name p)]) else Some (Inl BufOverflow))"
  using assms scan_pline [OF assms(1)] by (simp add: map_line_def pline_disk_def Let_def)

lemma map_line_other: "pline_ok p \<Longrightarrow> \<not> pline_disk p \<Longrightarrow> map_line op sizes (print_pline p @ [NL]) m = ret_run m"
  using scan_pline by (simp add: map_line_def pline_disk_def)

lemma cstr_pline: "pline_ok p \<Longrightarrow> cstr (print_pline p @ [NL]) = print_pline p @ [NL]"
proof -
  assume "pline_ok p"
  then have "NUL \<notin> set (print_pline p @ [NL])"
    using show_nat_digits [of NUL] by (auto simp: print_pline_def pline_ok_def isdigit_def)
  then show ?thesis by (rule cstr_ident)
qed

lemma map_lines_plines:
  assumes "\<forall>p \<in> set ps. pline_ok p \<and> (pline_disk p \<longrightarrow> checkhdspace op sizes (pl_major p) (pl_minor p) (pl_size p) = ret_run () \<and>
       length (dev_path op (pl_name p)) < usable op (2 * length (pl_name p)))"
  shows "map_lines op sizes (map (\<lambda>p. print_pline p @ [NL]) ps) m = ret_run (m @ map (\<lambda>p. dev_path op (pl_name p)) (filter pline_disk ps))"
  using assms
proof (induction ps arbitrary: m)
  case (Cons p ps)
  then show ?case
    by (cases "pline_disk p") (simp_all add: cstr_pline map_line_disk map_line_other)
qed simp

lemma length_show_nat32: "n < 2 ^ 32 \<Longrightarrow> length (show_nat n) \<le> 10"
  by (rule length_show_nat) simp_all

lemma pline_short: "pline_ok p \<Longrightarrow> short_line 255 (print_pline p)"
proof -
  assume p: "pline_ok p"
  then have "length (print_pline p) \<le> 234"
    using length_show_nat32 [of "pl_major p"] length_show_nat32 [of "pl_minor p"] length_show_nat32 [of "pl_size p"]
    by (simp add: pline_ok_def print_pline_def)
  moreover have "NL \<notin> set (print_pline p)"
    using p show_nat_digits [of NL] by (auto simp: print_pline_def pline_ok_def is_word_def)
  ultimately show ?thesis by (simp add: short_line_def)
qed

section \<open>Lines of a script\<close>

lemma drop_space_digits [simp]: "dropWhile isspace (show_nat k @ r) = show_nat k @ r"
  by (rule show_nat_cases [of k]) simp

lemma partcopy_directives:
  "directives Plain '' partcopy (hd%u,%u) %u PATH/%s'' =
     Blank # map Exactly ''partcopy'' @ Blank # map Exactly ''(hd'' @ Unsigned True # Exactly (CHR '','') # Unsigned True # Exactly (CHR '')'') #
     Blank # Unsigned True # Blank # map Exactly ''PATH/'' @ [Word True]"
  "directives Plain '' partcopy (hd%*u,%*u) %*u PATH/%*s %s'' =
     Blank # map Exactly ''partcopy'' @ Blank # map Exactly ''(hd'' @ Unsigned False # Exactly (CHR '','') # Unsigned False # Exactly (CHR '')'') #
     Blank # Unsigned False # Blank # map Exactly ''PATH/'' @ [Word False, Blank, Word True]"
  "directives Plain '' ptabs (hd%u) (nd)PATH/%s'' =
     Blank # map Exactly ''ptabs'' @ Blank # map Exactly ''(hd'' @ Unsigned True # Exactly (CHR '')'') # Blank # map Exactly ''(nd)PATH/'' @ [Word True]"
  by (simp_all add: conversion_def literal_def isspace_def)

text \<open>A line for a partition: the number of the second position is given by its text.\<close>

definition partcopy_text :: "nat \<Rightarrow> string \<Rightarrow> nat \<Rightarrow> string \<Rightarrow> string" where
  "partcopy_text d d2 sect r = '' partcopy (hd'' @ show_nat d @ '','' @ d2 @ '') '' @ show_nat sect @ '' PATH/'' @ r"

lemma scan_partcopy:
  assumes "d < 2 ^ 32" "sect < 2 ^ 32" "\<And>r. scan_uint (d2 @ CHR '')'' # r) = Some (v, CHR '')'' # r)" "is_word f" "word_ends r"
  shows "sscanf '' partcopy (hd%u,%u) %u PATH/%s'' (partcopy_text d d2 sect (f @ r)) = [Num (int d), Num (int v), Num (int sect), Text f]"
proof -
  have u: "scan_uint (show_nat d @ CHR '','' # r) = Some (d, CHR '','' # r)" "scan_uint (show_nat sect @ CHR '' '' # r) = Some (sect, CHR '' '' # r)" for r
    using assms(1,2) by (auto simp: isdigit_def intro!: scan_uint_show_nat)
  have p: "partcopy_text d d2 sect (f @ r) =
      CHR '' '' # ''partcopy'' @ CHR '' '' # ''(hd'' @ show_nat d @ CHR '','' # d2 @ CHR '')'' # CHR '' '' # show_nat sect @ CHR '' '' # ''PATH/'' @ f @ r"
    by (simp add: partcopy_text_def)
  have ns: "\<not> isspace (CHR ''p'')" "\<not> isspace (CHR ''('')" "\<not> isspace (CHR ''P'')" by (simp_all add: isspace_def)
  have t: "scan_text (f @ r) = Some (f, r)" using assms(4,5) by (rule scan_text_word)
  show ?thesis unfolding sscanf_def partcopy_directives p by (simp add: u assms(3) t ns)
qed

lemma scan_lvm:
  assumes "d < 2 ^ 32" "sect < 2 ^ 32" "\<And>r. scan_uint (d2 @ CHR '')'' # r) = Some (v, CHR '')'' # r)" "is_word f" "is_word dev" "word_ends r"
  shows "sscanf '' partcopy (hd%*u,%*u) %*u PATH/%*s %s'' (partcopy_text d d2 sect (f @ CHR '' '' # dev @ r)) = [Text dev]"
proof -
  have u: "scan_uint (show_nat d @ CHR '','' # r) = Some (d, CHR '','' # r)" "scan_uint (show_nat sect @ CHR '' '' # r) = Some (sect, CHR '' '' # r)" for r
    using assms(1,2) by (auto simp: isdigit_def intro!: scan_uint_show_nat)
  have ns: "\<not> isspace (CHR ''p'')" "\<not> isspace (CHR ''('')" "\<not> isspace (CHR ''P'')" by (simp_all add: isspace_def)
  have t: "scan_text (f @ CHR '' '' # dev @ r) = Some (f, CHR '' '' # dev @ r)" "scan_text (dev @ r) = Some (dev, r)"
    using assms(4-6) by (auto intro!: scan_text_word simp: word_ends_def)
  have "dropWhile isspace (dev @ r) = dev @ r" using assms(5) by (cases dev) (auto simp: is_word_def)
  then show ?thesis unfolding sscanf_def partcopy_directives partcopy_text_def by (simp add: u assms(3) t ns)
qed

lemma scan_ptabs:
  assumes "d < 2 ^ 32" "is_word f" "word_ends r"
  shows "sscanf '' ptabs (hd%u) (nd)PATH/%s'' (''ptabs (hd'' @ show_nat d @ '') (nd)PATH/'' @ f @ r) = [Num (int d), Text f]"
proof -
  have u: "scan_uint (show_nat d @ CHR '')'' # r) = Some (d, CHR '')'' # r)" for r
    using assms(1) by (auto simp: isdigit_def intro!: scan_uint_show_nat)
  have ns: "\<not> isspace (CHR ''p'')" "\<not> isspace (CHR ''('')" by (simp_all add: isspace_def)
  have t: "scan_text (f @ r) = Some (f, r)" using assms(2,3) by (rule scan_text_word)
  show ?thesis unfolding sscanf_def partcopy_directives by (simp add: u t ns)
qed

lemma scan_key: "is_word key \<Longrightarrow> word_ends r \<Longrightarrow> sscanf ''%s'' (key @ r) = [Text key]"
  "is_word key \<Longrightarrow> word_ends r \<Longrightarrow> sscanf ''%s'' (CHR '' '' # key @ r) = [Text key]"
  using scan_text_word by (simp_all add: sscanf_def conversion_def)

lemma script_ptabs:
  assumes "d < 65536" "is_word f" "word_ends r"
  shows "script_line op m (''ptabs (hd'' @ show_nat d @ '') (nd)PATH/'' @ f @ r) vg =
     Inr (vg, [RestoreRaw (if d < length m then Some (m ! d) else None) f])"
proof -
  have "sscanf ''%s'' (''ptabs'' @ CHR '' '' # ''(hd'' @ show_nat d @ '') (nd)PATH/'' @ f @ r) = [Text ''ptabs'']"
    by (rule scan_key) (simp_all add: is_word_def word_ends_def isspace_def)
  then show ?thesis using scan_ptabs [OF _ assms(2,3), of d] assms(1) by (simp add: script_line_def ptabs_line_def disk_of_def)
qed

lemma partcopy_append: "partcopy_text d d2 sect f @ r = partcopy_text d d2 sect (f @ r)"
  by (simp add: partcopy_text_def)

lemma partcopy_key: "sscanf ''%s'' (partcopy_text d d2 sect r) = [Text ''partcopy'']"
proof -
  have "sscanf ''%s'' (CHR '' '' # ''partcopy'' @ CHR '' '' # ''(hd'' @ show_nat d @ '','' @ d2 @ '') '' @ show_nat sect @ '' PATH/'' @ r) = [Text ''partcopy'']"
    by (rule scan_key) (simp_all add: is_word_def word_ends_def isspace_def)
  then show ?thesis by (simp add: partcopy_text_def)
qed

lemma script_partcopy:
  assumes "d < 3968" "sect < 2 ^ 32" "\<And>r. scan_uint (d2 @ CHR '')'' # r) = Some (v, CHR '')'' # r)" "is_word f" "word_ends r"
    and "sect \<noteq> 63 \<or> \<not> ro_ntblfix op"
  shows "script_line op m (partcopy_text d d2 sect (f @ r)) vg =
     Inr (vg, [RestoreImage (if d < length m then Some (m ! d) else None) (of_nat sect) f])"
  using scan_partcopy [OF _ assms(2-5), of d] partcopy_key [of d d2 sect "f @ r"] assms(1,6)
  by (auto simp: script_line_def partcopy_line_def disk_of_def)

lemma scan_uint_minus_one: "scan_uint (show_int (- 1) @ CHR '')'' # r) = Some (2 ^ 32 - 1, CHR '')'' # r)"
proof -
  have "show_int (- 1) = ''-1''" by code_simp
  moreover have "unat (- 1 :: u32) = 2 ^ 32 - 1" by (simp add: unsigned_minus_1_eq_mask mask_eq_exp_minus_1)
  ultimately show ?thesis by (simp add: scan_uint_def isdigit_def digit_val_def)
qed

lemma script_lvm:
  assumes "3968 \<le> d" "d < 2 ^ 32" "sect < 2 ^ 32" "is_word f" "is_word dev" "word_ends r"
  shows "script_line op m (partcopy_text d (show_int (- 1)) sect (f @ CHR '' '' # dev @ r)) vg =
     Inr (True, (if vg then [] else [lvm_scan]) @ [RestoreImage (Some (''/dev/'' @ dev)) (of_nat sect) f])"
proof -
  have "word_ends (CHR '' '' # dev @ r)" by (simp add: word_ends_def)
  from scan_partcopy [OF assms(2,3) scan_uint_minus_one assms(4) this] scan_lvm [OF assms(2,3) scan_uint_minus_one assms(4-6)]
    partcopy_key [of d "show_int (- 1)" sect "f @ CHR '' '' # dev @ r"] assms(1)
  show ?thesis by (simp add: script_line_def partcopy_line_def)
qed

lemma script_other:
  assumes "is_word key" "word_ends r" "key \<notin> {''ptabs'', ''partcopy'', ''setdefault'', ''chainloader''}"
  shows "script_line op m (key @ r) vg = Inr (vg, [])" "script_line op m (CHR '' '' # key @ r) vg = Inr (vg, [])"
  using scan_key [OF assms(1,2)] assms(3) by (auto simp: script_line_def)

section \<open>Properties\<close>


text \<open>
  (\<open>makehdmap\<close>): the memory for a path has twice the length of the name. When \<open>malloc\<close> gives no more than
  it is asked for, the path of every disk with a name of up to five characters (\<^verbatim>\<open>hda\<close>, \<^verbatim>\<open>sda\<close>) is written
  past its end.
\<close>

theorem short_name_overflows:
  assumes "pline_ok p" "pline_disk p" "ro_nospc op" "ro_outdir op = None" "\<And>n. usable op n = n" "length (pl_name p) \<le> 5"
  shows "map_line op sizes (print_pline p @ [NL]) m = Some (Inl BufOverflow)"
  using assms by (simp add: map_line_disk checkhdspace_def dev_path_def)

text \<open>
  (\<open>restoreimage\<close>): the last line of a script is carried out twice when it ends with a newline: a script
  that ends with the line of a partition restores this partition two times.
\<close>

theorem last_line_twice:
  assumes "\<forall>l \<in> set ls. short_line 250 l" "script_lines op m (map (\<lambda>l. l @ [NL]) ls) False = (as, None)"
    and "d < 3968" "p < 2 ^ 32" "sect < 2 ^ 32" "sect \<noteq> 63" "is_word f" "NUL \<notin> set f" "length f \<le> 150"
  shows "restoreimage op m junk (Some (unlines (ls @ [partcopy_text d (show_nat p) sect f]))) =
     (let a = RestoreImage (if d < length m then Some (m ! d) else None) (of_nat sect) f in (as @ [a, a], None))"
proof -
  let ?l = "partcopy_text d (show_nat p) sect f"
  have chars: "NL \<notin> set ?l" "NUL \<notin> set (?l @ [NL])"
    using assms(7,8) show_nat_digits [of NL] show_nat_digits [of NUL] by (auto simp: partcopy_text_def is_word_def isdigit_def)
  have "length ?l \<le> 220" using assms(3-5,9) length_show_nat32 [of d] length_show_nat32 [of p] length_show_nat32 [of sect] by (simp add: partcopy_text_def)
  then have short: "\<forall>l \<in> set (ls @ [?l]). short_line 250 l" using assms(1) chars(1) by (auto simp: short_line_def)
  have "scan_uint (show_nat p @ CHR '')'' # r) = Some (p, CHR '')'' # r)" for r
    using assms(4) by (auto simp: isdigit_def intro!: scan_uint_show_nat)
  then have line: "script_line op m (cstr (?l @ [NL])) vg = Inr (vg, [RestoreImage (if d < length m then Some (m ! d) else None) (of_nat sect) f])" for vg
    unfolding cstr_ident [OF chars(2)] unfolding partcopy_append using assms(6) by (intro script_partcopy assms) (auto simp: word_ends_def)
  show ?thesis using feof_unlines [OF short] assms(2)
    by (simp add: restoreimage_def script_lines_append line Let_def)
qed

section \<open>Witnesses\<close>

text \<open>A computer with two disks, the second one without partitions, and an allocator that gives at least 12 bytes.\<close>

definition sample_ropts :: ropts where
  "sample_ropts = \<lparr>ro_nospc = False, ro_ntblfix = False, ro_nolrs = True, ro_outdir = None, usable = max 12\<rparr>"

definition sample_plines :: "pline list" where
  "sample_plines = [\<lparr>pl_major = 3, pl_minor = 0, pl_size = 40000, pl_name = ''hda''\<rparr>, \<lparr>pl_major = 3, pl_minor = 1, pl_size = 39000, pl_name = ''hda1''\<rparr>,
     \<lparr>pl_major = 8, pl_minor = 0, pl_size = 80000, pl_name = ''sda''\<rparr>]"

lemma sample_plines_ok: "\<forall>p \<in> set sample_plines. pline_ok p"
  by (simp add: sample_plines_def pline_ok_def is_word_def isspace_def)


theorem short_name_overflows_witness:
  "map_line (sample_ropts\<lparr>ro_nospc := True, usable := id\<rparr>) (\<lambda>_ _. None) (print_pline (hd sample_plines) @ [NL]) [] = Some (Inl BufOverflow)"
  using short_name_overflows [of "hd sample_plines" "sample_ropts\<lparr>ro_nospc := True, usable := id\<rparr>" "\<lambda>_ _. None" "[]"] sample_plines_ok
  by (simp add: sample_plines_def pline_disk_def whole_disk_def sample_ropts_def)

theorem last_line_twice_witness:
  "restoreimage sample_ropts [''/dev/hda''] [] (Some (unlines [partcopy_text 0 (show_nat 0) 2048 ''P1''])) =
     ([RestoreImage (Some ''/dev/hda'') 2048 ''P1'', RestoreImage (Some ''/dev/hda'') 2048 ''P1''], None)"
  using last_line_twice [of "[]" sample_ropts "[''/dev/hda'']" "[]" 0 0 2048 "''P1''" "[]"] by (simp add: is_word_def isspace_def Let_def)

end
