(* ===== verification/Backup.thy ===== *)
theory Backup
  imports Autosave Autorestore Bitmap
begin

text \<open>
  Saving and restoring a computer: the script that the save program writes (\<open>Autosave\<close>) is what the restore
  program carries out (\<open>Autorestore\<close>), and the partitions that the image programs save (the
  interpretations of \<open>imager\<close>) are what \<open>restore\<close> puts back on the disk (\<open>Restore\<close>).
\<close>

section \<open>The script as a list of items\<close>

text \<open>
  A script consists of the lines of the disks, of the partitions and of those that no program accepted.
\<close>

datatype item = Tab int | Copy bool int int u32 u32 u32 string | Bad int int u32

fun item_lines :: "item \<Rightarrow> string list" where
  "item_lines (Tab n) =
     [''# Comment next line to remove PTABS reconstruction'', ''ptabs (hd'' @ show_int (n - 128) @ '') (nd)PATH/'' @ dnum2pre n @ ''TABS'']"
| "item_lines (Copy isdm n poff tmin tmax ttype dev) =
     ['' # (hd'' @ show_int (n - 128) @ '','' @ show_int (poff - 1) @ '') '' @ show_nat (unat tmin) @ '' '' @ show_nat (unat tmax) @ '' '' @ show_word ttype,
      '' partcopy (hd'' @ show_int (n - 128) @ '','' @ show_int (poff - 1) @ '') '' @ show_nat (unat tmin) @ '' PATH/'' @ dnum2pre n @
        (if isdm then '' '' @ dev else show_int poff)]"
| "item_lines (Bad n poff ttype) = [unsupported ''# ERROR: Unsupported or corrupted FS...'' n poff ttype]"

definition items_text :: "item list \<Rightarrow> string" where
  "items_text its = unlines (concat (map item_lines its))"

lemma unlines_append: "unlines (a @ b) = unlines a @ unlines b"
  by (simp add: unlines_def)

lemma items_text_simps [simp]: "items_text [] = []" "items_text (it # its) = unlines (item_lines it) @ items_text its"
  "items_text (a @ b) = items_text a @ items_text b"
  by (simp_all add: items_text_def unlines_append) (simp_all add: unlines_def)

section \<open>What is to be saved\<close>

text \<open>
  The specification of the save program: the partitions in their order, with the number of the disk, the table
  of BIOS numbers, the name of the disk, and whether volumes are saved by themselves.
\<close>

type_synonym place = "int \<times> bios \<times> string \<times> bool"

text \<open>The image programs that are tried for a partition, in their order; the first one that accepts the device is run.\<close>

definition candidates :: "options \<Rightarrow> u32 \<Rightarrow> string list" where
  "candidates op t = (if revoraw op then [''raw''] else []) @ fslist @ (if t = 0x8E then [''lvm''] else []) @
     (if t = 0x12 \<or> t = 0xEE \<or> t = 0xEF then [''raw''] else [])"

definition image_cmd :: "options \<Rightarrow> string \<Rightarrow> string \<Rightarrow> string \<Rightarrow> string" where
  "image_cmd op device arg fs = tmprintf (revobin op @ ''/image_'' @ fs @ '' '' @ device @ '' '' @ arg) @ '' 2>> '' @ logtxt op"

definition accepts :: "host \<Rightarrow> options \<Rightarrow> string \<Rightarrow> string \<Rightarrow> bool" where
  "accepts h op device fs \<longleftrightarrow> h_system h (image_cmd op device ''?'' fs) = 0"

definition chosen :: "host \<Rightarrow> options \<Rightarrow> string \<Rightarrow> string list \<Rightarrow> string option" where
  "chosen h op device fss = List.find (accepts h op device) fss"

definition image_cmds :: "host \<Rightarrow> options \<Rightarrow> string \<Rightarrow> string \<Rightarrow> string list \<Rightarrow> string list" where
  "image_cmds h op device dest fss =
     map (image_cmd op device ''?'') (takeWhile (Not \<circ> accepts h op device) fss) @
     (case chosen h op device fss of None \<Rightarrow> [] | Some fs \<Rightarrow> [image_cmd op device ''?'' fs, image_cmd op device dest fs])"

text \<open>Where a partition starts and its size; a volume is only considered when they are saved by themselves.\<close>

definition part_extent :: "host \<Rightarrow> bool \<Rightarrow> part \<Rightarrow> (u32 \<times> u32) option" where
  "part_extent h lvm p =
     (case h_dev h (''/dev/'' @ p_device p) of
        None \<Rightarrow> None
      | Some d \<Rightarrow> if p_major p = 254 then if lvm then Some (0, di_size d) else None
                  else map_option (\<lambda>start. (start, di_size d)) (di_start d))"

text \<open>The entries of one partition, the commands that are run for it, and the place after it.\<close>

definition part_plan :: "host \<Rightarrow> options \<Rightarrow> tab \<Rightarrow> place \<Rightarrow> part \<Rightarrow> item list \<times> string list \<times> place" where
  "part_plan h op ex pl p =
     (case pl of (n, b, disk, lvm) \<Rightarrow>
        let dev = ''/dev/'' @ p_device p; vol = (p_major p = 254); n = (if vol then 0x1000 + p_minor p else n)
        in case part_extent h lvm p of
             None \<Rightarrow> ([], [], n, b, disk, lvm)
           | Some (start, s) \<Rightarrow>
               let poff = (if vol then 0 else p_minor p AND 0xF); known = (vol \<or> start = 0);
                   t = (if known then - 1 else last_hex (- 1) (h_sfdisk h (type_query disk poff)));
                   ask = (if known then [] else [type_query disk poff]); fss = candidates op t; c = chosen h op dev fss
               in if whole_disk (p_major p) (p_minor p) \<or> start = 0 \<and> \<not> vol
                  then (case gethdbios s b of (n, b) \<Rightarrow> ([Tab n], ask, n, b, if start = 0 then dev else disk, lvm))
                  else if s \<le> 63 \<or> extended t \<or> isexcluded ex (n - 128) poff = Inr True then ([], ask, n, b, disk, lvm)
                  else (Copy vol n poff start (start + s - 1) t (p_device p) # (if c = None then [Bad n poff t] else []),
                        ask @ image_cmds h op dev (destfile op vol n poff) fss @ (if c = None \<and> \<not> nolrs op then [''revosendlog 8''] else []),
                        n, b, disk, lvm \<or> c = Some ''lvm''))"

fun plan :: "host \<Rightarrow> options \<Rightarrow> tab \<Rightarrow> place \<Rightarrow> part list \<Rightarrow> item list \<times> string list" where
  "plan h op ex pl [] = ([], [])"
| "plan h op ex pl (p # ps) =
     (case part_plan h op ex pl p of (its, cs, pl) \<Rightarrow> case plan h op ex pl ps of (its', cs') \<Rightarrow> (its @ its', cs @ cs'))"

section \<open>What the save program writes\<close>

text \<open>A step that adds some items to the script and some commands.\<close>

definition place_of :: "save_st \<Rightarrow> place" where
  "place_of st = (dnum st, sv_bios st, majorn st, should_backup_lvm st)"

definition adds :: "item list \<Rightarrow> string list \<Rightarrow> place \<Rightarrow> save_st \<Rightarrow> save_st \<Rightarrow> bool" where
  "adds its cs pl st st' \<longleftrightarrow> conf st' = conf st @ items_text its \<and> cmds st' = cmds st @ cs \<and> place_of st' = pl \<and>
     excl st' = excl st \<and> backuped st' = backuped st"

lemma adds_trans: "adds a ca pa st st1 \<Longrightarrow> adds b cb pb st1 st2 \<Longrightarrow> adds (a @ b) (ca @ cb) pb st st2"
  by (simp add: adds_def)

lemma raw_step_adds: "raw_step h start stop st = Some (Inr st') \<Longrightarrow> adds [] [] (place_of st) st st'"
  by (auto simp: raw_step_def adds_def place_of_def ret_run_def Let_def split: option.splits prod.splits)

lemma bind_run_Inr: "bind_run m f = Some (Inr y) \<longleftrightarrow> (\<exists>x. m = Some (Inr x) \<and> f x = Some (Inr y))"
  by (auto simp: bind_run_def split: option.splits sum.splits)

lemma ret_run_Inr [simp]: "ret_run x = Some (Inr y) \<longleftrightarrow> x = y"
  by (simp add: ret_run_def)

lemma new_disk_adds:
  assumes "new_disk h op major minor device s ttype st = Some (Inr (t, st'))" "gethdbios s (sv_bios st) = (n, b)"
  shows "adds [Tab n] [] (n, b, majorn st, should_backup_lvm st) st st'"
proof -
  define st1 where "st1 = (let st = st\<lparr>dnum := n, sv_bios := b, fmajor := (case h_dev h device of None \<Rightarrow> ([], 0) | Some d \<Rightarrow> (di_data d, 0))\<rparr>;
            st = out_CONF (''D:'' @ show_int n @ '' L:'' @ show_nat (unat s) @ [NL] @ ''R'' @ [NL]) st;
            st = st\<lparr>files := files st @ [(tmprintf (revosave op @ ''/size'' @ pad0 2 (show_hex (nat major)) @ pad0 2 (show_hex (nat minor)) @ ''.txt''),
                                           show_nat (unat (s div 2)))]\<rparr>;
            st = out_conf (''# Comment next line to remove PTABS reconstruction'' @ [NL]) st
        in out_conf (''ptabs (hd'' @ show_int (n - 128) @ '') (nd)PATH/'' @ dnum2pre n @ ''TABS'' @ [NL]) st)"
  have a: "adds [Tab n] [] (n, b, majorn st, should_backup_lvm st) st (st1\<lparr>fmajor := f\<rparr>)" for f
    by (simp add: st1_def adds_def place_of_def out_conf_def out_CONF_def Let_def unlines_def)
  obtain f r where l: "ldm_check (h_stack h) (fmajor st1) = (f, r)" by fastforce
  show ?thesis
  proof (cases r)
    case None
    then have "st' = st1\<lparr>fmajor := f\<rparr>" using assms l by (simp add: new_disk_def st1_def Let_def)
    then show ?thesis using a by simp
  next
    case (Some q)
    obtain x y where q: "q = (x, y)" by (cases q)
    have "bind_run (raw_step h (ucast x) (ucast (x + y - 1)) (st1\<lparr>fmajor := f\<rparr>)) (\<lambda>st. ret_run (0x42, st)) = Some (Inr (t, st'))"
      using assms l Some q by (simp add: new_disk_def st1_def Let_def)
    then have "raw_step h (ucast x) (ucast (x + y - 1)) (st1\<lparr>fmajor := f\<rparr>) = Some (Inr st')" by (auto simp: bind_run_Inr)
    moreover have "place_of (st1\<lparr>fmajor := f\<rparr>) = (n, b, majorn st, should_backup_lvm st)" using a [of f] by (simp add: adds_def)
    ultimately show ?thesis using adds_trans [OF a raw_step_adds] by fastforce
  qed
qed

subsection \<open>The image programs\<close>

lemma mysystem_runs: "mysystem h op s st = Inr (ok, st') \<Longrightarrow> ok = (h_system h (s @ '' 2>> '' @ logtxt op) = 0) \<and> st' = st\<lparr>cmds := cmds st @ [s @ '' 2>> '' @ logtxt op]\<rparr>"
  by (auto simp: mysystem_def Let_def split: if_splits)

lemma try_images_runs:
  "try_images h op device dest fss st = Inr (r, st') \<Longrightarrow> r = chosen h op device fss \<and> st' = st\<lparr>cmds := cmds st @ image_cmds h op device dest fss\<rparr>"
proof (induction fss arbitrary: st)
  case (Cons fs fss)
  have test: "tmprintf (revobin op @ ''/image_'' @ fs @ '' '' @ device @ '' ?'') @ '' 2>> '' @ logtxt op = image_cmd op device ''?'' fs"
    "tmprintf (revobin op @ ''/image_'' @ fs @ '' '' @ device @ '' '' @ dest) @ '' 2>> '' @ logtxt op = image_cmd op device dest fs"
    by (simp_all add: image_cmd_def)
  obtain ok st1 where 1: "mysystem h op (tmprintf (revobin op @ ''/image_'' @ fs @ '' '' @ device @ '' ?'')) st = Inr (ok, st1)"
      "(if ok then bind_res (mysystem h op (tmprintf (revobin op @ ''/image_'' @ fs @ '' '' @ device @ '' '' @ dest)) st1) (\<lambda>(_, st). Inr (Some fs, st))
        else try_images h op device dest fss st1) = Inr (r, st')"
    using Cons.prems by (auto simp: bind_res_Inr_iff)
  have m: "ok = accepts h op device fs" "st1 = st\<lparr>cmds := cmds st @ [image_cmd op device ''?'' fs]\<rparr>"
    using mysystem_runs [OF 1(1)] unfolding test accepts_def by simp_all
  show ?case
  proof (cases ok)
    case True
    then obtain v where "mysystem h op (tmprintf (revobin op @ ''/image_'' @ fs @ '' '' @ device @ '' '' @ dest)) st1 = Inr (v, st')" "r = Some fs"
      using 1(2) by (auto simp: bind_res_Inr_iff)
    from mysystem_runs [OF this(1)] this(2) True m show ?thesis
      unfolding test by (simp add: chosen_def image_cmds_def)
  next
    case False
    then have "try_images h op device dest fss st1 = Inr (r, st')" using 1(2) by simp
    from Cons.IH [OF this] False m show ?thesis by (simp add: chosen_def image_cmds_def)
  qed
qed (simp add: chosen_def image_cmds_def)

lemma try_images_append:
  "try_images h op device dest (a @ b) st =
     bind_res (try_images h op device dest a st) (\<lambda>(r, st). if r \<noteq> None then Inr (r, st) else try_images h op device dest b st)"
proof (induction a arbitrary: st)
  case (Cons fs a)
  have u: "bind_res (case x of (u, v) \<Rightarrow> g u v) k = (case x of (u, v) \<Rightarrow> bind_res (g u v) k)" for x :: "bool \<times> save_st" and g k
    by (cases x) simp
  show ?case
    by (simp add: Cons.IH bind_res_def split: sum.splits prod.splits)
qed simp

lemma chosen_in: "chosen h op device fss = Some fs \<Longrightarrow> fs \<in> set fss"
  by (induction fss) (auto simp: chosen_def split: if_splits)

text \<open>The chain of attempts is one list; only \<open>lvm\<close> leaves a mark.\<close>

definition attempt_result :: "string option \<times> save_st \<Rightarrow> (bool \<times> save_st) res" where
  "attempt_result = (\<lambda>(r, st). Inr (r \<noteq> None, if r = Some ''lvm'' then st\<lparr>should_backup_lvm := True\<rparr> else st))"

lemma not_lvm: "try_images h op device dest fss st = Inr (r, st') \<Longrightarrow> ''lvm'' \<notin> set fss \<Longrightarrow> r \<noteq> Some ''lvm''"
  using try_images_runs chosen_in by metis

lemma attempts:
  shows "''lvm'' \<notin> set a \<Longrightarrow> bind_res (try_images h op device dest a st) (\<lambda>(r, st). if r \<noteq> None then Inr (True, st) else
      bind_res (try_images h op device dest b st) attempt_result) = bind_res (try_images h op device dest (a @ b) st) attempt_result"
    and "set a \<subseteq> {''lvm''} \<Longrightarrow> bind_res (try_images h op device dest a st) (\<lambda>(r, st). if r \<noteq> None then Inr (True, st\<lparr>should_backup_lvm := True\<rparr>) else
      bind_res (try_images h op device dest b st) attempt_result) = bind_res (try_images h op device dest (a @ b) st) attempt_result"
    and "''lvm'' \<notin> set a \<Longrightarrow> bind_res (try_images h op device dest a st) (\<lambda>(r, st). Inr (r \<noteq> None, st)) =
      bind_res (try_images h op device dest a st) attempt_result"
proof -
  have lvm: "r = Some ''lvm''" if "try_images h op device dest a st = Inr (r, st')" "set a \<subseteq> {''lvm''}" "r \<noteq> None" for r st'
    using try_images_runs [OF that(1)] chosen_in [of h op device a] that(2,3) by auto
  show "''lvm'' \<notin> set a \<Longrightarrow> bind_res (try_images h op device dest a st) (\<lambda>(r, st). if r \<noteq> None then Inr (True, st) else
      bind_res (try_images h op device dest b st) attempt_result) = bind_res (try_images h op device dest (a @ b) st) attempt_result"
    using not_lvm [of h op device dest a st] by (auto simp: try_images_append attempt_result_def bind_res_def split: sum.splits)
  show "set a \<subseteq> {''lvm''} \<Longrightarrow> bind_res (try_images h op device dest a st) (\<lambda>(r, st). if r \<noteq> None then Inr (True, st\<lparr>should_backup_lvm := True\<rparr>) else
      bind_res (try_images h op device dest b st) attempt_result) = bind_res (try_images h op device dest (a @ b) st) attempt_result"
    using lvm by (auto simp: try_images_append attempt_result_def bind_res_def split: sum.splits)
  show "''lvm'' \<notin> set a \<Longrightarrow> bind_res (try_images h op device dest a st) (\<lambda>(r, st). Inr (r \<noteq> None, st)) =
      bind_res (try_images h op device dest a st) attempt_result"
    using not_lvm [of h op device dest a st] by (auto simp: attempt_result_def bind_res_def split: sum.splits)
qed

lemma save_fs_candidates:
  "save_fs h op device dest t st = bind_res (try_images h op device dest (candidates op t) st) attempt_result"
proof -
  have i: "(if c then try_images h op device dest x st else Inr (None, st)) = try_images h op device dest (if c then x else []) st" for c x st by simp
  have "''lvm'' \<notin> set (if revoraw op then [''raw''] else [])" "''lvm'' \<notin> set fslist" "set (if t = 0x8E then [''lvm''] else []) \<subseteq> {''lvm''}"
    "''lvm'' \<notin> set (if t = 0x12 \<or> t = 0xEE \<or> t = 0xEF then [''raw''] else [])" by (auto simp: fslist_def)
  note a = attempts(3) [OF this(4)] attempts(2) [OF this(3)] attempts(1) [OF this(2)] attempts(1) [OF this(1)]
  show ?thesis unfolding save_fs_def i a candidates_def ..
qed

lemma save_fs_runs:
  assumes "save_fs h op device dest t st = Inr (ok, st')"
  shows "ok = (chosen h op device (candidates op t) \<noteq> None) \<and>
     st' = st\<lparr>cmds := cmds st @ image_cmds h op device dest (candidates op t),
              should_backup_lvm := (should_backup_lvm st \<or> chosen h op device (candidates op t) = Some ''lvm'')\<rparr>"
proof -
  obtain r st0 where "try_images h op device dest (candidates op t) st = Inr (r, st0)"
      "ok = (r \<noteq> None)" "st' = (if r = Some ''lvm'' then st0\<lparr>should_backup_lvm := True\<rparr> else st0)"
    using assms by (auto simp: save_fs_candidates attempt_result_def bind_res_Inr_iff)
  with try_images_runs [OF this(1)] show ?thesis by auto
qed

subsection \<open>One partition\<close>

lemma write_part_adds:
  assumes "write_part h op isdm poff tmin tmax t dev device st = Inr st'" "c = chosen h op device (candidates op t)"
  shows "adds (Copy isdm (dnum st) poff tmin tmax t dev # (if c = None then [Bad (dnum st) poff t] else []))
     (image_cmds h op device (destfile op isdm (dnum st) poff) (candidates op t) @ (if c = None \<and> \<not> nolrs op then [''revosendlog 8''] else []))
     (dnum st, sv_bios st, majorn st, should_backup_lvm st \<or> c = Some ''lvm'') st st'"
proof -
  define st1 where "st1 = out_conf (part_lines isdm (dnum st) poff tmin tmax t dev)
      (out_CONF (''P'' @ ljust 2 (show_int poff) @ '', S:'' @ show_nat (unat tmin) @ '' , E:'' @ show_nat (unat tmax) @ '' , t:'' @ show_word t @ [NL]) st)"
  have c1: "conf st1 = conf st @ unlines (item_lines (Copy isdm (dnum st) poff tmin tmax t dev))"
    by (simp add: st1_def out_conf_def out_CONF_def part_lines_def unlines_def)
  have s1: "cmds st1 = cmds st" "place_of st1 = place_of st" "excl st1 = excl st" "backuped st1 = backuped st" "should_backup_lvm st1 = should_backup_lvm st"
    by (simp_all add: st1_def out_conf_def out_CONF_def place_of_def)
  define fail where "fail st2 = ui_error (unsupported (''Unsupported or corrupted file system...'' @ [NL, NL]) (dnum st) poff t)
      (fatal op (out_conf (unsupported ''# ERROR: Unsupported or corrupted FS...'' (dnum st) poff t @ [NL]) st2))" for st2
  have w: "write_part h op isdm poff tmin tmax t dev device st =
     bind_res (save_fs h op device (destfile op isdm (dnum st) poff) t st1) (\<lambda>(ok, st2). if ok then Inr st2 else Inr (fail st2))"
    unfolding write_part_def Let_def st1_def fail_def ..
  then obtain ok st2 where s: "save_fs h op device (destfile op isdm (dnum st) poff) t st1 = Inr (ok, st2)" "st' = (if ok then st2 else fail st2)"
    using assms(1) by (cases "save_fs h op device (destfile op isdm (dnum st) poff) t st1") (auto split: if_splits)
  note r = save_fs_runs [OF s(1), folded assms(2)]
  have f: "conf (fail x) = conf x @ unlines (item_lines (Bad (dnum st) poff t))" "cmds (fail x) = cmds x @ (if nolrs op then [] else [''revosendlog 8''])"
    "place_of (fail x) = place_of x" "excl (fail x) = excl x" "backuped (fail x) = backuped x" for x
    by (simp_all add: fail_def fatal_def ui_error_def out_conf_def place_of_def unlines_def)
  show ?thesis
  proof (cases "c = None")
    case True
    then show ?thesis using r s(2) f s1 c1 by (simp add: adds_def place_of_def del: item_lines.simps)
  next
    case False
    then obtain y where "c = Some y" by blast
    then show ?thesis using r s(2) s1 c1 by (simp add: adds_def place_of_def del: item_lines.simps)
  qed
qed

text \<open>
  The numbers of an entry: those of disks start with 128, that of a partition that is looked up in the list of excluded
  ones is inside its table.
\<close>

fun item_wf :: "item \<Rightarrow> bool" where
  "item_wf (Tab n) \<longleftrightarrow> 128 \<le> n"
| "item_wf (Copy isdm n poff tmin tmax ttype dev) \<longleftrightarrow> 128 \<le> n \<and> n < 65664 \<and> 0 \<le> poff \<and> poff < 16 \<and> (isdm \<longrightarrow> poff = 0 \<and> tmin = 0)"
| "item_wf (Bad n poff ttype) \<longleftrightarrow> 128 \<le> n \<and> n < 65664 \<and> 0 \<le> poff \<and> poff < 16"

lemma isexcluded_range: "isexcluded t (n - 128) poff = Inr ex \<Longrightarrow> 128 \<le> n \<and> n < 65664"
  by (auto simp: isexcluded_def tab_size_def split: if_splits)

lemma gethdbios_number:
  assumes "- 1 \<le> lastnum b" "gethdbios s b = (n, b')"
  shows "128 \<le> n \<and> - 1 \<le> lastnum b'"
  using assms by (auto simp: gethdbios_def Let_def split: if_splits option.splits)

lemma minor_range: "0 \<le> i AND 0xF \<and> i AND 0xF < (16 :: int)"
  using take_bit_eq_mask [of 4 i] by (auto simp: mask_eq_exp_minus_1 simp flip: take_bit_eq_mask)

definition plan_wf :: "item list \<Rightarrow> place \<Rightarrow> bool" where
  "plan_wf its pl \<longleftrightarrow> (\<forall>it \<in> set its. item_wf it) \<and> - 1 \<le> lastnum (fst (snd pl))"

lemma part_body_plan:
  assumes body: "part_body h op p (''/dev/'' @ p_device p) isdm start s st = Some (Inr st')"
    and p: "isdm = (p_major p = 254)" "part_extent h (should_backup_lvm st) p = Some (start, s)" "dnum st = (if isdm then 0x1000 + p_minor p else n)"
    and pl: "part_plan h op (excl st) (n, sv_bios st, majorn st, should_backup_lvm st) p = (its, cs, pl)" and b: "- 1 \<le> lastnum (sv_bios st)"
  shows "adds its cs pl st st' \<and> plan_wf its pl"
proof -
  let ?dev = "''/dev/'' @ p_device p"
  define poff where "poff = (if isdm then 0 else p_minor p AND 0xF)"
  define first where "first = (start = 0 \<and> \<not> isdm)"
  define whole where "whole = (whole_disk (p_major p) (p_minor p) \<or> first)"
  define known where "known = (isdm \<or> start = 0)"
  define t where "t = (if known then - 1 else last_hex (- 1) (h_sfdisk h (type_query (majorn st) poff)))"
  define ask where "ask = (if known then [] else [type_query (majorn st) poff])"
  have poff: "0 \<le> poff" "poff < 16" using minor_range [of "p_minor p"] by (auto simp: poff_def)
  have st0: "isdm \<longrightarrow> start = 0" using p(1,2) by (auto simp: part_extent_def split: option.splits if_splits)
  obtain t0 st0 t1 st1 st2 where
      0: "(if first then bind_run (Some (strcpy 256 ?dev)) (\<lambda>m. ret_run (- 1, st\<lparr>majorn := m\<rparr>))
           else if isdm then ret_run (- 1, st) else Some (ask_type h poff st)) = Some (Inr (t0, st0))"
      and 1: "(if whole then new_disk h op (p_major p) (p_minor p) ?dev s t0 st0 else ret_run (t0, st0)) = Some (Inr (t1, st1))"
      and 2: "(if isdm then ret_run st1 else raw_step h (table_start poff start) (start + 62) st1) = Some (Inr st2)"
      and 3: "(if whole \<or> s \<le> 63 \<or> extended t1 then ret_run st2
              else bind_run (Some (isexcluded (excl st2) (dnum st2 - 128) poff)) (\<lambda>ex.
                     if ex then ret_run st2
                     else Some (write_part h op isdm poff start (start + s - 1) t1 (p_device p) ?dev st2))) = Some (Inr st')"
    using body unfolding part_body_def Let_def poff_def [symmetric] first_def [symmetric] whole_def [symmetric]
    by (fastforce simp: bind_run_Inr split: prod.splits)
  have s0: "t0 = t" "adds [] ask (dnum st, sv_bios st, if first then ?dev else majorn st, should_backup_lvm st) st st0"
    using 0 st0 by (auto simp: bind_run_Inr adds_def place_of_def t_def ask_def known_def first_def ask_type_def strcpy_def bind_res_Inr_iff split: if_splits)
  have s2: "adds [] [] (place_of st1) st1 st2"
    using 2 raw_step_adds by (auto simp: adds_def split: if_splits)
  show ?thesis
  proof (cases whole)
    case True
    obtain k b' where g: "gethdbios s (sv_bios st) = (k, b')" by fastforce
    have v: "\<not> isdm" using True p(1) by (auto simp: whole_def first_def whole_disk_def)
    have "sv_bios st0 = sv_bios st" "majorn st0 = (if start = 0 then ?dev else majorn st)" "should_backup_lvm st0 = should_backup_lvm st"
      using s0(2) v by (auto simp: adds_def place_of_def first_def)
    with new_disk_adds [of h op "p_major p" "p_minor p" ?dev s t0 st0 t1 st1 k b'] 1 True g
    have "adds [Tab k] [] (k, b', if start = 0 then ?dev else majorn st, should_backup_lvm st) st0 st1" by simp
    from adds_trans [OF adds_trans [OF s0(2) this] s2] this
    have "adds [Tab k] ask (k, b', if start = 0 then ?dev else majorn st, should_backup_lvm st) st st2" by (simp add: adds_def)
    moreover have "its = [Tab k]" "cs = ask" "pl = (k, b', if start = 0 then ?dev else majorn st, should_backup_lvm st)"
      using pl True v p(1,2) g by (auto simp: part_plan_def Let_def whole_def first_def ask_def known_def poff_def)
    moreover have "st' = st2" using 3 True by simp
    ultimately show ?thesis using gethdbios_number [OF b g] by (simp add: plan_wf_def)
  next
    case False
    then have t1: "t1 = t" "st1 = st0" using 1 s0(1) by auto
    have d: "dnum st2 = dnum st" "excl st2 = excl st" "sv_bios st2 = sv_bios st" "majorn st2 = majorn st" "should_backup_lvm st2 = should_backup_lvm st"
      and a2: "adds [] ask (place_of st2) st st2"
      using s0(2) s2 False unfolding t1 by (auto simp: adds_def place_of_def whole_def)
    let ?c = "chosen h op ?dev (candidates op t)"
    have pp: "(its, cs, pl) =
        (if s \<le> 63 \<or> extended t \<or> isexcluded (excl st) (dnum st - 128) poff = Inr True then ([], ask, place_of st2)
         else (Copy isdm (dnum st) poff start (start + s - 1) t (p_device p) # (if ?c = None then [Bad (dnum st) poff t] else []),
               ask @ image_cmds h op ?dev (destfile op isdm (dnum st) poff) (candidates op t) @ (if ?c = None \<and> \<not> nolrs op then [''revosendlog 8''] else []),
               dnum st, sv_bios st, majorn st, should_backup_lvm st \<or> ?c = Some ''lvm''))"
    proof -
      have nw: "(whole_disk (p_major p) (p_minor p) \<or> start = 0 \<and> \<not> isdm) = False" using False by (auto simp: whole_def first_def)
      show ?thesis
        unfolding pl [symmetric] part_plan_def Let_def prod.case p(2) option.case p(1) [symmetric] poff_def [symmetric] known_def [symmetric]
          t_def [symmetric] ask_def [symmetric] p(3) [symmetric] place_of_def d
        by (simp only: nw if_False)
    qed
    show ?thesis
    proof (cases "s \<le> 63 \<or> extended t \<or> isexcluded (excl st) (dnum st - 128) poff = Inr True")
      case True
      then have "st' = st2" using 3 False t1(1) d by (auto simp: bind_run_Inr split: if_splits)
      then show ?thesis using pp True a2 b d by (simp add: plan_wf_def place_of_def)
    next
      case no: False
      then obtain ex where ex: "isexcluded (excl st) (dnum st - 128) poff = Inr ex" "\<not> ex"
          "write_part h op isdm poff start (start + s - 1) t (p_device p) ?dev st2 = Inr st'"
        using 3 False t1(1) d by (auto simp: bind_run_Inr split: if_splits)
      note w = adds_trans [OF a2 write_part_adds [OF ex(3) refl], unfolded d append_Nil] and e = pp [unfolded if_not_P [OF no] prod.inject]
      have "adds its cs pl st st'" using w unfolding e [THEN conjunct1] e [THEN conjunct2, THEN conjunct1] e [THEN conjunct2, THEN conjunct2] .
      moreover have "plan_wf its pl" using pp no isexcluded_range [OF ex(1)] poff b st0 by (auto simp: plan_wf_def poff_def)
      ultimately show ?thesis ..
    qed
  qed
qed

text \<open>With the partition itself counted.\<close>

lemma save_part_plan:
  assumes "save_part h op p st = Some (Inr st')" "part_plan h op (excl st) (place_of st) p = (its, cs, pl)" "- 1 \<le> lastnum (sv_bios st)"
  shows "adds its cs pl (st\<lparr>backuped := backuped st + 1\<rparr>) st' \<and> plan_wf its pl"
proof -
  define isdm where "isdm = (p_major p = 254)"
  define st1 where "st1 = st\<lparr>backuped := backuped st + 1, dnum := (if isdm then 0x1000 + p_minor p else dnum st)\<rparr>"
  have st1: "sv_bios st1 = sv_bios st" "majorn st1 = majorn st" "should_backup_lvm st1 = should_backup_lvm st" "excl st1 = excl st"
    "dnum st1 = (if isdm then 0x1000 + p_minor p else dnum st)" by (simp_all add: st1_def)
  have same: "adds its cs pl st1 st' \<Longrightarrow> adds its cs pl (st\<lparr>backuped := backuped st + 1\<rparr>) st'" by (simp add: adds_def st1_def)
  show ?thesis
  proof (cases "part_extent h (should_backup_lvm st) p")
    case None
    then have "st' = st1" using assms(1) unfolding save_part_def Let_def isdm_def [symmetric] st1_def [symmetric]
      by (auto simp: part_extent_def isdm_def st1 split: option.splits if_splits)
    moreover have "its = []" "cs = []" "pl = place_of st1"
      using assms(2) None by (auto simp: part_plan_def place_of_def Let_def st1 isdm_def)
    ultimately show ?thesis using same assms(3) st1 by (simp add: adds_def plan_wf_def place_of_def)
  next
    case (Some q)
    obtain start s where q: "q = (start, s)" by (cases q)
    have body: "part_body h op p (''/dev/'' @ p_device p) isdm start s st1 = Some (Inr st')"
      using assms(1) Some q unfolding save_part_def Let_def isdm_def [symmetric] st1_def [symmetric]
      by (auto simp: part_extent_def isdm_def st1 split: option.splits if_splits)
    have "part_plan h op (excl st1) (dnum st, sv_bios st1, majorn st1, should_backup_lvm st1) p = (its, cs, pl)"
      using assms(2) by (simp add: st1 place_of_def)
    from part_body_plan [OF body isdm_def _ st1(5) this] Some q st1 assms(3) same show ?thesis by simp
  qed
qed

lemma save_parts_plan:
  assumes "save_parts h op ps st = Some (Inr st')" "plan h op (excl st) (place_of st) ps = (its, cs)" "- 1 \<le> lastnum (sv_bios st)"
  shows "conf st' = conf st @ items_text its \<and> cmds st' = cmds st @ cs \<and> backuped st' = backuped st + length ps \<and> (\<forall>it \<in> set its. item_wf it)"
  using assms
proof (induction ps arbitrary: st its cs)
  case (Cons p ps)
  obtain st1 where 1: "save_part h op p st = Some (Inr st1)" "save_parts h op ps st1 = Some (Inr st')"
    using Cons.prems(1) by (auto simp: bind_run_Inr)
  obtain a ca pl where a: "part_plan h op (excl st) (place_of st) p = (a, ca, pl)" by (metis prod_cases3)
  obtain b cb where b: "plan h op (excl st) pl ps = (b, cb)" by fastforce
  have e: "its = a @ b" "cs = ca @ cb" using Cons.prems(2) a b by simp_all
  note s1 = save_part_plan [OF 1(1) a Cons.prems(3)]
  then have "plan h op (excl st1) (place_of st1) ps = (b, cb)" "- 1 \<le> lastnum (sv_bios st1)" using b by (auto simp: adds_def plan_wf_def place_of_def)
  from Cons.IH [OF 1(2) this] s1 e show ?case by (auto simp: adds_def plan_wf_def)
qed simp

section \<open>What the restore program makes of it\<close>

text \<open>What has to hold so that the name of a disk is a printable letter and the name of a volume can be read back.\<close>

fun item_fits :: "item \<Rightarrow> bool" where
  "item_fits (Tab n) \<longleftrightarrow> n < 304"
| "item_fits (Copy isdm n poff tmin tmax ttype dev) \<longleftrightarrow>
     (if isdm then 0x1000 \<le> n \<and> is_word dev \<and> NUL \<notin> set dev \<and> length dev \<le> 150 else n < 304)"
| "item_fits (Bad n poff ttype) \<longleftrightarrow> True"

text \<open>What is to be done for an item; \<open>vg\<close> says whether the volume groups were scanned.\<close>

definition bios_disk :: "string list \<Rightarrow> int \<Rightarrow> string option" where
  "bios_disk m n = (if nat (n - 128) < length m then Some (m ! nat (n - 128)) else None)"

fun item_actions :: "string list \<Rightarrow> bool \<Rightarrow> item \<Rightarrow> action list" where
  "item_actions m vg (Tab n) = [RestoreRaw (bios_disk m n) (dnum2pre n @ ''TABS'')]"
| "item_actions m vg (Copy isdm n poff tmin tmax ttype dev) =
     (if isdm then (if vg then [] else [lvm_scan]) @ [RestoreImage (Some (''/dev/'' @ dev)) 0 (dnum2pre n)]
      else [RestoreImage (bios_disk m n) tmin (dnum2pre n @ show_int poff)])"
| "item_actions m vg (Bad n poff ttype) = []"

fun scans :: "item \<Rightarrow> bool" where
  "scans (Copy isdm n poff tmin tmax ttype dev) = isdm"
| "scans _ = False"

fun items_actions :: "string list \<Rightarrow> bool \<Rightarrow> item list \<Rightarrow> action list" where
  "items_actions m vg [] = []"
| "items_actions m vg (it # its) = item_actions m vg it @ items_actions m (vg \<or> scans it) its"

subsection \<open>Characters\<close>

lemma upper_hex_plain: "n < 16 \<Longrightarrow> \<not> isspace (upper_hex n) \<and> upper_hex n \<noteq> NUL"
proof -
  assume "n < 16"
  then have "n \<in> set [0..<16]" by simp
  moreover have "\<forall>k \<in> set [0..<16]. \<not> isspace (upper_hex k) \<and> upper_hex k \<noteq> NUL"
    by (simp add: upt_rec upper_hex_def isspace_def char_of_def)
  ultimately show ?thesis by blast
qed

lemma disk_letter:
  fixes k :: nat
  assumes "80 \<le> k" "k < 256"
  shows "\<not> isspace (char_of k) \<and> char_of k \<noteq> NUL"
proof -
  define c :: char where "c = char_of k"
  have "of_char c = k" using assms(2) by (simp add: c_def of_char_of)
  with assms(1) have "\<not> isspace c \<and> c \<noteq> NUL" by (auto simp: isspace_def)
  then show ?thesis by (simp add: c_def)
qed

lemma dnum2pre_word:
  assumes "128 \<le> n" "n < 304 \<or> 0x1000 \<le> n"
  shows "is_word (dnum2pre n) \<and> NUL \<notin> set (dnum2pre n) \<and> length (dnum2pre n) \<le> 5"
proof (cases "0xFFF \<le> n")
  case True
  have "nat (n mod 256) div 16 < 16" "nat (n mod 256) mod 16 < 16" by (simp_all add: less_mult_imp_div_less nat_less_iff)
  note this [THEN upper_hex_plain]
  with True show ?thesis by (auto simp: dnum2pre_def Let_def is_word_def isspace_def [of "CHR ''L''"] isspace_def [of "CHR ''v''"] isspace_def [of "CHR ''m''"])
next
  case False
  then have "80 \<le> nat ((80 + (n - 128)) mod 256)" "nat ((80 + (n - 128)) mod 256) < 256" using assms by simp_all
  from disk_letter [OF this] False show ?thesis by (auto simp: dnum2pre_def is_word_def Let_def)
qed

lemma show_int_chars: "c \<in> set (show_int i) \<Longrightarrow> isdigit c \<or> c = CHR ''-''"
  by (auto simp: show_int_def dest: show_nat_digits split: if_splits)

lemma show_int_plain [simp]: "NL \<notin> set (show_int i)" "NUL \<notin> set (show_int i)" "NL \<notin> set (show_nat n)" "NUL \<notin> set (show_nat n)"
  using show_int_chars [of NL i] show_int_chars [of NUL i] show_nat_digits [of NL n] show_nat_digits [of NUL n] by (auto simp: isdigit_def)

lemma show_int_word: "is_word (show_int i)"
proof -
  have "\<not> isspace c" if "c \<in> set (show_int i)" for c using show_int_chars [OF that] isdigit_not_isspace [of c] by (auto simp: isspace_def)
  then show ?thesis by (simp add: is_word_def) (simp add: show_int_def)
qed

lemma length_show_int: "\<bar>i\<bar> < 10 ^ k \<Longrightarrow> 0 < k \<Longrightarrow> length (show_int i) \<le> k + 1"
  using length_show_nat [of k "nat \<bar>i\<bar>"] by (auto simp: show_int_def abs_if nat_less_iff split: if_splits)

lemma lower_hex_plain: "n < 16 \<Longrightarrow> lower_hex n \<noteq> NL"
proof -
  assume "n < 16"
  then have "n \<in> set [0..<16]" by simp
  moreover have "\<forall>k \<in> set [0..<16]. lower_hex k \<noteq> NL" by (simp add: upt_rec lower_hex_def char_of_def)
  ultimately show ?thesis by blast
qed

lemma show_hex_plain [simp]: "NL \<notin> set (show_hex n)"
proof (induction n rule: show_hex.induct)
  case (1 n)
  then show ?case using lower_hex_plain [of "n mod 16"] lower_hex_plain [of n] by (subst show_hex.simps) auto
qed

lemma length_show_hex: "n < 16 ^ k \<Longrightarrow> 0 < k \<Longrightarrow> length (show_hex n) \<le> k"
proof (induction n arbitrary: k rule: show_hex.induct)
  case (1 n)
  show ?case
  proof (cases "n < 16")
    case False
    then obtain j where j: "k = Suc j" "0 < j" using "1.prems" by (cases k; cases "k - 1") auto
    then have "n div 16 < 16 ^ j" using "1.prems"(1) by (simp add: less_mult_imp_div_less mult.commute)
    with "1.IH" [OF False this j(2)] False j show ?thesis by (subst show_hex.simps) simp
  qed (subst show_hex.simps, use "1.prems" in auto)
qed

subsection \<open>Lines of an item\<close>

lemma cstr_append: "NUL \<notin> set a \<Longrightarrow> cstr (a @ b) = a @ cstr b"
  by (induction a) (auto simp: cstr_def)

lemma cstr_Cons: "c \<noteq> NUL \<Longrightarrow> cstr (c # s) = c # cstr s"
  by (simp add: cstr_def)

lemma comment_line:
  "script_line op m (cstr (''# '' @ r)) vg = Inr (vg, [])" "script_line op m (cstr ('' # '' @ r)) vg = Inr (vg, [])"
proof -
  have "is_word ''#''" "word_ends (CHR '' '' # cstr r)" by (simp_all add: is_word_def word_ends_def isspace_def)
  from script_other [OF this, of op m vg] show "script_line op m (cstr (''# '' @ r)) vg = Inr (vg, [])" "script_line op m (cstr ('' # '' @ r)) vg = Inr (vg, [])"
    by (simp_all add: cstr_Cons)
qed

lemma ends_newline: "word_ends [NL]"
  by (simp add: word_ends_def isspace_def)

lemma show_int_nonneg: "0 \<le> i \<Longrightarrow> show_int i = show_nat (nat i)"
  by (simp add: show_int_def)

lemma tab_line:
  assumes "128 \<le> n" "n < 304"
  shows "script_line op m (cstr (''ptabs (hd'' @ show_int (n - 128) @ '') (nd)PATH/'' @ dnum2pre n @ ''TABS'' @ [NL])) vg =
     Inr (vg, [RestoreRaw (bios_disk m n) (dnum2pre n @ ''TABS'')])"
proof -
  note w = dnum2pre_word [OF assms(1) disjI1 [OF assms(2)]]
  have f: "is_word (dnum2pre n @ ''TABS'')" using w by (simp add: is_word_def) (simp add: isspace_def)
  have c: "cstr (''ptabs (hd'' @ show_int (n - 128) @ '') (nd)PATH/'' @ dnum2pre n @ ''TABS'' @ [NL]) =
      ''ptabs (hd'' @ show_nat (nat (n - 128)) @ '') (nd)PATH/'' @ (dnum2pre n @ ''TABS'') @ [NL]"
    using w assms(1) by (subst cstr_ident) (simp_all add: show_int_nonneg)
  have "nat (n - 128) < 65536" using assms by simp
  note p = script_ptabs [OF this f ends_newline, of op m vg]
  show ?thesis unfolding c p by (simp add: bios_disk_def)
qed

lemma scan_poff: "0 \<le> poff \<Longrightarrow> poff < 16 \<Longrightarrow> \<exists>v. \<forall>r. scan_uint (show_int (poff - 1) @ CHR '')'' # r) = Some (v, CHR '')'' # r)"
proof (cases "poff = 0")
  case True
  then show ?thesis using scan_uint_minus_one by auto
next
  case False
  assume "0 \<le> poff" "poff < 16"
  with False have "scan_uint (show_int (poff - 1) @ CHR '')'' # r) = Some (nat (poff - 1), CHR '')'' # r)" for r
    by (auto simp: show_int_nonneg isdigit_def intro!: scan_uint_show_nat)
  then show ?thesis by blast
qed

lemma copy_line:
  assumes "128 \<le> n" "n < 304" "0 \<le> poff" "poff < 16" "\<not> ro_ntblfix op"
  shows "script_line op m (cstr ('' partcopy (hd'' @ show_int (n - 128) @ '','' @ show_int (poff - 1) @ '') '' @ show_nat (unat tmin) @ '' PATH/'' @ dnum2pre n @ show_int poff @ [NL])) vg =
     Inr (vg, [RestoreImage (bios_disk m n) tmin (dnum2pre n @ show_int poff)])"
proof -
  note w = dnum2pre_word [OF assms(1) disjI1 [OF assms(2)]]
  obtain v where v: "\<And>r. scan_uint (show_int (poff - 1) @ CHR '')'' # r) = Some (v, CHR '')'' # r)" using scan_poff [OF assms(3,4)] by blast
  have f: "is_word (dnum2pre n @ show_int poff)" using w show_int_word [of poff] by (auto simp: is_word_def)
  have t: "'' partcopy (hd'' @ show_int (n - 128) @ '','' @ show_int (poff - 1) @ '') '' @ show_nat (unat tmin) @ '' PATH/'' @ dnum2pre n @ show_int poff @ [NL] =
      partcopy_text (nat (n - 128)) (show_int (poff - 1)) (unat tmin) ((dnum2pre n @ show_int poff) @ [NL])" (is "?l = _")
    using assms(1) by (simp add: partcopy_text_def show_int_nonneg)
  have "nat (n - 128) < 3968" "unat tmin < 2 ^ 32" "unat tmin \<noteq> 63 \<or> \<not> ro_ntblfix op" using assms unsigned_less [of tmin] by auto
  note p = script_partcopy [OF this(1,2) v f ends_newline this(3), of m vg]
  have "cstr ?l = ?l" using w by (intro cstr_ident) simp
  show ?thesis unfolding \<open>cstr ?l = ?l\<close> unfolding t p by (simp add: bios_disk_def)
qed

lemma volume_line:
  assumes "0x1000 \<le> n" "n < 65664" "is_word dev" "NUL \<notin> set dev"
  shows "script_line op m (cstr ('' partcopy (hd'' @ show_int (n - 128) @ '','' @ show_int (0 - 1) @ '') '' @ show_nat (unat (0 :: u32)) @ '' PATH/'' @ dnum2pre n @ '' '' @ dev @ [NL])) vg =
     Inr (True, (if vg then [] else [lvm_scan]) @ [RestoreImage (Some (''/dev/'' @ dev)) 0 (dnum2pre n)])"
proof -
  have w: "is_word (dnum2pre n)" "NUL \<notin> set (dnum2pre n)" using dnum2pre_word [of n] assms(1) by auto
  have t: "'' partcopy (hd'' @ show_int (n - 128) @ '','' @ show_int (0 - 1) @ '') '' @ show_nat (unat (0 :: u32)) @ '' PATH/'' @ dnum2pre n @ '' '' @ dev @ [NL] =
      partcopy_text (nat (n - 128)) (show_int (- 1)) 0 (dnum2pre n @ CHR '' '' # dev @ [NL])" (is "?l = _")
    using assms(1) by (simp add: partcopy_text_def show_int_nonneg)
  have "3968 \<le> nat (n - 128)" "nat (n - 128) < 2 ^ 32" "(0 :: nat) < 2 ^ 32" using assms by auto
  note p = script_lvm [OF this w(1) assms(3) ends_newline, of op m vg]
  have "cstr ?l = ?l" using w assms(4) by (intro cstr_ident) simp
  show ?thesis unfolding \<open>cstr ?l = ?l\<close> unfolding t p by simp
qed

lemma item_script:
  assumes "item_wf it" "item_fits it" "\<not> ro_ntblfix op"
  shows "script_lines op m (map (\<lambda>l. l @ [NL]) (item_lines it) @ rest) vg =
     (case script_lines op m rest (vg \<or> scans it) of (bs, e) \<Rightarrow> (item_actions m vg it @ bs, e))"
proof (cases it)
  case (Tab n)
  with assms show ?thesis using tab_line [of n op m vg] comment_line(1) [of op m "''Comment next line to remove PTABS reconstruction'' @ [NL]" vg]
    by (simp split: prod.splits)
next
  case (Copy isdm n poff tmin tmax ttype dev)
  then show ?thesis using assms copy_line [of n poff op m tmin vg] volume_line [of n dev op m vg]
      comment_line(2) [of op m "''(hd'' @ show_int (n - 128) @ '','' @ show_int (poff - 1) @ '') '' @ show_nat (unat tmin) @ '' '' @ show_nat (unat tmax) @ '' '' @ show_word ttype @ [NL]" vg]
    by (cases isdm) (simp_all split: prod.splits)
next
  case (Bad n poff ttype)
  then show ?thesis
    using comment_line(1) [of op m "''ERROR: Unsupported or corrupted FS...'' @ ''(disk '' @ show_int n @ '', part '' @ show_int poff @ '', type '' @ show_hex (unat ttype) @ '')'' @ [NL]" vg]
    by (simp add: unsupported_def split: prod.splits)
qed

lemma items_script:
  assumes "\<forall>it \<in> set its. item_wf it \<and> item_fits it" "\<not> ro_ntblfix op"
  shows "script_lines op m (map (\<lambda>l. l @ [NL]) (concat (map item_lines its)) @ rest) vg =
     (case script_lines op m rest (vg \<or> (\<exists>it \<in> set its. scans it)) of (bs, e) \<Rightarrow> (items_actions m vg its @ bs, e))"
  using assms(1)
proof (induction its arbitrary: vg)
  case (Cons it its)
  have "script_lines op m (map (\<lambda>l. l @ [NL]) (item_lines it) @ map (\<lambda>l. l @ [NL]) (concat (map item_lines its)) @ rest) vg =
     (case script_lines op m (map (\<lambda>l. l @ [NL]) (concat (map item_lines its)) @ rest) (vg \<or> scans it) of (bs, e) \<Rightarrow> (item_actions m vg it @ bs, e))"
    using Cons.prems assms(2) by (intro item_script) auto
  with Cons.IH [of "vg \<or> scans it"] Cons.prems show ?case
    by (simp add: disj_assoc split: prod.splits)
qed simp

lemma word_no_NL: "is_word w \<Longrightarrow> NL \<notin> set w"
proof
  assume "is_word w" "NL \<in> set w"
  then have "\<not> isspace NL" unfolding is_word_def by blast
  then show False by (simp add: isspace_def)
qed

lemma plain_pre: "128 \<le> n \<Longrightarrow> n < 304 \<or> 0x1000 \<le> n \<Longrightarrow> NL \<notin> set (dnum2pre n) \<and> length (dnum2pre n) \<le> 5"
proof -
  assume "128 \<le> n" "n < 304 \<or> 0x1000 \<le> n"
  note w = dnum2pre_word [OF this]
  then show ?thesis using word_no_NL [of "dnum2pre n"] by blast
qed

lemma item_short:
  assumes "item_wf it" "item_fits it" "l \<in> set (item_lines it)"
  shows "short_line 250 l"
proof (cases it)
  case (Tab n)
  then have "NL \<notin> set (dnum2pre n)" "length (dnum2pre n) \<le> 5" "length (show_int (n - 128)) \<le> 4"
    using assms(1,2) plain_pre [of n] length_show_int [of "n - 128" 3] by simp_all
  with assms(3) Tab show ?thesis by (auto simp: short_line_def)
next
  case (Copy isdm n poff tmin tmax ttype dev)
  have n: "128 \<le> n" "n < 65664" "n < 304 \<or> 0x1000 \<le> n" "0 \<le> poff" "poff < 16" using assms(1,2) Copy by (cases isdm; simp)+
  have dev: "NL \<notin> set dev \<and> length dev \<le> 150" if isdm using assms(2) Copy that word_no_NL by simp
  have "- (10 ^ 10) < sint ttype" "sint ttype < 10 ^ 10" using sint_greater_eq [of ttype] sint_less [of ttype] by simp_all
  then have "length (show_word ttype) \<le> 11" unfolding show_word_def using length_show_int [of "sint ttype" 10] by simp
  moreover have "length (show_int (n - 128)) \<le> 6" "length (show_int (poff - 1)) \<le> 3" "length (show_int poff) \<le> 3"
    using n length_show_int [of "n - 128" 5] length_show_int [of "poff - 1" 2] length_show_int [of poff 2] by simp_all
  moreover have "length (show_nat (unat tmin)) \<le> 10" "length (show_nat (unat tmax)) \<le> 10"
    using length_show_nat32 unsigned_less [of tmin] unsigned_less [of tmax] by auto
  moreover have "NL \<notin> set (show_word ttype)" by (simp add: show_word_def)
  ultimately show ?thesis using assms(3) Copy plain_pre [OF n(1,3)] dev by (cases isdm) (auto simp: short_line_def)
next
  case (Bad n poff ttype)
  then have "length (show_int n) \<le> 6" "length (show_int poff) \<le> 3"
    using assms(1) length_show_int [of n 5] length_show_int [of poff 2] by simp_all
  moreover have "length (show_hex (unat ttype)) \<le> 8" using length_show_hex [of "unat ttype" 8] unsigned_less [of ttype] by simp
  ultimately show ?thesis using assms(3) Bad by (auto simp: short_line_def unsupported_def)
qed

subsection \<open>The whole script\<close>

definition script_head :: "string \<Rightarrow> string \<Rightarrow> string list" where
  "script_head hostname date = [''title Image '' @ hostname, ''desc ('' @ date @ '')'', ''# Partcopy commands...'']"

definition script_foot :: "string list" where
  "script_foot = [''# Boot on 1st disk 0'', '' root (hd0)'', '' chainloader +1'', []]"

lemma key_line:
  assumes "is_word key" "NUL \<notin> set key" "key \<notin> {''ptabs'', ''partcopy'', ''setdefault'', ''chainloader''}"
  shows "script_line op m (cstr (key @ CHR '' '' # r)) vg = Inr (vg, [])" "script_line op m (cstr (CHR '' '' # key @ CHR '' '' # r)) vg = Inr (vg, [])"
proof -
  have "word_ends (CHR '' '' # cstr r)" by (simp add: word_ends_def isspace_def)
  from script_other [OF assms(1) this assms(3), of op m vg]
  show "script_line op m (cstr (key @ CHR '' '' # r)) vg = Inr (vg, [])" "script_line op m (cstr (CHR '' '' # key @ CHR '' '' # r)) vg = Inr (vg, [])"
    using assms(2) by (simp_all add: cstr_append cstr_Cons)
qed

lemma head_script:
  "script_lines op m (map (\<lambda>l. l @ [NL]) (script_head hostname date) @ rest) vg = script_lines op m rest vg"
proof -
  have w: "is_word ''title''" "is_word ''desc''" "is_word ''#''" by (simp_all add: is_word_def isspace_def)
  show ?thesis
    using key_line(1) [OF w(1), of op m "''Image '' @ hostname @ [NL]" vg] key_line(1) [OF w(2), of op m "''('' @ date @ '')'' @ [NL]" vg]
      key_line(1) [OF w(3), of op m "''Partcopy commands...'' @ [NL]" vg]
    by (simp add: script_head_def split: prod.splits)
qed

lemma foot_script:
  "script_lines op m (map (\<lambda>l. l @ [NL]) (script_foot @ [last script_foot])) vg = (if ro_nolrs op then [] else [setdefault (Some ''0'')], None)"
proof -
  have w: "is_word ''#''" "is_word ''root''" "is_word ''chainloader''" by (simp_all add: is_word_def isspace_def)
  have e: "script_line op m [NL] vg = Inr (vg, [])" by (simp add: script_line_def sscanf_def conversion_def scan_text_def isspace_def)
  have "word_ends ('' +1'' @ [NL])" by (simp add: word_ends_def isspace_def)
  then have "sscanf ''%s'' (CHR '' '' # ''chainloader'' @ '' +1'' @ [NL]) = [Text ''chainloader'']" by (rule scan_key(2) [OF w(3)])
  then have c: "script_line op m ('' chainloader +1'' @ [NL]) vg = Inr (vg, if ro_nolrs op then [] else [setdefault (Some ''0'')])"
    by (simp add: script_line_def)
  have n: "cstr (l @ [NL]) = l @ [NL]" if "NUL \<notin> set l" for l using that by simp
  show ?thesis
    using key_line(1) [OF w(1), of op m "''Boot on 1st disk 0'' @ [NL]" vg] key_line(2) [OF w(2), of op m "''(hd0)'' @ [NL]" vg] e c
    by (simp add: script_foot_def)
qed

text \<open>What \<open>saveimage\<close> writes is such a script, for the items of the plan, and it runs the commands of the plan.\<close>

lemma saveimage_script:
  assumes "saveimage h op hostname date b ex = Some (Inr st)" "- 1 \<le> lastnum b"
  shows "\<exists>ps its cs. get_parts (h_proc h) (h_mapper h) = Inr ps \<and> plan h op ex (127, b, [], False) ps = (its, cs) \<and> (\<forall>it \<in> set its. item_wf it) \<and>
     conf st = unlines (script_head hostname date @ concat (map item_lines its) @ script_foot) \<and>
     cmds st = cs @ (if ps = [] \<and> \<not> nolrs op then [''revosendlog 8''] else []) @ [tmprintf (''mv -f '' @ revosave op @ ''/conf.tmp '' @ revosave op @ ''/conf.txt'')]"
proof -
  define st0 where "st0 = out_conf (''title Image '' @ hostname @ [NL] @ ''desc ('' @ date @ '')'' @ [NL]) (start_st b ex)"
  define st1 where "st1 = (out_conf (''# Partcopy commands...'' @ [NL]) st0)\<lparr>dnum := 127, backuped := 0, should_backup_lvm := False\<rparr>"
  obtain st3 where 3: "save h op st0 = Some (Inr st3)" "conf st = conf st3 @ unlines script_foot"
      "cmds st = cmds st3 @ [tmprintf (''mv -f '' @ revosave op @ ''/conf.tmp '' @ revosave op @ ''/conf.txt'')]"
    using assms(1) unfolding saveimage_def st0_def [symmetric] Let_def by (auto simp: bind_run_Inr out_conf_def script_foot_def unlines_def)
  have np: "\<not> h_present h" using 3(1) by (auto simp: save_def)
  obtain ps st2 where ps: "get_parts (h_proc h) (h_mapper h) = Inr ps" "save_parts h op ps st1 = Some (Inr st2)"
    and st3: "st3 = (let st = out_CONF (''E'' @ [NL]) st2 in if backuped st = 0
       then ui_error (''Nothing was backuped !'' @ [NL] @ ''Maybe your disk controller was not recognized...'') (fatal op st) else st)"
    using 3(1) unfolding save_def st1_def [symmetric] if_not_P [OF np] bind_run_Inr option.inject ret_run_Inr Let_def by blast
  have s1: "place_of st1 = (127, b, [], False)" "excl st1 = ex" "sv_bios st1 = b" "cmds st1 = []" "backuped st1 = 0"
    by (simp_all add: st1_def st0_def out_conf_def start_st_def place_of_def)
  obtain its cs where pl: "plan h op ex (127, b, [], False) ps = (its, cs)" by fastforce
  have r: "conf st2 = conf st1 @ items_text its" "cmds st2 = cs" "backuped st2 = length ps" "\<forall>it \<in> set its. item_wf it"
    using save_parts_plan [OF ps(2), of its cs] s1 pl assms(2) by simp_all
  have "conf st3 = conf st2" "cmds st3 = cmds st2 @ (if ps = [] \<and> \<not> nolrs op then [''revosendlog 8''] else [])"
    using r(3) by (auto simp: st3 Let_def out_CONF_def ui_error_def fatal_def)
  moreover have "conf st1 = unlines (script_head hostname date)"
    by (simp add: st1_def st0_def out_conf_def start_st_def script_head_def unlines_def)
  ultimately show ?thesis using ps(1) pl r 3(2,3) by (intro exI [of _ ps] exI [of _ its] exI [of _ cs]) (simp add: unlines_append items_text_def)
qed

text \<open>The header can be read: no newline in the name of the computer or the date.\<close>

definition head_ok :: "string \<Rightarrow> string \<Rightarrow> bool" where
  "head_ok hostname date \<longleftrightarrow> NL \<notin> set hostname \<and> NL \<notin> set date \<and> length hostname \<le> 100 \<and> length date \<le> 100"

lemma restoreimage_script:
  assumes "head_ok hostname date" "\<forall>it \<in> set its. item_wf it \<and> item_fits it" "\<not> ro_ntblfix op"
  shows "restoreimage op m junk (Some (unlines (script_head hostname date @ concat (map item_lines its) @ script_foot))) =
     (items_actions m False its @ (if ro_nolrs op then [] else [setdefault (Some ''0'')]), None)"
proof -
  let ?ls = "script_head hostname date @ concat (map item_lines its) @ script_foot"
  have "short_line 250 l" if "l \<in> set (script_head hostname date)" for l using that assms(1) by (auto simp: script_head_def short_line_def head_ok_def)
  moreover have "short_line 250 l" if "l \<in> set script_foot" for l using that by (auto simp: script_foot_def short_line_def)
  moreover have "short_line 250 l" if "l \<in> set (concat (map item_lines its))" for l using that assms(2) item_short by auto
  ultimately have "\<forall>l \<in> set ?ls. short_line 250 l" by auto
  moreover have ne: "?ls \<noteq> []" "last ?ls = last script_foot" by (simp_all add: script_foot_def)
  ultimately have "feof_lines 250 junk (unlines ?ls) = map (\<lambda>l. l @ [NL]) (?ls @ [last script_foot])"
    using feof_unlines [of ?ls 250 junk] by simp
  then have "restoreimage op m junk (Some (unlines ?ls)) = script_lines op m (map (\<lambda>l. l @ [NL]) (script_head hostname date) @
       map (\<lambda>l. l @ [NL]) (concat (map item_lines its)) @ map (\<lambda>l. l @ [NL]) (script_foot @ [last script_foot])) False"
    by (simp add: restoreimage_def)
  then show ?thesis by (simp only: head_script items_script [OF assms(2,3)] foot_script prod.case)
qed

section \<open>Properties\<close>

text \<open>
  C6 (\<open>saveimage\<close>, \<open>restoreimage\<close>): when a save ends, its script consists of exactly the entries of the plan, in the
  order of the partitions: the tables of each disk with the BIOS number of its size, and for each partition that has
  a start and a size, is longer than 63 sectors, not extended and not excluded (and for each logical volume once
  one was met that only \<open>image_lvm\<close> accepts) its number, start and end, with an error line if no
  image program accepts it; and the commands that were run are those of the plan: the query for the type, the programs that
  are tried, and the first one that accepts the partition, writing to the file the script names. When the numbers of disks and the names of
  volumes can be printed, the restore program carries out exactly these entries in their order.
\<close>

theorem script_understood:
  assumes "saveimage h op hostname date b ex = Some (Inr st)" "- 1 \<le> lastnum b" "head_ok hostname date" "\<not> ro_ntblfix rop"
  shows "\<exists>ps its cs. get_parts (h_proc h) (h_mapper h) = Inr ps \<and> plan h op ex (127, b, [], False) ps = (its, cs) \<and>
     conf st = unlines (script_head hostname date @ concat (map item_lines its) @ script_foot) \<and>
     cmds st = cs @ (if ps = [] \<and> \<not> nolrs op then [''revosendlog 8''] else []) @ [tmprintf (''mv -f '' @ revosave op @ ''/conf.tmp '' @ revosave op @ ''/conf.txt'')] \<and>
     ((\<forall>it \<in> set its. item_fits it) \<longrightarrow>
        restoreimage rop m junk (Some (conf st)) = (items_actions m False its @ (if ro_nolrs rop then [] else [setdefault (Some ''0'')]), None))"
proof -
  obtain ps its cs where p: "get_parts (h_proc h) (h_mapper h) = Inr ps" "plan h op ex (127, b, [], False) ps = (its, cs)" "\<forall>it \<in> set its. item_wf it"
      "conf st = unlines (script_head hostname date @ concat (map item_lines its) @ script_foot)"
      "cmds st = cs @ (if ps = [] \<and> \<not> nolrs op then [''revosendlog 8''] else []) @ [tmprintf (''mv -f '' @ revosave op @ ''/conf.tmp '' @ revosave op @ ''/conf.txt'')]"
    using saveimage_script [OF assms(1,2)] by blast
  have "restoreimage rop m junk (Some (conf st)) = (items_actions m False its @ (if ro_nolrs rop then [] else [setdefault (Some ''0'')]), None)"
    if "\<forall>it \<in> set its. item_fits it"
    unfolding p(4) using p(3) that assms(3,4) by (intro restoreimage_script) auto
  with p show ?thesis by blast
qed


section \<open>Witnesses\<close>

text \<open>A computer with one disk of 200 sectors and one partition on it that some image program accepts.\<close>

definition sample_data :: string where
  "sample_data = replicate 102400 NUL"

definition sample_host :: host where
  "sample_host = \<lparr>h_proc = Some (unlines ['' 3 0 100 hda'', '' 3 1 65 hda1'']), h_mapper = None,
     h_dev = (\<lambda>d. if d = ''/dev/hda'' then Some \<lparr>di_start = Some 0, di_size = 200, di_data = sample_data\<rparr>
                   else if d = ''/dev/hda1'' then Some \<lparr>di_start = Some 63, di_size = 130, di_data = []\<rparr> else None),
     h_sfdisk = (\<lambda>_. ''83'' @ [NL]), h_system = (\<lambda>_. 0), h_present = False, h_stack = replicate 1024 NUL\<rparr>"

definition sample_opts :: options where
  "sample_opts = \<lparr>revoraw = False, nolrs = True, revosave = ''/revosave'', revobin = ''/revobin''\<rparr>"

definition first_bios :: bios where
  "first_bios = \<lparr>lastnum = - 1, has_hdmap = False, hdmap = no_disks\<rparr>"

lemma host_parts:
  "get_parts (h_proc sample_host) (h_mapper sample_host) =
     Inr [\<lparr>p_device = ''hda'', p_minor = 0, p_major = 3\<rparr>, \<lparr>p_device = ''hda1'', p_minor = 1, p_major = 3\<rparr>]"
  unfolding sample_host_def by code_simp

lemma sample_dev:
  "h_dev sample_host ''/dev/hda'' = Some \<lparr>di_start = Some 0, di_size = 200, di_data = sample_data\<rparr>"
  "h_dev sample_host ''/dev/hda1'' = Some \<lparr>di_start = Some 63, di_size = 130, di_data = []\<rparr>"
  by (simp_all add: sample_host_def)

lemma sample_type: "last_hex (- 1) (''83'' @ [NL]) = 0x83"
  by (subst last_hex.simps, simp add: isspace_def scan_hex_def hex_start_def hex_val_def)
     (subst last_hex.simps, simp)

lemma sample_ldm: "\<exists>f. ldm_check (replicate 1024 NUL) (sample_data, p) = ((sample_data, f), None)"
  by (simp add: ldm_check_def read_at_def lseek64_def sample_data_def Let_def) (simp add: numeral_eq_Suc)

lemma sample_raw:
  assumes "fst (fmajor st) = sample_data" "unat b < 200"
  shows "\<exists>f t. raw_step sample_host a b st = ret_run (st\<lparr>fmajor := (sample_data, f), tabs := t\<rparr>)"
proof -
  have "unat (- 1 :: u32) = 2 ^ 32 - 1" by (simp add: unsigned_minus_1_eq_mask mask_eq_exp_minus_1)
  then have b: "b \<noteq> - 1" using assms(2) by auto
  have "has_sectors sample_data [unat a..<Suc (unat b)]" using assms(2) by (auto simp: has_sectors_def sample_data_def)
  from save_raw_ok [OF b this, of "replicate 1024 NUL" "snd (fmajor st)" "tabs st (dnum2pre (dnum st))"] assms(1)
  obtain p' out where "save_raw a b (replicate 1024 NUL) (fmajor st) (tabs st (dnum2pre (dnum st))) = Some ((sample_data, p'), out)"
    by (cases "fmajor st") auto
  then show ?thesis by (auto simp: raw_step_def sample_host_def Let_def)
qed

lemma sample_disk_saved:
  assumes "sv_bios st = first_bios"
  shows "\<exists>st'. save_part sample_host sample_opts \<lparr>p_device = ''hda'', p_minor = 0, p_major = 3\<rparr> st = ret_run st' \<and>
     dnum st' = 128 \<and> majorn st' = ''/dev/hda'' \<and> fst (fmajor st') = sample_data \<and> excl st' = excl st \<and> conf st' = conf st @ items_text [Tab 128]"
proof -
  define st0 where "st0 = st\<lparr>backuped := backuped st + 1, dnum := dnum st\<rparr>"
  define st1 where "st1 = st0\<lparr>majorn := ''/dev/hda''\<rparr>"
  have st1: "sv_bios st1 = first_bios" "conf st1 = conf st" "excl st1 = excl st" "majorn st1 = ''/dev/hda''" using assms by (simp_all add: st1_def st0_def)
  have g: "gethdbios 200 first_bios = (128, first_bios\<lparr>lastnum := 0\<rparr>)" by (simp add: gethdbios_def first_bios_def Let_def)
  have "\<exists>st'. new_disk sample_host sample_opts 3 0 ''/dev/hda'' 200 (- 1) st1 = ret_run (- 1, st') \<and> dnum st' = 128 \<and> majorn st' = majorn st1 \<and>
      fst (fmajor st') = sample_data \<and> excl st' = excl st1 \<and> conf st' = conf st1 @ items_text [Tab 128]"
    using sample_ldm [of 0] by (auto simp: new_disk_def st1 g Let_def out_conf_def out_CONF_def sample_host_def unlines_def)
  then obtain st2 where 2: "new_disk sample_host sample_opts 3 0 ''/dev/hda'' 200 (- 1) st1 = ret_run (- 1, st2)" "dnum st2 = 128" "majorn st2 = ''/dev/hda''"
      "fst (fmajor st2) = sample_data" "excl st2 = excl st" "conf st2 = conf st @ items_text [Tab 128]"
    unfolding st1 by blast
  obtain f t where "raw_step sample_host 0 62 st2 = ret_run (st2\<lparr>fmajor := (sample_data, f), tabs := t\<rparr>)"
    using sample_raw [OF 2(4), of 62 0] by auto
  moreover have "strcpy 256 ''/dev/hda'' = Inr ''/dev/hda''" by (simp add: strcpy_def)
  ultimately have "part_body sample_host sample_opts \<lparr>p_device = ''hda'', p_minor = 0, p_major = 3\<rparr> ''/dev/hda'' False 0 200 st0 =
      ret_run (st2\<lparr>fmajor := (sample_data, f), tabs := t\<rparr>)"
    using 2(1) by (simp add: part_body_def Let_def table_start_def st1_def)
  then have "save_part sample_host sample_opts \<lparr>p_device = ''hda'', p_minor = 0, p_major = 3\<rparr> st = ret_run (st2\<lparr>fmajor := (sample_data, f), tabs := t\<rparr>)"
    by (simp add: save_part_def Let_def sample_dev st0_def)
  with 2 show ?thesis by auto
qed

lemma sample_fs: "\<exists>st'. save_fs sample_host sample_opts ''/dev/hda1'' ''/revosave/P1'' 0x83 st = Inr (True, st')"
  by (simp add: save_fs_def fslist_def sample_opts_def mysystem_def tmprintf_def snprintf_def logtxt_def Let_def) (simp add: sample_host_def)

lemma sample_partition_saved:
  assumes "dnum st = 128" "majorn st = ''/dev/hda''" "fst (fmajor st) = sample_data" "excl st = (\<lambda>_. 0)"
  shows "\<exists>st'. save_part sample_host sample_opts \<lparr>p_device = ''hda1'', p_minor = 1, p_major = 3\<rparr> st = ret_run st'"
proof -
  define st0 where "st0 = st\<lparr>backuped := backuped st + 1, dnum := dnum st, cmds := cmds st @ [''/sbin/sfdisk --id /dev/hda 1'']\<rparr>"
  have st0: "fst (fmajor st0) = sample_data" "majorn st0 = ''/dev/hda''" using assms by (simp_all add: st0_def)
  have "show_int 1 = ''1''" by code_simp
  then have ask: "ask_type sample_host 1 (st\<lparr>backuped := backuped st + 1, dnum := dnum st\<rparr>) = Inr (0x83, st0)"
    using sample_type assms(2) by (simp add: ask_type_def type_query_def strcpy_def sample_host_def st0_def)
  obtain st1 where 1: "raw_step sample_host 63 125 st0 = ret_run st1" "dnum st1 = 128" "excl st1 = (\<lambda>_. 0)"
    using sample_raw [OF st0(1), of 125 63] assms by (force simp: st0_def)
  have ex: "isexcluded (\<lambda>_. 0) 0 1 = Inr False" by (simp add: isexcluded_def tab_size_def)
  have "dnum2pre 128 = ''P''" by code_simp
  then have d: "destfile sample_opts False 128 1 = ''/revosave/P1''" using \<open>show_int 1 = ''1''\<close> by (simp add: destfile_def snprintf_def sample_opts_def)
  define st2 where "st2 = out_conf (part_lines False 128 1 63 192 0x83 ''hda1'') (out_CONF (''P'' @ ljust 2 (show_int 1) @ '', S:'' @ show_nat (unat (63 :: u32)) @ '' , E:'' @ show_nat (unat (192 :: u32)) @ '' , t:'' @ show_word 0x83 @ [NL]) st1)"
  obtain st3 where 3: "save_fs sample_host sample_opts ''/dev/hda1'' ''/revosave/P1'' 0x83 st2 = Inr (True, st3)" using sample_fs by blast
  have w: "write_part sample_host sample_opts False 1 63 192 0x83 ''hda1'' ''/dev/hda1'' st1 = Inr st3"
    unfolding write_part_def Let_def 1(2) d st2_def [symmetric] 3 by simp
  have "part_body sample_host sample_opts \<lparr>p_device = ''hda1'', p_minor = 1, p_major = 3\<rparr> ''/dev/hda1'' False 63 130
      (st\<lparr>backuped := backuped st + 1, dnum := dnum st\<rparr>) = ret_run st3"
    using 1 w ask ex st0 by (simp add: part_body_def Let_def table_start_def whole_disk_def extended_def ret_run_def)
  then have "save_part sample_host sample_opts \<lparr>p_device = ''hda1'', p_minor = 1, p_major = 3\<rparr> st = ret_run st3"
    by (simp add: save_part_def Let_def sample_dev st0_def)
  then show ?thesis by blast
qed

lemma sample_saved: "\<exists>st. saveimage sample_host sample_opts ''pc'' ''today'' first_bios (\<lambda>_. 0) = Some (Inr st)"
proof -
  define st0 where "st0 = out_conf (''title Image '' @ ''pc'' @ [NL] @ ''desc ('' @ ''today'' @ '')'' @ [NL]) (start_st first_bios (\<lambda>_. 0))"
  define st1 where "st1 = (out_conf (''# Partcopy commands...'' @ [NL]) st0)\<lparr>dnum := 127, backuped := 0, should_backup_lvm := False\<rparr>"
  have "sv_bios st1 = first_bios" "excl st1 = (\<lambda>_. 0)" by (simp_all add: st1_def st0_def out_conf_def start_st_def)
  with sample_disk_saved obtain st2 where 2: "save_part sample_host sample_opts \<lparr>p_device = ''hda'', p_minor = 0, p_major = 3\<rparr> st1 = ret_run st2"
      "dnum st2 = 128" "majorn st2 = ''/dev/hda''" "fst (fmajor st2) = sample_data" "excl st2 = (\<lambda>_. 0)"
    by metis
  obtain st3 where 3: "save_part sample_host sample_opts \<lparr>p_device = ''hda1'', p_minor = 1, p_major = 3\<rparr> st2 = ret_run st3"
    using sample_partition_saved [OF 2(2-5)] by blast
  have "h_present sample_host = False" by (simp add: sample_host_def)
  then obtain st4 where "save sample_host sample_opts st0 = ret_run st4"
    using 2(1) 3 unfolding save_def st1_def [symmetric] Let_def host_parts by auto
  then show ?thesis unfolding saveimage_def st0_def [symmetric] by (simp add: ret_run_def Let_def)
qed

lemma sample_plan:
  "plan sample_host sample_opts (\<lambda>_. 0) (127, first_bios, [], False) [\<lparr>p_device = ''hda'', p_minor = 0, p_major = 3\<rparr>, \<lparr>p_device = ''hda1'', p_minor = 1, p_major = 3\<rparr>] =
     ([Tab 128, Copy False 128 1 63 192 0x83 ''hda1''],
      [''/sbin/sfdisk --id /dev/hda 1'', ''/revobin/image_swap /dev/hda1 ? 2>> /revosave/log.txt'', ''/revobin/image_swap /dev/hda1 /revosave/P1 2>> /revosave/log.txt''])"
proof -
  have g: "gethdbios 200 first_bios = (128, first_bios\<lparr>lastnum := 0\<rparr>)" by (simp add: gethdbios_def first_bios_def Let_def)
  have "h_sfdisk sample_host c = ''83'' @ [NL]" "h_system sample_host c = 0" for c by (simp_all add: sample_host_def)
  moreover have i: "show_int 1 = ''1''" "dnum2pre 128 = ''P''" by code_simp+
  moreover have ex: "isexcluded (\<lambda>_. 0) 0 1 = Inr False" by (simp add: isexcluded_def tab_size_def)
  moreover have "candidates sample_opts 0x83 = fslist" by (simp add: candidates_def sample_opts_def)
  ultimately show ?thesis using sample_type
    by (simp add: part_plan_def part_extent_def sample_dev g whole_disk_def extended_def type_query_def chosen_def image_cmds_def accepts_def
        fslist_def image_cmd_def tmprintf_def snprintf_def logtxt_def destfile_def sample_opts_def Let_def)
qed

theorem script_understood_witness:
  "\<exists>st. saveimage sample_host sample_opts ''pc'' ''today'' first_bios (\<lambda>_. 0) = Some (Inr st) \<and>
     conf st = unlines (script_head ''pc'' ''today'' @ concat (map item_lines [Tab 128, Copy False 128 1 63 192 0x83 ''hda1'']) @ script_foot) \<and>
     take 3 (cmds st) =
       [''/sbin/sfdisk --id /dev/hda 1'', ''/revobin/image_swap /dev/hda1 ? 2>> /revosave/log.txt'', ''/revobin/image_swap /dev/hda1 /revosave/P1 2>> /revosave/log.txt''] \<and>
     restoreimage sample_ropts [''/dev/hda''] [] (Some (conf st)) =
       ([RestoreRaw (Some ''/dev/hda'') ''PTABS'', RestoreImage (Some ''/dev/hda'') 63 ''P1''], None)"
proof -
  obtain st where st: "saveimage sample_host sample_opts ''pc'' ''today'' first_bios (\<lambda>_. 0) = Some (Inr st)" using sample_saved by blast
  have c: "- 1 \<le> lastnum first_bios" "head_ok ''pc'' ''today''" "\<not> ro_ntblfix sample_ropts" "ro_nolrs sample_ropts"
    by (simp_all add: first_bios_def head_ok_def sample_ropts_def)
  have n: "dnum2pre 128 = ''P''" "show_int 1 = ''1''" by code_simp+
  have fit: "\<forall>it \<in> set [Tab 128, Copy False 128 1 63 192 0x83 ''hda1'']. item_fits it" by simp
  from script_understood [OF st c(1-3), of "[''/dev/hda'']" "[]"] sample_plan fit
  have "conf st = unlines (script_head ''pc'' ''today'' @ concat (map item_lines [Tab 128, Copy False 128 1 63 192 0x83 ''hda1'']) @ script_foot)"
    "take 3 (cmds st) =
       [''/sbin/sfdisk --id /dev/hda 1'', ''/revobin/image_swap /dev/hda1 ? 2>> /revosave/log.txt'', ''/revobin/image_swap /dev/hda1 /revosave/P1 2>> /revosave/log.txt'']"
    "restoreimage sample_ropts [''/dev/hda''] [] (Some (conf st)) = (items_actions [''/dev/hda''] False [Tab 128, Copy False 128 1 63 192 0x83 ''hda1''], None)"
    unfolding host_parts using c(4) by (auto simp del: item_lines.simps items_actions.simps item_actions.simps)
  moreover have "items_actions [''/dev/hda''] False [Tab 128, Copy False 128 1 63 192 0x83 ''hda1''] =
      [RestoreRaw (Some ''/dev/hda'') ''PTABS'', RestoreImage (Some ''/dev/hda'') 63 ''P1'']"
    using n by (simp add: bios_disk_def)
  ultimately show ?thesis using st by metis
qed


end
