(* ===== verification/Revoboot.thy ===== *)
theory Revoboot
  imports Lrsd
begin

text \<open>
  The network side of the boot loader: \<^verbatim>\<open>client/src_revoboot/udp.c\<close>, the number parser of
  \<^verbatim>\<open>client/src_revoboot/char_io.c\<close> and the commands of \<^verbatim>\<open>client/src_revoboot/builtins_lbs.c\<close> that send
  control packets to the daemon (\<open>Lrsd\<close>). What is given to the PXE firmware is a datagram; the
  address of the network card is a function from its six positions.
\<close>

section \<open>Datagrams\<close>

type_synonym macaddr = "nat \<Rightarrow> char"

text \<open>The fields of \<open>udp_w\<close> and the packet it points to; the ports are stored with their bytes swapped.\<close>

record datagram =
  dg_data :: string
  dg_src :: u16
  dg_dst :: u16

definition swap_port :: "u32 \<Rightarrow> u16" where
  "swap_port p = ucast (drop_bit 8 p OR push_bit 8 (p AND 255))"

definition udp_send :: "string \<Rightarrow> u32 \<Rightarrow> u32 \<Rightarrow> datagram" where
  "udp_send buf s_port d_port = \<lparr>dg_data = buf, dg_src = swap_port s_port, dg_dst = swap_port d_port\<rparr>"

definition hex_table :: "nat \<Rightarrow> char" where
  "hex_table n = ''0123456789ABCDEF'' ! n"

definition mac_byte :: "macaddr \<Rightarrow> nat \<Rightarrow> string" where
  "mac_byte nic i = (let b = of_char (nic i) :: nat in [hex_table (b div 16), hex_table (b mod 16)])"

definition mac_text :: "macaddr \<Rightarrow> string" where
  "mac_text nic = mac_byte nic 0 @ '':'' @ mac_byte nic 1 @ '':'' @ mac_byte nic 2 @ '':'' @ mac_byte nic 3 @ '':'' @ mac_byte nic 4 @ '':'' @ mac_byte nic 5"

text \<open>A packet that is too long for the buffer is sent without the address.\<close>

definition udp_send_withmac :: "macaddr \<Rightarrow> string \<Rightarrow> u32 \<Rightarrow> u32 \<Rightarrow> datagram" where
  "udp_send_withmac nic buf s_port d_port =
     (if 1500 - 21 < length buf then udp_send buf s_port d_port
      else udp_send (buf @ [NUL] @ ''Mc:'' @ mac_text nic) s_port d_port)"

definition udp_send_lbs :: "macaddr \<Rightarrow> string \<Rightarrow> datagram" where
  "udp_send_lbs nic buf = udp_send_withmac nic buf 1001 1001"

section \<open>Numbers\<close>

text \<open>
  \<open>safe_parse_maxint\<close>: a decimal or hexadecimal number that fits a signed word, and what follows it;
  \<open>None\<close> when there is no digit or the number is too large. The argument is a string that ends at NUL.
\<close>

definition digit_of :: "nat \<Rightarrow> char \<Rightarrow> nat option" where
  "digit_of mult c =
     (let n = of_char (tolower c) :: nat
      in if 48 \<le> n \<and> n \<le> 57 then Some (n - 48)
         else if mult \<noteq> 10 \<and> 97 \<le> n \<and> n \<le> 102 then Some (n - 87) else None)"

fun parse_digits :: "nat \<Rightarrow> bool \<Rightarrow> nat \<Rightarrow> string \<Rightarrow> (nat \<times> string) option" where
  "parse_digits mult found myint [] = (if found then Some (myint, []) else None)"
| "parse_digits mult found myint (c # cs) =
     (case digit_of mult c of
        None \<Rightarrow> if found then Some (myint, c # cs) else None
      | Some d \<Rightarrow> if (2 ^ 31 - 1 - d) div mult < myint then None else parse_digits mult True (myint * mult + d) cs)"

definition safe_parse_maxint :: "string \<Rightarrow> (nat \<times> string) option" where
  "safe_parse_maxint s =
     (if take 1 s = ''0'' \<and> length s \<ge> 2 \<and> tolower (s ! 1) = CHR ''x'' then parse_digits 16 False 0 (drop 2 s)
      else parse_digits 10 False 0 s)"

section \<open>Commands\<close>

text \<open>\<open>setdefault_func\<close>: when there is no number the variable keeps what was on the stack (\<open>junk\<close>).\<close>

definition setdefault_func :: "macaddr \<Rightarrow> nat \<Rightarrow> string \<Rightarrow> datagram" where
  "setdefault_func nic junk arg =
     (let i = (case safe_parse_maxint arg of None \<Rightarrow> junk | Some (n, _) \<Rightarrow> n)
      in udp_send_withmac nic [CHR 0xCD, char_of (i mod 256), NUL] 1001 1001)"

text \<open>
  \<open>identify_func\<close>: the name and the password that the user typed are put into a buffer of 52 bytes. The
  editor limits them to 39 and 9 characters.
\<close>

definition identify_func :: "macaddr \<Rightarrow> string \<Rightarrow> string \<Rightarrow> datagram res" where
  "identify_func nic name pass =
     (let name = map (\<lambda>c. if c = CHR '' '' then CHR ''_'' else c) name;
          buffer = [CHR 0xAD] @ ''ID'' @ name @ '':'' @ pass @ [NUL]
      in if length buffer \<le> 52 then Inr (udp_send_withmac nic buffer 1001 1001) else Inl BufOverflow)"

definition identifyauto_func :: "macaddr \<Rightarrow> datagram" where
  "identifyauto_func nic = udp_send_withmac nic ([CHR 0xAD] @ ''ID+:+'' @ [NUL]) 1001 1001"

text \<open>The note that a partition is going to be restored (\<open>partcopy_func\<close>) and the one of a failure (\<open>fatal\<close>).\<close>

definition restore_note :: "macaddr \<Rightarrow> string \<Rightarrow> datagram" where
  "restore_note nic imgname = udp_send_lbs nic (''L2-'' @ imgname)"

definition boot_fatal :: "macaddr \<Rightarrow> datagram" where
  "boot_fatal nic = udp_send_lbs nic ''L8''"

section \<open>What the daemon sees\<close>

text \<open>The port as the receiver reads it: the two bytes of the field in network order.\<close>

definition wire_port :: "u16 \<Rightarrow> nat" where
  "wire_port w = unat w mod 256 * 256 + unat w div 256"

lemma wire_port_1001: "wire_port (swap_port 1001) = PORT"
  by (simp add: swap_port_def wire_port_def PORT_def)

definition mac_digits :: "macaddr \<Rightarrow> string" where
  "mac_digits nic = mac_byte nic 0 @ mac_byte nic 1 @ mac_byte nic 2 @ mac_byte nic 3 @ mac_byte nic 4 @ mac_byte nic 5"

lemma hex_table_plain: "n < 16 \<Longrightarrow> hex_table n \<noteq> NUL"
proof -
  assume "n < 16"
  then have "hex_table n \<in> set ''0123456789ABCDEF''" unfolding hex_table_def by (intro nth_mem) simp
  then show ?thesis by auto
qed

lemma mac_byte_plain: "NUL \<notin> set (mac_byte nic i)" "length (mac_byte nic i) = 2"
proof -
  have b: "(of_char (nic i) :: nat) < 256" by simp
  then have "(of_char (nic i) :: nat) div 16 < 16" by (simp add: less_mult_imp_div_less)
  with hex_table_plain [of "of_char (nic i) div 16"] hex_table_plain [of "of_char (nic i) mod 16"] show "NUL \<notin> set (mac_byte nic i)" by (auto simp: mac_byte_def Let_def)
  show "length (mac_byte nic i) = 2" by (simp add: mac_byte_def Let_def)
qed

lemma mac_text_plain: "NUL \<notin> set (mac_text nic)" "NUL \<notin> set (mac_digits nic)" "length (mac_text nic) = 17"
  using mac_byte_plain by (auto simp: mac_text_def mac_digits_def)

lemma short_mac_text: "short_mac (mac_text nic @ r) = mac_digits nic"
proof -
  have "map (\<lambda>i. (mac_text nic @ r) ! i) [0, 1, 3, 4, 6, 7, 9, 10, 12, 13, 15, 16] = mac_digits nic"
    by (simp add: mac_text_def mac_digits_def mac_byte_def Let_def)
  then show ?thesis using mac_text_plain(2) by (simp add: short_mac_def)
qed

text \<open>The address at the end of a packet is found, whatever is in front of it and behind it.\<close>

lemma getmac_tail:
  assumes "length p = n" "n \<noteq> 0"
  shows "getmacfrompkt ((p @ ''Mc:'' @ mac_text nic) @ r) (n + 20) g = Some (mac_text nic @ [NUL] @ drop 18 g)"
proof -
  let ?b = "(p @ ''Mc:'' @ mac_text nic) @ r"
  have nth: "?b ! (n + k) = (''Mc:'' @ mac_text nic) ! k" if "k < 20" for k
  proof -
    have "length (''Mc:'' @ mac_text nic) = 20" using mac_text_plain(3) [of nic] by simp
    moreover have "?b ! (n + k) = ((''Mc:'' @ mac_text nic) @ r) ! k" unfolding assms(1) [symmetric] by (simp only: append_assoc nth_append_length_plus)
    ultimately show ?thesis using that by (simp only: nth_append if_True)
  qed
  define b where "b = ?b"
  have t: "(''Mc:'' @ mac_text nic) ! 0 = CHR ''M''" "(''Mc:'' @ mac_text nic) ! 1 = CHR ''c''" "(''Mc:'' @ mac_text nic) ! 2 = CHR '':''"
      "(''Mc:'' @ mac_text nic) ! 5 = CHR '':''" "(''Mc:'' @ mac_text nic) ! 8 = CHR '':''" "(''Mc:'' @ mac_text nic) ! 11 = CHR '':''"
      "(''Mc:'' @ mac_text nic) ! 14 = CHR '':''" "(''Mc:'' @ mac_text nic) ! 17 = CHR '':''"
    by (simp_all add: mac_text_def mac_byte_def Let_def)
  have e: "b ! n = CHR ''M''" "b ! (n + 1) = CHR ''c''" "b ! (n + 2) = CHR '':''" "b ! (n + 5) = CHR '':''" "b ! (n + 8) = CHR '':''"
      "b ! (n + 11) = CHR '':''" "b ! (n + 14) = CHR '':''" "b ! (n + 17) = CHR '':''"
    using nth [of 0] nth [of 1] nth [of 2] nth [of 5] nth [of 8] nth [of 11] nth [of 14] nth [of 17] unfolding b_def t by simp_all
  have i: "n + 20 - 20 = n" "n + 20 - 19 = n + 1" "n + 20 - 18 = n + 2" "n + 20 - 15 = n + 5" "n + 20 - 12 = n + 8" "n + 20 - 9 = n + 11"
      "n + 20 - 6 = n + 14" "n + 20 - 3 = n + 17" "n + 20 - 17 = n + 3" "n + 20 \<le> 20 \<longleftrightarrow> n = 0" by simp_all
  have d: "drop (n + 3) b = mac_text nic @ r" using assms by (simp add: b_def)
  have s: "strncpy 17 (mac_text nic @ r) = mac_text nic" using mac_text_plain [of nic] by (simp add: strncpy_def Let_def)
  have "0 < n" using assms(2) by simp
  then show ?thesis unfolding b_def [symmetric] getmacfrompkt_def i e d s by simp
qed

section \<open>The protocol\<close>

text \<open>The daemon after the packet was received and the address was taken from it.\<close>

definition received :: "macaddr \<Rightarrow> string \<Rightarrow> lrsd \<Rightarrow> lrsd" where
  "received nic p st =
     st\<lparr>pktbuf := p @ [NUL] @ ''Mc:'' @ mac_text nic @ drop (length p + 21) (pktbuf st), gBuff := mac_text nic @ [NUL] @ drop 18 (gBuff st)\<rparr>"

text \<open>
  The interface between a client and the daemon: whoever sends a command puts a NUL and its address
  behind it and uses the port of the daemon. The lemmas show what the daemon makes of such a packet.
\<close>

locale lbs_sender =
  fixes send :: "macaddr \<Rightarrow> string \<Rightarrow> datagram"
  assumes send_data: "length p \<le> 1479 \<Longrightarrow> dg_data (send nic p) = p @ [NUL] @ ''Mc:'' @ mac_text nic"
    and send_port: "wire_port (dg_src (send nic p)) = PORT"
begin

lemma packet_reaches_handler:
  assumes "length p \<le> 1479" "sin_port e = wire_port (dg_src (send nic p))"
  shows "serve_packet cf e False (dg_data (send nic p)) st =
     bind_res (process_packet cf e (mac_text nic) (mac_digits nic) (received nic p st)) (\<lambda>(st, es, _). Inr (st, es))"
proof -
  have len: "length (dg_data (send nic p)) = length p + 21" using send_data [OF assms(1)] mac_text_plain(3) [of nic] by simp
  have r: "recv (dg_data (send nic p)) st = st\<lparr>pktbuf := p @ [NUL] @ ''Mc:'' @ mac_text nic @ drop (length p + 21) (pktbuf st)\<rparr>"
    using assms(1) unfolding recv_def len send_data [OF assms(1)] by (simp add: BUFLEN_def mac_text_plain)
  have "getmacfrompkt (((p @ [NUL]) @ ''Mc:'' @ mac_text nic) @ drop (length p + 21) (pktbuf st)) (length p + 1 + 20) (gBuff st) =
      Some (mac_text nic @ [NUL] @ drop 18 (gBuff st))"
    by (rule getmac_tail) simp_all
  then have f: "find_mac e (min BUFLEN (length p + 21)) (recv (dg_data (send nic p)) st) = Inr (0, received nic p st, [])"
    using assms(1) by (simp add: find_mac_def r received_def BUFLEN_def add.commute)
  have "cstr (gBuff (received nic p st)) = mac_text nic" "short_mac (gBuff (received nic p st)) = mac_digits nic"
    using mac_text_plain(1) [of nic] short_mac_text [of nic] by (simp_all add: received_def)
  then show ?thesis unfolding serve_packet_def Let_def len f using send_port [of nic p] assms(2) by (simp add: case_prod_beta)
qed

end

interpretation boot: lbs_sender udp_send_lbs
proof
  show "length p \<le> 1479 \<Longrightarrow> dg_data (udp_send_lbs nic p) = p @ [NUL] @ ''Mc:'' @ mac_text nic" for p nic
    by (simp add: udp_send_lbs_def udp_send_withmac_def udp_send_def)
  show "wire_port (dg_src (udp_send_lbs nic p)) = PORT" for nic p
    using wire_port_1001 by (simp add: udp_send_lbs_def udp_send_withmac_def udp_send_def)
qed

section \<open>Numbers that were printed\<close>

lemma digit_of_decimal: "digit_of 10 c = (if isdigit c then Some (digit_val c) else None)"
proof (cases "isupper c")
  case True
  then have "(of_char (tolower c) :: nat) = of_char c + 32" by (auto simp: tolower_def isupper_def)
  with True show ?thesis by (auto simp: digit_of_def isdigit_def isupper_def Let_def)
next
  case False
  then show ?thesis by (simp add: digit_of_def tolower_def isdigit_def digit_val_def Let_def)
qed

lemma scan_digits_grows: "a \<le> fst (scan_digits a s)"
  by (induction a s rule: scan_digits.induct) auto

lemma parse_decimal:
  "fst (scan_digits a s) < 2 ^ 31 \<Longrightarrow> parse_digits 10 True a s = Some (scan_digits a s)"
proof (induction s arbitrary: a)
  case (Cons c s)
  show ?case
  proof (cases "isdigit c")
    case True
    have "10 * a + digit_val c \<le> 2 ^ 31 - 1"
      using Cons.prems True scan_digits_grows [of "10 * a + digit_val c" s] by simp
    then have "\<not> (2 ^ 31 - 1 - digit_val c) div 10 < a" by (simp add: not_less less_eq_div_iff_mult_less_eq)
    with Cons True show ?thesis by (simp add: digit_of_decimal mult.commute)
  qed (simp add: digit_of_decimal)
qed simp

text \<open>What follows a number must not look like a part of it.\<close>

definition number_ends :: "string \<Rightarrow> bool" where
  "number_ends r \<longleftrightarrow> no_digit_head r \<and> (r \<noteq> [] \<longrightarrow> tolower (hd r) \<noteq> CHR ''x'')"

lemma safe_parse_number: "n < 2 ^ 31 \<Longrightarrow> number_ends r \<Longrightarrow> safe_parse_maxint (show_nat n @ r) = Some (n, r)"
proof -
  assume n: "n < 2 ^ 31" and r: "number_ends r"
  obtain c cs where c: "show_nat n = c # cs" "isdigit c" by (rule show_nat_cases)
  have "\<forall>x \<in> set cs. isdigit x" using show_nat_digits [of _ n] c(1) by auto
  then have "\<not> (length (show_nat n @ r) \<ge> 2 \<and> tolower ((show_nat n @ r) ! 1) = CHR ''x'')"
    using r unfolding c(1) by (cases cs; cases r) (auto simp: number_ends_def tolower_def isdigit_def isupper_def)
  then have "safe_parse_maxint (show_nat n @ r) = parse_digits 10 False 0 (show_nat n @ r)" by (auto simp: safe_parse_maxint_def)
  also have "\<dots> = parse_digits 10 True 0 (show_nat n @ r)" using c by (simp add: digit_of_decimal)
  also have "\<dots> = Some (n, r)"
    using parse_decimal [of 0 "show_nat n @ r"] n r by (simp add: number_ends_def scan_digits_show_nat)
  finally show ?thesis .
qed

lemma safe_parse_show_nat: "n < 2 ^ 31 \<Longrightarrow> safe_parse_maxint (show_nat n) = Some (n, [])"
  using safe_parse_number [of n "[]"] by (simp add: number_ends_def)

section \<open>Properties\<close>

text \<open>
  C19 (\<open>setdefault_func\<close>, \<open>process_packet\<close>): when the boot loader runs \<^verbatim>\<open>setdefault n\<close> for a menu entry below 256, the daemon
  runs the script \<^verbatim>\<open>set_default\<close> for the address of the client with this number, and writes it to the log.
\<close>

theorem setdefault_served:
  assumes "n < 256" "sin_port e = wire_port (dg_src (setdefault_func nic junk (show_nat n)))"
  shows "\<exists>st'. serve_packet cf e False (dg_data (setdefault_func nic junk (show_nat n))) st =
     Inr (st', mysystem cf (fmt 255 (basedir cf @ ''/bin/set_default '' @ mac_digits nic @ '' '' @ show_nat n)) @
               mysyslog cf e (mac_digits nic) LOG_INFO (mac_text nic @ '' default set to '' @ show_nat n))"
proof -
  let ?p = "[CHR 0xCD, char_of n, NUL]"
  have "safe_parse_maxint (show_nat n) = Some (n, [])" using assms(1) by (intro safe_parse_show_nat) simp
  then have d: "setdefault_func nic junk (show_nat n) = udp_send_lbs nic ?p"
    using assms(1) by (simp add: setdefault_func_def udp_send_lbs_def)
  have b: "byte_at (pktbuf (received nic ?p st)) 0 = 0xCD" "byte_at (pktbuf (received nic ?p st)) (Suc 0) = n"
    using assms(1) by (simp_all add: received_def byte_at_def)
  show ?thesis using boot.packet_reaches_handler [of ?p e nic cf st] assms(2) unfolding d
    by (simp add: process_packet_def b packet_log_def handle_default_def Let_def)
qed

text \<open>
  C20 (\<open>identify_func\<close>, \<open>process_packet\<close>): the name and the password typed at the boot prompt reach the script
  \<^verbatim>\<open>check_add_host\<close> with the address of the client, blanks of the name replaced by underscores, as long as the
  password has no colon.
\<close>

theorem identify_served:
  assumes "identify_func nic name pass = Inr d" "NUL \<notin> set name" "NUL \<notin> set pass" "CHR '':'' \<notin> set pass"
    and "sin_port e = wire_port (dg_src d)" "openable e (fmt 255 (basedir cf @ ''/log/ID.log''))"
  shows "\<exists>st' es. serve_packet cf e False (dg_data d) st =
     Inr (st', es @ mysystem cf (fmt 255 (basedir cf @ ''/bin/check_add_host '' @ mac_text nic @ '' '' @
                                   map (\<lambda>c. if c = CHR '' '' then CHR ''_'' else c) name @ '' '' @ pass)))"
proof -
  define host where "host = map (\<lambda>c. if c = CHR '' '' then CHR ''_'' else c) name"
  let ?p = "[CHR 0xAD] @ ''ID'' @ host @ '':'' @ pass @ [NUL]"
  have l: "length ?p \<le> 52" and d: "d = udp_send_lbs nic ?p"
    using assms(1) by (auto simp: identify_func_def udp_send_lbs_def host_def Let_def split: if_splits)
  have nul: "NUL \<notin> set host" using assms(2) by (auto simp: host_def)
  define st1 where "st1 = received nic ?p st"
  obtain r where r: "pktbuf st1 = [CHR 0xAD] @ ''ID'' @ host @ '':'' @ pass @ NUL # r" by (simp add: st1_def received_def)
  have b: "byte_at (pktbuf st1) 0 = 0xAD" by (simp add: r byte_at_def)
  have "drop 3 (pktbuf st1) = (host @ CHR '':'' # pass) @ NUL # r" by (simp add: r)
  then have s: "buf_str (pktbuf st1) 3 = Inr (host @ CHR '':'' # pass)" using nul assms(3) by (simp add: buf_str_def del: append_assoc)
  have "\<exists>body. buf_str (pktbuf st1) 0 = Inr body" by (simp add: buf_str_def r)
  then obtain body where body: "buf_str (pktbuf st1) 0 = Inr body" by blast
  have c: "strcpy 256 pass = Inr pass" "strcpy 256 host = Inr host" using l by (simp_all add: strcpy_def)
  have h: "handle_ident cf e (pktbuf st1) (mac_text nic) =
      Inr ([AppendFile (fmt 255 (basedir cf @ ''/log/ID.log'')) (packet_note e (mac_text nic) body)] @
           mysystem cf (fmt 255 (basedir cf @ ''/bin/check_add_host '' @ mac_text nic @ '' '' @ host @ '' '' @ pass)))"
    using assms(4,6) by (simp add: handle_ident_def Let_def body s c)
  have "length ?p \<le> 1479" using l by simp
  from boot.packet_reaches_handler [OF this, of e nic cf st] assms(5) d
  have "serve_packet cf e False (dg_data d) st = bind_res (process_packet cf e (mac_text nic) (mac_digits nic) st1) (\<lambda>(st, es, _). Inr (st, es))"
    unfolding st1_def d by blast
  then show ?thesis unfolding process_packet_def Let_def b h host_def [symmetric] by (simp del: append_assoc add: append_assoc [symmetric])
qed

text \<open>
  (\<open>identify_func\<close>): the buffer has 52 bytes, but the editor accepts a name of 39 and a password of 9
  characters, with which the buffer is written past its end.
\<close>

theorem identify_overflows: "length name = 39 \<Longrightarrow> length pass = 9 \<Longrightarrow> identify_func nic name pass = Inl BufOverflow"
  by (simp add: identify_func_def Let_def)

section \<open>Witnesses\<close>

definition sample_conf :: lrsd_config where
  "sample_conf = \<lparr>basedir = ''/lbs'', logtxt = ''/lbs/log'', etherpath = ''/lbs/etc/ether'', lic_key = [], lic_number = 0, lic_mac = [], lic_eth = []\<rparr>"

definition sample_net :: env where
  "sample_net = \<lparr>sin_addr = ''10.0.0.2'', sin_port = 1001, time1 = 0, time2 = 0, ctime = ''now'', openable = (\<lambda>_. True), ether = None, proc_net_arp = None\<rparr>"

definition sample_nic :: macaddr where
  "sample_nic i = CHR 0x0A"

theorem setdefault_served_witness:
  "\<exists>st' es. serve_packet sample_conf sample_net False (dg_data (setdefault_func sample_nic 0 ''3'')) lrsd_init =
     Inr (st', mysystem sample_conf (fmt 255 ''/lbs/bin/set_default 0A0A0A0A0A0A 3'') @ es)"
proof -
  have n: "show_nat 3 = ''3''" by code_simp
  have m: "mac_digits sample_nic = ''0A0A0A0A0A0A''"
    by (simp add: mac_digits_def mac_byte_def sample_nic_def hex_table_def)
  have "sin_port sample_net = wire_port (dg_src (setdefault_func sample_nic 0 (show_nat 3)))"
    using wire_port_1001 by (simp add: setdefault_func_def udp_send_withmac_def udp_send_def sample_net_def PORT_def Let_def)
  from setdefault_served [OF _ this, of sample_conf lrsd_init] show ?thesis by (auto simp: n m sample_conf_def)
qed

theorem identify_served_witness:
  "\<exists>d st' es. identify_func sample_nic ''my pc'' ''secret'' = Inr d \<and> serve_packet sample_conf sample_net False (dg_data d) lrsd_init =
     Inr (st', es @ mysystem sample_conf (fmt 255 ''/lbs/bin/check_add_host 0A:0A:0A:0A:0A:0A my_pc secret''))"
proof -
  obtain d where d: "identify_func sample_nic ''my pc'' ''secret'' = Inr d" by (simp add: identify_func_def Let_def)
  have m: "mac_text sample_nic = ''0A:0A:0A:0A:0A:0A''"
    by (simp add: mac_text_def mac_byte_def sample_nic_def hex_table_def)
  have "sin_port sample_net = wire_port (dg_src d)"
    using d wire_port_1001 by (auto simp: identify_func_def udp_send_withmac_def udp_send_def sample_net_def PORT_def Let_def)
  from identify_served [OF d _ _ _ this, of sample_conf lrsd_init] d show ?thesis
    by (auto simp: m sample_conf_def sample_net_def)
qed

theorem identify_overflows_witness: "identify_func sample_nic (replicate 39 (CHR ''n'')) (replicate 9 (CHR ''p'')) = Inl BufOverflow"
  by (rule identify_overflows) simp_all

end
