(* ===== verification/Boot_Disk.thy ===== *)
theory Boot_Disk
  imports Restore Revoboot
begin

text \<open>
  The disk side of \<open>new_get\<close> in \<^verbatim>\<open>client/src_revoboot/builtins_lbs.c\<close>, the boot loader's restore: the used
  sectors are written in runs with \<open>biosdisk\<close> (\<^verbatim>\<open>client/src_revoboot/bios.c\<close>). The BIOS is a parameter: two
  calls that write sectors to the current drive. \<open>bios_ok\<close> says what a working BIOS does; with
  it the writes in runs are shown to be a \<open>sector_sink\<close>, the contract of the other restore programs.
\<close>

section \<open>The BIOS\<close>

record geometry =
  cylinders :: u32
  heads :: u32
  sectors :: u32
  total_sectors :: u32
  lba :: bool

text \<open>A call gets the place, the number of sectors, their bytes and the disk; it gives the disk and an error number.\<close>

record bios_calls =
  int13_extensions :: "u64 \<Rightarrow> nat \<Rightarrow> string \<Rightarrow> string \<Rightarrow> string \<times> nat"
  int13_standard :: "nat \<Rightarrow> nat \<Rightarrow> nat \<Rightarrow> nat \<Rightarrow> string \<Rightarrow> string \<Rightarrow> string \<times> nat"

definition BIOSDISK_ERROR_GEOMETRY :: nat where "BIOSDISK_ERROR_GEOMETRY = 0x100"

text \<open>
  \<open>biosdisk\<close> for writing. The block number of the extended call is the signed 32-bit sector number; the
  build has no fallback from the extended to the standard call.
\<close>

definition biosdisk :: "bios_calls \<Rightarrow> geometry \<Rightarrow> u32 \<Rightarrow> nat \<Rightarrow> string \<Rightarrow> string \<Rightarrow> (string \<times> nat) res" where
  "biosdisk bs g sector nsec buf disk =
     (if lba g then Inr (int13_extensions bs (scast sector) (nsec mod 2 ^ 16) buf disk)
      else if sectors g = 0 \<or> heads g = 0 then Inl DivByZero
      else let sector_offset = unat (sector mod sectors g) + 1; head = sector div sectors g;
               head_offset = unat (head mod heads g); cylinder_offset = head div heads g
           in if cylinders g \<le> cylinder_offset then Inr (disk, BIOSDISK_ERROR_GEOMETRY)
              else Inr (int13_standard bs (unat cylinder_offset) head_offset sector_offset nsec buf disk))"

section \<open>Writing in runs\<close>

text \<open>
  The sector, the place in the table of used sectors (a byte and a mask), the disk, and the packets that
  were sent.
\<close>

record bparams =
  b_sect :: u32
  b_ptr :: nat
  b_mask :: nat
  b_disk :: string
  b_sent :: "datagram list"

definition inc :: "nat \<times> nat \<Rightarrow> nat \<times> nat" where
  "inc pm = (case pm of (ptr, m) \<Rightarrow> if 2 * m = 256 then (ptr + 1, 1) else (ptr, 2 * m))"

definition alloc_bit :: "string \<Rightarrow> nat \<times> nat \<Rightarrow> bool res" where
  "alloc_bit alloc pm =
     (case pm of (ptr, m) \<Rightarrow> if ptr < length alloc then Inr ((of_char (alloc ! ptr) :: nat) AND m \<noteq> 0) else Inl OutOfBounds)"

text \<open>The mask is always one bit of a byte; the test of the mask makes the recursion total.\<close>

function skip_free :: "string \<Rightarrow> u32 \<Rightarrow> nat \<times> nat \<Rightarrow> (u32 \<times> nat \<times> nat) res" where
  "skip_free alloc sect (ptr, m) =
     (if m = 0 \<or> 256 \<le> m then Inl OutOfBounds
      else case alloc_bit alloc (ptr, m) of
             Inl e \<Rightarrow> Inl e
           | Inr used \<Rightarrow> if used then Inr (sect, ptr, m) else skip_free alloc (sect + 1) (inc (ptr, m)))"
  by pat_completeness auto
termination
  by (relation "measures [\<lambda>(alloc, sect, ptr, m). length alloc - ptr, \<lambda>(alloc, sect, ptr, m). 256 - m]")
     (auto simp: inc_def alloc_bit_def split: if_splits)

declare skip_free.simps [simp del]

text \<open>
  The length of the run of used sectors, at most \<open>left\<close>. The source reads the table before it looks at the
  number of sectors left: after the last bit of the table it reads the one byte behind it, which is another
  variable of the stack and whose value is not used.
\<close>

fun count_used :: "string \<Rightarrow> nat \<Rightarrow> nat \<Rightarrow> nat \<times> nat \<Rightarrow> (nat \<times> nat \<times> nat) res" where
  "count_used alloc 0 nb pm = (if fst pm \<le> length alloc then Inr (nb, pm) else Inl OutOfBounds)"
| "count_used alloc (Suc left) nb pm =
     (case alloc_bit alloc pm of
        Inl e \<Rightarrow> Inl e
      | Inr used \<Rightarrow> if used then count_used alloc left (nb + 1) (inc pm) else Inr (nb, pm))"

text \<open>
  One call of \<open>biosdisk\<close> with the sectors from number \<open>i\<close> of the buffer. A run over the end of the disk is
  cut; an error is reported to the server and the user has to press a key.
\<close>

definition write_run :: "bios_calls \<Rightarrow> geometry \<Rightarrow> macaddr \<Rightarrow> string \<Rightarrow> nat \<Rightarrow> nat \<Rightarrow> bparams \<Rightarrow> (nat \<times> bparams) res" where
  "write_run bs g nic buf i nb cp =
     (if b_sect cp < total_sectors g
      then let nb = (if total_sectors g < b_sect cp + of_nat nb then unat (total_sectors g - b_sect cp) else nb)
           in bind_res (biosdisk bs g (b_sect cp) nb (take (512 * nb) (drop (512 * i) buf)) (b_disk cp)) (\<lambda>(disk, ret).
                Inr (nb, cp\<lparr>b_disk := disk, b_sent := b_sent cp @ (if ret \<noteq> 0 then [boot_fatal nic] else [])\<rparr>))
      else Inr (nb, cp\<lparr>b_sent := b_sent cp @ [boot_fatal nic]\<rparr>))"

lemma skip_free_used: "skip_free alloc sect pm = Inr (sect', pm') \<Longrightarrow> alloc_bit alloc pm' = Inr True"
proof (induction alloc sect pm rule: skip_free.induct)
  case (1 alloc sect ptr m)
  then show ?case using skip_free.simps [of alloc sect ptr m] by (auto split: if_splits sum.splits)
qed

lemma count_used_le: "count_used alloc left nb pm = Inr (nb', pm') \<Longrightarrow> nb \<le> nb'"
  by (induction alloc left nb pm rule: count_used.induct) (auto split: sum.splits if_splits dest: Suc_leD)

lemma count_used_pos: "alloc_bit alloc pm = Inr True \<Longrightarrow> 0 < left \<Longrightarrow> count_used alloc left 0 pm = Inr (nb, pm') \<Longrightarrow> 0 < nb"
  by (cases left) (auto dest: count_used_le)

lemma write_run_pos: "write_run bs g nic buf i nb cp = Inr (nb', cp') \<Longrightarrow> 0 < nb \<Longrightarrow> 0 < nb'"
  by (auto simp: write_run_def Let_def bind_res_Inr_iff split: if_splits simp: word_less_nat_alt unat_sub_if_size)

function boot_flush :: "bios_calls \<Rightarrow> geometry \<Rightarrow> macaddr \<Rightarrow> string \<Rightarrow> string \<Rightarrow> nat \<Rightarrow> nat \<Rightarrow> bparams \<Rightarrow> bparams res" where
  "boot_flush bs g nic buf alloc n i cp =
     (if n \<le> i then Inr cp
      else bind_res (skip_free alloc (b_sect cp) (b_ptr cp, b_mask cp)) (\<lambda>(sect, pm).
           bind_res (count_used alloc (n - i) 0 pm) (\<lambda>(nb, ptr, m).
           bind_res (write_run bs g nic buf i nb (cp\<lparr>b_sect := sect, b_ptr := ptr, b_mask := m\<rparr>)) (\<lambda>(nb, cp).
             boot_flush bs g nic buf alloc n (i + nb) (cp\<lparr>b_sect := b_sect cp + of_nat nb\<rparr>)))))"
  by pat_completeness auto
termination
proof (relation "measure (\<lambda>(bs, g, nic, buf, alloc, n, i, cp). n - i)", goal_cases)
  case (2 bs g nic buf alloc n i cp s sect pm c nb pm' ptr m w nb' cp')
  have "skip_free alloc (b_sect cp) (b_ptr cp, b_mask cp) = Inr (sect, pm)" using 2 by simp
  from skip_free_used [OF this] have "alloc_bit alloc pm = Inr True" .
  moreover have "count_used alloc (n - i) 0 pm = Inr (nb, pm')" using 2 by simp
  ultimately have "0 < nb" using 2(1) count_used_pos [of alloc pm "n - i" nb pm'] by simp
  then have "0 < nb'" using 2 write_run_pos by (metis prod.collapse)
  then show ?case using 2(1) by simp
qed simp

declare boot_flush.simps [simp del]

section \<open>Places in the table\<close>

definition bit_pos :: "nat \<Rightarrow> nat \<times> nat" where
  "bit_pos i = (i div 8, 2 ^ (i mod 8))"

definition mask_bit :: "nat \<Rightarrow> nat" where
  "mask_bit m = length (takeWhile (\<lambda>k. 2 ^ k \<noteq> m) [0..<8])"

definition b_index :: "bparams \<Rightarrow> nat" where
  "b_index cp = 8 * b_ptr cp + mask_bit (b_mask cp)"

lemma mask_bit_pow: "k < 8 \<Longrightarrow> mask_bit (2 ^ k) = k"
  by (auto simp: mask_bit_def less_Suc_eq numeral_eq_Suc upt_rec)

lemma mask_bit_cases: "mask_bit m < 8 \<Longrightarrow> m = 2 ^ mask_bit m"
  by (auto simp: mask_bit_def upt_rec split: if_splits)

lemma bit_pos_index: "mask_bit (b_mask cp) < 8 \<Longrightarrow> (b_ptr cp, b_mask cp) = bit_pos (b_index cp)"
  using mask_bit_cases [of "b_mask cp"] by (simp add: bit_pos_def b_index_def)

lemma mask_bit_pos: "mask_bit (snd (bit_pos i)) = i mod 8"
  by (simp add: bit_pos_def mask_bit_pow)

lemma inc_bit_pos: "inc (bit_pos i) = bit_pos (i + 1)"
proof (cases "i mod 8 = 7")
  case True
  then have "Suc i div 8 = Suc (i div 8)" "Suc i mod 8 = 0" by (simp_all add: div_Suc mod_Suc)
  with True show ?thesis by (simp add: inc_def bit_pos_def)
next
  case False
  moreover have "i mod 8 < 8" by simp
  ultimately have i: "Suc i div 8 = i div 8" "Suc i mod 8 = Suc (i mod 8)" "i mod 8 < 7" by (simp_all add: div_Suc mod_Suc del: mod_less_divisor)
  have "(2::nat) * 2 ^ (i mod 8) < 2 * 2 ^ 7" using i(3) power_strict_increasing [of "i mod 8" 7 "2::nat"] by simp
  then show ?thesis by (simp add: inc_def bit_pos_def i)
qed

lemma alloc_bit_pos: "alloc_bit alloc (bit_pos i) = bit_at alloc i"
  by (simp add: alloc_bit_def bit_pos_def bit_at_def)

lemma skip_free_spec:
  "0 < used_count (drop i (bits_of alloc)) \<Longrightarrow>
   skip_free alloc sect (bit_pos i) = Inr (sect + of_nat (length (takeWhile Not (drop i (bits_of alloc)))), bit_pos (i + length (takeWhile Not (drop i (bits_of alloc)))))"
proof (induction "8 * length alloc - i" arbitrary: i sect)
  case 0
  then show ?case by simp
next
  case (Suc x)
  let ?bs = "bits_of alloc"
  have i: "i < 8 * length alloc" using Suc.hyps(2) by simp
  then have d: "drop i ?bs = ?bs ! i # drop (Suc i) ?bs" by (simp add: Cons_nth_drop_Suc)
  have m: "(2::nat) ^ (i mod 8) < 2 ^ 8" by (rule power_strict_increasing) simp_all
  have step: "skip_free alloc sect (bit_pos i) =
      (if ?bs ! i then Inr (sect, bit_pos i) else skip_free alloc (sect + 1) (bit_pos (i + 1)))"
    using alloc_bit_pos [of alloc i] inc_bit_pos [of i] m bit_at_bits [OF i]
    unfolding bit_pos_def [of i] by (subst skip_free.simps) simp
  show ?case
  proof (cases "?bs ! i")
    case True
    then show ?thesis using d step by simp
  next
    case False
    have "x = 8 * length alloc - (i + 1)" using Suc.hyps(2) by simp
    from Suc.hyps(1) [OF this, of "sect + 1"] False d Suc.prems step show ?thesis by (simp add: algebra_simps)
  qed
qed

lemma count_used_spec:
  "i \<le> 8 * length alloc \<Longrightarrow> left \<le> used_count (drop i (bits_of alloc)) \<Longrightarrow>
   count_used alloc left nb (bit_pos i) =
     (let r = length (takeWhile id (take left (drop i (bits_of alloc)))) in Inr (nb + r, bit_pos (i + r)))"
proof (induction left arbitrary: i nb)
  case (Suc left)
  let ?bs = "bits_of alloc"
  have i: "i < 8 * length alloc" using Suc.prems by (cases "i < 8 * length alloc") auto
  then have d: "drop i ?bs = ?bs ! i # drop (Suc i) ?bs" by (simp add: Cons_nth_drop_Suc)
  show ?case
  proof (cases "?bs ! i")
    case True
    then have "left \<le> used_count (drop (i + 1) ?bs)" "i + 1 \<le> 8 * length alloc" using Suc.prems d i by simp_all
    from Suc.IH [OF this(2,1), of "nb + 1"] show ?thesis using True d by (simp add: alloc_bit_pos bit_at_bits [OF i] inc_bit_pos Let_def)
  next
    case False
    then show ?thesis using d by (simp add: alloc_bit_pos bit_at_bits [OF i])
  qed
qed (simp add: bit_pos_def div_le_mono [of _ "8 * length alloc" 8, simplified])

section \<open>The runs are the sectors\<close>

definition next_bit :: "bparams \<Rightarrow> bparams" where
  "next_bit cp = cp\<lparr>b_sect := b_sect cp + 1, b_ptr := fst (bit_pos (b_index cp + 1)), b_mask := snd (bit_pos (b_index cp + 1))\<rparr>"

definition put_sector :: "string \<Rightarrow> bparams \<Rightarrow> bparams" where
  "put_sector sec cp = cp\<lparr>b_disk := write_at (b_disk cp) (512 * unat (b_sect cp)) sec\<rparr>"

fun run_boot :: "bool list \<Rightarrow> string \<Rightarrow> bparams \<Rightarrow> bparams" where
  "run_boot [] src cp = cp"
| "run_boot (b # bs) src cp =
     (if b then run_boot bs (drop 512 src) (next_bit (put_sector (take 512 src) cp)) else run_boot bs src (next_bit cp))"

definition boot_fits :: "geometry \<Rightarrow> bparams \<Rightarrow> nat \<Rightarrow> bool" where
  "boot_fits g cp n \<longleftrightarrow> mask_bit (b_mask cp) < 8 \<and> unat (b_sect cp) + n \<le> unat (total_sectors g) \<and>
     512 * unat (total_sectors g) \<le> length (b_disk cp)"

lemma run_boot_append: "run_boot (a @ c) src cp = run_boot c (drop (512 * used_count a) src) (run_boot a src cp)"
  by (induction a arbitrary: src cp) (auto simp: algebra_simps)

lemma take_sectors:
  assumes "take (512 + n) src = take (512 + n) src'"
  shows "take 512 src = take 512 src'" "take n (drop 512 src) = take n (drop 512 src')"
proof -
  have "take 512 (take (512 + n) src) = take 512 (take (512 + n) src')" by (simp only: assms)
  then show "take 512 src = take 512 src'" by simp
  have "drop 512 (take (512 + n) src) = drop 512 (take (512 + n) src')" by (simp only: assms)
  then show "take n (drop 512 src) = take n (drop 512 src')" by (simp add: drop_take)
qed

lemma run_boot_cong:
  "take (512 * used_count bs) src = take (512 * used_count bs) src' \<Longrightarrow> run_boot bs src cp = run_boot bs src' cp"
proof (induction bs arbitrary: src src' cp)
  case (Cons b bs)
  show ?case
  proof (cases b)
    case True
    then have "take (512 + 512 * used_count bs) src = take (512 + 512 * used_count bs) src'" using Cons.prems by simp
    from take_sectors [OF this] Cons.IH True show ?thesis by (metis run_boot.simps(2))
  next
    case False
    then show ?thesis using Cons.IH [of src src'] Cons.prems by simp
  qed
qed simp

lemma bit_pos_sum: "8 * fst (bit_pos i) + mask_bit (snd (bit_pos i)) = i"
  unfolding mask_bit_pos by (simp add: bit_pos_def)

lemma b_index_next [simp]: "b_index (next_bit cp) = b_index cp + 1" "b_sect (next_bit cp) = b_sect cp + 1" "b_disk (next_bit cp) = b_disk cp"
    "b_sent (next_bit cp) = b_sent cp"
  using bit_pos_sum [of "b_index cp + 1"] by (simp_all add: next_bit_def b_index_def [of "_ :: bparams"])

lemma put_sector_simps [simp]: "b_index (put_sector sec cp) = b_index cp" "b_sect (put_sector sec cp) = b_sect cp" "b_sent (put_sector sec cp) = b_sent cp"
    "b_mask (put_sector sec cp) = b_mask cp" "b_disk (put_sector sec cp) = write_at (b_disk cp) (512 * unat (b_sect cp)) sec"
  by (simp_all add: put_sector_def b_index_def)

lemma b_index_run: "b_index (run_boot bs src cp) = b_index cp + length bs"
  by (induction bs arbitrary: src cp) auto

lemma b_sect_run: "b_sect (run_boot bs src cp) = b_sect cp + of_nat (length bs)" "b_sent (run_boot bs src cp) = b_sent cp"
  by (induction bs arbitrary: src cp) auto

lemma sect_add: "unat (s :: u32) + n \<le> unat (t :: u32) \<Longrightarrow> unat (s + of_nat n) = unat s + n"
proof -
  assume a: "unat s + n \<le> unat t"
  have "unat t < 2 ^ 32" using unsigned_less [of t] by simp
  with a show ?thesis by (simp add: unat_word_ariths unat_of_nat)
qed

lemma sect_Suc: "unat (s :: u32) + Suc n \<le> unat (t :: u32) \<Longrightarrow> unat (s + 1) = unat s + 1"
  using sect_add [of s 1 t] by simp

lemma boot_fits_next: "boot_fits g cp (Suc n) \<Longrightarrow> boot_fits g (next_bit cp) n"
  using sect_Suc [of "b_sect cp" n "total_sectors g"] by (simp add: boot_fits_def) (simp add: next_bit_def mask_bit_pos)

lemma boot_fits_put: "boot_fits g cp (Suc n) \<Longrightarrow> length sec \<le> 512 \<Longrightarrow> boot_fits g (put_sector sec cp) (Suc n)"
  by (auto simp: boot_fits_def length_write_at)

lemma boot_fits_run: "boot_fits g cp (length bs + n) \<Longrightarrow> boot_fits g (run_boot bs src cp) n"
proof (induction bs arbitrary: src cp)
  case (Cons b bs)
  then have "boot_fits g (next_bit cp) (length bs + n)" "boot_fits g (next_bit (put_sector (take 512 src) cp)) (length bs + n)"
    by (simp_all add: boot_fits_next boot_fits_put)
  with Cons.IH show ?case by simp
qed simp

lemma boot_fits_le: "boot_fits g cp n \<Longrightarrow> m \<le> n \<Longrightarrow> boot_fits g cp m"
  by (simp add: boot_fits_def)

lemma write_at_append: "write_at (write_at d p a) (p + length a) c = write_at d p (a @ c)"
  by (auto simp: write_at_def min_def add.commute add.left_commute)

lemma run_used:
  "boot_fits g cp n \<Longrightarrow> 512 * n \<le> length src \<Longrightarrow>
   b_disk (run_boot (replicate n True) src cp) = write_at (b_disk cp) (512 * unat (b_sect cp)) (take (512 * n) src)"
proof (induction n arbitrary: src cp)
  case 0
  then show ?case by (simp add: boot_fits_def write_at_def)
next
  case (Suc n)
  let ?cp = "next_bit (put_sector (take 512 src) cp)"
  have f: "boot_fits g ?cp n" using Suc.prems(1) by (intro boot_fits_next boot_fits_put) simp_all
  have s: "unat (b_sect cp + 1) = unat (b_sect cp) + 1" using Suc.prems(1) sect_Suc by (auto simp: boot_fits_def)
  have "take (512 + 512 * n) src = take 512 src @ take (512 * n) (drop 512 src)" by (rule take_add)
  with Suc.IH [OF f, of "drop 512 src"] Suc.prems(2) s show ?case
    using write_at_append [of "b_disk cp" "512 * unat (b_sect cp)" "take 512 src" "take (512 * n) (drop 512 src)"] by (simp add: algebra_simps)
qed

lemma run_unused: "run_boot (replicate n False) src cp = (next_bit ^^ n) cp"
  by (induction n arbitrary: cp) (auto simp: funpow_swap1)

lemma b_pos_fits: "boot_fits g cp n \<Longrightarrow> (b_ptr cp, b_mask cp) = bit_pos (b_index cp)"
  by (simp add: boot_fits_def bit_pos_index)

lemma b_params_eqI:
  "boot_fits g cp n \<Longrightarrow> boot_fits g cp' n' \<Longrightarrow> b_index cp = b_index cp' \<Longrightarrow> b_sect cp = b_sect cp' \<Longrightarrow> b_disk cp = b_disk cp' \<Longrightarrow>
   b_sent cp = b_sent cp' \<Longrightarrow> cp = cp'"
proof -
  assume a: "boot_fits g cp n" "boot_fits g cp' n'" "b_index cp = b_index cp'" and e: "b_sect cp = b_sect cp'" "b_disk cp = b_disk cp'" "b_sent cp = b_sent cp'"
  have "(b_ptr cp, b_mask cp) = (b_ptr cp', b_mask cp')" using b_pos_fits [OF a(1)] b_pos_fits [OF a(2)] a(3) by simp
  with e show ?thesis by (intro bparams.equality) simp_all
qed

lemma b_disk_unused: "b_disk (run_boot (replicate n False) src cp) = b_disk cp"
  by (induction n arbitrary: cp) auto

text \<open>A run of used sectors behind unused ones.\<close>

lemma bits_upto_run: "0 < r \<Longrightarrow> bits_upto r (replicate m False @ replicate r True @ rest) = m + r"
proof (induction m)
  case 0
  have "bits_upto r (replicate r True @ rest) = r" by (induction r) auto
  then show ?case by simp
next
  case (Suc m)
  then show ?case by (cases r) auto
qed

lemma takeWhile_id: "takeWhile id bs = replicate (length (takeWhile id bs)) True"
  by (induction bs) auto

lemma used_replicate_True: "used_count (replicate n True) = n"
  by (induction n) auto

lemma first_run:
  assumes "0 < k" "k \<le> used_count D"
  defines "m \<equiv> length (takeWhile Not D)"
  defines "r \<equiv> length (takeWhile id (take k (drop m D)))"
  shows "0 < r" "r \<le> k" "D = replicate m False @ replicate r True @ drop (m + r) D" "bits_upto r D = m + r"
proof -
  have pos: "0 < used_count D" using assms by simp
  have D: "D = replicate m False @ drop m D" using takeWhile_Not [of D] by (metis m_def append_take_drop_id takeWhile_eq_take)
  have "drop m D = True # drop (Suc m) D" using first_used [OF pos] by (metis m_def append_eq_conv_conj takeWhile_eq_take)
  then show r: "0 < r" using assms(1) by (cases k) (simp_all add: r_def)
  have "r \<le> length (take k (drop m D))" unfolding r_def by (rule length_takeWhile_le)
  then show k: "r \<le> k" by simp
  have "replicate r True = take r (take k (drop m D))" unfolding r_def using takeWhile_id takeWhile_eq_take by metis
  then have "replicate r True = take r (drop m D)" using k by simp
  then have "drop m D = replicate r True @ drop (m + r) D" by (metis append_take_drop_id drop_drop add.commute)
  with D show D2: "D = replicate m False @ replicate r True @ drop (m + r) D" by metis
  show "bits_upto r D = m + r" using bits_upto_run [OF r, of m "drop (m + r) D"] D2 by metis
qed

section \<open>A working BIOS\<close>

text \<open>
  The drive has the extended calls and a size of less than \<open>2 ^ 31\<close> sectors, so that the sign of the
  sector number does not matter, and a write inside the disk of at most the output buffer is carried out.
\<close>

definition bios_ok :: "bios_calls \<Rightarrow> geometry \<Rightarrow> bool" where
  "bios_ok bs g \<longleftrightarrow> lba g \<and> unat (total_sectors g) < 2 ^ 31 \<and>
     (\<forall>s n buf disk. length buf = 512 * n \<longrightarrow> 512 * n \<le> BUFSIZE \<longrightarrow> s + n \<le> unat (total_sectors g) \<longrightarrow> 512 * unat (total_sectors g) \<le> length disk \<longrightarrow>
        int13_extensions bs (of_nat s) n buf disk = (write_at disk (512 * s) buf, 0))"

lemma scast_small: "unat (s :: u32) < 2 ^ 31 \<Longrightarrow> (scast s :: u64) = of_nat (unat s)"
proof -
  assume "unat s < 2 ^ 31"
  then have "int (unat s) < int (2 ^ 31)" by (simp only: of_nat_less_iff)
  then have u: "uint s < 2 ^ 31" "0 \<le> uint s" by simp_all
  then have "sint s = uint s" unfolding sint_uint by (intro signed_take_bit_int_eq_self) (simp_all add: order_trans [of "- 2147483648" 0])
  then have e: "sint s = int (unat s)" by simp
  show ?thesis unfolding scast_eq e by (rule of_int_of_nat_eq)
qed

definition boot_sink :: "bios_calls \<Rightarrow> geometry \<Rightarrow> macaddr \<Rightarrow> bparams sink" where
  "boot_sink bs g nic =
     \<lparr>sk_flush = (\<lambda>buff bm lg cp. boot_flush bs g nic buff bm (lg div 512) 0 cp),
      sk_rewind = (\<lambda>cp. cp\<lparr>b_ptr := 0, b_mask := 1\<rparr>), sk_blocks = (\<lambda>_ blocks. blocks)\<rparr>"

lemma write_run_ok:
  assumes bios: "bios_ok bs g" and f: "boot_fits g cp r" and r: "0 < r" "512 * r \<le> BUFSIZE" "512 * (i + r) \<le> length buf" and p: "pm = bit_pos (b_index cp + r)"
  shows "\<exists>cp'. write_run bs g nic buf i r (cp\<lparr>b_ptr := fst pm, b_mask := snd pm\<rparr>) = Inr (r, cp') \<and>
     cp'\<lparr>b_sect := b_sect cp' + of_nat r\<rparr> = run_boot (replicate r True) (drop (512 * i) buf) cp"
proof -
  let ?data = "take (512 * r) (drop (512 * i) buf)" and ?run = "run_boot (replicate r True) (drop (512 * i) buf) cp"
  have room: "unat (b_sect cp) + r \<le> unat (total_sectors g)" "512 * unat (total_sectors g) \<le> length (b_disk cp)" using f by (auto simp: boot_fits_def)
  have t: "lba g" "unat (total_sectors g) < 2 ^ 31" using bios by (auto simp: bios_ok_def)
  have len: "length ?data = 512 * r" using r(3) by simp
  have "scast (b_sect cp) = (of_nat (unat (b_sect cp)) :: u64)" using scast_small [of "b_sect cp"] t(2) room(1) by linarith
  then have "int13_extensions bs (scast (b_sect cp)) r ?data (b_disk cp) = (write_at (b_disk cp) (512 * unat (b_sect cp)) ?data, 0)"
    using bios room len r(2) unfolding bios_ok_def by metis
  then have w: "biosdisk bs g (b_sect cp) r ?data (b_disk cp) = Inr (b_disk ?run, 0)"
    using t(1) r(2) run_used [OF f, of "drop (512 * i) buf"] r(3) by (simp add: biosdisk_def BUFSIZE_def)
  have c: "b_sect cp < total_sectors g" "\<not> total_sectors g < b_sect cp + of_nat r"
    using sect_add [OF room(1)] room(1) r(1) by (auto simp: word_less_nat_alt)
  define cp' where "cp' = cp\<lparr>b_ptr := fst pm, b_mask := snd pm, b_disk := b_disk ?run\<rparr>"
  have run: "write_run bs g nic buf i r (cp\<lparr>b_ptr := fst pm, b_mask := snd pm\<rparr>) = Inr (r, cp')"
    using w c by (simp add: write_run_def cp'_def)
  have fr: "boot_fits g ?run 0" using boot_fits_run [of g cp "replicate r True" 0 "drop (512 * i) buf"] f by simp
  have fc: "boot_fits g (cp'\<lparr>b_sect := b_sect cp' + of_nat r\<rparr>) 0"
    using fr by (simp add: boot_fits_def b_sect_run cp'_def p mask_bit_pos)
  have ix: "b_index (cp'\<lparr>b_sect := b_sect cp' + of_nat r\<rparr>) = b_index ?run"
  proof -
    have "b_index (cp'\<lparr>b_sect := b_sect cp' + of_nat r\<rparr>) = 8 * fst pm + mask_bit (snd pm)" by (simp add: b_index_def cp'_def)
    then show ?thesis using bit_pos_sum [of "b_index cp + r"] by (simp only: p b_index_run length_replicate)
  qed
  have "cp'\<lparr>b_sect := b_sect cp' + of_nat r\<rparr> = ?run"
    by (rule b_params_eqI [OF fc fr ix]) (simp_all add: cp'_def b_sect_run)
  with run show ?thesis by blast
qed

lemma boot_flush_runs:
  assumes bios: "bios_ok bs g"
  shows "i \<le> n \<Longrightarrow> 512 * n \<le> BUFSIZE \<Longrightarrow> n - i \<le> used_count (drop (b_index cp) (bits_of alloc)) \<Longrightarrow> 512 * n \<le> length buf \<Longrightarrow>
   boot_fits g cp (bits_upto (n - i) (drop (b_index cp) (bits_of alloc))) \<Longrightarrow>
   boot_flush bs g nic buf alloc n i cp =
     Inr (run_boot (take (bits_upto (n - i) (drop (b_index cp) (bits_of alloc))) (drop (b_index cp) (bits_of alloc))) (drop (512 * i) buf) cp)"
proof (induction "n - i" arbitrary: i cp rule: less_induct)
  case less
  show ?case
  proof (cases "n = i")
    case True
    then show ?thesis by (subst boot_flush.simps) simp
  next
    case False
    define D k m r where "D = drop (b_index cp) (bits_of alloc)" "k = n - i" "m = length (takeWhile Not D)" "r = length (takeWhile id (take k (drop m D)))"
    note dm = this
    have k: "0 < k" "k \<le> used_count D" using False less.prems by (auto simp: dm)
    have fr: "0 < r" "r \<le> k" "D = replicate m False @ replicate r True @ drop (m + r) D" "bits_upto r D = m + r"
      using first_run [OF k] unfolding dm by blast+
    have up: "bits_upto k D = m + r + bits_upto (k - r) (drop (m + r) D)"
      using bits_upto_add [of r "k - r" D] fr(2,4) k(2) by simp
    let ?u = "run_boot (replicate m False) (drop (512 * i) buf) cp"
    let ?v = "run_boot (replicate r True) (drop (512 * i) buf) ?u"
    have fits: "boot_fits g cp (m + (r + bits_upto (k - r) (drop (m + r) D)))" using less.prems(5) up by (simp add: dm add.assoc)
    have fu: "boot_fits g ?u (r + bits_upto (k - r) (drop (m + r) D))"
      using boot_fits_run [of g cp "replicate m False"] fits by simp
    then have fv: "boot_fits g ?v (bits_upto (k - r) (drop (m + r) D))" using boot_fits_run [of g ?u "replicate r True"] by simp
    have ix: "b_index ?u = b_index cp + m" "b_index ?v = b_index cp + (m + r)" by (simp_all add: b_index_run)
    have pos: "0 < used_count (drop (b_index cp) (bits_of alloc))" using k by (simp add: dm)
    have skip: "skip_free alloc (b_sect cp) (b_ptr cp, b_mask cp) = Inr (b_sect ?u, bit_pos (b_index cp + m))"
      using skip_free_spec [OF pos, of "b_sect cp"] b_pos_fits [OF fits] by (simp add: b_sect_run dm)
    have "drop m D = drop (b_index cp + m) (bits_of alloc)" by (simp add: dm add.commute)
    moreover have "k \<le> used_count (drop m D)" using k(2) by (subst (asm) (1) fr(3), subst fr(3)) (simp add: used_replicate_False)
    moreover have inside: "b_index cp + m \<le> 8 * length alloc"
    proof -
      have "0 < length (drop m D)" using k(1) calculation(2) by (cases "drop m D") auto
      then show ?thesis by (simp add: dm(1))
    qed
    ultimately have count: "count_used alloc k 0 (bit_pos (b_index cp + m)) = Inr (r, bit_pos (b_index cp + m + r))"
      using count_used_spec [of "b_index cp + m" alloc k 0] inside by (simp add: dm(4) Let_def)
    have kn: "k = n - i" by (simp add: dm)
    have "i + r \<le> n" using fr(2) less.prems(1) kn by simp
    then have rr: "512 * r \<le> BUFSIZE" "512 * (i + r) \<le> length buf" using less.prems(2,4) by simp_all
    obtain cp' where cp': "write_run bs g nic buf i r (?u\<lparr>b_ptr := fst (bit_pos (b_index cp + m + r)), b_mask := snd (bit_pos (b_index cp + m + r))\<rparr>) = Inr (r, cp')"
        "cp'\<lparr>b_sect := b_sect cp' + of_nat r\<rparr> = ?v"
      using write_run_ok [OF bios, of ?u r i buf "bit_pos (b_index cp + m + r)"] boot_fits_le [OF fu, of r] fr(1) rr ix(1) by auto
    have uu: "cp\<lparr>b_sect := b_sect ?u, b_ptr := p, b_mask := q\<rparr> = ?u\<lparr>b_ptr := p, b_mask := q\<rparr>" for p q
      by (rule bparams.equality) (simp_all add: b_disk_unused b_sect_run)
    have step: "boot_flush bs g nic buf alloc n i cp = boot_flush bs g nic buf alloc n (i + r) ?v"
      using skip count cp' k(1) less.prems(1) unfolding kn by (subst boot_flush.simps) (simp add: case_prod_beta uu)
    have nk: "n - (i + r) = k - r" by (simp add: kn)
    have D': "drop (b_index ?v) (bits_of alloc) = drop (m + r) D" unfolding ix(2) dm(1) drop_drop by (simp add: add.commute)
    have used: "used_count D = r + used_count (drop (m + r) D)" by (subst fr(3)) (simp add: used_replicate_False used_replicate_True)
    have "boot_flush bs g nic buf alloc n (i + r) ?v =
        Inr (run_boot (take (bits_upto (k - r) (drop (m + r) D)) (drop (m + r) D)) (drop (512 * (i + r)) buf) ?v)"
      using less.hyps [of "i + r" ?v] fr(1,2) less.prems(1,2,4) k used fv unfolding nk D' by (simp add: kn)
    moreover have "take (bits_upto k D) D = (replicate m False @ replicate r True) @ take (bits_upto (k - r) (drop (m + r) D)) (drop (m + r) D)"
      unfolding up by (subst (2) fr(3)) simp
    then have "run_boot (take (bits_upto k D) D) (drop (512 * i) buf) cp =
        run_boot (take (bits_upto (k - r) (drop (m + r) D)) (drop (m + r) D)) (drop (512 * (i + r)) buf) ?v"
      by (simp add: run_boot_append used_replicate_False used_replicate_True algebra_simps)
    ultimately show ?thesis using step by (simp add: dm)
  qed
qed

interpretation boot_disk: sector_sink "boot_sink bs g nic" b_index run_boot "\<lambda>cp n. bios_ok bs g \<and> boot_fits g cp n" for bs g nic
proof
  fix k cp bm and buff :: string
  assume a: "k \<le> used_count (drop (b_index cp) (bits_of bm))" "512 * k \<le> length buff" "512 * k \<le> BUFSIZE"
    "bios_ok bs g \<and> boot_fits g cp (bits_upto k (drop (b_index cp) (bits_of bm)))"
  from a show "sk_flush (boot_sink bs g nic) buff bm (512 * k) cp =
      Inr (run_boot (take (bits_upto k (drop (b_index cp) (bits_of bm))) (drop (b_index cp) (bits_of bm))) buff cp)"
    using boot_flush_runs [of bs g 0 k cp bm buff nic] by (simp add: boot_sink_def)
next
  fix cp :: bparams
  assume "b_index cp = 0"
  then have "b_ptr cp = 0" "b_mask cp = 1" using mask_bit_cases [of "b_mask cp"] by (simp_all add: b_index_def)
  then show "sk_rewind (boot_sink bs g nic) cp = cp" by (simp add: boot_sink_def)
qed (fact run_boot_append, erule run_boot_cong, simp, rule b_index_run, blast intro: boot_fits_run, blast intro: boot_fits_le)

end
