(* ===== verification/Boot_Header.thy ===== *)
theory Boot_Header
  imports Restore Revoboot
begin

text \<open>
  How the boot loader reads the header of an image file: \<open>val\<close> and \<open>exist\<close> of
  \<^verbatim>\<open>client/src_revoboot/builtins_lbs.c\<close> search the memory at \<open>BUFFERADDR\<close> up to a NUL.
\<close>

section \<open>Searching a key\<close>

text \<open>
  The number of characters that agree. The comparison does not stop at the end of the key: when the
  text ends with it, both NUL bytes agree and what follows the key in memory is read.
\<close>

fun match_key :: "string \<Rightarrow> string \<Rightarrow> nat \<Rightarrow> nat res" where
  "match_key mem [] i = (case mem of [] \<Rightarrow> Inl OutOfBounds | c # _ \<Rightarrow> if c = NUL then Inl OutOfBounds else Inr i)"
| "match_key [] (k # key) i = Inl OutOfBounds"
| "match_key (c # mem) (k # key) i = (if c = k then match_key mem key (i + 1) else Inr i)"

text \<open>What follows the first place with the key and an equals sign.\<close>

fun find_key :: "string \<Rightarrow> string \<Rightarrow> string option res" where
  "find_key key [] = Inl OutOfBounds"
| "find_key key (c # mem) =
     (if c = NUL then Inr None
      else bind_res (match_key (c # mem) key 0) (\<lambda>i.
        if i = length key \<and> (c # mem) ! i = CHR ''='' then Inr (Some (drop (i + 1) (c # mem))) else find_key key mem))"

definition exist :: "string \<Rightarrow> string \<Rightarrow> bool res" where
  "exist mem key = bind_res (find_key key mem) (\<lambda>r. Inr (r \<noteq> None))"

text \<open>
  \<open>val\<close>: -1 if there is no key; if no number follows the result is what the counter of the comparison
  holds, the length of the key. In front of an empty text the pointer is not set.
\<close>

definition val :: "string \<Rightarrow> string \<Rightarrow> int res" where
  "val mem key =
     (if take 1 mem = [NUL] then Inl OutOfBounds
      else bind_res (find_key key mem) (\<lambda>r.
        Inr (case r of
               None \<Rightarrow> - 1
             | Some cp \<Rightarrow> (case safe_parse_maxint cp of None \<Rightarrow> int (length key) | Some (n, _) \<Rightarrow> int n))))"

section \<open>The variables of the header\<close>

record boot_vars =
  v_fat :: bool
  v_ntfs :: bool
  v_files :: int
  v_new_len :: int
  v_new_type :: int

definition set_val :: "string \<Rightarrow> string \<Rightarrow> (int \<Rightarrow> boot_vars \<Rightarrow> boot_vars) \<Rightarrow> boot_vars \<Rightarrow> boot_vars res" where
  "set_val mem key upd v =
     bind_res (exist mem key) (\<lambda>e. if e then bind_res (val mem key) (\<lambda>i. Inr (upd i v)) else Inr v)"

text \<open>The first buffer of a file: where the next file goes, and the variables.\<close>

definition read_header :: "string \<Rightarrow> u32 \<Rightarrow> boot_vars \<Rightarrow> (u32 \<times> boot_vars) res" where
  "read_header mem save_sect v =
     bind_res (val mem ''ALLOCTABLELG'') (\<lambda>lg.
     bind_res (exist mem ''FAT32'') (\<lambda>fat.
     bind_res (exist mem ''NTFS'') (\<lambda>ntfs.
     bind_res (set_val mem ''BLOCKS'' (\<lambda>i. v_files_update (\<lambda>_. i))
                 (v\<lparr>v_fat := fat \<or> v_fat v, v_ntfs := ntfs \<or> v_ntfs v\<rparr>)) (\<lambda>v.
     bind_res (set_val mem ''SECTORS'' (\<lambda>i. v_new_len_update (\<lambda>_. i)) v) (\<lambda>v.
     bind_res (set_val mem ''TYPE'' (\<lambda>i. v_new_type_update (\<lambda>_. i)) v) (\<lambda>v.
       Inr (save_sect + of_int (lg * 8), v)))))))"

section \<open>A text that ends with a newline\<close>

definition header_mem :: "string \<Rightarrow> string \<Rightarrow> bool" where
  "header_mem tx mem \<longleftrightarrow> tx \<noteq> [] \<and> NUL \<notin> set tx \<and> last tx = NL \<and> (\<exists>r. mem = tx @ NUL # r)"

definition clean_key :: "string \<Rightarrow> bool" where
  "clean_key key \<longleftrightarrow> NUL \<notin> set key \<and> NL \<notin> set key"

lemma match_key_spec:
  "clean_key key \<Longrightarrow> s \<noteq> [] \<Longrightarrow> NUL \<notin> set s \<Longrightarrow> last s = NL \<Longrightarrow>
   \<exists>i \<le> length key. match_key (s @ NUL # r) key j = Inr (j + i) \<and>
     (i = length key \<and> (s @ NUL # r) ! i = CHR ''='' \<longleftrightarrow> take (length key + 1) s = key @ ''='')"
proof (induction key arbitrary: s j)
  case Nil
  then obtain c s' where "s = c # s'" "c \<noteq> NUL" by (cases s) auto
  then show ?case by auto
next
  case (Cons k key)
  obtain c s' where s: "s = c # s'" using Cons.prems(2) by (cases s) auto
  show ?case
  proof (cases "c = k")
    case True
    then have "s' \<noteq> []" "last s' = NL" "NUL \<notin> set s'" "clean_key key" using Cons.prems s by (auto simp: clean_key_def split: if_splits)
    with Cons.IH [of s' "j + 1"] obtain i where "i \<le> length key" "match_key (s' @ NUL # r) key (j + 1) = Inr (j + 1 + i)"
      "i = length key \<and> (s' @ NUL # r) ! i = CHR ''='' \<longleftrightarrow> take (length key + 1) s' = key @ ''=''" by blast
    then show ?thesis using s True by (intro exI [of _ "Suc i"]) simp
  next
    case False
    then show ?thesis using s by (intro exI [of _ 0]) simp
  qed
qed

lemma find_key_spec:
  "clean_key key \<Longrightarrow> NUL \<notin> set s \<Longrightarrow> s = [] \<or> last s = NL \<Longrightarrow>
   find_key key (s @ NUL # r) = Inr (map_option (\<lambda>x. drop (length key + 1) x @ NUL # r) (strstr s (key @ ''='')))"
proof (induction s)
  case (Cons c s)
  obtain i where i: "match_key ((c # s) @ NUL # r) key 0 = Inr i"
      "i = length key \<and> ((c # s) @ NUL # r) ! i = CHR ''='' \<longleftrightarrow> take (length key + 1) (c # s) = key @ ''=''"
    using match_key_spec [of key "c # s" r 0] Cons.prems by auto
  have IH: "find_key key (s @ NUL # r) = Inr (map_option (\<lambda>x. drop (length key + 1) x @ NUL # r) (strstr s (key @ ''='')))"
    using Cons.IH Cons.prems by (cases s) auto
  show ?case
  proof (cases "take (length key + 1) (c # s) = key @ ''=''")
    case True
    then have "length key + 1 \<le> length (c # s)" by (metis length_append length_take min.absorb_iff2 min.commute list.size(3,4) One_nat_def add_0 add_Suc_right add.right_neutral)
    moreover have "c \<noteq> NUL" "i = length key" "((c # s) @ NUL # r) ! i = CHR ''=''" using i(2) True Cons.prems(2) by auto
    ultimately show ?thesis using True i(1) Cons.prems by (simp del: take_Suc_Cons)
  next
    case False
    moreover have "c \<noteq> NUL" using Cons.prems(2) by auto
    ultimately show ?thesis using i IH by (auto simp del: take_Suc_Cons)
  qed
qed simp

lemma exist_spec: "header_mem tx mem \<Longrightarrow> clean_key key \<Longrightarrow> exist mem key = Inr (strstr tx (key @ ''='') \<noteq> None)"
  by (auto simp: header_mem_def exist_def find_key_spec)

lemma val_found:
  assumes "header_mem tx mem" "clean_key key" "strstr tx (key @ ''='') = Some (key @ ''='' @ show_nat n @ s)" "n < 2 ^ 31" "number_ends s" "s \<noteq> []"
  shows "val mem key = Inr (int n)"
proof -
  obtain r where mem: "mem = tx @ NUL # r" "tx \<noteq> []" "NUL \<notin> set tx" "last tx = NL" using assms(1) by (auto simp: header_mem_def)
  then have "take 1 mem \<noteq> [NUL]" by (cases tx) auto
  moreover have "find_key key mem = Inr (Some ((show_nat n @ s) @ NUL # r))"
    using find_key_spec [OF assms(2) mem(3)] mem(1,4) assms(3) by simp
  moreover have "number_ends (s @ NUL # r)" using assms(5,6) by (cases s) (auto simp: number_ends_def)
  ultimately show ?thesis using safe_parse_number [OF assms(4)] by (simp add: val_def)
qed

lemma set_val_total: "header_mem tx mem \<Longrightarrow> clean_key key \<Longrightarrow> set_val mem key upd v = Inr v \<or> (\<exists>i. set_val mem key upd v = Inr (upd i v))"
proof -
  assume a: "header_mem tx mem" "clean_key key"
  have "take 1 mem \<noteq> [NUL]" using a(1) by (cases tx) (auto simp: header_mem_def)
  then have "\<exists>i. val mem key = Inr i" using a find_key_spec [OF a(2)] by (auto simp: val_def header_mem_def)
  then show ?thesis using exist_spec [OF a] by (auto simp: set_val_def)
qed

section \<open>The header of an image\<close>

lemma image_header_mem:
  "unmarked (first @ g) \<Longrightarrow> length (header_text first g lg) < HEADERLG \<Longrightarrow>
   header_mem (header_text first g lg) (image_header (header_text first g lg) bm)"
proof -
  assume u: "unmarked (first @ g)" and l: "length (header_text first g lg) < HEADERLG"
  obtain k where "HEADERLG - length (header_text first g lg) = Suc k" using l by (metis Suc_diff_Suc)
  with header_text_NUL [OF u] show ?thesis by (auto simp: header_mem_def image_header_def header_text_def)
qed

lemma clean_keys: "clean_key ''ALLOCTABLELG''" "clean_key ''FAT32''" "clean_key ''NTFS''" "clean_key ''BLOCKS''" "clean_key ''SECTORS''" "clean_key ''TYPE''"
  by (simp_all add: clean_key_def)

definition blocks_value :: "string \<Rightarrow> int \<Rightarrow> int \<Rightarrow> bool" where
  "blocks_value tx old new \<longleftrightarrow>
     (case strstr tx ''BLOCKS='' of
        None \<Rightarrow> new = old
      | Some r \<Rightarrow> \<exists>n s. r = ''BLOCKS='' @ show_nat n @ s \<and> n < 2 ^ 31 \<and> number_ends s \<and> s \<noteq> [] \<and> new = int n)"

lemma set_blocks:
  assumes h: "header_mem tx mem" and b: "blocks_value tx (v_files v) files"
  shows "\<exists>v'. set_val mem ''BLOCKS'' (\<lambda>i. v_files_update (\<lambda>_. i)) v = Inr v' \<and> v_files v' = files"
proof (cases "strstr tx ''BLOCKS=''")
  case None
  then show ?thesis using exist_spec [OF h clean_keys(4)] b by (simp add: set_val_def blocks_value_def)
next
  case (Some r)
  then obtain n s where "strstr tx (''BLOCKS'' @ ''='') = Some (''BLOCKS'' @ ''='' @ show_nat n @ s)" "n < 2 ^ 31" "number_ends s" "s \<noteq> []" "files = int n"
    using b by (auto simp: blocks_value_def)
  then show ?thesis using exist_spec [OF h clean_keys(4)] val_found [OF h clean_keys(4)] by (simp add: set_val_def)
qed

lemma read_header_ok:
  assumes u: "unmarked (first @ g)" and l: "length (header_text first g lg) < HEADERLG" "lg < 2 ^ 31"
    and b: "blocks_value (header_text first g lg) (v_files v) files"
  shows "\<exists>v'. read_header (image_header (header_text first g lg) bm) save v = Inr (save + of_nat (8 * lg), v') \<and> v_files v' = files"
proof -
  let ?t = "header_text first g lg" and ?m = "image_header (header_text first g lg) bm"
  have h: "header_mem ?t ?m" by (rule image_header_mem [OF u l(1)])
  have a: "val ?m ''ALLOCTABLELG'' = Inr (int lg)"
    using strstr_alloctable [OF u, of lg] l(2) by (intro val_found [OF h clean_keys(1), of _ "[NL]"]) (simp_all add: number_ends_def isdigit_def tolower_def isupper_def)
  note e = exist_spec [OF h clean_keys(2)] exist_spec [OF h clean_keys(3)]
  let ?v = "v\<lparr>v_fat := strstr ?t (''FAT32'' @ ''='') \<noteq> None \<or> v_fat v, v_ntfs := strstr ?t (''NTFS'' @ ''='') \<noteq> None \<or> v_ntfs v\<rparr>"
  have "blocks_value ?t (v_files ?v) files" using b by simp
  then obtain v1 where v1: "set_val ?m ''BLOCKS'' (\<lambda>i. v_files_update (\<lambda>_. i)) ?v = Inr v1" "v_files v1 = files"
    using set_blocks [OF h] by blast
  obtain v2 where v2: "set_val ?m ''SECTORS'' (\<lambda>i. v_new_len_update (\<lambda>_. i)) v1 = Inr v2" "v_files v2 = files"
    using set_val_total [OF h clean_keys(5), of "\<lambda>i. v_new_len_update (\<lambda>_. i)" v1] v1(2) by auto
  obtain v3 where v3: "set_val ?m ''TYPE'' (\<lambda>i. v_new_type_update (\<lambda>_. i)) v2 = Inr v3" "v_files v3 = files"
    using set_val_total [OF h clean_keys(6), of "\<lambda>i. v_new_type_update (\<lambda>_. i)" v2] v2(2) by auto
  have "read_header ?m save v = Inr (save + of_int (int lg * 8), v3)"
    unfolding read_header_def a e bind_res_simps v1(1) v2(1) v3(1) ..
  then show ?thesis using v3(2) by (simp add: mult.commute)
qed

end
