(* ===== verification/Rx_Queue.thy ===== *)
theory Rx_Queue
  imports LRS_Prelude
begin

text \<open>
  The receive buffers of \<open>new_get\<close> in \<^verbatim>\<open>client/src_revoboot/builtins_lbs.c\<close>: ten slots for packets, linked
  into a list in the order of their arrival by pointers. A slot is free when its length is 0. The slots
  are a list and a pointer to a slot is its index. The locale \<open>byte_queue\<close> states what the loop of \<open>new_get\<close>
  needs of them: they are a queue of bytes.
\<close>

section \<open>The slots\<close>

definition TFTPBLOCK :: nat where "TFTPBLOCK = 1456"
definition NB_BUF :: nat where "NB_BUF = 10"

text \<open>The four bytes \<open>udp\<close> and the \<open>TFTPBLOCK + 16\<close> bytes \<open>data\<close> lie behind each other.\<close>

definition SLOT :: nat where "SLOT = 4 + (TFTPBLOCK + 16)"

record tftpbuffer =
  t_mem :: string
  t_length :: int
  t_next :: "nat option"

record rxq =
  q_buf :: "tftpbuffer list"
  q_first :: "nat option"
  q_last :: "nat option"

definition rx_init :: "tftpbuffer list \<Rightarrow> rxq" where
  "rx_init b = \<lparr>q_buf = map (\<lambda>s. s\<lparr>t_length := 0, t_next := None\<rparr>) b, q_first = None, q_last = None\<rparr>"

fun get_empty_from :: "nat \<Rightarrow> tftpbuffer list \<Rightarrow> nat option" where
  "get_empty_from j [] = None"
| "get_empty_from j (s # b) = (if t_length s = 0 then Some j else get_empty_from (j + 1) b)"

definition get_empty :: "rxq \<Rightarrow> nat option" where
  "get_empty q = get_empty_from 0 (q_buf q)"

text \<open>The sum of the lengths from a slot on; the loop has no other end than a NULL pointer.\<close>

partial_function (option) tot_lg :: "tftpbuffer list \<Rightarrow> nat \<Rightarrow> int \<Rightarrow> int option" where
  "tot_lg b p i =
     (case t_next (b ! p) of None \<Rightarrow> Some (i + t_length (b ! p)) | Some p' \<Rightarrow> tot_lg b p' (i + t_length (b ! p)))"

text \<open>\<open>udp_get\<close> copies a packet into a slot; \<open>rx_link\<close> puts the slot at the end of the list.\<close>

definition rx_store :: "nat \<Rightarrow> string \<Rightarrow> rxq \<Rightarrow> rxq res" where
  "rx_store i pkt q =
     (let s = q_buf q ! i
      in if SLOT < length pkt then Inl BufOverflow
         else Inr (q\<lparr>q_buf := (q_buf q)[i := s\<lparr>t_mem := pkt @ drop (length pkt) (t_mem s)\<rparr>]\<rparr>))"

definition rx_link :: "nat \<Rightarrow> int \<Rightarrow> rxq \<Rightarrow> rxq" where
  "rx_link i lg q =
     (let q = (case q_last q of
                 None \<Rightarrow> q\<lparr>q_first := Some i\<rparr>
               | Some l \<Rightarrow> q\<lparr>q_buf := (q_buf q)[l := (q_buf q ! l)\<lparr>t_next := Some i\<rparr>]\<rparr>)
      in q\<lparr>q_buf := (q_buf q)[i := (q_buf q ! i)\<lparr>t_length := lg\<rparr>], q_last := Some i\<rparr>)"

text \<open>Taking \<open>i\<close> bytes from the front: whole slots are freed, the rest of the last one is moved to its start.\<close>

definition free_first :: "nat \<Rightarrow> rxq \<Rightarrow> rxq" where
  "free_first f q =
     (let s = q_buf q ! f
      in q\<lparr>q_buf := (q_buf q)[f := s\<lparr>t_length := 0, t_next := None\<rparr>],
           q_last := (if q_last q = Some f then None else q_last q), q_first := t_next s\<rparr>)"

definition cut_first :: "nat \<Rightarrow> nat \<Rightarrow> rxq \<Rightarrow> rxq" where
  "cut_first f i q =
     (let s = q_buf q ! f; udp = take 4 (t_mem s); dat = drop 4 (t_mem s); lg = nat (t_length s) - i
      in q\<lparr>q_buf := (q_buf q)[f := s\<lparr>t_mem := udp @ take lg (drop i dat) @ drop lg dat, t_length := t_length s - int i\<rparr>]\<rparr>)"

partial_function (option) gather :: "rxq \<Rightarrow> int \<Rightarrow> string \<Rightarrow> (rxq \<times> string) run" where
  "gather q i acc =
     (if i \<le> 0 then Some (Inr (q, acc))
      else (case q_first q of
              None \<Rightarrow> Some (Inl NullDeref)
            | Some f \<Rightarrow>
                (let s = q_buf q ! f; dat = drop 4 (t_mem s)
                 in if t_length s \<le> i
                    then if t_length s < 0 then Some (Inl OutOfBounds)
                         else gather (free_first f q) (i - t_length s) (acc @ take (nat (t_length s)) dat)
                    else Some (Inr (cut_first f (nat i) q, acc @ take (nat i) dat)))))"

section \<open>The list of the slots in use\<close>

fun linked :: "tftpbuffer list \<Rightarrow> nat option \<Rightarrow> nat list \<Rightarrow> bool" where
  "linked b p [] \<longleftrightarrow> p = None"
| "linked b p (i # is) \<longleftrightarrow> p = Some i \<and> i < length b \<and> linked b (t_next (b ! i)) is"

definition chunk :: "tftpbuffer list \<Rightarrow> nat \<Rightarrow> string" where
  "chunk b i = take (nat (t_length (b ! i))) (drop 4 (t_mem (b ! i)))"

definition slot_ok :: "tftpbuffer \<Rightarrow> bool" where
  "slot_ok s \<longleftrightarrow> length (t_mem s) = SLOT \<and> 0 \<le> t_length s \<and> t_length s \<le> int TFTPBLOCK"

definition rx_rep :: "rxq \<Rightarrow> nat list \<Rightarrow> bool" where
  "rx_rep q is \<longleftrightarrow> length (q_buf q) = NB_BUF \<and> (\<forall>i < NB_BUF. slot_ok (q_buf q ! i)) \<and>
     linked (q_buf q) (q_first q) is \<and> distinct is \<and> q_last q = (if is = [] then None else Some (last is)) \<and>
     (\<forall>i < NB_BUF. i \<notin> set is \<longrightarrow> t_length (q_buf q ! i) = 0 \<and> t_next (q_buf q ! i) = None)"

abbreviation contents :: "rxq \<Rightarrow> nat list \<Rightarrow> string" where
  "contents q is \<equiv> concat (map (chunk (q_buf q)) is)"

lemma linked_bound: "linked b p is \<Longrightarrow> i \<in> set is \<Longrightarrow> i < length b"
  by (induction "is" arbitrary: p) auto

lemma linked_update: "i \<notin> set is \<Longrightarrow> linked (b[i := s]) p is = linked b p is"
  by (induction "is" arbitrary: p) auto

lemma linked_same_next: "t_next s = t_next (b ! i) \<Longrightarrow> linked (b[i := s]) p is = linked b p is"
proof (induction "is" arbitrary: p)
  case (Cons j js)
  have "t_next (b[i := s] ! j) = t_next (b ! j)" 
  proof (cases "i = j \<and> j < length b")
    case True
    then show ?thesis using Cons.prems by (auto simp only: nth_list_update_eq)
  next
    case False
    then have "b[i := s] ! j = b ! j" by (metis nth_list_update_neq list_update_beyond not_less)
    then show ?thesis by simp
  qed
  with Cons show ?case by simp
qed simp

lemma linked_snoc:
  "linked b p (is @ [l]) \<Longrightarrow> distinct (is @ [l]) \<Longrightarrow> i < length b \<Longrightarrow> i \<notin> set (is @ [l]) \<Longrightarrow> t_next (b ! i) = None \<Longrightarrow>
   linked (b[l := (b ! l)\<lparr>t_next := Some i\<rparr>]) p (is @ [l, i])"
proof (induction "is" arbitrary: p)
  case (Cons j js)
  then show ?case by auto
qed auto

lemma linked_inj: "linked b p is \<Longrightarrow> linked b p js \<Longrightarrow> is = js"
proof (induction "is" arbitrary: p js)
  case Nil
  then show ?case by (cases js) auto
next
  case (Cons i "is")
  then show ?case by (cases js) auto
qed

lemma length_chunk: "slot_ok (b ! i) \<Longrightarrow> int (length (chunk b i)) = t_length (b ! i)"
  by (auto simp: chunk_def slot_ok_def SLOT_def)

lemma chunk_update [simp]: "i \<noteq> j \<Longrightarrow> chunk (b[i := s]) j = chunk b j"
  by (simp add: chunk_def)

lemma contents_update: "i \<notin> set is \<Longrightarrow> concat (map (chunk (b[i := s])) is) = concat (map (chunk b) is)"
  by (induction "is") auto

section \<open>The operations\<close>

lemma rx_rep_init: "length b = NB_BUF \<Longrightarrow> (\<forall>s \<in> set b. length (t_mem s) = SLOT) \<Longrightarrow> rx_rep (rx_init b) []"
  by (simp add: rx_rep_def rx_init_def slot_ok_def)

lemma get_empty_from_Some: "get_empty_from j b = Some i \<Longrightarrow> j \<le> i \<and> i - j < length b \<and> t_length (b ! (i - j)) = 0"
  by (induction j b rule: get_empty_from.induct) (auto split: if_splits simp: Suc_diff_le)

lemma get_empty_from_None: "get_empty_from j b = None \<longleftrightarrow> (\<forall>s \<in> set b. t_length s \<noteq> 0)"
  by (induction j b rule: get_empty_from.induct) auto

lemma rx_tot:
  assumes "\<forall>i < length b. slot_ok (b ! i)"
  shows "linked b (Some p) (p # is) \<Longrightarrow> tot_lg b p i = Some (i + int (length (concat (map (chunk b) (p # is)))))"
proof (induction "is" arbitrary: p i)
  case Nil
  then show ?case using assms length_chunk [of b p] by (subst tot_lg.simps) simp
next
  case (Cons j js)
  then have "linked b (Some j) (j # js)" "t_next (b ! p) = Some j" "p < length b" by auto
  with Cons.IH [of j] length_chunk [of b p] assms show ?case by (subst tot_lg.simps) simp
qed

lemma rx_store_ok:
  assumes "rx_rep q is" "i < NB_BUF" "i \<notin> set is" "length pkt \<le> SLOT"
  shows "\<exists>q'. rx_store i pkt q = Inr q' \<and> rx_rep q' is \<and> contents q' is = contents q is \<and>
     take (length pkt) (t_mem (q_buf q' ! i)) = pkt \<and> (\<forall>j. t_length (q_buf q' ! j) = t_length (q_buf q ! j))"
proof -
  have l: "length (q_buf q) = NB_BUF" "length (t_mem (q_buf q ! i)) = SLOT" using assms by (auto simp: rx_rep_def slot_ok_def)
  have "t_length ((q_buf q)[i := (q_buf q ! i)\<lparr>t_mem := m\<rparr>] ! j) = t_length (q_buf q ! j)" for m j
    using l(1) assms(2) by (cases "i = j") auto
  moreover have "slot_ok ((q_buf q)[i := (q_buf q ! i)\<lparr>t_mem := pkt @ drop (length pkt) (t_mem (q_buf q ! i))\<rparr>] ! j)" if "j < NB_BUF" for j
    using assms that l by (cases "i = j") (auto simp: rx_rep_def slot_ok_def)
  ultimately show ?thesis using assms l by (auto simp: rx_store_def Let_def rx_rep_def linked_update contents_update nth_list_update)
qed

lemma rx_link_ok:
  assumes "rx_rep q is" "i < NB_BUF" "i \<notin> set is" "0 \<le> lg" "lg \<le> int TFTPBLOCK"
  shows "rx_rep (rx_link i lg q) (is @ [i])"
    "contents (rx_link i lg q) (is @ [i]) = contents q is @ take (nat lg) (drop 4 (t_mem (q_buf q ! i)))"
    "\<forall>j. j \<noteq> i \<longrightarrow> t_length (q_buf (rx_link i lg q) ! j) = t_length (q_buf q ! j)"
proof -
  have l: "length (q_buf q) = NB_BUF" "t_next (q_buf q ! i) = None" using assms by (auto simp: rx_rep_def)
  have ok: "slot_ok s \<Longrightarrow> slot_ok (s\<lparr>t_next := n\<rparr>)" "slot_ok s \<Longrightarrow> slot_ok (s\<lparr>t_length := lg\<rparr>)" for s n using assms(4,5) by (auto simp: slot_ok_def)
  consider (empty) "is = []" | (more) js k where "is = js @ [k]" by (metis rev_exhaust)
  then have "rx_rep (rx_link i lg q) (is @ [i]) \<and>
      contents (rx_link i lg q) (is @ [i]) = contents q is @ take (nat lg) (drop 4 (t_mem (q_buf q ! i))) \<and>
      (\<forall>j. j \<noteq> i \<longrightarrow> t_length (q_buf (rx_link i lg q) ! j) = t_length (q_buf q ! j))"
  proof cases
    case empty
    then have q: "q_last q = None" using assms(1) by (simp add: rx_rep_def)
    show ?thesis
    proof (intro conjI)
    show "rx_rep (rx_link i lg q) (is @ [i])"
      using empty assms l ok by (auto simp: rx_link_def q rx_rep_def nth_list_update)
    show "contents (rx_link i lg q) (is @ [i]) = contents q is @ take (nat lg) (drop 4 (t_mem (q_buf q ! i)))"
      using empty assms(2) l by (simp add: rx_link_def q chunk_def)
    show "\<forall>j. j \<noteq> i \<longrightarrow> t_length (q_buf (rx_link i lg q) ! j) = t_length (q_buf q ! j)"
      by (simp add: rx_link_def q)
    qed
  next
    case (more js k)
    have k: "q_last q = Some k" "k < NB_BUF" "k \<noteq> i" "k \<in> set is" using assms more by (auto simp: rx_rep_def dest: linked_bound)
    define b where "b = (q_buf q)[k := (q_buf q ! k)\<lparr>t_next := Some i\<rparr>]"
    have r: "rx_link i lg q = q\<lparr>q_buf := b[i := (b ! i)\<lparr>t_length := lg\<rparr>], q_last := Some i\<rparr>" by (simp add: rx_link_def k(1) b_def)
    have "linked (q_buf q) (q_first q) (js @ [k])" "distinct (js @ [k])" using assms(1) more by (simp_all add: rx_rep_def)
    then have "linked b (q_first q) (is @ [i])"
      using linked_snoc [of "q_buf q" "q_first q" js k i] assms(2,3) l more by (simp add: b_def)
    then have "linked (b[i := (b ! i)\<lparr>t_length := lg\<rparr>]) (q_first q) (is @ [i])" by (subst linked_same_next) simp_all
    moreover have "slot_ok (b[i := (b ! i)\<lparr>t_length := lg\<rparr>] ! j)" if "j < NB_BUF" for j
      using assms(1,2) that ok l(1) k(2) unfolding b_def by (cases "j = i"; cases "j = k") (auto simp: rx_rep_def)
    ultimately have rep: "rx_rep (rx_link i lg q) (is @ [i])"
      using assms l k unfolding r by (auto simp: rx_rep_def b_def nth_list_update)
    have "chunk b j = chunk (q_buf q) j" for j
      using l(1) k(2) by (cases "j = k") (simp_all add: b_def chunk_def)
    then have same: "chunk b = chunk (q_buf q)" by (rule ext)
    have "chunk (b[i := (b ! i)\<lparr>t_length := lg\<rparr>]) i = take (nat lg) (drop 4 (t_mem (q_buf q ! i)))"
      using assms(2) l(1) k(3) by (simp add: chunk_def b_def)
    then have con: "contents (rx_link i lg q) (is @ [i]) = contents q is @ take (nat lg) (drop 4 (t_mem (q_buf q ! i)))"
      using assms(3) unfolding r by (simp add: contents_update same)
    have "\<forall>j. j \<noteq> i \<longrightarrow> t_length (q_buf (rx_link i lg q) ! j) = t_length (q_buf q ! j)"
      using l(1) k(2) unfolding r by (simp add: b_def nth_list_update)
    with rep con show ?thesis by blast
  qed
  then show "rx_rep (rx_link i lg q) (is @ [i])"
    "contents (rx_link i lg q) (is @ [i]) = contents q is @ take (nat lg) (drop 4 (t_mem (q_buf q ! i)))"
    "\<forall>j. j \<noteq> i \<longrightarrow> t_length (q_buf (rx_link i lg q) ! j) = t_length (q_buf q ! j)" by blast+
qed

lemma gather_ok:
  "rx_rep q is \<Longrightarrow> n \<le> length (contents q is) \<Longrightarrow>
   \<exists>q' js. gather q (int n) acc = Some (Inr (q', acc @ take n (contents q is))) \<and> rx_rep q' js \<and>
     contents q' js = drop n (contents q is) \<and> (\<exists>ds. is = ds @ js) \<and>
     (\<forall>j \<in> set (tl js). t_length (q_buf q' ! j) = t_length (q_buf q ! j)) \<and>
     ((\<forall>j \<in> set is. 0 < t_length (q_buf q ! j)) \<longrightarrow> (\<forall>j \<in> set js. 0 < t_length (q_buf q' ! j)))"
proof (induction "is" arbitrary: q n acc)
  case Nil
  then show ?case by (subst gather.simps) (auto intro!: exI [of _ q])
next
  case (Cons i "is")
  show ?case
  proof (cases "n = 0")
    case True
    then have "gather q (int n) acc = Some (Inr (q, acc @ take n (contents q (i # is))))" by (subst gather.simps) simp
    with True Cons.prems(1) show ?thesis by (intro exI [of _ q] exI [of _ "i # is"]) simp
  next
    case False
    define b where "b = q_buf q"
    have f: "q_first q = Some i" "i < length b" "i < NB_BUF" "i \<notin> set is" and rep: "length b = NB_BUF" "slot_ok (b ! i)" "distinct is"
        "linked b (t_next (b ! i)) is"
      using Cons.prems(1) by (auto simp: rx_rep_def b_def)
    have len: "int (length (chunk b i)) = t_length (b ! i)" by (rule length_chunk [OF rep(2)])
    have c: "chunk b i = take (nat (t_length (b ! i))) (drop 4 (t_mem (b ! i)))" by (simp add: chunk_def)
    show ?thesis
    proof (cases "t_length (b ! i) \<le> int n")
      case True
      let ?q = "free_first i q" and ?n = "n - length (chunk b i)"
      have fq: "q_buf ?q = b[i := (b ! i)\<lparr>t_length := 0, t_next := None\<rparr>]" "q_first ?q = t_next (b ! i)"
          "q_last ?q = (if q_last q = Some i then None else q_last q)" by (simp_all add: free_first_def b_def Let_def)
      have same: "contents ?q is = concat (map (chunk b) is)" using f(4) by (simp add: fq contents_update)
      have last: "q_last ?q = (if is = [] then None else Some (last is))"
        using Cons.prems(1) f(4) by (cases "is = []") (auto simp: fq rx_rep_def dest: last_in_set)
      have others: "slot_ok (q_buf ?q ! j) \<and> (j \<notin> set is \<longrightarrow> t_length (q_buf ?q ! j) = 0 \<and> t_next (q_buf ?q ! j) = None)" if "j < NB_BUF" for j
        using Cons.prems(1) f(3) rep(1,2) that by (cases "j = i") (auto simp: fq rx_rep_def slot_ok_def b_def)
      have "linked (q_buf ?q) (q_first ?q) is" using rep(4) f(4) by (simp add: fq linked_update)
      then have r: "rx_rep ?q is" using last others rep(1,3) by (simp add: rx_rep_def fq(1))
      have n: "int n - t_length (b ! i) = int ?n" "?n \<le> length (contents ?q is)"
        using True len Cons.prems(2) by (auto simp: same b_def [symmetric])
      have "gather q (int n) acc = gather ?q (int n - t_length (b ! i)) (acc @ take (nat (t_length (b ! i))) (drop 4 (t_mem (b ! i))))"
        using False True f(1) rep(2) by (subst gather.simps) (simp add: b_def [symmetric] slot_ok_def Let_def)
      then have eq: "gather q (int n) acc = gather ?q (int ?n) (acc @ chunk b i)" unfolding n(1) c .
      have tk: "take n (contents q (i # is)) = chunk b i @ take ?n (contents ?q is)" "drop n (contents q (i # is)) = drop ?n (contents ?q is)"
        using True len by (simp_all add: same b_def [symmetric])
      obtain q' js where IH: "gather ?q (int ?n) (acc @ chunk b i) = Some (Inr (q', (acc @ chunk b i) @ take ?n (contents ?q is)))"
          "rx_rep q' js" "contents q' js = drop ?n (contents ?q is)" "\<exists>ds. is = ds @ js"
          "\<forall>j \<in> set (tl js). t_length (q_buf q' ! j) = t_length (q_buf ?q ! j)"
          "(\<forall>j \<in> set is. 0 < t_length (q_buf ?q ! j)) \<longrightarrow> (\<forall>j \<in> set js. 0 < t_length (q_buf q' ! j))"
        using Cons.IH [OF r n(2), of "acc @ chunk b i"] by blast
      have keep: "t_length (q_buf ?q ! j) = t_length (q_buf q ! j)" if "j \<in> set is" for j using that f(4) by (cases "i = j") (auto simp: fq b_def)
      have "set (tl js) \<subseteq> set is" using IH(4) by (cases js) auto
      with IH keep eq tk show ?thesis by (intro exI [of _ q'] exI [of _ js]) auto
    next
      case False
      let ?q = "cut_first i n q"
      have n: "n < length (chunk b i)" using False len by simp
      have fq: "q_buf ?q = b[i := (b ! i)\<lparr>t_mem := take 4 (t_mem (b ! i)) @ take (nat (t_length (b ! i)) - n) (drop n (drop 4 (t_mem (b ! i)))) @
            drop (nat (t_length (b ! i)) - n) (drop 4 (t_mem (b ! i))), t_length := t_length (b ! i) - int n\<rparr>]"
          "q_first ?q = q_first q" "q_last ?q = q_last q" by (simp_all add: cut_first_def b_def Let_def)
      have lk: "linked (q_buf ?q) (q_first q) (i # is)" using Cons.prems(1) by (simp add: fq linked_same_next rx_rep_def b_def)
      have others: "slot_ok (q_buf ?q ! j) \<and> (j \<notin> set (i # is) \<longrightarrow> t_length (q_buf ?q ! j) = 0 \<and> t_next (q_buf ?q ! j) = None)" if "j < NB_BUF" for j
        using Cons.prems(1) f(2,3) rep(1,2) that False by (cases "j = i") (auto simp: fq rx_rep_def slot_ok_def b_def SLOT_def)
      have r: "rx_rep ?q (i # is)" using lk others Cons.prems(1) rep(1,3) f(4) by (simp add: rx_rep_def fq)
      have ch: "chunk (q_buf ?q) i = drop n (chunk b i)"
        using f(2) rep(2) False by (simp add: fq(1) chunk_def slot_ok_def SLOT_def drop_take nat_diff_distrib) arith
      have con: "contents ?q (i # is) = drop n (contents q (i # is))"
        using n ch f(4) by (simp add: fq(1) contents_update b_def [symmetric])
      have "take n (drop 4 (t_mem (b ! i))) = take n (chunk b i)" using False c by (simp add: min.absorb1)
      then have eq: "gather q (int n) acc = Some (Inr (?q, acc @ take n (contents q (i # is))))"
        using \<open>n \<noteq> 0\<close> False f(1) n by (subst gather.simps) (simp add: b_def [symmetric] Let_def)
      have "t_length (q_buf ?q ! j) = t_length (q_buf q ! j)" if "j \<in> set is" for j using that f(4) by (cases "i = j") (auto simp: fq(1) b_def)
      moreover have "0 < t_length (q_buf ?q ! i)" using False f(2) by (simp add: fq(1))
      ultimately show ?thesis using r con eq by (intro exI [of _ ?q] exI [of _ "i # is"]) auto
    qed
  qed
qed

section \<open>A queue of bytes\<close>

text \<open>The slots in use, following at most \<open>NB_BUF\<close> pointers.\<close>

fun walk :: "nat \<Rightarrow> tftpbuffer list \<Rightarrow> nat option \<Rightarrow> nat list" where
  "walk (Suc n) b (Some i) = i # walk n b (t_next (b ! i))"
| "walk n b p = []"

definition rx_bytes :: "rxq \<Rightarrow> string" where
  "rx_bytes q = contents q (walk NB_BUF (q_buf q) (q_first q))"

definition rx_ok :: "rxq \<Rightarrow> bool" where
  "rx_ok q \<longleftrightarrow> rx_rep q (walk NB_BUF (q_buf q) (q_first q))"

text \<open>While packets come in, no slot in use is empty and all but the first are full.\<close>

definition rx_open :: "rxq \<Rightarrow> bool" where
  "rx_open q \<longleftrightarrow>
     (let is = walk NB_BUF (q_buf q) (q_first q)
      in (\<forall>i \<in> set is. 0 < t_length (q_buf q ! i)) \<and> (\<forall>i \<in> set (tl is). t_length (q_buf q ! i) = int TFTPBLOCK))"

lemma walk_linked: "linked b p is \<Longrightarrow> length is \<le> n \<Longrightarrow> walk n b p = is"
proof (induction "is" arbitrary: p n)
  case (Cons i "is")
  then show ?case by (cases n) auto
qed (cases n, auto)

lemma rx_rep_length: "rx_rep q is \<Longrightarrow> length is \<le> NB_BUF"
proof -
  assume r: "rx_rep q is"
  then have "set is \<subseteq> {..<NB_BUF}" "distinct is" by (auto simp: rx_rep_def dest: linked_bound)
  then show ?thesis using card_mono [of "{..<NB_BUF}" "set is"] by (simp add: distinct_card)
qed

lemma rx_rep_walk: "rx_rep q is \<Longrightarrow> walk NB_BUF (q_buf q) (q_first q) = is"
  using rx_rep_length [of q "is"] walk_linked [of "q_buf q" "q_first q" "is" NB_BUF] by (simp add: rx_rep_def)

lemma rx_repI: "rx_rep q is \<Longrightarrow> rx_ok q \<and> rx_bytes q = contents q is \<and>
     (rx_open q \<longleftrightarrow> (\<forall>i \<in> set is. 0 < t_length (q_buf q ! i)) \<and> (\<forall>i \<in> set (tl is). t_length (q_buf q ! i) = int TFTPBLOCK))"
  using rx_rep_walk [of q "is"] by (simp add: rx_ok_def rx_bytes_def rx_open_def Let_def)

text \<open>What \<open>new_get\<close> asks of its buffers: the number of bytes, a part from the front, a new packet at the end.\<close>

definition rx_total :: "rxq \<Rightarrow> int option" where
  "rx_total q = (case q_first q of None \<Rightarrow> Some 0 | Some f \<Rightarrow> tot_lg (q_buf q) f 0)"

definition rx_add :: "nat \<Rightarrow> string \<Rightarrow> rxq \<Rightarrow> rxq res" where
  "rx_add i pkt q =
     bind_res (rx_store i pkt q) (\<lambda>q.
       Inr (rx_link i (if int (length pkt) - 4 < int TFTPBLOCK then int (length pkt) - 4 else int TFTPBLOCK) q))"

locale byte_queue =
  fixes ok :: "'q \<Rightarrow> bool" and open_q :: "'q \<Rightarrow> bool" and bytes :: "'q \<Rightarrow> string" and free :: "'q \<Rightarrow> nat option"
    and total :: "'q \<Rightarrow> int option" and store :: "nat \<Rightarrow> string \<Rightarrow> 'q \<Rightarrow> 'q res" and add :: "nat \<Rightarrow> string \<Rightarrow> 'q \<Rightarrow> 'q res"
    and get :: "'q \<Rightarrow> int \<Rightarrow> string \<Rightarrow> ('q \<times> string) run"
  assumes total_bytes: "ok q \<Longrightarrow> total q = Some (int (length (bytes q)))"
    and get_bytes: "ok q \<Longrightarrow> n \<le> length (bytes q) \<Longrightarrow>
      \<exists>q'. get q (int n) acc = Some (Inr (q', acc @ take n (bytes q))) \<and> ok q' \<and> bytes q' = drop n (bytes q) \<and> (open_q q \<longrightarrow> open_q q')"
    and store_bytes: "ok q \<Longrightarrow> open_q q \<Longrightarrow> free q = Some i \<Longrightarrow> length pkt \<le> SLOT \<Longrightarrow>
      \<exists>q'. store i pkt q = Inr q' \<and> ok q' \<and> open_q q' \<and> bytes q' = bytes q"
    and add_bytes: "ok q \<Longrightarrow> open_q q \<Longrightarrow> free q = Some i \<Longrightarrow> 4 \<le> length pkt \<Longrightarrow> length pkt \<le> SLOT \<Longrightarrow>
      \<exists>q'. add i pkt q = Inr q' \<and> ok q' \<and> bytes q' = bytes q @ take TFTPBLOCK (drop 4 pkt) \<and> (TFTPBLOCK \<le> length pkt - 4 \<longrightarrow> open_q q')"
    and free_exists: "ok q \<Longrightarrow> open_q q \<Longrightarrow> length (bytes q) \<le> (NB_BUF - 1) * TFTPBLOCK \<Longrightarrow> \<exists>i. free q = Some i"
    and empty_free: "ok q \<Longrightarrow> bytes q = [] \<Longrightarrow> \<exists>i. free q = Some i"

lemma rx_free_slot: "rx_rep q is \<Longrightarrow> rx_open q \<Longrightarrow> get_empty q = Some i \<Longrightarrow> i < NB_BUF \<and> i \<notin> set is"
proof -
  assume r: "rx_rep q is" and o: "rx_open q" and g: "get_empty q = Some i"
  have "i < NB_BUF" "t_length (q_buf q ! i) = 0" using get_empty_from_Some [of 0 "q_buf q" i] g r by (auto simp: get_empty_def rx_rep_def)
  then show ?thesis using rx_repI [OF r] o by force
qed

lemma rx_full_bytes:
  assumes "rx_rep q is" "rx_open q" "get_empty q = None"
  shows "(NB_BUF - 1) * TFTPBLOCK < length (rx_bytes q)"
proof -
  have nz: "\<forall>i < NB_BUF. t_length (q_buf q ! i) \<noteq> 0" using assms(1,3) by (auto simp: get_empty_def get_empty_from_None rx_rep_def)
  have s: "set is = {..<NB_BUF}" using assms(1) nz by (auto simp: rx_rep_def dest: linked_bound)
  then have "length is = NB_BUF" using assms(1) distinct_card [of "is"] by (simp add: rx_rep_def)
  then obtain i js where i: "is = i # js" "length js = NB_BUF - 1" by (cases "is") (auto simp: NB_BUF_def)
  have ok: "\<forall>j \<in> set is. slot_ok (q_buf q ! j)" using assms(1) s by (auto simp: rx_rep_def)
  have o: "0 < t_length (q_buf q ! i)" "\<forall>j \<in> set js. t_length (q_buf q ! j) = int TFTPBLOCK"
    using rx_repI [OF assms(1)] assms(2) i(1) by auto
  have "\<forall>j \<in> set js. length (chunk (q_buf q) j) = TFTPBLOCK"
    using o(2) ok i(1) length_chunk [of "q_buf q"] by (metis list.set_intros(2) of_nat_eq_iff)
  then have "map (length \<circ> chunk (q_buf q)) js = replicate (length js) TFTPBLOCK" by (simp add: map_replicate_const [symmetric])
  then have "length (concat (map (chunk (q_buf q)) js)) = (NB_BUF - 1) * TFTPBLOCK"
    using i(2) by (simp add: length_concat sum_list_replicate)
  moreover have "0 < int (length (chunk (q_buf q) i))" using o(1) ok i(1) length_chunk [of "q_buf q" i] by (metis list.set_intros(1))
  ultimately show ?thesis using rx_repI [OF assms(1)] i(1) by simp
qed

interpretation rx: byte_queue rx_ok rx_open rx_bytes get_empty rx_total rx_store rx_add gather
proof
  fix q n acc i and pkt :: string
  assume ok: "rx_ok q"
  define ns where "ns = walk NB_BUF (q_buf q) (q_first q)"
  have r: "rx_rep q ns" using ok by (simp add: rx_ok_def ns_def)
  note q = rx_repI [OF r]
  show "rx_total q = Some (int (length (rx_bytes q)))"
  proof (cases ns)
    case Nil
    then show ?thesis using r q by (simp add: rx_total_def rx_rep_def)
  next
    case (Cons f fs)
    then have "linked (q_buf q) (Some f) (f # fs)" "q_first q = Some f" "\<forall>i < length (q_buf q). slot_ok (q_buf q ! i)" using r by (auto simp: rx_rep_def)
    with rx_tot [of "q_buf q" f fs 0] q Cons show ?thesis by (simp add: rx_total_def)
  qed
  show "\<exists>q'. gather q (int n) acc = Some (Inr (q', acc @ take n (rx_bytes q))) \<and> rx_ok q' \<and> rx_bytes q' = drop n (rx_bytes q) \<and> (rx_open q \<longrightarrow> rx_open q')"
    if n: "n \<le> length (rx_bytes q)"
  proof -
    obtain q' js where g: "gather q (int n) acc = Some (Inr (q', acc @ take n (contents q ns)))" "rx_rep q' js" "contents q' js = drop n (contents q ns)"
        "\<exists>ds. ns = ds @ js" "\<forall>j \<in> set (tl js). t_length (q_buf q' ! j) = t_length (q_buf q ! j)"
        "(\<forall>j \<in> set ns. 0 < t_length (q_buf q ! j)) \<longrightarrow> (\<forall>j \<in> set js. 0 < t_length (q_buf q' ! j))"
      using gather_ok [OF r, of n acc] n q by auto
    have "set (tl js) \<subseteq> set (tl ns)" using g(4) by (cases js; cases ns) (auto simp: Cons_eq_append_conv)
    then show ?thesis using g(1-3,5,6) q rx_repI [OF g(2)] by auto
  qed
  show "\<exists>i. get_empty q = Some i" if e: "rx_bytes q = []"
  proof -
    have z: "0 < NB_BUF" "slot_ok (q_buf q ! 0)" using r by (auto simp: rx_rep_def NB_BUF_def)
    have "t_length (q_buf q ! 0) = 0"
    proof (cases "0 \<in> set ns")
      case True
      then have "chunk (q_buf q) 0 = []" using e q by simp
      with length_chunk [OF z(2)] show ?thesis by simp
    qed (use r z(1) in \<open>auto simp: rx_rep_def\<close>)
    then show ?thesis using r z(1) get_empty_from_None [of 0 "q_buf q"] by (cases "get_empty q") (auto simp: get_empty_def rx_rep_def)
  qed
  assume o: "rx_open q"
  show "\<exists>i. get_empty q = Some i" if "length (rx_bytes q) \<le> (NB_BUF - 1) * TFTPBLOCK"
    using rx_full_bytes [OF r o] that by (cases "get_empty q") auto
  assume f: "get_empty q = Some i" and l: "length pkt \<le> SLOT"
  have i: "i < NB_BUF" "i \<notin> set ns" using rx_free_slot [OF r o f] by auto
  obtain q' where s: "rx_store i pkt q = Inr q'" "rx_rep q' ns" "contents q' ns = contents q ns" "take (length pkt) (t_mem (q_buf q' ! i)) = pkt"
      "\<forall>j. t_length (q_buf q' ! j) = t_length (q_buf q ! j)" using rx_store_ok [OF r i l] by blast
  show "\<exists>q'. rx_store i pkt q = Inr q' \<and> rx_ok q' \<and> rx_open q' \<and> rx_bytes q' = rx_bytes q"
    using s o q rx_repI [OF s(2)] by simp
  assume four: "4 \<le> length pkt"
  define lg where "lg = (if int (length pkt) - 4 < int TFTPBLOCK then int (length pkt) - 4 else int TFTPBLOCK)"
  have lg: "0 \<le> lg" "lg \<le> int TFTPBLOCK" using four by (auto simp: lg_def)
  note k = rx_link_ok [OF s(2) i lg]
  have nlg: "nat lg = min TFTPBLOCK (length pkt - 4)" using four by (auto simp: lg_def)
  have "take (nat lg) (drop 4 (t_mem (q_buf q' ! i))) = take TFTPBLOCK (drop 4 pkt)"
    unfolding nlg by (subst (2) s(4) [symmetric]) (simp add: drop_take min.commute)
  then have "rx_bytes (rx_link i lg q') = rx_bytes q @ take TFTPBLOCK (drop 4 pkt)"
    using k(2) s(3) q rx_repI [OF k(1)] by simp
  moreover have "rx_open (rx_link i lg q')" if "TFTPBLOCK \<le> length pkt - 4"
  proof -
    have "lg = int TFTPBLOCK" using that four by (auto simp: lg_def of_nat_diff)
    then have "t_length (q_buf (rx_link i lg q') ! i) = int TFTPBLOCK"
      using i(1) s(2) by (auto simp: rx_link_def rx_rep_def Let_def split: option.splits)
    moreover have "t_length (q_buf (rx_link i lg q') ! j) = t_length (q_buf q ! j)" if "j \<in> set ns" for j
      using that i(2) k(3) s(5) by metis
    ultimately show ?thesis using rx_repI [OF k(1)] o q by (cases ns) (auto simp: TFTPBLOCK_def)
  qed
  ultimately show "\<exists>q'. rx_add i pkt q = Inr q' \<and> rx_ok q' \<and> rx_bytes q' = rx_bytes q @ take TFTPBLOCK (drop 4 pkt) \<and>
      (TFTPBLOCK \<le> length pkt - 4 \<longrightarrow> rx_open q')"
    using s(1) rx_repI [OF k(1)] by (simp add: rx_add_def lg_def [symmetric])
qed

lemma rx_init_ok:
  assumes "length b = NB_BUF" "\<forall>s \<in> set b. length (t_mem s) = SLOT"
  shows "rx_ok (rx_init b)" "rx_open (rx_init b)" "rx_bytes (rx_init b) = []"
  using rx_repI [OF rx_rep_init [OF assms]] by auto

end
