(* ===== verification/Boot_Get.thy ===== *)
theory Boot_Get
  imports Boot_Disk Boot_Header Rx_Queue
begin

text \<open>
  \<open>new_get\<close> of \<^verbatim>\<open>client/src_revoboot/builtins_lbs.c\<close>: the boot loader fetches a file of an image with TFTP,
  inflates it and writes it to the disk, all in one loop that never waits. One turn of the loop does
  one piece of work (a buffer to the disk, a call of \<open>inflate\<close>, a part of the received packets to the input
  of \<open>inflate\<close>), looks at the clock and, when a slot is free, for a packet. Whenever something is wrong the
  whole file is fetched again.

  What comes from outside is a sequence of inputs, one for each turn: whether the clock has moved on and
  what \<open>udp_get\<close> gives. The display of the progress is left out.
\<close>

section \<open>State\<close>

definition INBUFF :: nat where "INBUFF = 8192"
definition TFTPSTARTPORT :: u32 where "TFTPSTARTPORT = 8192"

record 'i gstate =
  g_z :: 'i
  g_flush :: flush
  g_in :: string
  g_out :: string
  g_fill :: nat
  g_full :: bool
  g_size :: nat
  g_compressed :: string
  g_cfull :: bool
  g_rx :: rxq
  g_first :: bool
  g_alloc :: string
  g_cp :: bparams
  g_save :: u32
  g_vars :: boot_vars
  g_tftpend :: bool
  g_end :: nat
  g_lastblk :: int
  g_to :: u32
  g_timeout :: nat
  g_port :: u32

record ('z, 'i) boot_env =
  e_zlib :: "('z, 'i) zlib"
  e_bios :: bios_calls
  e_geom :: geometry
  e_nic :: macaddr

record turn_input =
  i_tick :: bool
  i_udp :: "(string \<times> u32) option"

text \<open>\<open>Return\<close> is a return from \<open>new_get\<close>, \<open>Restart\<close> a jump to its start.\<close>

datatype 'i outcome = Next "'i gstate" | Restart "'i gstate" | Return int "'i gstate"

section \<open>Packets to the server\<close>

definition sendACK :: "nat \<Rightarrow> u32 \<Rightarrow> u32 \<Rightarrow> datagram" where
  "sendACK block from port = udp_send [NUL, CHR 0x04, char_of (block div 256), char_of (block mod 256)] from port"

definition sendERR :: "string \<Rightarrow> u32 \<Rightarrow> u32 \<Rightarrow> datagram" where
  "sendERR str from port = udp_send ([NUL, CHR 0x05, NUL, char_of (123 :: nat)] @ str @ [NUL]) from port"

definition send :: "datagram \<Rightarrow> 'i gstate \<Rightarrow> 'i gstate" where
  "send d st = st\<lparr>g_cp := (g_cp st)\<lparr>b_sent := b_sent (g_cp st) @ [d]\<rparr>\<rparr>"

definition restart_err :: "string \<Rightarrow> 'i gstate \<Rightarrow> 'i outcome" where
  "restart_err str st = Restart (send (sendERR str (g_port st) (g_to st)) st)"

text \<open>The read request; the buffer for it has 2100 bytes.\<close>

definition read_request :: "string \<Rightarrow> string" where
  "read_request file =
     [NUL, CHR 0x01] @ file @ [NUL] @ ''octet'' @ [NUL] @ ''tsize'' @ [NUL] @ ''0'' @ [NUL] @ ''blksize'' @ [NUL] @ ''1456'' @ [NUL]"

text \<open>From \<open>restart:\<close> to the loop.\<close>

definition start_get :: "('z, 'i) boot_env \<Rightarrow> string \<Rightarrow> u32 \<Rightarrow> 'i gstate \<Rightarrow> 'i gstate res" where
  "start_get env file sect st =
     (let port = (if TFTPSTARTPORT + 127 < g_port st + 1 then TFTPSTARTPORT else g_port st + 1)
      in if 2100 < length (read_request file) then Inl BufOverflow
         else Inr (send (udp_send (read_request file) port 69)
           (st\<lparr>g_z := inflateInit (e_zlib env), g_flush := Z_SYNC_FLUSH, g_in := [], g_fill := 0, g_full := False,
               g_cfull := False, g_rx := rx_init (q_buf (g_rx st)), g_first := True, g_cp := (g_cp st)\<lparr>b_sect := sect\<rparr>,
               g_save := sect, g_tftpend := False, g_end := 0, g_lastblk := - 1, g_to := 69, g_timeout := 0, g_port := port\<rparr>)))"

section \<open>One piece of work\<close>

text \<open>A full buffer: the first one is the header, the others go to the disk.\<close>

definition flush_step :: "('z, 'i) boot_env \<Rightarrow> 'i gstate \<Rightarrow> 'i gstate res" where
  "flush_step env st =
     bind_res
       (if g_first st
        then bind_res (read_header (g_out st) (g_save st) (g_vars st)) (\<lambda>(save, v).
               Inr (st\<lparr>g_alloc := drop 2048 (g_out st), g_first := False, g_cp := (g_cp st)\<lparr>b_ptr := 0, b_mask := 1\<rparr>,
                       g_save := save, g_vars := v\<rparr>))
        else bind_res (boot_flush (e_bios env) (e_geom env) (e_nic env) (g_out st) (g_alloc st) (g_size st div 512) 0 (g_cp st)) (\<lambda>cp.
               Inr (st\<lparr>g_cp := cp\<rparr>)))
       (\<lambda>st. Inr (st\<lparr>g_fill := 0, g_full := False, g_end := (if g_end st = 1 then 2 else g_end st)\<rparr>))"

definition load_input :: "'i gstate \<Rightarrow> 'i gstate" where
  "load_input st = (if g_end st = 0 \<and> g_cfull st \<and> g_in st = [] then st\<lparr>g_in := g_compressed st\<rparr> else st)"

text \<open>A call of \<open>inflate\<close>; the second result asks for a restart.\<close>

definition Z_BUF_ERROR :: zret where "Z_BUF_ERROR = Z_ERROR (- 5)"

definition inflate_step :: "('z, 'i) boot_env \<Rightarrow> 'i gstate \<Rightarrow> 'i gstate \<times> bool" where
  "inflate_step env st =
     (case zinflate (e_zlib env) (g_z st) (g_in st) (BUFSIZE - g_fill st) (g_flush st) of
        (z, k, out, ret) \<Rightarrow>
          let st = st\<lparr>g_z := z, g_in := drop k (g_in st), g_fill := g_fill st + length out,
                      g_out := take (g_fill st) (g_out st) @ out @ drop (g_fill st + length out) (g_out st)\<rparr>;
              ret = (if ret = Z_BUF_ERROR \<and> g_fill st = BUFSIZE then Z_OK else ret)
          in if ret = Z_STREAM_END then (st\<lparr>g_flush := Z_FINISH, g_end := 1, g_full := True, g_size := g_fill st\<rparr>, False)
             else if ret \<noteq> Z_OK then (st, True)
             else let st = (if g_in st = [] then st\<lparr>g_cfull := False\<rparr> else st)
                  in (if g_fill st = BUFSIZE then st\<lparr>g_full := True, g_size := g_fill st\<rparr> else st, False))"

text \<open>The next part of what was received becomes the input of \<open>inflate\<close>.\<close>

definition gather_step :: "'i gstate \<Rightarrow> 'i gstate run" where
  "gather_step st =
     (case rx_total (g_rx st) of
        None \<Rightarrow> None
      | Some t \<Rightarrow>
          if int INBUFF \<le> t \<or> g_tftpend st \<and> 0 < t
          then if g_cfull st then ret_run st
               else bind_run (gather (g_rx st) (min (int INBUFF) (if g_tftpend st then t else int INBUFF)) []) (\<lambda>(q, data).
                      ret_run (st\<lparr>g_rx := q, g_compressed := data, g_cfull := True\<rparr>))
          else ret_run st)"

definition work :: "('z, 'i) boot_env \<Rightarrow> 'i gstate \<Rightarrow> ('i gstate \<times> bool) run" where
  "work env st =
     (if g_full st then bind_run (Some (flush_step env st)) (\<lambda>st. ret_run (st, False))
      else let st = load_input st
           in if g_fill st < BUFSIZE \<and> g_in st \<noteq> [] then ret_run (inflate_step env st)
              else bind_run (gather_step st) (\<lambda>st. ret_run (st, False)))"

section \<open>A packet\<close>

definition handle_packet :: "nat \<Rightarrow> string \<Rightarrow> u32 \<Rightarrow> 'i gstate \<Rightarrow> 'i outcome res" where
  "handle_packet i pkt src st =
     bind_res (rx_store i pkt (g_rx st)) (\<lambda>q.
       let st = st\<lparr>g_rx := q, g_timeout := 0\<rparr>;
           buffer = t_mem (q_buf q ! i);
           op = byte_at buffer 1 + 256 * byte_at buffer 0;
           block = byte_at buffer 3 + 256 * byte_at buffer 2
       in Inr (if op = 6
               then if g_lastblk st \<noteq> - 1 then restart_err ''Got unexpected OACK'' st
                    else Next (send (sendACK 0 (g_port st) src) (st\<lparr>g_lastblk := 0, g_to := src\<rparr>))
               else if op = 3
               then if int block = g_lastblk st then Restart st
                    else if int block \<noteq> g_lastblk st + 1 then restart_err ''Got wrong packet number'' st
                    else Next (send (sendACK block (g_port st) (g_to st))
                           (st\<lparr>g_lastblk := int block, g_tftpend := (if int (length pkt) - 4 < int TFTPBLOCK then True else g_tftpend st),
                               g_rx := rx_link i (if int (length pkt) - 4 < int TFTPBLOCK then int (length pkt) - 4 else int TFTPBLOCK) (g_rx st)\<rparr>))
               else if byte_at buffer 1 = 5 then Return 1 st
               else restart_err ''Error TFTP'' st))"

section \<open>The loop\<close>

definition end_of_turn :: "'i outcome \<Rightarrow> 'i outcome" where
  "end_of_turn r = (case r of Next st \<Rightarrow> if g_end st = 2 then Return 0 st else Next st | _ \<Rightarrow> r)"

text \<open>The clock, and a packet if the buffer is not full and a slot is free.\<close>

definition poll :: "turn_input \<Rightarrow> 'i gstate \<Rightarrow> 'i outcome run" where
  "poll inp st =
     (if i_tick inp \<and> 10 < g_timeout st then ret_run (restart_err ''Error Timeout'' st)
      else if g_full st then ret_run (Next st)
      else case get_empty (g_rx st) of
             None \<Rightarrow> ret_run (Next st)
           | Some i \<Rightarrow>
               if g_tftpend st then ret_run (end_of_turn (Next st))
               else case i_udp inp of
                      None \<Rightarrow> ret_run (Next st)
                    | Some (pkt, src) \<Rightarrow>
                        bind_run (Some (handle_packet i pkt src st)) (\<lambda>r. ret_run (end_of_turn r)))"

definition turn :: "('z, 'i) boot_env \<Rightarrow> turn_input \<Rightarrow> 'i gstate \<Rightarrow> 'i outcome run" where
  "turn env inp st =
     bind_run (work env st) (\<lambda>(st, bad).
       if bad then ret_run (restart_err ''Error ZLIB'' st)
       else poll inp (if i_tick inp then st\<lparr>g_timeout := g_timeout st + 1\<rparr> else st))"

text \<open>The result and the inputs that are left; \<open>Next\<close> when the inputs are used up and the loop still runs.\<close>

fun get_turns :: "('z, 'i) boot_env \<Rightarrow> string \<Rightarrow> u32 \<Rightarrow> turn_input list \<Rightarrow> 'i gstate \<Rightarrow> ('i outcome \<times> turn_input list) run" where
  "get_turns env file sect [] st = ret_run (Next st, [])"
| "get_turns env file sect (inp # inps) st =
     bind_run (turn env inp st) (\<lambda>r.
       case r of
         Next st \<Rightarrow> get_turns env file sect inps st
       | Restart st \<Rightarrow> bind_run (Some (start_get env file sect st)) (\<lambda>st. get_turns env file sect inps st)
       | Return i st \<Rightarrow> ret_run (Return i st, inps))"

definition new_get :: "('z, 'i) boot_env \<Rightarrow> string \<Rightarrow> u32 \<Rightarrow> turn_input list \<Rightarrow> 'i gstate \<Rightarrow> ('i outcome \<times> turn_input list) run" where
  "new_get env file sect inps st =
     bind_run (Some (start_get env file sect st)) (\<lambda>st. get_turns env file sect inps st)"

end
