(* ===== verification/Boot_Safe.thy ===== *)
theory Boot_Safe
  imports Boot_Get
begin

text \<open>
  What \<open>new_get\<close> does with any sequence of inputs in which the data packets carry the blocks of one file of
  an image: whatever else arrives, is lost, is repeated or comes too late, the loop has no fault, never
  writes outside the used sectors, and when it returns 0 all of them are on the disk.
\<close>

section \<open>A transfer\<close>

text \<open>
  The end of the stream is reported with its last byte, neither before nor after. This is what the loop
  needs of \<open>inflate\<close> beside \<open>inflate_ok\<close>: it never calls it without input.
\<close>

definition inflate_exact :: "('z, 'i) zlib \<Rightarrow> string \<Rightarrow> bool" where
  "inflate_exact zl enc \<longleftrightarrow> (\<forall>z c p fin w. inflate_run zl z c p fin \<longrightarrow> c @ w = enc \<longrightarrow> (fin \<longleftrightarrow> w = []))"

text \<open>
  The environment, the file, the header and the sectors it decodes to, the first sector on the disk, the
  size of the bitmap and the number of files before and after the header was read.
\<close>

record ('z, 'i) transfer =
  tr_env :: "('z, 'i) boot_env"
  tr_file :: string
  tr_head :: string
  tr_data :: string
  tr_sect :: u32
  tr_lg :: nat
  tr_old :: int
  tr_files :: int

abbreviation tr_bits :: "('z, 'i) transfer \<Rightarrow> bool list" where
  "tr_bits T \<equiv> header_bits (tr_head T)"

definition transfer_ok :: "('z, 'i) transfer \<Rightarrow> bool" where
  "transfer_ok T \<longleftrightarrow>
     inflate_ok (e_zlib (tr_env T)) (tr_file T) (tr_head T @ tr_data T) \<and> inflate_exact (e_zlib (tr_env T)) (tr_file T) \<and>
     bios_ok (e_bios (tr_env T)) (e_geom (tr_env T)) \<and> length (tr_head T) = BUFSIZE \<and>
     length (tr_data T) = 512 * used_count (tr_bits T) \<and>
     unat (tr_sect T) + bits_upto (used_count (tr_bits T)) (tr_bits T) \<le> unat (total_sectors (e_geom (tr_env T))) \<and>
     (\<forall>save v. v_files v = tr_old T \<or> v_files v = tr_files T \<longrightarrow>
        (\<exists>v'. read_header (tr_head T) save v = Inr (save + of_nat (8 * tr_lg T), v') \<and> v_files v' = tr_files T))"

lemma transfer_okD:
  assumes "transfer_ok T"
  shows "inflate_ok (e_zlib (tr_env T)) (tr_file T) (tr_head T @ tr_data T)" "inflate_exact (e_zlib (tr_env T)) (tr_file T)"
    "bios_ok (e_bios (tr_env T)) (e_geom (tr_env T))" "length (tr_head T) = BUFSIZE" "length (tr_data T) = 512 * used_count (tr_bits T)"
    "unat (tr_sect T) + bits_upto (used_count (tr_bits T)) (tr_bits T) \<le> unat (total_sectors (e_geom (tr_env T)))"
    "\<And>save v. v_files v = tr_old T \<or> v_files v = tr_files T \<Longrightarrow>
       \<exists>v'. read_header (tr_head T) save v = Inr (save + of_nat (8 * tr_lg T), v') \<and> v_files v' = tr_files T"
  using assms unfolding transfer_ok_def by blast+

section \<open>The invariant\<close>

text \<open>The disk after the first \<open>a\<close> used sectors, starting from the disk \<open>d\<close>.\<close>

definition disk_start :: "('z, 'i) transfer \<Rightarrow> string \<Rightarrow> datagram list \<Rightarrow> bparams" where
  "disk_start T d x = \<lparr>b_sect = tr_sect T, b_ptr = 0, b_mask = 1, b_disk = d, b_sent = x\<rparr>"

definition disk_after :: "('z, 'i) transfer \<Rightarrow> string \<Rightarrow> nat \<Rightarrow> bparams \<Rightarrow> bool" where
  "disk_after T d a cp \<longleftrightarrow>
     (\<exists>x. cp = run_boot (take (bits_upto a (tr_bits T)) (tr_bits T)) (tr_data T) (disk_start T d x))"

definition out_inv :: "('z, 'i) transfer \<Rightarrow> string \<Rightarrow> string \<Rightarrow> 'i gstate \<Rightarrow> bool" where
  "out_inv T d p st \<longleftrightarrow>
     (if g_first st
      then p = take (g_fill st) (g_out st) \<and> b_sect (g_cp st) = tr_sect T \<and> b_disk (g_cp st) = d \<and> g_save st = tr_sect T \<and>
        (v_files (g_vars st) = tr_old T \<or> v_files (g_vars st) = tr_files T)
      else g_alloc st = drop 2048 (tr_head T) \<and> g_save st = tr_sect T + of_nat (8 * tr_lg T) \<and> v_files (g_vars st) = tr_files T \<and>
        (\<exists>m. BUFSIZE * m \<le> length (tr_data T) \<and> p = tr_head T @ take (BUFSIZE * m) (tr_data T) @ take (g_fill st) (g_out st) \<and>
           disk_after T d (47 * m) (g_cp st)))"

definition done_inv :: "('z, 'i) transfer \<Rightarrow> string \<Rightarrow> 'i gstate \<Rightarrow> bool" where
  "done_inv T d st \<longleftrightarrow> \<not> g_first st \<and> g_save st = tr_sect T + of_nat (8 * tr_lg T) \<and> v_files (g_vars st) = tr_files T \<and>
     disk_after T d (used_count (tr_bits T)) (g_cp st)"

definition pending :: "'i gstate \<Rightarrow> string" where
  "pending st = (if g_end st \<noteq> 0 then [] else if g_in st \<noteq> [] then g_in st else if g_cfull st then g_compressed st else [])"

definition rx_inv :: "('z, 'i) transfer \<Rightarrow> 'i gstate \<Rightarrow> bool" where
  "rx_inv T st \<longleftrightarrow> - 1 \<le> g_lastblk st \<and> rx_ok (g_rx st) \<and>
     TFTPBLOCK * (nat (g_lastblk st) - 1) \<le> length (tr_file T) \<and>
     (if g_tftpend st then length (tr_file T) < TFTPBLOCK * nat (g_lastblk st)
      else rx_open (g_rx st) \<and> TFTPBLOCK * nat (g_lastblk st) \<le> length (tr_file T))"

definition in_inv :: "('z, 'i) transfer \<Rightarrow> string \<Rightarrow> 'i gstate \<Rightarrow> bool" where
  "in_inv T c st \<longleftrightarrow>
     c @ pending st @ rx_bytes (g_rx st) = take (TFTPBLOCK * nat (g_lastblk st)) (tr_file T) \<and>
     (if g_end st = 0 then g_flush st = Z_SYNC_FLUSH \<and> (if g_cfull st then pending st \<noteq> [] else g_in st = [])
      else g_cfull st \<and> g_in st = [] \<and> c = tr_file T)"

definition full_inv :: "'i gstate \<Rightarrow> bool" where
  "full_inv st \<longleftrightarrow> length (g_out st) = BUFSIZE \<and> g_fill st \<le> BUFSIZE \<and> g_end st \<le> 2 \<and>
     (if g_full st then g_size st = g_fill st \<and> (g_end st = 1 \<or> g_end st = 0 \<and> g_fill st = BUFSIZE)
      else g_end st \<noteq> 1 \<and> g_fill st < BUFSIZE)"

definition get_inv :: "('z, 'i) transfer \<Rightarrow> string \<Rightarrow> string \<Rightarrow> string \<Rightarrow> 'i gstate \<Rightarrow> bool" where
  "get_inv T d c p st \<longleftrightarrow> full_inv st \<and> rx_inv T st \<and> in_inv T c st \<and> inflate_run (e_zlib (tr_env T)) (g_z st) c p (g_end st \<noteq> 0) \<and>
     (\<exists>rest. tr_head T @ tr_data T = p @ rest \<and> (g_end st \<noteq> 0 \<longrightarrow> rest = [])) \<and>
     512 * unat (total_sectors (e_geom (tr_env T))) \<le> length d \<and>
     (if g_end st = 2 then done_inv T d st else out_inv T d p st)"

section \<open>Work\<close>

lemma run_boot_sent: "run_boot bs src (cp\<lparr>b_sent := x\<rparr>) = (run_boot bs src cp)\<lparr>b_sent := x\<rparr>"
proof (induction bs arbitrary: src cp)
  case (Cons b bs)
  have "next_bit (cp\<lparr>b_sent := x\<rparr>) = (next_bit cp)\<lparr>b_sent := x\<rparr>" for cp by (simp add: next_bit_def b_index_def)
  moreover have "put_sector s (cp\<lparr>b_sent := x\<rparr>) = (put_sector s cp)\<lparr>b_sent := x\<rparr>" for s cp by (simp add: put_sector_def)
  ultimately show ?case using Cons.IH by simp
qed simp

lemma disk_after_sent: "disk_after T d a cp \<Longrightarrow> disk_after T d a (cp\<lparr>b_sent := x\<rparr>)"
proof -
  assume "disk_after T d a cp"
  then obtain y where "cp = run_boot (take (bits_upto a (tr_bits T)) (tr_bits T)) (tr_data T) (disk_start T d y)" by (auto simp: disk_after_def)
  moreover have "(disk_start T d y)\<lparr>b_sent := x\<rparr> = disk_start T d x" by (simp add: disk_start_def)
  ultimately show ?thesis unfolding disk_after_def using run_boot_sent [where cp = "disk_start T d y" and x = x] by metis
qed

lemma disk_start_fits:
  "transfer_ok T \<Longrightarrow> 512 * unat (total_sectors (e_geom (tr_env T))) \<le> length d \<Longrightarrow>
   b_index (disk_start T d x) = 0 \<and> bios_ok (e_bios (tr_env T)) (e_geom (tr_env T)) \<and>
   boot_fits (e_geom (tr_env T)) (disk_start T d x) (bits_upto (used_count (tr_bits T)) (tr_bits T))"
  using transfer_okD(3,6) [of T] mask_bit_pow [of 0] by (simp add: disk_start_def b_index_def boot_fits_def)

lemma flush_sectors:
  assumes T: "transfer_ok T" and d: "512 * unat (total_sectors (e_geom (tr_env T))) \<le> length d" and cp: "disk_after T d a cp"
    and k: "a + k \<le> used_count (tr_bits T)" "512 * k \<le> length buff" "512 * k \<le> BUFSIZE"
    and S: "take (512 * k) buff = take (512 * k) (drop (512 * a) (tr_data T))"
  shows "\<exists>cp'. boot_flush (e_bios (tr_env T)) (e_geom (tr_env T)) nic buff (drop 2048 (tr_head T)) k 0 cp = Inr cp' \<and> disk_after T d (a + k) cp'"
proof -
  obtain x where x: "cp = run_boot (take (bits_upto a (tr_bits T)) (tr_bits T)) (tr_data T) (disk_start T d x)" using cp by (auto simp: disk_after_def)
  have f: "b_index (disk_start T d x) = 0" "bios_ok (e_bios (tr_env T)) (e_geom (tr_env T)) \<and>
      boot_fits (e_geom (tr_env T)) (disk_start T d x) (bits_upto (used_count (tr_bits T)) (tr_bits T))"
    using disk_start_fits [OF T d, of x] by auto
  show ?thesis using boot_disk.flush_more [OF x f(1) k f(2) S, of nic] by (auto simp: boot_sink_def disk_after_def)
qed

lemma flush_step_inv:
  assumes T: "transfer_ok T" and inv: "get_inv T d c p st" and full: "g_full st"
  shows "\<exists>st'. flush_step (tr_env T) st = Inr st' \<and> get_inv T d c p st'"
proof -
  let ?H = "tr_head T" and ?S = "tr_data T"
  note t = transfer_okD [OF T]
  have fi: "length (g_out st) = BUFSIZE" "g_fill st \<le> BUFSIZE" "g_size st = g_fill st" "g_end st = 1 \<or> g_end st = 0 \<and> g_fill st = BUFSIZE" "g_end st \<noteq> 2"
    and o: "out_inv T d p st" and d: "512 * unat (total_sectors (e_geom (tr_env T))) \<le> length d"
    using inv full by (auto simp: get_inv_def full_inv_def split: if_splits)
  obtain rest where rest: "?H @ ?S = p @ rest" "g_end st \<noteq> 0 \<longrightarrow> rest = []" using inv by (auto simp: get_inv_def)
  show ?thesis
  proof (cases "g_first st")
    case True
    then have p: "p = take (g_fill st) (g_out st)" and v: "v_files (g_vars st) = tr_old T \<or> v_files (g_vars st) = tr_files T"
      and cp: "b_sect (g_cp st) = tr_sect T" "b_disk (g_cp st) = d" "g_save st = tr_sect T"
      using o by (auto simp: out_inv_def)
    have lp: "length p = BUFSIZE"
    proof (cases "g_end st = 0")
      case False
      then have "length (?H @ ?S) = length p" using rest by simp
      moreover have "length p \<le> BUFSIZE" using p fi(1) by simp
      ultimately show ?thesis using t(4) by simp
    qed (use fi p in simp)
    then have p': "p = ?H" using rest(1) t(4) by (metis append_eq_append_conv)
    have "g_fill st = BUFSIZE" using lp p fi(1,2) by simp
    then have H: "g_out st = ?H" using p p' fi(1) by simp
    obtain v' where v': "read_header ?H (g_save st) (g_vars st) = Inr (g_save st + of_nat (8 * tr_lg T), v')" "v_files v' = tr_files T"
      using t(7) [OF v] by blast
    have "(g_cp st)\<lparr>b_ptr := 0, b_mask := 1\<rparr> = disk_start T d (b_sent (g_cp st))" using cp by (simp add: disk_start_def)
    then have da: "disk_after T d 0 ((g_cp st)\<lparr>b_ptr := 0, b_mask := 1\<rparr>)" unfolding disk_after_def by (intro exI [of _ "b_sent (g_cp st)"]) simp
    have S: "used_count (tr_bits T) = 0" if "g_end st \<noteq> 0" using that rest p' t(5) by simp
    define st1 where "st1 = st\<lparr>g_alloc := drop 2048 ?H, g_first := False, g_cp := (g_cp st)\<lparr>b_ptr := 0, b_mask := 1\<rparr>, g_save := g_save st + of_nat (8 * tr_lg T),
        g_vars := v', g_fill := 0, g_full := False, g_end := (if g_end st = 1 then 2 else g_end st)\<rparr>"
    have e: "flush_step (tr_env T) st = Inr st1" using True v'(1) H by (simp add: flush_step_def st1_def)
    have "full_inv st1" using fi by (auto simp: full_inv_def st1_def BUFSIZE_def)
    moreover have "rx_inv T st1" using inv by (simp add: get_inv_def rx_inv_def st1_def)
    moreover have "in_inv T c st1" "inflate_run (e_zlib (tr_env T)) (g_z st1) c p (g_end st1 \<noteq> 0)" "g_end st1 \<noteq> 0 \<longrightarrow> rest = []"
      using inv rest(2) fi(4) by (auto simp: get_inv_def in_inv_def pending_def st1_def)
    moreover have "out_inv T d p st1" using v'(2) cp(3) da p' by (auto simp: out_inv_def st1_def intro!: exI [of _ 0])
    moreover have "done_inv T d st1" if "g_end st1 = 2"
    proof -
      have "used_count (tr_bits T) = 0" using S fi(4,5) that by (auto simp: st1_def)
      then show ?thesis using v'(2) cp(3) da by (simp add: done_inv_def st1_def)
    qed
    ultimately have "get_inv T d c p st1" unfolding get_inv_def using rest(1) d by auto
    with e show ?thesis by blast
  next
    case False
    then obtain m where m: "BUFSIZE * m \<le> length ?S" "p = ?H @ take (BUFSIZE * m) ?S @ take (g_fill st) (g_out st)" "disk_after T d (47 * m) (g_cp st)"
      and al: "g_alloc st = drop 2048 ?H" "g_save st = tr_sect T + of_nat (8 * tr_lg T)" "v_files (g_vars st) = tr_files T"
      using o by (auto simp: out_inv_def)
    have "?S = take (BUFSIZE * m) ?S @ take (g_fill st) (g_out st) @ rest" using rest(1) m(2) by simp
    then have dr: "drop (BUFSIZE * m) ?S = take (g_fill st) (g_out st) @ rest" using m(1) by (metis append_eq_conv_conj length_take min.absorb2)
    have le: "47 * m \<le> used_count (tr_bits T)" using m(1) t(5) by (simp add: BUFSIZE_def)
    have len: "length ?S - BUFSIZE * m = g_fill st + length rest" using arg_cong [OF dr, of length] fi(1,2) by simp
    define k where "k = g_fill st div 512"
    have k: "g_fill st = 512 * k"
    proof (cases "g_end st = 0")
      case False
      then have "g_fill st = 512 * (used_count (tr_bits T) - 47 * m)" using rest(2) len t(5) by (simp add: BUFSIZE_def diff_mult_distrib2)
      then show ?thesis by (simp add: k_def)
    qed (use fi in \<open>auto simp: k_def BUFSIZE_def\<close>)
    have "512 * k \<le> length ?S - BUFSIZE * m" using len k by simp
    then have mk: "47 * m + k \<le> used_count (tr_bits T)" using t(5) le by (simp add: BUFSIZE_def)
    have "take (512 * k) (g_out st) = take (512 * k) (drop (512 * (47 * m)) ?S)" using dr k fi(1,2) by (simp add: BUFSIZE_def)
    then obtain cp' where cp': "boot_flush (e_bios (tr_env T)) (e_geom (tr_env T)) (e_nic (tr_env T)) (g_out st) (g_alloc st) k 0 (g_cp st) = Inr cp'"
        "disk_after T d (47 * m + k) cp'"
      using flush_sectors [OF T d m(3) mk, of "g_out st"] fi(1,2) k al(1) by metis
    have st': "flush_step (tr_env T) st = Inr (st\<lparr>g_cp := cp', g_fill := 0, g_full := False, g_end := (if g_end st = 1 then 2 else g_end st)\<rparr>)"
      using False cp'(1) fi(3) by (simp add: flush_step_def k_def)
    show ?thesis
    proof (cases "g_end st = 0")
      case True
      then have "k = 47" "g_fill st = BUFSIZE" using fi k by (auto simp: BUFSIZE_def)
      moreover have "BUFSIZE * Suc m \<le> length ?S" using mk t(5) \<open>k = 47\<close> by (simp add: BUFSIZE_def)
      moreover have "take (BUFSIZE * Suc m) ?S = take (BUFSIZE * m) ?S @ g_out st"
        using take_add [of "BUFSIZE * m" BUFSIZE ?S] dr fi(1) \<open>g_fill st = BUFSIZE\<close> by (simp add: add.commute)
      ultimately have "out_inv T d p (st\<lparr>g_cp := cp', g_fill := 0, g_full := False, g_end := (if g_end st = 1 then 2 else g_end st)\<rparr>)"
        using False al m(2) cp'(2) fi(1) by (auto simp: out_inv_def add.commute intro!: exI [of _ "Suc m"])
      then show ?thesis using st' inv True by (auto simp: get_inv_def full_inv_def rx_inv_def in_inv_def pending_def BUFSIZE_def)
    next
      case e: False
      then have "47 * m + k = used_count (tr_bits T)" using rest(2) len t(5) k le by (simp add: BUFSIZE_def)
      then have "done_inv T d (st\<lparr>g_cp := cp', g_fill := 0, g_full := False, g_end := (if g_end st = 1 then 2 else g_end st)\<rparr>)"
        using False al cp'(2) by (simp add: done_inv_def)
      then show ?thesis using st' inv e fi by (auto simp: get_inv_def full_inv_def rx_inv_def in_inv_def pending_def BUFSIZE_def)
    qed
  qed
qed

text \<open>The parts of the invariant do not depend on the fields they do not mention.\<close>

lemma inv_frame [simp]:
  "full_inv (st\<lparr>g_in := x\<rparr>) = full_inv st" "rx_inv T (st\<lparr>g_in := x\<rparr>) = rx_inv T st"
  "out_inv T d p (st\<lparr>g_in := x\<rparr>) = out_inv T d p st" "done_inv T d (st\<lparr>g_in := x\<rparr>) = done_inv T d st"
  "full_inv (st\<lparr>g_rx := q\<rparr>) = full_inv st" "out_inv T d p (st\<lparr>g_rx := q\<rparr>) = out_inv T d p st" "done_inv T d (st\<lparr>g_rx := q\<rparr>) = done_inv T d st"
  "full_inv (st\<lparr>g_compressed := x\<rparr>) = full_inv st" "rx_inv T (st\<lparr>g_compressed := x\<rparr>) = rx_inv T st"
  "out_inv T d p (st\<lparr>g_compressed := x\<rparr>) = out_inv T d p st" "done_inv T d (st\<lparr>g_compressed := x\<rparr>) = done_inv T d st"
  "full_inv (st\<lparr>g_cfull := b\<rparr>) = full_inv st" "rx_inv T (st\<lparr>g_cfull := b\<rparr>) = rx_inv T st"
  "out_inv T d p (st\<lparr>g_cfull := b\<rparr>) = out_inv T d p st" "done_inv T d (st\<lparr>g_cfull := b\<rparr>) = done_inv T d st"
  "full_inv (st\<lparr>g_timeout := n\<rparr>) = full_inv st" "rx_inv T (st\<lparr>g_timeout := n\<rparr>) = rx_inv T st"
  "out_inv T d p (st\<lparr>g_timeout := n\<rparr>) = out_inv T d p st" "done_inv T d (st\<lparr>g_timeout := n\<rparr>) = done_inv T d st"
  "in_inv T c (st\<lparr>g_timeout := n\<rparr>) = in_inv T c st"
  "full_inv (st\<lparr>g_lastblk := i\<rparr>) = full_inv st" "out_inv T d p (st\<lparr>g_lastblk := i\<rparr>) = out_inv T d p st" "done_inv T d (st\<lparr>g_lastblk := i\<rparr>) = done_inv T d st"
  "full_inv (st\<lparr>g_tftpend := b\<rparr>) = full_inv st" "out_inv T d p (st\<lparr>g_tftpend := b\<rparr>) = out_inv T d p st"
  "done_inv T d (st\<lparr>g_tftpend := b\<rparr>) = done_inv T d st" "in_inv T c (st\<lparr>g_tftpend := b\<rparr>) = in_inv T c st"
  "out_inv T d p (st\<lparr>g_full := b\<rparr>) = out_inv T d p st" "out_inv T d p (st\<lparr>g_size := n\<rparr>) = out_inv T d p st"
  "out_inv T d p (st\<lparr>g_flush := f\<rparr>) = out_inv T d p st" "out_inv T d p (st\<lparr>g_end := n\<rparr>) = out_inv T d p st"
  "full_inv (st\<lparr>g_to := w\<rparr>) = full_inv st" "rx_inv T (st\<lparr>g_to := w\<rparr>) = rx_inv T st" "in_inv T c (st\<lparr>g_to := w\<rparr>) = in_inv T c st"
  "out_inv T d p (st\<lparr>g_to := w\<rparr>) = out_inv T d p st" "done_inv T d (st\<lparr>g_to := w\<rparr>) = done_inv T d st"
  by (simp_all add: full_inv_def rx_inv_def out_inv_def done_inv_def in_inv_def pending_def)

lemma send_frame [simp]:
  "full_inv (send x st) = full_inv st" "rx_inv T (send x st) = rx_inv T st" "in_inv T c (send x st) = in_inv T c st" "g_z (send x st) = g_z st"
  "g_end (send x st) = g_end st" "g_rx (send x st) = g_rx st" "g_full (send x st) = g_full st" "g_tftpend (send x st) = g_tftpend st"
  "g_lastblk (send x st) = g_lastblk st"
  by (simp_all add: send_def full_inv_def rx_inv_def in_inv_def pending_def)

lemma out_inv_send: "out_inv T d p st \<Longrightarrow> out_inv T d p (send x st)"
  unfolding out_inv_def send_def by (simp split: if_splits) (blast intro: disk_after_sent)

lemma done_inv_send: "done_inv T d st \<Longrightarrow> done_inv T d (send x st)"
  using disk_after_sent by (auto simp: done_inv_def send_def)

lemma get_inv_send: "get_inv T d c p st \<Longrightarrow> get_inv T d c p (send x st)"
  using out_inv_send done_inv_send by (auto simp: get_inv_def)

lemma get_inv_timeout [simp]: "get_inv T d c p (st\<lparr>g_timeout := n\<rparr>) = get_inv T d c p st"
  by (simp add: get_inv_def)

lemma load_input_inv:
  assumes "get_inv T d c p st"
  shows "get_inv T d c p (load_input st)" "g_full (load_input st) = g_full st" "g_end (load_input st) = 0 \<Longrightarrow> g_in (load_input st) = pending (load_input st)"
proof -
  have j: "in_inv T c (load_input st)" using assms by (auto simp: get_inv_def load_input_def in_inv_def pending_def split: if_splits)
  show "get_inv T d c p (load_input st)"
  proof (cases "g_end st = 0 \<and> g_cfull st \<and> g_in st = []")
    case True
    then have "load_input st = st\<lparr>g_in := g_compressed st\<rparr>" by (simp add: load_input_def)
    with j assms True show ?thesis by (simp add: get_inv_def)
  next
    case False
    then have "load_input st = st" unfolding load_input_def by (rule if_not_P)
    then show ?thesis using assms by simp
  qed
  show "g_full (load_input st) = g_full st" by (simp add: load_input_def)
  show "g_in (load_input st) = pending (load_input st)" if "g_end (load_input st) = 0"
    using that assms by (auto simp: load_input_def pending_def get_inv_def in_inv_def)
qed

lemma inflate_step_inv:
  assumes T: "transfer_ok T" and inv: "get_inv T d c p st" and st: "\<not> g_full st" "g_in st \<noteq> []"
  shows "\<exists>st' c' p'. inflate_step (tr_env T) st = (st', False) \<and> get_inv T d c' p' st' \<and>
     length c + length p < length c' + length p' \<and> g_rx st' = g_rx st \<and> g_lastblk st' = g_lastblk st \<and> g_tftpend st' = g_tftpend st"
proof -
  let ?zl = "e_zlib (tr_env T)" and ?room = "BUFSIZE - g_fill st"
  note t = transfer_okD [OF T]
  have e0: "g_end st = 0" and fi: "g_fill st < BUFSIZE" "length (g_out st) = BUFSIZE"
    using inv st by (auto simp: get_inv_def full_inv_def in_inv_def split: if_splits)
  have run: "inflate_run ?zl (g_z st) c p False" and fl: "g_flush st = Z_SYNC_FLUSH" and rx: "rx_inv T st" and o: "out_inv T d p st"
    and input: "c @ g_in st @ rx_bytes (g_rx st) = take (TFTPBLOCK * nat (g_lastblk st)) (tr_file T)"
    and cf: "g_cfull st" and d: "512 * unat (total_sectors (e_geom (tr_env T))) \<le> length d"
    using inv st e0 by (auto simp: get_inv_def in_inv_def pending_def split: if_splits)
  define later where "later = rx_bytes (g_rx st) @ drop (TFTPBLOCK * nat (g_lastblk st)) (tr_file T)"
  have enc: "c @ g_in st @ later = tr_file T" using input by (metis append.assoc append_take_drop_id later_def)
  obtain z k out ret where call: "zinflate ?zl (g_z st) (g_in st) ?room Z_SYNC_FLUSH = (z, k, out, ret)" by (metis prod_cases4)
  have room: "0 < ?room" using fi by simp
  have more: "g_in st \<noteq> [] \<or> later = []" using st by simp
  note D = inflate_callD [OF t(1) run enc room more call]
  obtain rest where rest: "tr_head T @ tr_data T = (p @ out) @ rest" "ret = Z_STREAM_END \<longrightarrow> rest = []" using D(3) by auto
  have run': "inflate_run ?zl z (c @ take k (g_in st)) (p @ out) (ret = Z_STREAM_END)"
    using inflate_step [OF run call] D(4) by blast
  have exact: "ret = Z_STREAM_END \<longleftrightarrow> drop k (g_in st) @ later = []"
  proof -
    have "(c @ take k (g_in st)) @ drop k (g_in st) @ later = tr_file T" using enc by (metis append.assoc append_take_drop_id)
    with t(2) run' show ?thesis unfolding inflate_exact_def by blast
  qed
  define st1 where "st1 = st\<lparr>g_z := z, g_in := drop k (g_in st), g_fill := g_fill st + length out,
      g_out := take (g_fill st) (g_out st) @ out @ drop (g_fill st + length out) (g_out st)\<rparr>"
  have f1: "length (g_out st1) = BUFSIZE" "g_fill st1 \<le> BUFSIZE" "take (g_fill st1) (g_out st1) = take (g_fill st) (g_out st) @ out"
    using fi D(2) by (auto simp: st1_def)
  have o1: "out_inv T d (p @ out) st1"
    using o f1(3) by (auto simp: out_inv_def st1_def)
  have "ret = Z_STREAM_END \<Longrightarrow> 0 < k" using exact st(2) by (cases k) auto
  then have pos: "0 < k + length out" using D(4) by auto
  show ?thesis
  proof (cases "ret = Z_STREAM_END")
    case True
    have all: "drop k (g_in st) = []" "rx_bytes (g_rx st) = []" "drop (TFTPBLOCK * nat (g_lastblk st)) (tr_file T) = []"
      using exact True by (auto simp: later_def)
    have "take (TFTPBLOCK * nat (g_lastblk st)) (tr_file T) = tr_file T" using all(3) by simp
    moreover have "take k (g_in st) = g_in st" using all(1) by simp
    ultimately have fin: "c @ take k (g_in st) = tr_file T" "take (TFTPBLOCK * nat (g_lastblk st)) (tr_file T) = tr_file T"
      using input all(2) by simp_all
    let ?st = "st1\<lparr>g_flush := Z_FINISH, g_end := 1, g_full := True, g_size := g_fill st1\<rparr>"
    have "inflate_step (tr_env T) st = (?st, False)" unfolding inflate_step_def fl call by (simp add: st1_def [symmetric] True Z_BUF_ERROR_def Let_def)
    moreover have "out_inv T d (p @ out) ?st" using o1 by simp
    then have "get_inv T d (c @ take k (g_in st)) (p @ out) ?st"
      using f1(1,2) rx d run' True rest cf all(1,2) fin by (auto simp: get_inv_def full_inv_def rx_inv_def in_inv_def pending_def st1_def)
    ultimately show ?thesis using pos D(1) by (intro exI [of _ ?st] exI [of _ "c @ take k (g_in st)"] exI [of _ "p @ out"]) (auto simp: st1_def)
  next
    case False
    then have ok: "ret = Z_OK" using D(4) by blast
    define st2 where "st2 = (if g_in st1 = [] then st1\<lparr>g_cfull := False\<rparr> else st1)"
    define st3 where "st3 = (if g_fill st2 = BUFSIZE then st2\<lparr>g_full := True, g_size := g_fill st2\<rparr> else st2)"
    have r3: "inflate_step (tr_env T) st = (st3, False)"
      unfolding inflate_step_def fl call by (simp add: st1_def [symmetric] ok st2_def st3_def Z_BUF_ERROR_def Let_def)
    have input': "c @ take k (g_in st) @ drop k (g_in st) @ rx_bytes (g_rx st) = take (TFTPBLOCK * nat (g_lastblk st)) (tr_file T)"
      using input by (metis append.assoc append_take_drop_id)
    have "out_inv T d (p @ out) st3" using o1 by (simp add: st3_def st2_def)
    then have "get_inv T d (c @ take k (g_in st)) (p @ out) st3"
      using f1(1,2) rx d run' False rest(1) cf input' e0 fl st(1)
      by (auto simp: get_inv_def full_inv_def rx_inv_def in_inv_def pending_def st1_def st2_def st3_def)
    with r3 show ?thesis using pos D(1)
      by (intro exI [of _ st3] exI [of _ "c @ take k (g_in st)"] exI [of _ "p @ out"]) (auto simp: st1_def st2_def st3_def)
  qed
qed

lemma gather_step_inv:
  assumes inv: "get_inv T d c p st" and st: "g_end st = 0 \<longrightarrow> g_in st = [] \<and> \<not> g_cfull st"
  shows "\<exists>st'. gather_step st = Some (Inr st') \<and> get_inv T d c p st' \<and> g_full st' = g_full st \<and> g_end st' = g_end st \<and>
     g_lastblk st' = g_lastblk st \<and> g_tftpend st' = g_tftpend st \<and>
     (if g_end st = 0 \<and> (INBUFF \<le> length (rx_bytes (g_rx st)) \<or> g_tftpend st \<and> rx_bytes (g_rx st) \<noteq> []) then g_cfull st' else st' = st)"
proof -
  let ?n = "length (rx_bytes (g_rx st))"
  have ok: "rx_ok (g_rx st)" using inv by (simp add: get_inv_def rx_inv_def)
  have tot: "rx_total (g_rx st) = Some (int ?n)" by (rule rx.total_bytes [OF ok])
  show ?thesis
  proof (cases "(INBUFF \<le> ?n \<or> g_tftpend st \<and> 0 < ?n) \<and> \<not> g_cfull st")
    case False
    then have "gather_step st = Some (Inr st)" by (auto simp: gather_step_def tot ret_run_def)
    with inv False st show ?thesis by (auto simp: get_inv_def in_inv_def)
  next
    case True
    have e0: "g_end st = 0" using True inv by (auto simp: get_inv_def in_inv_def split: if_splits)
    define i where "i = min INBUFF (if g_tftpend st then ?n else INBUFF)"
    have i: "0 < i" "i \<le> ?n" "min (int INBUFF) (if g_tftpend st then int ?n else int INBUFF) = int i" using True by (auto simp: i_def INBUFF_def)
    obtain q where q: "gather (g_rx st) (int i) [] = Some (Inr (q, take i (rx_bytes (g_rx st))))" "rx_ok q" "rx_bytes q = drop i (rx_bytes (g_rx st))"
        "rx_open (g_rx st) \<longrightarrow> rx_open q"
      using rx.get_bytes [OF ok i(2), of "[]"] by auto
    let ?st = "st\<lparr>g_rx := q, g_compressed := take i (rx_bytes (g_rx st)), g_cfull := True\<rparr>"
    have r: "gather_step st = Some (Inr ?st)" using True i(3) q(1) by (auto simp: gather_step_def tot ret_run_def)
    have "take i (rx_bytes (g_rx st)) @ drop i (rx_bytes (g_rx st)) = rx_bytes (g_rx st)" by simp
    moreover have "take i (rx_bytes (g_rx st)) \<noteq> []" using i(1,2) by auto
    ultimately have "get_inv T d c p ?st" using inv e0 st q(2-4)
      by (auto simp: get_inv_def in_inv_def pending_def) (auto simp: rx_inv_def)
    with r True e0 show ?thesis by auto
  qed
qed

lemma work_inv:
  assumes T: "transfer_ok T" and inv: "get_inv T d c p st"
  shows "\<exists>st' c' p'. work (tr_env T) st = Some (Inr (st', False)) \<and> get_inv T d c' p' st'"
proof (cases "g_full st")
  case True
  then obtain st' where "work (tr_env T) st = Some (Inr (st', False))" "get_inv T d c p st'"
    using flush_step_inv [OF T inv True] by (auto simp: work_def ret_run_def)
  then show ?thesis by blast
next
  case False
  let ?st = "load_input st"
  note l = load_input_inv [OF inv]
  have nf: "\<not> g_full ?st" "g_fill ?st < BUFSIZE" using False l(1,2) by (auto simp: get_inv_def full_inv_def)
  show ?thesis
  proof (cases "g_in ?st = []")
    case True
    then have "g_end ?st = 0 \<longrightarrow> g_in ?st = [] \<and> \<not> g_cfull ?st" using l(1,3) by (auto simp: get_inv_def in_inv_def)
    from gather_step_inv [OF l(1) this] True False obtain st' where "work (tr_env T) st = Some (Inr (st', False))" "get_inv T d c p st'"
      by (auto simp: work_def ret_run_def)
    then show ?thesis by blast
  next
    case ne: False
    from inflate_step_inv [OF T l(1) nf(1) ne] ne nf(2) False show ?thesis by (auto simp: work_def ret_run_def)
  qed
qed

section \<open>Packets\<close>

definition opcode :: "string \<Rightarrow> nat" where
  "opcode pkt = byte_at pkt 1 + 256 * byte_at pkt 0"

definition tftp_data :: "string \<Rightarrow> nat \<Rightarrow> string" where
  "tftp_data f n = [NUL, CHR 0x03, char_of (n div 256), char_of (n mod 256)] @ take TFTPBLOCK (drop (TFTPBLOCK * (n - 1)) f)"

text \<open>
  A packet has a header and fits into a slot, and if it is a data packet it is a block of the file,
  numbered from 1. Everything else (options, errors, nonsense) is arbitrary.
\<close>

definition conforms :: "string \<Rightarrow> string \<Rightarrow> bool" where
  "conforms f pkt \<longleftrightarrow> 4 \<le> length pkt \<and> length pkt \<le> SLOT \<and>
     (opcode pkt = 3 \<longrightarrow> (\<exists>n. 0 < n \<and> n < 2 ^ 16 \<and> TFTPBLOCK * (n - 1) \<le> length f \<and> pkt = tftp_data f n))"

definition conforming :: "string \<Rightarrow> turn_input list \<Rightarrow> bool" where
  "conforming f inps \<longleftrightarrow> (\<forall>inp \<in> set inps. \<forall>pkt src. i_udp inp = Some (pkt, src) \<longrightarrow> conforms f pkt)"

lemma rx_store_mem: "rx_ok q \<Longrightarrow> get_empty q = Some i \<Longrightarrow> rx_store i pkt q = Inr q' \<Longrightarrow> \<exists>r. t_mem (q_buf q' ! i) = pkt @ r"
  using get_empty_from_Some [of 0 "q_buf q" i] by (auto simp: get_empty_def rx_store_def Let_def split: if_splits)

lemma byte_at_prefix: "i < length pkt \<Longrightarrow> byte_at (pkt @ r) i = byte_at pkt i"
  by (simp add: byte_at_def nth_append)

lemma tftp_data_block: "n < 2 ^ 16 \<Longrightarrow> byte_at (tftp_data f n) 3 + 256 * byte_at (tftp_data f n) 2 = n"
  by (simp add: byte_at_def tftp_data_def)

lemma handle_packet_inv:
  assumes inv: "get_inv T d c p st" and st: "\<not> g_tftpend st" "get_empty (g_rx st) = Some i" and pkt: "conforms (tr_file T) pkt"
  shows "\<exists>r. handle_packet i pkt src st = Inr r \<and>
     (case r of Next st' \<Rightarrow> get_inv T d c p st' \<and> g_full st' = g_full st \<and> g_end st' = g_end st
      | Restart st' \<Rightarrow> get_inv T d c p st' | Return i st' \<Rightarrow> i = 1 \<and> get_inv T d c p st')"
proof -
  let ?n = "nat (g_lastblk st)"
  have rx: "rx_ok (g_rx st)" "rx_open (g_rx st)" "TFTPBLOCK * ?n \<le> length (tr_file T)" "- 1 \<le> g_lastblk st" using inv st(1) by (auto simp: get_inv_def rx_inv_def)
  have len: "4 \<le> length pkt" "length pkt \<le> SLOT" using pkt by (auto simp: conforms_def)
  obtain q where q: "rx_store i pkt (g_rx st) = Inr q" "rx_ok q" "rx_open q" "rx_bytes q = rx_bytes (g_rx st)"
    using rx.store_bytes [OF rx(1,2) st(2) len(2)] by auto
  define st1 where "st1 = st\<lparr>g_rx := q, g_timeout := 0\<rparr>"
  have same: "in_inv T c (st\<lparr>g_rx := q\<rparr>) = in_inv T c st" using q(4) by (simp add: in_inv_def pending_def)
  then have inv1: "get_inv T d c p st1" using inv q(2,3) st(1) by (simp add: get_inv_def st1_def) (simp add: rx_inv_def)
  obtain r where m: "t_mem (q_buf q ! i) = pkt @ r" using rx_store_mem [OF rx(1) st(2) q(1)] by blast
  have b: "byte_at (t_mem (q_buf q ! i)) j = byte_at pkt j" if "j < 4" for j using that len(1) by (simp add: m byte_at_prefix)
  define block where "block = byte_at pkt 3 + 256 * byte_at pkt 2"
  define lg where "lg = (if int (length pkt) - 4 < int TFTPBLOCK then int (length pkt) - 4 else int TFTPBLOCK)"
  define acc where "acc = st1\<lparr>g_lastblk := int block, g_tftpend := (if int (length pkt) - 4 < int TFTPBLOCK then True else g_tftpend st1), g_rx := rx_link i lg q\<rparr>"
  have hp: "handle_packet i pkt src st =
      Inr (if opcode pkt = 6
           then if g_lastblk st1 \<noteq> - 1 then restart_err ''Got unexpected OACK'' st1
                else Next (send (sendACK 0 (g_port st1) src) (st1\<lparr>g_lastblk := 0, g_to := src\<rparr>))
           else if opcode pkt = 3
           then if int block = g_lastblk st1 then Restart st1
                else if int block \<noteq> g_lastblk st1 + 1 then restart_err ''Got wrong packet number'' st1
                else Next (send (sendACK block (g_port st1) (g_to st1)) acc)
           else if byte_at pkt 1 = 5 then Return 1 st1
           else restart_err ''Error TFTP'' st1)"
    unfolding handle_packet_def q(1) bind_res_simps Let_def opcode_def acc_def lg_def block_def st1_def using b [of 0] b [of 1] b [of 2] b [of 3] by simp
  have oack: "get_inv T d c p (st1\<lparr>g_lastblk := 0, g_to := src\<rparr>)" if l: "g_lastblk st1 = - 1"
  proof -
    have "in_inv T c (st1\<lparr>g_lastblk := 0\<rparr>) = in_inv T c st1" using l by (simp add: in_inv_def pending_def)
    moreover have "rx_inv T (st1\<lparr>g_lastblk := 0\<rparr>) = rx_inv T st1" using l by (simp add: rx_inv_def)
    ultimately show ?thesis using inv1 by (simp add: get_inv_def)
  qed
  have acc: "get_inv T d c p acc" if op: "opcode pkt = 3" "int block = g_lastblk st1 + 1"
  proof -
    obtain n where n: "0 < n" "n < 2 ^ 16" "TFTPBLOCK * (n - 1) \<le> length (tr_file T)" "pkt = tftp_data (tr_file T) n"
      using pkt op(1) by (auto simp: conforms_def)
    have bn: "block = n" using tftp_data_block [OF n(2)] n(4) by (simp add: block_def)
    then have ln: "g_lastblk st = int n - 1" using op(2) by (simp add: st1_def)
    then have nn: "?n = n - 1" using n(1) by simp
    have dp: "drop 4 pkt = take TFTPBLOCK (drop (TFTPBLOCK * (n - 1)) (tr_file T))" by (simp add: n(4) tftp_data_def)
    obtain q' where q': "rx_add i pkt (g_rx st) = Inr q'" "rx_ok q'" "rx_bytes q' = rx_bytes (g_rx st) @ take TFTPBLOCK (drop 4 pkt)"
        "TFTPBLOCK \<le> length pkt - 4 \<longrightarrow> rx_open q'" using rx.add_bytes [OF rx(1,2) st(2) len] by auto
    have rl: "rx_link i lg q = q'" using q'(1) q(1) by (simp add: rx_add_def lg_def)
    have sum: "TFTPBLOCK * n = TFTPBLOCK * (n - 1) + TFTPBLOCK" using n(1) by (cases n) simp_all
    have tk: "take (TFTPBLOCK * n) (tr_file T) = take (TFTPBLOCK * (n - 1)) (tr_file T) @ take TFTPBLOCK (drop 4 pkt)"
      unfolding sum take_add dp by simp
    have len4: "length pkt - 4 = min TFTPBLOCK (length (tr_file T) - TFTPBLOCK * (n - 1))" using arg_cong [OF dp, of length] by (simp add: min.commute)
    have "rx_inv T acc"
    proof (cases "int (length pkt) - 4 < int TFTPBLOCK")
      case True
      then have "length pkt - 4 < TFTPBLOCK" using len(1) by linarith
      then have "length (tr_file T) < TFTPBLOCK * n" using len4 sum n(3) by (auto simp: min_def split: if_splits)
      then show ?thesis using True rx(4) n(3) q'(2) by (simp add: rx_inv_def acc_def bn rl)
    next
      case False
      then have ge: "TFTPBLOCK \<le> length pkt - 4" using len(1) by linarith
      then have "TFTPBLOCK * n \<le> length (tr_file T)" using len4 sum n(3) by (auto simp: min_def TFTPBLOCK_def split: if_splits)
      then show ?thesis using False st(1) n(3) q'(2,4) ge by (simp add: rx_inv_def acc_def bn rl st1_def)
    qed
    moreover have "in_inv T c acc"
    proof -
      have i: "c @ pending st @ rx_bytes (g_rx st) = take (TFTPBLOCK * (n - 1)) (tr_file T)"
          "if g_end st = 0 then g_flush st = Z_SYNC_FLUSH \<and> (if g_cfull st then pending st \<noteq> [] else g_in st = []) else g_cfull st \<and> g_in st = [] \<and> c = tr_file T"
        using inv by (simp_all add: get_inv_def in_inv_def nn)
      have "pending acc = pending st" by (simp add: pending_def acc_def st1_def)
      moreover have "c @ pending st @ rx_bytes q' = take (TFTPBLOCK * n) (tr_file T)" using i(1) by (simp add: q'(3) tk)
      ultimately show ?thesis using i(2) by (simp add: in_inv_def acc_def bn rl st1_def)
    qed
    ultimately show ?thesis using inv1 unfolding get_inv_def by (simp add: acc_def)
  qed
  have fe: "g_full acc = g_full st" "g_end acc = g_end st" "g_full st1 = g_full st" "g_end st1 = g_end st" by (simp_all add: acc_def st1_def)
  show ?thesis unfolding hp using inv1 oack acc fe by (auto simp: restart_err_def intro: get_inv_send)
qed

section \<open>Turns\<close>

lemma turn_inv:
  assumes T: "transfer_ok T" and inv: "get_inv T d c p st" and inp: "conforming (tr_file T) [inp]"
  shows "\<exists>r c' p'. turn (tr_env T) inp st = Some (Inr r) \<and>
     (case r of Next st' \<Rightarrow> get_inv T d c' p' st' | Restart st' \<Rightarrow> get_inv T d c' p' st'
      | Return i st' \<Rightarrow> get_inv T d c' p' st' \<and> (i = 0 \<and> g_end st' = 2 \<or> i = 1))"
proof -
  obtain st0 c' p' where w: "work (tr_env T) st = Some (Inr (st0, False))" "get_inv T d c' p' st0" using work_inv [OF T inv] by blast
  define st1 where "st1 = (if i_tick inp then st0\<lparr>g_timeout := g_timeout st0 + 1\<rparr> else st0)"
  have i1: "get_inv T d c' p' st1" using w(2) by (simp add: st1_def)
  have t: "turn (tr_env T) inp st = poll inp st1" by (simp add: turn_def w(1) st1_def)
  show ?thesis
  proof (cases "\<exists>i pkt src. get_empty (g_rx st1) = Some i \<and> i_udp inp = Some (pkt, src) \<and> \<not> g_tftpend st1 \<and> \<not> g_full st1 \<and> \<not> (i_tick inp \<and> 10 < g_timeout st1)")
    case True
    then obtain i pkt src where e: "get_empty (g_rx st1) = Some i" "i_udp inp = Some (pkt, src)" "\<not> g_tftpend st1" "\<not> g_full st1"
        "\<not> (i_tick inp \<and> 10 < g_timeout st1)" by blast
    have "conforms (tr_file T) pkt" using inp e(2) by (auto simp: conforming_def)
    from handle_packet_inv [OF i1 e(3,1) this, of src] obtain r where r: "handle_packet i pkt src st1 = Inr r"
        "case r of Next st' \<Rightarrow> get_inv T d c' p' st' \<and> g_full st' = g_full st1 \<and> g_end st' = g_end st1
         | Restart st' \<Rightarrow> get_inv T d c' p' st' | Return i st' \<Rightarrow> i = 1 \<and> get_inv T d c' p' st'" by blast
    have "turn (tr_env T) inp st = Some (Inr (end_of_turn r))" using t e r(1) by (auto simp: poll_def ret_run_def)
    then show ?thesis using r(2) by (intro exI [of _ "end_of_turn r"] exI [of _ c'] exI [of _ p']) (auto simp: end_of_turn_def split: outcome.splits if_splits)
  next
    case False
    then have "turn (tr_env T) inp st = Some (Inr (restart_err ''Error Timeout'' st1)) \<or>
        turn (tr_env T) inp st = Some (Inr (Next st1)) \<or> turn (tr_env T) inp st = Some (Inr (end_of_turn (Next st1)))"
      unfolding t poll_def by (auto simp: ret_run_def split: option.splits)
    then show ?thesis
    proof (elim disjE)
      assume "turn (tr_env T) inp st = Some (Inr (restart_err ''Error Timeout'' st1))"
      then show ?thesis using get_inv_send [OF i1]
        by (intro exI [of _ "restart_err ''Error Timeout'' st1"] exI [of _ c'] exI [of _ p']) (simp add: restart_err_def)
    next
      assume "turn (tr_env T) inp st = Some (Inr (Next st1))"
      then show ?thesis using i1 by (intro exI [of _ "Next st1"] exI [of _ c'] exI [of _ p']) simp
    next
      assume "turn (tr_env T) inp st = Some (Inr (end_of_turn (Next st1)))"
      then show ?thesis using i1 by (intro exI [of _ "end_of_turn (Next st1)"] exI [of _ c'] exI [of _ p']) (simp add: end_of_turn_def)
    qed
  qed
qed

section \<open>Restarts\<close>

text \<open>What a restart finds: the disk has been changed only in the used sectors.\<close>

abbreviation tr_area :: "('z, 'i) transfer \<Rightarrow> nat set" where
  "tr_area T \<equiv> used_area (512 * unat (tr_sect T)) (tr_bits T)"

definition ready :: "('z, 'i) transfer \<Rightarrow> string \<Rightarrow> 'i gstate \<Rightarrow> bool" where
  "ready T d0 st \<longleftrightarrow> length (g_out st) = BUFSIZE \<and> length (q_buf (g_rx st)) = NB_BUF \<and> (\<forall>s \<in> set (q_buf (g_rx st)). length (t_mem s) = SLOT) \<and>
     512 * unat (total_sectors (e_geom (tr_env T))) \<le> length d0 \<and> length (b_disk (g_cp st)) = length d0 \<and> keeps d0 (b_disk (g_cp st)) (tr_area T) \<and>
     (v_files (g_vars st) = tr_old T \<or> v_files (g_vars st) = tr_files T)"

lemma run_boot_place:
  "boot_fits g cp (length bs) \<Longrightarrow> 512 * used_count bs \<le> length src \<Longrightarrow>
   place bs src (b_disk cp, 512 * unat (b_sect cp)) = (b_disk (run_boot bs src cp), 512 * unat (b_sect cp) + 512 * length bs)"
proof (induction bs arbitrary: src cp)
  case (Cons b bs)
  have s: "unat (b_sect cp + 1) = unat (b_sect cp) + 1" "512 * unat (b_sect cp) + 512 \<le> length (b_disk cp)"
    using Cons.prems(1) sect_Suc [of "b_sect cp" "length bs" "total_sectors g"] by (auto simp: boot_fits_def)
  show ?case
  proof (cases b)
    case True
    have "boot_fits g (next_bit (put_sector (take 512 src) cp)) (length bs)" using Cons.prems(1) by (simp add: boot_fits_next boot_fits_put)
    from Cons.IH [OF this, of "drop 512 src"] True Cons.prems(2) s show ?thesis by (simp add: file_write_def algebra_simps)
  next
    case False
    have "boot_fits g (next_bit cp) (length bs)" using Cons.prems(1) by (simp add: boot_fits_next)
    from Cons.IH [OF this, of src] False Cons.prems(2) s show ?thesis by (simp add: fill_inside algebra_simps)
  qed
qed simp

lemma run_boot_keeps:
  "boot_fits g cp (length bs) \<Longrightarrow>
   length (b_disk (run_boot bs src cp)) = length (b_disk cp) \<and> keeps (b_disk cp) (b_disk (run_boot bs src cp)) (used_area (512 * unat (b_sect cp)) bs)"
proof (induction bs arbitrary: src cp)
  case (Cons b bs)
  have s: "unat (b_sect cp + 1) = unat (b_sect cp) + 1" "512 * unat (b_sect cp) + 512 \<le> length (b_disk cp)"
    using Cons.prems sect_Suc [of "b_sect cp" "length bs" "total_sectors g"] by (auto simp: boot_fits_def)
  show ?case
  proof (cases b)
    case True
    let ?cp = "next_bit (put_sector (take 512 src) cp)"
    have l: "length (b_disk ?cp) = length (b_disk cp)" using s(2) by (simp add: length_write_at min_def)
    have k: "keeps (b_disk cp) (b_disk ?cp) {512 * unat (b_sect cp) ..< 512 * unat (b_sect cp) + 512}"
      using keeps_mono [OF keeps_write_at [OF refl, of "b_disk cp" "512 * unat (b_sect cp)" "take 512 src"]] by simp
    have "boot_fits g ?cp (length bs)" using Cons.prems by (simp add: boot_fits_next boot_fits_put)
    from Cons.IH [OF this, of "drop 512 src"] keeps_trans [OF k] l True s(1) show ?thesis by (simp add: algebra_simps)
  next
    case False
    have "boot_fits g (next_bit cp) (length bs)" using Cons.prems by (simp add: boot_fits_next)
    from Cons.IH [OF this, of src] False s(1) show ?thesis by (simp add: algebra_simps)
  qed
qed simp

lemma disk_after_keeps:
  assumes T: "transfer_ok T" and d: "512 * unat (total_sectors (e_geom (tr_env T))) \<le> length d" and cp: "disk_after T d a cp" "a \<le> used_count (tr_bits T)"
  shows "length (b_disk cp) = length d" "keeps d (b_disk cp) (tr_area T)"
proof -
  let ?b = "take (bits_upto a (tr_bits T)) (tr_bits T)"
  obtain x where x: "cp = run_boot ?b (tr_data T) (disk_start T d x)" using cp(1) by (auto simp: disk_after_def)
  have "length ?b \<le> bits_upto (used_count (tr_bits T)) (tr_bits T)" using bits_upto_mono [OF cp(2) order_refl] by simp
  then have "boot_fits (e_geom (tr_env T)) (disk_start T d x) (length ?b)"
    using disk_start_fits [OF T d, of x] boot_fits_le by blast
  note k = run_boot_keeps [OF this, of "tr_data T"]
  then show "length (b_disk cp) = length d" by (simp add: x disk_start_def)
  have "used_area (512 * unat (tr_sect T)) ?b \<subseteq> tr_area T"
    by (metis append_take_drop_id sup_ge1 used_area_append)
  then show "keeps d (b_disk cp) (tr_area T)" using k by (auto simp: x disk_start_def intro: keeps_mono)
qed

lemma get_inv_ready:
  assumes T: "transfer_ok T" and inv: "get_inv T d c p st" and d: "keeps d0 d (tr_area T)" "length d = length d0"
  shows "ready T d0 st"
proof -
  have room: "512 * unat (total_sectors (e_geom (tr_env T))) \<le> length d" using inv by (simp add: get_inv_def)
  have rx: "length (q_buf (g_rx st)) = NB_BUF" "\<forall>i < NB_BUF. slot_ok (q_buf (g_rx st) ! i)" using inv by (auto simp: get_inv_def rx_inv_def rx_ok_def rx_rep_def)
  then have slots: "\<forall>s \<in> set (q_buf (g_rx st)). length (t_mem s) = SLOT" by (auto simp: in_set_conv_nth slot_ok_def)
  have "length (b_disk (g_cp st)) = length d \<and> keeps d (b_disk (g_cp st)) (tr_area T) \<and> (v_files (g_vars st) = tr_old T \<or> v_files (g_vars st) = tr_files T)"
  proof (cases "g_end st = 2")
    case True
    then have "done_inv T d st" using inv by (simp add: get_inv_def)
    then show ?thesis using disk_after_keeps [OF T room] by (auto simp: done_inv_def)
  next
    case False
    then have o: "out_inv T d p st" using inv by (simp add: get_inv_def)
    show ?thesis
    proof (cases "g_first st")
      case False
      then obtain m where "BUFSIZE * m \<le> length (tr_data T)" "disk_after T d (47 * m) (g_cp st)" "v_files (g_vars st) = tr_files T"
        using o by (auto simp: out_inv_def)
      moreover have "47 * m \<le> used_count (tr_bits T)" using calculation(1) transfer_okD(5) [OF T] by (simp add: BUFSIZE_def)
      ultimately show ?thesis using disk_after_keeps [OF T room] by blast
    qed (use o in \<open>auto simp: out_inv_def\<close>)
  qed
  then show ?thesis using inv rx(1) slots room d keeps_trans [OF d(1), of _ "tr_area T"] by (auto simp: ready_def get_inv_def full_inv_def)
qed

lemma start_get_inv:
  assumes T: "transfer_ok T" and st: "ready T d0 st" and fl: "length (read_request file) \<le> 2100"
  shows "\<exists>st'. start_get (tr_env T) file (tr_sect T) st = Inr st' \<and> get_inv T (b_disk (g_cp st)) [] [] st'"
proof -
  obtain st' where st': "start_get (tr_env T) file (tr_sect T) st = Inr st'" using fl by (simp add: start_get_def Let_def)
  have rx: "rx_ok (rx_init (q_buf (g_rx st)))" "rx_open (rx_init (q_buf (g_rx st)))" "rx_bytes (rx_init (q_buf (g_rx st))) = []"
    using st rx_init_ok [of "q_buf (g_rx st)"] by (simp_all add: ready_def)
  have e: "g_end st' = 0" "g_z st' = inflateInit (e_zlib (tr_env T))" using st' fl by (auto simp: start_get_def send_def Let_def)
  have "full_inv st'" using st' fl st by (auto simp: start_get_def send_def Let_def full_inv_def ready_def BUFSIZE_def)
  moreover have "rx_inv T st'" using st' fl rx by (auto simp: start_get_def send_def Let_def rx_inv_def)
  moreover have "in_inv T [] st'" using st' fl rx by (auto simp: start_get_def send_def Let_def in_inv_def pending_def)
  moreover have "out_inv T (b_disk (g_cp st)) [] st'" using st' fl st by (auto simp: start_get_def send_def Let_def out_inv_def ready_def)
  moreover have "inflate_run (e_zlib (tr_env T)) (g_z st') [] [] False" using e(2) inflate_start by metis
  ultimately have "get_inv T (b_disk (g_cp st)) [] [] st'" using e(1) st by (simp add: get_inv_def ready_def)
  with st' show ?thesis by blast
qed

text \<open>An outcome of any number of turns.\<close>

definition safe_outcome :: "('z, 'i) transfer \<Rightarrow> string \<Rightarrow> 'i outcome \<Rightarrow> bool" where
  "safe_outcome T d0 r \<longleftrightarrow>
     (case r of
        Next st \<Rightarrow> ready T d0 st
      | Restart st \<Rightarrow> False
      | Return i st \<Rightarrow> ready T d0 st \<and> (i = 0 \<and> (\<exists>d. length d = length d0 \<and> keeps d0 d (tr_area T) \<and> done_inv T d st) \<or> i = 1))"

lemma get_turns_safe:
  assumes T: "transfer_ok T" and fl: "length (read_request file) \<le> 2100"
  shows "get_inv T d c p st \<Longrightarrow> keeps d0 d (tr_area T) \<Longrightarrow> length d = length d0 \<Longrightarrow> conforming (tr_file T) inps \<Longrightarrow>
     \<exists>r rest. get_turns (tr_env T) file (tr_sect T) inps st = Some (Inr (r, rest)) \<and> safe_outcome T d0 r \<and> (\<exists>us. inps = us @ rest)"
proof (induction inps arbitrary: d c p st)
  case Nil
  then show ?case using get_inv_ready [OF T Nil.prems(1-3)] by (simp add: safe_outcome_def ret_run_def)
next
  case (Cons inp inps)
  have one: "conforming (tr_file T) [inp]" and rest: "conforming (tr_file T) inps" using Cons.prems(4) by (auto simp: conforming_def)
  obtain r c' p' where r: "turn (tr_env T) inp st = Some (Inr r)"
      "case r of Next st' \<Rightarrow> get_inv T d c' p' st' | Restart st' \<Rightarrow> get_inv T d c' p' st'
       | Return i st' \<Rightarrow> get_inv T d c' p' st' \<and> (i = 0 \<and> g_end st' = 2 \<or> i = 1)"
    using turn_inv [OF T Cons.prems(1) one] by blast
  show ?case
  proof (cases r)
    case (Next st')
    then have "get_inv T d c' p' st'" using r(2) by simp
    from Cons.IH [OF this Cons.prems(2,3) rest] obtain x y us where "get_turns (tr_env T) file (tr_sect T) inps st' = Some (Inr (x, y))" "safe_outcome T d0 x" "inps = us @ y" by blast
    with r(1) Next show ?thesis by (auto intro!: exI [of _ "inp # us"])
  next
    case (Restart st')
    then have i: "get_inv T d c' p' st'" using r(2) by simp
    have rd: "ready T d0 st'" by (rule get_inv_ready [OF T i Cons.prems(2,3)])
    obtain st2 where st2: "start_get (tr_env T) file (tr_sect T) st' = Inr st2" "get_inv T (b_disk (g_cp st')) [] [] st2"
      using start_get_inv [OF T rd fl] by blast
    have k: "keeps d0 (b_disk (g_cp st')) (tr_area T)" "length (b_disk (g_cp st')) = length d0" using rd by (auto simp: ready_def)
    from Cons.IH [OF st2(2) k rest] obtain x y us where "get_turns (tr_env T) file (tr_sect T) inps st2 = Some (Inr (x, y))" "safe_outcome T d0 x" "inps = us @ y" by blast
    with r(1) Restart st2(1) show ?thesis by (auto intro!: exI [of _ "inp # us"])
  next
    case (Return i st')
    then have i: "get_inv T d c' p' st'" "i = 0 \<and> g_end st' = 2 \<or> i = 1" using r(2) by auto
    have "ready T d0 st'" by (rule get_inv_ready [OF T i(1) Cons.prems(2,3)])
    moreover have "g_end st' = 2 \<Longrightarrow> done_inv T d st'" using i(1) by (simp add: get_inv_def)
    ultimately have "safe_outcome T d0 (Return i st')" using i(2) Cons.prems(2,3) by (auto simp: safe_outcome_def)
    with r(1) Return show ?thesis by (auto simp: ret_run_def intro!: exI [of _ "[inp]"])
  qed
qed

end
