(* ===== verification/Boot_Live.thy ===== *)
theory Boot_Live
  imports Boot_Safe
begin

text \<open>
  A server that answers every request at once: \<open>new_get\<close> ends with 0. Each turn of the loop makes progress,
  measured by the blocks received, the bytes handed to \<open>inflate\<close>, the bytes consumed and produced by it, and
  whether the buffer is full.
\<close>

definition oack :: string where
  "oack = [NUL, CHR 0x06] @ ''tsize'' @ [NUL] @ ''0'' @ [NUL]"

definition serve :: "string \<Rightarrow> 'i gstate \<Rightarrow> turn_input" where
  "serve f st =
     \<lparr>i_tick = False,
      i_udp = (if g_tftpend st then None
               else Some (if g_lastblk st = - 1 then oack else tftp_data f (nat (g_lastblk st) + 1), 2000))\<rparr>"

definition potential :: "string \<Rightarrow> string \<Rightarrow> 'i gstate \<Rightarrow> nat" where
  "potential c p st = nat (g_lastblk st + 1) + (length c + length (pending st)) + 2 * (length c + length p) + (if g_full st then 0 else 1)"

lemma serve_conforms:
  assumes inv: "get_inv T d c p st" and f: "length (tr_file T) < TFTPBLOCK * 65535"
  shows "conforming (tr_file T) [serve (tr_file T) st]"
proof (cases "g_tftpend st \<or> g_lastblk st = - 1")
  case True
  then show ?thesis by (auto simp: conforming_def serve_def conforms_def oack_def opcode_def byte_at_def SLOT_def TFTPBLOCK_def)
next
  case False
  let ?n = "nat (g_lastblk st)"
  have l: "TFTPBLOCK * ?n \<le> length (tr_file T)" using inv False by (simp add: get_inv_def rx_inv_def)
  then have "?n < 65535" using f by (metis le_less_trans mult_less_cancel1)
  then have "conforms (tr_file T) (tftp_data (tr_file T) (?n + 1))"
    using l unfolding conforms_def by (intro conjI impI exI [of _ "?n + 1"]) (simp_all add: tftp_data_def SLOT_def)
  with False show ?thesis by (simp add: conforming_def serve_def)
qed

lemma in_inv_length: "in_inv T c st \<Longrightarrow> length c + length (pending st) + length (rx_bytes (g_rx st)) = min (TFTPBLOCK * nat (g_lastblk st)) (length (tr_file T))"
  unfolding in_inv_def by (metis add.assoc length_append length_take min.commute)

lemma flush_step_fields:
  "flush_step env st = Inr st' \<Longrightarrow> \<not> g_full st' \<and> g_lastblk st' = g_lastblk st \<and> g_tftpend st' = g_tftpend st \<and> pending st' = pending st"
proof -
  assume "flush_step env st = Inr st'"
  then obtain m where m: "(if g_first st
        then bind_res (read_header (g_out st) (g_save st) (g_vars st)) (\<lambda>(save, v).
               Inr (st\<lparr>g_alloc := drop 2048 (g_out st), g_first := False, g_cp := (g_cp st)\<lparr>b_ptr := 0, b_mask := 1\<rparr>,
                       g_save := save, g_vars := v\<rparr>))
        else bind_res (boot_flush (e_bios env) (e_geom env) (e_nic env) (g_out st) (g_alloc st) (g_size st div 512) 0 (g_cp st)) (\<lambda>cp.
               Inr (st\<lparr>g_cp := cp\<rparr>))) = Inr m"
      "st' = m\<lparr>g_fill := 0, g_full := False, g_end := (if g_end m = 1 then 2 else g_end m)\<rparr>"
    unfolding flush_step_def bind_res_Inr_iff by (auto simp only: sum.inject)
  have "g_lastblk m = g_lastblk st" "g_tftpend m = g_tftpend st" "g_in m = g_in st" "g_cfull m = g_cfull st" "g_compressed m = g_compressed st" "g_end m = g_end st"
    using m(1) by (auto simp: bind_res_Inr_iff split: if_splits)
  then show ?thesis unfolding m(2) by (simp add: pending_def)
qed

text \<open>Work makes progress, or there is nothing to do but to wait for a packet or to return.\<close>

definition idle :: "'i gstate \<Rightarrow> bool" where
  "idle st \<longleftrightarrow> \<not> g_full st \<and> (g_end st = 2 \<and> rx_bytes (g_rx st) = [] \<or> \<not> g_tftpend st \<and> length (rx_bytes (g_rx st)) < INBUFF)"

lemma work_progress:
  assumes T: "transfer_ok T" and inv: "get_inv T d c p st"
  shows "\<exists>st' c' p'. work (tr_env T) st = Some (Inr (st', False)) \<and> get_inv T d c' p' st' \<and> g_lastblk st' = g_lastblk st \<and> g_tftpend st' = g_tftpend st \<and>
     (potential c p st < potential c' p' st' \<or> potential c p st \<le> potential c' p' st' \<and> idle st')"
proof (cases "g_full st")
  case True
  obtain st' where st': "flush_step (tr_env T) st = Inr st'" "get_inv T d c p st'" using flush_step_inv [OF T inv True] by blast
  have "work (tr_env T) st = Some (Inr (st', False))" using True st'(1) by (simp add: work_def ret_run_def)
  with st'(2) flush_step_fields [OF st'(1)] True show ?thesis by (auto simp: potential_def)
next
  case False
  let ?st = "load_input st"
  note l = load_input_inv [OF inv]
  have nf: "\<not> g_full ?st" "g_fill ?st < BUFSIZE" using False l(1,2) by (auto simp: get_inv_def full_inv_def)
  have same: "g_lastblk ?st = g_lastblk st" "g_tftpend ?st = g_tftpend st" "pending ?st = pending st" "potential c p ?st = potential c p st"
    by (simp_all add: load_input_def pending_def potential_def)
  show ?thesis
  proof (cases "g_in ?st = []")
    case ne: False
    obtain st' c' p' where i: "inflate_step (tr_env T) ?st = (st', False)" "get_inv T d c' p' st'" "length c + length p < length c' + length p'"
        "g_rx st' = g_rx ?st" "g_lastblk st' = g_lastblk ?st" "g_tftpend st' = g_tftpend ?st" using inflate_step_inv [OF T l(1) nf(1) ne] by blast
    have w: "work (tr_env T) st = Some (Inr (st', False))" using ne nf(2) False i(1) by (simp add: work_def ret_run_def)
    have "length c + length (pending ?st) = length c' + length (pending st')"
      using in_inv_length [of T c ?st] in_inv_length [of T c' st'] l(1) i(2,4,5) by (simp add: get_inv_def)
    then have "potential c p st < potential c' p' st'" using i(3,5) same by (simp add: potential_def)
    with w i(2,5,6) same show ?thesis by auto
  next
    case True
    then have e: "g_end ?st = 0 \<longrightarrow> g_in ?st = [] \<and> \<not> g_cfull ?st" using l(1,3) by (auto simp: get_inv_def in_inv_def)
    obtain st' where g: "gather_step ?st = Some (Inr st')" "get_inv T d c p st'" "g_full st' = g_full ?st" "g_end st' = g_end ?st"
        "g_lastblk st' = g_lastblk ?st" "g_tftpend st' = g_tftpend ?st"
        "if g_end ?st = 0 \<and> (INBUFF \<le> length (rx_bytes (g_rx ?st)) \<or> g_tftpend ?st \<and> rx_bytes (g_rx ?st) \<noteq> []) then g_cfull st' else st' = ?st"
      using gather_step_inv [OF l(1) e] by blast
    have w: "work (tr_env T) st = Some (Inr (st', False))" using True False g(1) by (simp add: work_def ret_run_def)
    show ?thesis
    proof (cases "g_end ?st = 0 \<and> (INBUFF \<le> length (rx_bytes (g_rx ?st)) \<or> g_tftpend ?st \<and> rx_bytes (g_rx ?st) \<noteq> [])")
      case c: True
      then have "pending st' \<noteq> []" using g(2,4,7) by (auto simp: get_inv_def in_inv_def)
      moreover have "pending ?st = []" using c e by (simp add: pending_def)
      ultimately have "potential c p st < potential c p st'" using g(3,5) same nf(1) by (simp add: potential_def)
      with w g(2,5,6) same show ?thesis by auto
    next
      case c: False
      then have st': "st' = ?st" using g(7) by (simp only: if_False)
      have "idle ?st"
      proof (cases "g_end ?st = 0")
        case False
        then have "g_end ?st = 2" using l(1) nf(1) by (auto simp: get_inv_def full_inv_def)
        moreover have "c = tr_file T" "c @ pending ?st @ rx_bytes (g_rx ?st) = take (TFTPBLOCK * nat (g_lastblk ?st)) (tr_file T)"
          using l(1) False by (auto simp: get_inv_def in_inv_def)
        then have "length c + length (pending ?st @ rx_bytes (g_rx ?st)) \<le> length c" by (metis length_append length_take min.cobounded1)
        then have "rx_bytes (g_rx ?st) = []" by simp
        ultimately show ?thesis using nf(1) by (simp add: idle_def)
      next
        case end0: True
        have "\<not> g_tftpend ?st"
        proof
          assume t: "g_tftpend ?st"
          then have "rx_bytes (g_rx ?st) = []" using c end0 by blast
          moreover have "pending ?st = []" using e end0 by (simp add: pending_def)
          moreover have "length (tr_file T) < TFTPBLOCK * nat (g_lastblk ?st)" using l(1) t by (simp add: get_inv_def rx_inv_def)
          ultimately have "c @ [] = tr_file T" using l(1) by (simp add: get_inv_def in_inv_def)
          moreover have "inflate_run (e_zlib (tr_env T)) (g_z ?st) c p False" using l(1) end0 by (simp add: get_inv_def)
          ultimately show False using transfer_okD(2) [OF T] unfolding inflate_exact_def by blast
        qed
        with c end0 nf(1) show ?thesis by (auto simp: idle_def)
      qed
      with w g(2) st' same show ?thesis by (intro exI [of _ ?st] exI [of _ c] exI [of _ p]) simp
    qed
  qed
qed

lemma handle_packet_next:
  assumes rx: "rx_ok (g_rx st)" "rx_open (g_rx st)" "get_empty (g_rx st) = Some i" and len: "4 \<le> length pkt" "length pkt \<le> SLOT"
    and op: "opcode pkt = 6 \<and> g_lastblk st = - 1 \<or> opcode pkt = 3 \<and> int (byte_at pkt 3 + 256 * byte_at pkt 2) = g_lastblk st + 1"
  shows "\<exists>st'. handle_packet i pkt src st = Inr (Next st') \<and> g_lastblk st' = g_lastblk st + 1 \<and> pending st' = pending st \<and> g_full st' = g_full st"
proof -
  obtain q where q: "rx_store i pkt (g_rx st) = Inr q" using rx.store_bytes [OF rx len(2)] by blast
  obtain r where m: "t_mem (q_buf q ! i) = pkt @ r" using rx_store_mem [OF rx(1,3) q] by blast
  have b: "byte_at (t_mem (q_buf q ! i)) j = byte_at pkt j" if "j < 4" for j using that len(1) by (simp add: m byte_at_prefix)
  from op show ?thesis
  proof
    assume "opcode pkt = 6 \<and> g_lastblk st = - 1"
    then show ?thesis unfolding handle_packet_def q bind_res_simps Let_def using b [of 0] b [of 1] by (simp add: opcode_def send_def pending_def)
  next
    assume "opcode pkt = 3 \<and> int (byte_at pkt 3 + 256 * byte_at pkt 2) = g_lastblk st + 1"
    then show ?thesis unfolding handle_packet_def q bind_res_simps Let_def using b [of 0] b [of 1] b [of 2] b [of 3] by (simp add: opcode_def send_def pending_def)
  qed
qed

lemma turn_progress:
  assumes T: "transfer_ok T" and inv: "get_inv T d c p st" and f: "length (tr_file T) < TFTPBLOCK * 65535"
  shows "(\<exists>st'. turn (tr_env T) (serve (tr_file T) st) st = Some (Inr (Return 0 st'))) \<or>
     (\<exists>st' c' p'. turn (tr_env T) (serve (tr_file T) st) st = Some (Inr (Next st')) \<and> get_inv T d c' p' st' \<and> potential c p st < potential c' p' st')"
proof -
  obtain s1 c1 p1 where w: "work (tr_env T) st = Some (Inr (s1, False))" "get_inv T d c1 p1 s1" "g_lastblk s1 = g_lastblk st" "g_tftpend s1 = g_tftpend st"
      "potential c p st < potential c1 p1 s1 \<or> potential c p st \<le> potential c1 p1 s1 \<and> idle s1"
    using work_progress [OF T inv] by blast
  have t: "turn (tr_env T) (serve (tr_file T) st) st = poll (serve (tr_file T) st) s1" by (simp add: turn_def w(1) serve_def)
  have rx: "rx_ok (g_rx s1)" "\<not> g_tftpend s1 \<Longrightarrow> rx_open (g_rx s1)" using w(2) by (auto simp: get_inv_def rx_inv_def)
  have free: "\<exists>i. get_empty (g_rx s1) = Some i" if "idle s1"
    using that rx.empty_free [OF rx(1)] rx.free_exists [OF rx] by (auto simp: idle_def INBUFF_def NB_BUF_def TFTPBLOCK_def)
  show ?thesis
  proof (cases "g_full s1 \<or> get_empty (g_rx s1) = None")
    case True
    then have "turn (tr_env T) (serve (tr_file T) st) st = Some (Inr (Next s1))" unfolding t by (auto simp: poll_def serve_def ret_run_def)
    moreover have "\<not> idle s1" using True free by (auto simp: idle_def)
    ultimately show ?thesis using w(2,5) by blast
  next
    case False
    then obtain i where i: "get_empty (g_rx s1) = Some i" "\<not> g_full s1" by auto
    show ?thesis
    proof (cases "g_tftpend st")
      case True
      then have "turn (tr_env T) (serve (tr_file T) st) st = Some (Inr (end_of_turn (Next s1)))"
        unfolding t using i w(4) by (simp add: poll_def serve_def ret_run_def)
      moreover have "g_end s1 = 2" if "idle s1" using that True w(4) by (simp add: idle_def)
      ultimately show ?thesis using w(2,5) by (cases "g_end s1 = 2") (auto simp: end_of_turn_def)
    next
      case open_: False
      define pkt where "pkt = (if g_lastblk st = - 1 then oack else tftp_data (tr_file T) (nat (g_lastblk st) + 1))"
      have "i_udp (serve (tr_file T) st) = Some (pkt, 2000)" using open_ by (simp add: serve_def pkt_def)
      then have poll: "poll (serve (tr_file T) st) s1 = bind_run (Some (handle_packet i pkt 2000 s1)) (\<lambda>r. ret_run (end_of_turn r))"
        using i open_ w(4) by (simp add: poll_def) (simp add: serve_def)
      have conf: "conforms (tr_file T) pkt" using serve_conforms [OF inv f] open_ by (simp add: conforming_def serve_def pkt_def)
      have lb: "- 1 \<le> g_lastblk st" "g_lastblk st \<noteq> - 1 \<Longrightarrow> TFTPBLOCK * nat (g_lastblk st) \<le> length (tr_file T)"
        using inv open_ by (auto simp: get_inv_def rx_inv_def)
      have op: "opcode pkt = 6 \<and> g_lastblk s1 = - 1 \<or> opcode pkt = 3 \<and> int (byte_at pkt 3 + 256 * byte_at pkt 2) = g_lastblk s1 + 1"
      proof (cases "g_lastblk st = - 1")
        case True
        then show ?thesis using w(3) by (simp add: pkt_def opcode_def oack_def byte_at_def)
      next
        case False
        then have "nat (g_lastblk st) + 1 < 2 ^ 16" using lb(2) f by (simp add: TFTPBLOCK_def)
        from tftp_data_block [OF this] have b: "byte_at pkt 3 + 256 * byte_at pkt 2 = nat (g_lastblk st) + 1" unfolding pkt_def if_not_P [OF False] .
        have "opcode pkt = 3" using False by (simp add: pkt_def opcode_def byte_at_def tftp_data_def)
        with b False lb(1) w(3) show ?thesis by simp
      qed
      have ln: "4 \<le> length pkt" "length pkt \<le> SLOT" using conf by (auto simp: conforms_def)
      have nt: "\<not> g_tftpend s1" using open_ w(4) by simp
      obtain s2 where s2: "handle_packet i pkt 2000 s1 = Inr (Next s2)" "g_lastblk s2 = g_lastblk s1 + 1" "pending s2 = pending s1" "g_full s2 = g_full s1"
        using handle_packet_next [OF rx(1) rx(2) [OF nt] i(1) ln op, of 2000] by blast
      have i2: "get_inv T d c1 p1 s2" using handle_packet_inv [OF w(2) nt i(1) conf, of 2000] s2(1) by auto
      have "potential c1 p1 s1 < potential c1 p1 s2" using s2(2-4) lb(1) w(3) by (simp add: potential_def)
      then have "potential c p st < potential c1 p1 s2" using w(5) by linarith
      moreover have "turn (tr_env T) (serve (tr_file T) st) st = Some (Inr (end_of_turn (Next s2)))" unfolding t poll by (simp add: s2(1) ret_run_def)
      ultimately show ?thesis using i2 by (cases "g_end s2 = 2") (auto simp: end_of_turn_def)
    qed
  qed
qed

lemma potential_bound:
  assumes "get_inv T d c p st"
  shows "potential c p st \<le> 4 * length (tr_file T) + 2 * length (tr_head T @ tr_data T) + 3"
proof -
  have l: "TFTPBLOCK * (nat (g_lastblk st) - 1) \<le> length (tr_file T)" using assms by (simp add: get_inv_def rx_inv_def)
  have "nat (g_lastblk st) - 1 \<le> TFTPBLOCK * (nat (g_lastblk st) - 1)" by (simp add: TFTPBLOCK_def)
  then have "nat (g_lastblk st + 1) \<le> length (tr_file T) + 2" using l by linarith
  moreover have "length c + length (pending st) \<le> length (tr_file T)" using in_inv_length [of T c st] assms by (simp add: get_inv_def)
  moreover obtain rest where "tr_head T @ tr_data T = p @ rest" using assms by (auto simp: get_inv_def)
  then have "length p \<le> length (tr_head T @ tr_data T)" by simp
  ultimately show ?thesis by (auto simp: potential_def)
qed

lemma get_turns_live:
  assumes T: "transfer_ok T" and f: "length (tr_file T) < TFTPBLOCK * 65535"
  shows "get_inv T d c p st \<Longrightarrow> \<exists>inps st'. conforming (tr_file T) inps \<and> get_turns (tr_env T) file (tr_sect T) inps st = Some (Inr (Return 0 st', []))"
proof (induction "4 * length (tr_file T) + 2 * length (tr_head T @ tr_data T) + 3 - potential c p st" arbitrary: c p st rule: less_induct)
  case less
  let ?i = "serve (tr_file T) st"
  have one: "conforming (tr_file T) [?i]" by (rule serve_conforms [OF less.prems f])
  from turn_progress [OF T less.prems f] show ?case
  proof
    assume "\<exists>st'. turn (tr_env T) ?i st = Some (Inr (Return 0 st'))"
    then obtain st' where "turn (tr_env T) ?i st = Some (Inr (Return 0 st'))" by blast
    with one show ?thesis by (intro exI [of _ "[?i]"] exI [of _ st']) (simp add: ret_run_def)
  next
    assume "\<exists>st' c' p'. turn (tr_env T) ?i st = Some (Inr (Next st')) \<and> get_inv T d c' p' st' \<and> potential c p st < potential c' p' st'"
    then obtain st' c' p' where n: "turn (tr_env T) ?i st = Some (Inr (Next st'))" "get_inv T d c' p' st'" "potential c p st < potential c' p' st'" by blast
    have "4 * length (tr_file T) + 2 * length (tr_head T @ tr_data T) + 3 - potential c' p' st' < 4 * length (tr_file T) + 2 * length (tr_head T @ tr_data T) + 3 - potential c p st"
      using n(3) potential_bound [OF n(2)] by linarith
    from less.hyps [OF this n(2)] obtain inps st2 where "conforming (tr_file T) inps" "get_turns (tr_env T) file (tr_sect T) inps st' = Some (Inr (Return 0 st2, []))" by blast
    then show ?thesis using one n(1) by (intro exI [of _ "?i # inps"] exI [of _ st2]) (auto simp: conforming_def)
  qed
qed

end
