(* ===== verification/Boot_Partcopy.thy ===== *)
theory Boot_Partcopy
  imports Boot_Live
begin

text \<open>
  \<open>partcopy_func\<close> of \<^verbatim>\<open>client/src_revoboot/builtins_lbs.c\<close>, the command of the boot loader that restores a
  partition. The drive of its first argument and its geometry are given, the display is left out.
\<close>

section \<open>Arguments\<close>

definition TAB :: char where "TAB = CHR 0x09"

definition blank :: "char \<Rightarrow> bool" where
  "blank c \<longleftrightarrow> c = CHR '' '' \<or> c = TAB"

text \<open>\<open>skip_to (0, arg)\<close>: behind the first word and the blanks after it.\<close>

definition skip_word :: "string \<Rightarrow> string" where
  "skip_word s = dropWhile blank (dropWhile (\<lambda>c. \<not> blank c) s)"

definition mbr_u32 :: "string \<Rightarrow> nat \<Rightarrow> u32" where
  "mbr_u32 mbr i = of_nat (byte_at mbr i + 256 * byte_at mbr (i + 1) + 65536 * byte_at mbr (i + 2) + 16777216 * byte_at mbr (i + 3))"

text \<open>
  The first sector: for a primary partition (\<open>entry\<close> up to 3) also \<^verbatim>\<open>-first\<close>, the second track, and \<^verbatim>\<open>-next\<close>, the
  track behind the partition of the entry before. \<open>None\<close> when there is no number.
\<close>

definition new_start :: "geometry \<Rightarrow> nat \<Rightarrow> string \<Rightarrow> string \<Rightarrow> (u32 \<times> string) option res" where
  "new_start g entry mbr arg =
     (if entry \<le> 3 \<and> take 6 arg = ''-first'' then Inr (Some (sectors g, arg))
      else if entry \<le> 3 \<and> take 5 arg = ''-next''
      then if sectors g = 0 then Inl DivByZero
           else Inr (Some (sectors g * ((mbr_u32 mbr (446 + 16 * entry - 16 + 8) + mbr_u32 mbr (446 + 16 * entry - 16 + 12) + (sectors g - 1)) div sectors g), arg))
      else Inr (map_option (\<lambda>(n, r). (of_nat n, r)) (safe_parse_maxint arg)))"

section \<open>Names\<close>

text \<open>The loop \<open>for (i = n; i > 0; i--)\<close> that stops at a slash.\<close>

fun slash_down :: "string \<Rightarrow> nat \<Rightarrow> nat" where
  "slash_down path 0 = 0"
| "slash_down path (Suc i) = (if Suc i < length path \<and> path ! Suc i = CHR ''/'' then Suc i else slash_down path i)"

text \<open>The name of the image is the last directory of the path; it goes into 32 bytes.\<close>

definition image_name :: "string \<Rightarrow> string res" where
  "image_name path =
     (let i = slash_down path (length path);
          j = (if i = 0 then - 1 else int (slash_down path (i - 1)));
          n = nat (int i - j)
      in if 32 < n then Inl BufOverflow else Inr (take (n - 1) (drop (nat (j + 1)) path)))"

text \<open>The file with the size of the image, in a buffer of 64 bytes.\<close>

definition size_name :: "string \<Rightarrow> string res" where
  "size_name path =
     (let i = slash_down path (length path)
      in if 64 \<le> length path \<or> 64 < i + 1 + 9 then Inl BufOverflow else Inr (take (i + 1) path @ ''size.txt''))"

text \<open>The number of a file is counted in a number and two digits.\<close>

definition next_count :: "nat \<times> nat \<times> nat \<Rightarrow> nat \<times> nat \<times> nat" where
  "next_count cnt =
     (case cnt of (l1, l2, l3) \<Rightarrow>
        if 57 < l3 + 1 then if 57 < l2 + 1 then (l1 + 1, 48, 48) else (l1, l2 + 1, 48) else (l1, l2, l3 + 1))"

definition boot_name :: "string \<Rightarrow> nat \<times> nat \<times> nat \<Rightarrow> string" where
  "boot_name path cnt = (case cnt of (l1, l2, l3) \<Rightarrow> path @ show_nat l1 @ [char_of l2, char_of l3])"

section \<open>The command\<close>

text \<open>The files; \<open>inps i\<close> is what comes in while file \<open>i\<close> is fetched.\<close>

partial_function (option) partcopy_loop ::
    "('z, 'i) boot_env \<Rightarrow> string \<Rightarrow> nat \<Rightarrow> nat \<times> nat \<times> nat \<Rightarrow> u32 \<Rightarrow> (nat \<Rightarrow> turn_input list) \<Rightarrow> 'i gstate \<Rightarrow> 'i outcome run" where
  "partcopy_loop env path i cnt sect inps st =
     (if int i < v_files (g_vars st)
      then if 64 \<le> length (boot_name path cnt) then Some (Inl BufOverflow)
           else (case new_get env (boot_name path cnt) sect (inps i) st of
                   None \<Rightarrow> None
                 | Some s \<Rightarrow>
                     (case s of
                        Inl e \<Rightarrow> Some (Inl e)
                      | Inr x \<Rightarrow>
                          (case fst x of
                             Return ret st' \<Rightarrow>
                               if ret \<noteq> 0 then Some (Inr (Return 1 st'))
                               else partcopy_loop env path (i + 1) (next_count cnt) (g_save st') inps st'
                           | Next st' \<Rightarrow> Some (Inr (Next st'))
                           | Restart st' \<Rightarrow> Some (Inr (Restart st')))))
      else Some (Inr (Return 0 st)))"

record 'i pstate =
  p_get :: "'i gstate"
  p_sendlog :: bool
  p_total_kbytes :: nat

text \<open>\<open>sz\<close> is what the file with the size holds, if it can be read.\<close>

definition read_size :: "string \<Rightarrow> string option \<Rightarrow> nat \<Rightarrow> nat res" where
  "read_size path sz kb =
     (if kb = 0
      then bind_res (size_name path) (\<lambda>_.
             Inr (case sz of None \<Rightarrow> 0 | Some t \<Rightarrow> (case safe_parse_maxint t of None \<Rightarrow> 0 | Some (n, _) \<Rightarrow> n)))
      else Inr kb)"

definition partcopy_func ::
    "('z, 'i) boot_env \<Rightarrow> nat \<Rightarrow> string \<Rightarrow> string option \<Rightarrow> string \<Rightarrow> (nat \<Rightarrow> turn_input list) \<Rightarrow> 'i pstate \<Rightarrow> ('i outcome \<times> 'i pstate) run" where
  "partcopy_func env entry mbr sz arg inps ps =
     bind_run (Some (new_start (e_geom env) entry mbr (skip_word arg))) (\<lambda>r.
       case r of
         None \<Rightarrow> ret_run (Return 1 (p_get ps), ps)
       | Some (start, arg) \<Rightarrow>
           let path = skip_word arg
           in bind_run (Some (image_name path)) (\<lambda>img.
              bind_run (Some (read_size path sz (p_total_kbytes ps))) (\<lambda>kb.
                let st = (p_get ps)\<lparr>g_vars := \<lparr>v_fat = False, v_ntfs = False, v_files = 1, v_new_len = - 1, v_new_type = - 1\<rparr>\<rparr>;
                    st = (if p_sendlog ps then send (restore_note (e_nic env) img) st else st)
                in bind_run (partcopy_loop env path 0 (0, 48, 48) start inps st) (\<lambda>r.
                     ret_run (r, ps\<lparr>p_sendlog := False, p_total_kbytes := kb\<rparr>)))))"

section \<open>The names of the files\<close>

definition file_count :: "nat \<Rightarrow> nat \<times> nat \<times> nat" where
  "file_count i = (i div 100, 48 + i div 10 mod 10, 48 + i mod 10)"

lemma next_count: "next_count (file_count i) = file_count (i + 1)"
proof -
  obtain a b c where i: "i = 100 * a + 10 * b + c" "b < 10" "c < 10"
  proof
    have "i = 10 * (i div 10) + i mod 10" "i div 10 = 10 * (i div 10 div 10) + i div 10 mod 10" by simp_all
    then show "i = 100 * (i div 10 div 10) + 10 * (i div 10 mod 10) + i mod 10" by linarith
  qed simp_all
  have cnt: "file_count (100 * a + 10 * b + c) = (a, 48 + b, 48 + c)" if "b < 10" "c < 10" for a b c :: nat
  proof -
    have e: "100 * a + 10 * b + c = c + 10 * (b + 10 * a)" by simp
    have "(100 * a + 10 * b + c) div 10 = b + 10 * a" unfolding e using that(2) by simp
    moreover have "(100 * a + 10 * b + c) mod 10 = c" unfolding e mod_mult_self2 using that(2) by simp
    moreover from calculation(1) have "(100 * a + 10 * b + c) div (10 * 10) = a" unfolding div_mult2_eq using that(1) by simp
    ultimately show ?thesis using that by (simp add: file_count_def)
  qed
  consider "c < 9" | "c = 9" "b < 9" | "c = 9" "b = 9" using i by linarith
  then show ?thesis
  proof cases
    case 1
    then show ?thesis using cnt [of b c a] cnt [of b "c + 1" a] i by (simp add: next_count_def)
  next
    case 2
    then show ?thesis using cnt [of b c a] cnt [of "b + 1" 0 a] i by (simp add: next_count_def algebra_simps)
  next
    case 3
    then show ?thesis using cnt [of b c a] cnt [of 0 0 "a + 1"] i by (simp add: next_count_def algebra_simps)
  qed
qed

lemma show_nat_digit: "n < 10 \<Longrightarrow> show_nat n = [char_of (48 + n)]"
  by (subst show_nat.simps) (simp add: digit_char_def)

lemma show_nat_div: "10 \<le> n \<Longrightarrow> show_nat n = show_nat (n div 10) @ [char_of (48 + n mod 10)]"
  by (subst show_nat.simps) (simp add: digit_char_def)

lemma char_of_48: "char_of (48 :: nat) = CHR ''0''"
  by code_simp

lemma boot_name_digits: "boot_name path (file_count i) = path @ pad0 3 (show_nat i)"
proof -
  consider "i < 10" | "10 \<le> i" "i < 100" | "100 \<le> i" by linarith
  then show ?thesis
  proof cases
    case 1
    then have d: "i div 100 = 0" "i div 10 = 0" "i mod 10 = i" by simp_all
    show ?thesis unfolding boot_name_def file_count_def pad0_def d show_nat_digit [OF 1] by (simp add: show_nat_digit numeral_2_eq_2 char_of_48)
  next
    case 2
    then have d: "i div 10 < 10" "i div 100 = 0" "i div 10 mod 10 = i div 10" by simp_all
    show ?thesis unfolding boot_name_def file_count_def pad0_def show_nat_div [OF 2(1)] show_nat_digit [OF d(1)] d(2,3)
      by (simp add: show_nat_digit char_of_48)
  next
    case 3
    then have d: "10 \<le> i div 10" "10 \<le> i" by simp_all
    have e: "show_nat i = show_nat (i div 100) @ [char_of (48 + i div 10 mod 10), char_of (48 + i mod 10)]"
      unfolding show_nat_div [OF d(2)] show_nat_div [OF d(1)] div_mult2_eq [symmetric] by simp
    moreover have "0 < length (show_nat (i div 100))" by simp
    then have "3 \<le> length (show_nat i)" unfolding e by (cases "show_nat (i div 100)") simp_all
    ultimately show ?thesis by (simp add: boot_name_def file_count_def pad0_def)
  qed
qed

end
