(* ===== verification/Boot_Image.thy ===== *)
theory Boot_Image
  imports Boot_Partcopy
begin

text \<open>
  The boot loader restores what the image writer saved: the files of an image as transfers of \<open>new_get\<close>,
  and \<open>partcopy_func\<close> over all of them.
\<close>

section \<open>A file of an image\<close>

text \<open>The end of every stream that \<open>deflate\<close> has finished is reported with its last byte.\<close>

definition zlib_exact :: "('z, 'i) zlib \<Rightarrow> bool" where
  "zlib_exact zl \<longleftrightarrow> (\<forall>z ins outs full. deflate_run zl z ins outs full Finished \<longrightarrow> inflate_exact zl outs)"

definition image_transfer ::
    "('z, 'i) boot_env \<Rightarrow> string \<Rightarrow> string \<Rightarrow> string \<Rightarrow> string \<Rightarrow> nat \<Rightarrow> u32 \<Rightarrow> int \<Rightarrow> int \<Rightarrow> ('z, 'i) transfer" where
  "image_transfer env f tx b disk p0 sect old files =
     \<lparr>tr_env = env, tr_file = f, tr_head = image_header tx b, tr_data = used_data disk p0 (bits_of b), tr_sect = sect,
      tr_lg = length b, tr_old = old, tr_files = files\<rparr>"

lemma transfer_sel [simp]:
  "tr_env (image_transfer env f tx b disk p0 sect old files) = env" "tr_file (image_transfer env f tx b disk p0 sect old files) = f"
  "tr_head (image_transfer env f tx b disk p0 sect old files) = image_header tx b" "tr_sect (image_transfer env f tx b disk p0 sect old files) = sect"
  "tr_data (image_transfer env f tx b disk p0 sect old files) = used_data disk p0 (bits_of b)"
  "tr_lg (image_transfer env f tx b disk p0 sect old files) = length b" "tr_old (image_transfer env f tx b disk p0 sect old files) = old"
  "tr_files (image_transfer env f tx b disk p0 sect old files) = files"
  by (simp_all add: image_transfer_def)

lemma used_room:
  assumes "\<And>j. j < length bs \<Longrightarrow> bs ! j \<Longrightarrow> p + j < n" "p \<le> n"
  shows "p + bits_upto (used_count bs) bs \<le> (n :: nat)"
proof (cases "used_count bs = 0")
  case False
  let ?k = "bits_upto (used_count bs) bs"
  have k: "0 < ?k" "bs ! (?k - 1)" using bits_upto_last [of "used_count bs" bs] False by simp_all
  have "?k \<le> length bs" by (rule bits_upto_le)
  then have "p + (?k - 1) < n" using k by (intro assms(1)) simp_all
  then show ?thesis using k(1) by simp
qed (use assms(2) in simp)

text \<open>The bits of the header are those of the file, followed by unused ones.\<close>

lemma header_tail:
  assumes "length tx \<le> HEADERLG"
  shows "used_count (drop (8 * length b) (header_bits (image_header tx b))) = 0" "take (8 * length b) (header_bits (image_header tx b)) = bits_of b"
    "used_count (header_bits (image_header tx b)) = used_count (bits_of b)"
    "bits_upto (used_count (header_bits (image_header tx b))) (header_bits (image_header tx b)) = bits_upto (used_count (bits_of b)) (bits_of b)"
    "used_area p (header_bits (image_header tx b)) = used_area p (bits_of b)"
proof -
  let ?h = "header_bits (image_header tx b)"
  have hb: "?h = bits_of b @ replicate (8 * (ALLOCLG - length b)) False" using assms by (rule header_bits_image)
  note none = used_replicate_False [of "8 * (ALLOCLG - length b)"]
  show z: "used_count (drop (8 * length b) ?h) = 0" "take (8 * length b) ?h = bits_of b" by (simp_all add: hb none)
  show uc: "used_count ?h = used_count (bits_of b)" by (simp add: hb none)
  show "bits_upto (used_count ?h) ?h = bits_upto (used_count (bits_of b)) (bits_of b)"
    using bits_upto_take [of "8 * length b" ?h "used_count (bits_of b)"] uc by (simp add: hb)
  show "used_area p ?h = used_area p (bits_of b)" using unused_tail(2) [OF z(1), of p] by (simp only: z(2))
qed

definition bits_inside :: "u32 \<Rightarrow> bool list \<Rightarrow> u32 \<Rightarrow> bool" where
  "bits_inside sect bs n \<longleftrightarrow> unat sect \<le> unat n \<and> (\<forall>j < length bs. bs ! j \<longrightarrow> unat sect + j < unat n)"

lemma image_transfer_ok:
  assumes enc: "encodes (e_zlib env) f (image_header (header_text first g (length b)) b @ used_data disk p0 (bits_of b))"
    and env: "zlib_exact (e_zlib env)" "bios_ok (e_bios env) (e_geom env)"
    and clean: "unmarked (first @ g)" and len: "length first < 200" "length g < 400" "length b \<le> ALLOCLG"
    and ok: "sectors_ok disk p0 (bits_of b)" and room: "bits_inside sect (bits_of b) (total_sectors (e_geom env))"
    and blk: "blocks_value (header_text first g (length b)) old files" "blocks_value (header_text first g (length b)) files files"
  shows "transfer_ok (image_transfer env f (header_text first g (length b)) b disk p0 sect old files)"
proof -
  let ?t = "header_text first g (length b)"
  have fit: "length ?t < HEADERLG" by (rule header_fits [OF len])
  then have le: "length ?t \<le> HEADERLG" by simp
  note ht = header_tail [OF le, where b = b]
  have "inflate_exact (e_zlib env) f" using enc env(1) unfolding encodes_def zlib_exact_def by blast
  moreover have "length (used_data disk p0 (bits_of b)) = 512 * used_count (header_bits (image_header ?t b))" using length_used_data [OF ok] ht(3) by simp
  moreover have "unat sect + bits_upto (used_count (bits_of b)) (bits_of b) \<le> unat (total_sectors (e_geom env))"
    using room unfolding bits_inside_def by (intro used_room) auto
  moreover have "length (image_header ?t b) = BUFSIZE" using length_image_header [OF le len(3)] by (simp add: BUFSIZE_def TOTALLG_def)
  moreover have "length b < 2 ^ 31" using len(3) by (simp add: ALLOCLG_def TOTALLG_def HEADERLG_def)
  then have "\<exists>v'. read_header (image_header ?t b) save v = Inr (save + of_nat (8 * length b), v') \<and> v_files v' = files"
    if "v_files v = old \<or> v_files v = files" for save v
    using that blk by (intro read_header_ok [OF clean fit]) auto
  ultimately show ?thesis using enc env(2) unfolding transfer_ok_def transfer_sel ht(4) encodes_def by blast
qed

text \<open>What is on the disk when the last buffer of the file has been written.\<close>

lemma image_done:
  assumes T: "transfer_ok T" and T_def: "T = image_transfer env f tx b disk p0 sect old files" and tx: "length tx \<le> HEADERLG"
    and ok: "sectors_ok disk p0 (bits_of b)" and dn: "done_inv T d st" and d: "512 * unat (total_sectors (e_geom env)) \<le> length d"
  shows "restored disk p0 (bits_of b) d (512 * unat sect) (b_disk (g_cp st))"
proof -
  let ?n = "bits_upto (used_count (bits_of b)) (bits_of b)" and ?p = "512 * unat sect"
  note ht = header_tail [OF tx, where b = b]
  have n: "?n \<le> 8 * length b" using bits_upto_le [of "used_count (bits_of b)" "bits_of b"] by simp
  have tk: "take ?n (header_bits (image_header tx b)) = take ?n (bits_of b)" using arg_cong [OF ht(2), of "take ?n"] n by (simp only: take_take min_absorb1)
  obtain x where cp: "g_cp st = run_boot (take ?n (bits_of b)) (used_data disk p0 (bits_of b)) (disk_start T d x)"
    using dn unfolding done_inv_def disk_after_def T_def transfer_sel ht(4) tk by blast
  have tail: "used_count (drop ?n (bits_of b)) = 0" using unused_after by simp
  have ln: "length (take ?n (bits_of b)) = ?n" using n by simp
  have "boot_fits (e_geom env) (disk_start T d x) ?n" using disk_start_fits [OF T, of d x] d unfolding T_def transfer_sel ht(4) by blast
  then have fits: "boot_fits (e_geom env) (disk_start T d x) (length (take ?n (bits_of b)))" unfolding ln .
  have uc: "512 * used_count (take ?n (bits_of b)) \<le> length (used_data disk p0 (bits_of b))"
    using length_used_data [OF ok] unused_tail(1,3) [OF tail, of disk p0] ok length_used_data [of disk p0 "take ?n (bits_of b)"] by simp
  have s: "b_disk (disk_start T d x) = d" "b_sect (disk_start T d x) = sect" by (simp_all add: disk_start_def T_def)
  have pl: "place (take ?n (bits_of b)) (used_data disk p0 (bits_of b)) (d, ?p) = (b_disk (g_cp st), ?p + 512 * ?n)"
    using run_boot_place [OF fits uc] unfolding s cp [symmetric] ln .
  have sp: "keeps d (b_disk (g_cp st)) (used_area ?p (take ?n (bits_of b)))"
    "\<forall>j < ?n. bits_of b ! j \<longrightarrow> ?p + 512 * j + 512 \<le> length (b_disk (g_cp st)) \<and> sector_at (b_disk (g_cp st)) (?p + 512 * j) = sector_at disk (p0 + 512 * j)"
    using place_spec [OF _ _ pl, of disk p0] ok unused_tail(1,3) [OF tail, of disk p0] ln by auto
  then show ?thesis using unused_tail(2) [OF tail, of ?p] unused_tail(4) [OF tail] by (simp add: restored_def)
qed

section \<open>One file after the other\<close>

definition buffers_ok :: "'i gstate \<Rightarrow> bool" where
  "buffers_ok st \<longleftrightarrow> length (g_out st) = BUFSIZE \<and> length (q_buf (g_rx st)) = NB_BUF \<and> (\<forall>s \<in> set (q_buf (g_rx st)). length (t_mem s) = SLOT)"

text \<open>
  What holds before the files from number \<open>i\<close> on: \<open>n\<close> files are left, they hold the bitmap \<open>bm\<close> from
  sector \<open>sect\<close> on and its sectors of the volume from \<open>p0\<close> on, and the disk is large enough for them.
\<close>

definition files_left :: "('z, 'i) boot_env \<Rightarrow> (nat \<Rightarrow> string) \<Rightarrow> string \<Rightarrow> string list \<Rightarrow> nat \<Rightarrow> nat \<Rightarrow> string \<Rightarrow> string \<Rightarrow> nat \<Rightarrow> u32 \<Rightarrow> 'i gstate \<Rightarrow> bool" where
  "files_left env fs disk files i n first bm p0 sect st \<longleftrightarrow>
     list_all2 (encodes (e_zlib env)) files (file_plain fs disk i n first bm p0) \<and>
     unmarked (first @ fs i) \<and> length first < 200 \<and> sectors_ok disk p0 (bits_of bm) \<and> length bm \<le> n * ALLOCLG \<and>
     buffers_ok st \<and> 512 * unat (total_sectors (e_geom env)) \<le> length (b_disk (g_cp st)) \<and>
     (if n = 0 then v_files (g_vars st) = int i
      else int i < v_files (g_vars st) \<and> unat sect + 8 * ((n - 1) * ALLOCLG) \<le> unat (total_sectors (e_geom env)) \<and>
        (\<forall>j < length (bits_of bm). bits_of bm ! j \<longrightarrow> unat sect + j < unat (total_sectors (e_geom env))) \<and>
        (\<forall>l. blocks_value (header_text first (fs i) l) (v_files (g_vars st)) (int (i + n)) \<and>
             blocks_value (header_text first (fs i) l) (int (i + n)) (int (i + n))))"

definition options_ok :: "(nat \<Rightarrow> string) \<Rightarrow> bool" where
  "options_ok fs \<longleftrightarrow> (\<forall>i. unmarked (fs i) \<and> length (fs i) < 400 \<and> strstr (fs i) ''BLOCKS='' = None)"

definition first_transfer :: "('z, 'i) boot_env \<Rightarrow> (nat \<Rightarrow> string) \<Rightarrow> string \<Rightarrow> string \<Rightarrow> nat \<Rightarrow> nat \<Rightarrow> string \<Rightarrow> string \<Rightarrow> nat \<Rightarrow> u32 \<Rightarrow> 'i gstate \<Rightarrow> ('z, 'i) transfer" where
  "first_transfer env fs disk f i n first bm p0 sect st =
     image_transfer env f (header_text first (fs i) (length (take ALLOCLG bm))) (take ALLOCLG bm) disk p0 sect (v_files (g_vars st)) (int (i + n))"

lemma split_bits: "bits_of bm = bits_of (take ALLOCLG bm) @ bits_of (drop ALLOCLG bm)"
  by (metis append_take_drop_id bits_of_append)

lemma files_left_Suc:
  assumes L: "files_left env fs disk files i (Suc n) first bm p0 sect st"
  obtains f files' where "files = f # files'"
    "encodes (e_zlib env) f (image_header (header_text first (fs i) (length (take ALLOCLG bm))) (take ALLOCLG bm) @ used_data disk p0 (bits_of (take ALLOCLG bm)))"
    "list_all2 (encodes (e_zlib env)) files' (file_plain fs disk (i + 1) n [] (drop ALLOCLG bm) (p0 + 4096 * length (take ALLOCLG bm)))"
  using L by (auto simp: files_left_def list_all2_Cons2 Let_def)

lemma first_transfer_ok:
  assumes env: "zlib_exact (e_zlib env)" "bios_ok (e_bios env) (e_geom env)" and fs: "options_ok fs"
    and L: "files_left env fs disk (f # files') i (Suc n) first bm p0 sect st"
  shows "transfer_ok (first_transfer env fs disk f i (Suc n) first bm p0 sect st)"
    "ready (first_transfer env fs disk f i (Suc n) first bm p0 sect st) (b_disk (g_cp st)) st"
proof -
  let ?b = "take ALLOCLG bm"
  have enc: "encodes (e_zlib env) f (image_header (header_text first (fs i) (length ?b)) ?b @ used_data disk p0 (bits_of ?b))"
    using files_left_Suc [OF L] by blast
  note l = L [unfolded files_left_def]
  have ok: "sectors_ok disk p0 (bits_of ?b)" using l by (simp add: split_bits [of bm] sectors_ok_append)
  have "unat sect + j < unat (total_sectors (e_geom env))" if "j < length (bits_of ?b)" "bits_of ?b ! j" for j
  proof -
    have "j < length (bits_of bm)" "bits_of bm ! j" using that unfolding split_bits [of bm] by (simp_all only: nth_append length_append if_True trans_less_add1)
    then show ?thesis using l by simp
  qed
  moreover have "unat sect \<le> unat (total_sectors (e_geom env))" using l by simp
  ultimately have room: "bits_inside sect (bits_of ?b) (total_sectors (e_geom env))" by (simp add: bits_inside_def)
  show "transfer_ok (first_transfer env fs disk f i (Suc n) first bm p0 sect st)"
    unfolding first_transfer_def using l fs by (intro image_transfer_ok [OF enc env _ _ _ _ ok room]) (auto simp: options_ok_def)
  show "ready (first_transfer env fs disk f i (Suc n) first bm p0 sect st) (b_disk (g_cp st)) st"
    using l by (simp add: ready_def first_transfer_def buffers_ok_def)
qed

lemma area_of_file:
  assumes fs: "options_ok fs" and L: "files_left env fs disk (f # files') i (Suc n) first bm p0 sect st"
  shows "tr_area (first_transfer env fs disk f i (Suc n) first bm p0 sect st) = used_area (512 * unat sect) (bits_of (take ALLOCLG bm))"
    "length (header_text first (fs i) (length (take ALLOCLG bm))) \<le> HEADERLG"
proof -
  have "length (header_text first (fs i) (length (take ALLOCLG bm))) < HEADERLG"
    using fs L by (intro header_fits) (auto simp: files_left_def options_ok_def)
  then show t: "length (header_text first (fs i) (length (take ALLOCLG bm))) \<le> HEADERLG" by simp
  show "tr_area (first_transfer env fs disk f i (Suc n) first bm p0 sect st) = used_area (512 * unat sect) (bits_of (take ALLOCLG bm))"
    unfolding first_transfer_def transfer_sel using header_tail(5) [OF t] .
qed

lemma blocks_value_absent: "strstr g ''BLOCKS='' = None \<Longrightarrow> blocks_value (header_text [] g l) k k"
  using strstr_blocks_absent by (simp add: blocks_value_def)

text \<open>A file that was fetched is on the disk, and the rest of the files is left.\<close>

lemma files_left_next:
  assumes env: "zlib_exact (e_zlib env)" "bios_ok (e_bios env) (e_geom env)" and fs: "options_ok fs"
    and L: "files_left env fs disk (f # files') i (Suc n) first bm p0 sect st"
    and out: "safe_outcome (first_transfer env fs disk f i (Suc n) first bm p0 sect st) (b_disk (g_cp st)) (Return 0 st')"
  shows "files_left env fs disk files' (i + 1) n [] (drop ALLOCLG bm) (p0 + 4096 * length (take ALLOCLG bm)) (g_save st') st'"
    "restored disk p0 (bits_of (take ALLOCLG bm)) (b_disk (g_cp st)) (512 * unat sect) (b_disk (g_cp st'))"
    "length (b_disk (g_cp st')) = length (b_disk (g_cp st))" "0 < n \<Longrightarrow> unat (g_save st') = unat sect + 8 * length (take ALLOCLG bm)"
proof -
  let ?T = "first_transfer env fs disk f i (Suc n) first bm p0 sect st" and ?b = "take ALLOCLG bm" and ?r = "drop ALLOCLG bm"
  note l = L [unfolded files_left_def]
  note T = first_transfer_ok [OF env fs L]
  note a = area_of_file [OF fs L]
  obtain d where d: "length d = length (b_disk (g_cp st))" "keeps (b_disk (g_cp st)) d (tr_area ?T)" "done_inv ?T d st'"
    using out by (auto simp: safe_outcome_def)
  have rd: "ready ?T (b_disk (g_cp st)) st'" using out by (simp add: safe_outcome_def)
  have ok: "sectors_ok disk p0 (bits_of ?b)" "sectors_ok disk (p0 + 4096 * length ?b) (bits_of ?r)"
    using l by (auto simp: split_bits [of bm] sectors_ok_append)
  have rest: "restored disk p0 (bits_of ?b) d (512 * unat sect) (b_disk (g_cp st'))"
    using l d(1) by (intro image_done [OF T(1) _ a(2) ok(1) d(3)]) (auto simp: first_transfer_def)
  show "restored disk p0 (bits_of ?b) (b_disk (g_cp st)) (512 * unat sect) (b_disk (g_cp st'))"
    using rest keeps_trans [OF d(2) [unfolded a(1)], of "b_disk (g_cp st')" "used_area (512 * unat sect) (bits_of ?b)"] by (simp add: restored_def)
  show len: "length (b_disk (g_cp st')) = length (b_disk (g_cp st))" using rd by (simp add: ready_def)
  have sv: "g_save st' = sect + of_nat (8 * length ?b)" and v: "v_files (g_vars st') = int (i + Suc n)"
    using d(3) by (simp_all add: done_inv_def first_transfer_def)
  have lb: "length ?b \<le> ALLOCLG" by simp
  show u: "unat (g_save st') = unat sect + 8 * length ?b" if "0 < n"
  proof -
    have "unat sect + 8 * (n * ALLOCLG) \<le> unat (total_sectors (e_geom env))" using l by simp
    moreover have "8 * length ?b \<le> 8 * (n * ALLOCLG)" using that lb by (cases n) (simp_all add: trans_le_add1)
    ultimately have "unat sect + 8 * length ?b \<le> unat (total_sectors (e_geom env))" by linarith
    then show ?thesis unfolding sv by (rule sect_add)
  qed
  have bits: "unat (g_save st') + j < unat (total_sectors (e_geom env))" if "0 < n" "j < length (bits_of ?r)" "bits_of ?r ! j" for j
  proof -
    have "length (bits_of ?b) + j < length (bits_of bm)" "bits_of bm ! (length (bits_of ?b) + j)"
      using that(2,3) unfolding split_bits [of bm] by (simp_all only: nth_append_length_plus length_append add_less_cancel_left)
    then have "unat sect + (length (bits_of ?b) + j) < unat (total_sectors (e_geom env))" using l by simp
    then show ?thesis using u [OF that(1)] by simp
  qed
  have far: "unat (g_save st') + 8 * ((n - 1) * ALLOCLG) \<le> unat (total_sectors (e_geom env))" if "0 < n"
  proof -
    have "unat sect + 8 * (n * ALLOCLG) \<le> unat (total_sectors (e_geom env))" using l by simp
    moreover have "n * ALLOCLG = ALLOCLG + (n - 1) * ALLOCLG" using that by (cases n) simp_all
    ultimately show ?thesis using u [OF that] lb by linarith
  qed
  have "list_all2 (encodes (e_zlib env)) files' (file_plain fs disk (i + 1) n [] ?r (p0 + 4096 * length ?b))"
    using files_left_Suc [OF L] by blast
  moreover have "unmarked ([] @ fs (i + 1))" "\<And>l k. blocks_value (header_text [] (fs (i + 1)) l) k k"
    using fs blocks_value_absent by (simp_all add: options_ok_def)
  moreover have "buffers_ok st'" using rd by (simp add: ready_def buffers_ok_def)
  ultimately show "files_left env fs disk files' (i + 1) n [] ?r (p0 + 4096 * length ?b) (g_save st') st'"
    using l v ok(2) len bits far by (auto simp: files_left_def)
qed

section \<open>All files\<close>

lemma new_get_safe:
  assumes T: "transfer_ok T" "ready T d st" and fn: "length file < 64" and c: "conforming (tr_file T) inps"
  shows "\<exists>r rest. new_get (tr_env T) file (tr_sect T) inps st = Some (Inr (r, rest)) \<and> safe_outcome T d r"
proof -
  have fl: "length (read_request file) \<le> 2100" using fn by (simp add: read_request_def)
  obtain st1 where st1: "start_get (tr_env T) file (tr_sect T) st = Inr st1" "get_inv T (b_disk (g_cp st)) [] [] st1"
    using start_get_inv [OF T fl] by blast
  have k: "keeps d (b_disk (g_cp st)) (tr_area T)" "length (b_disk (g_cp st)) = length d" using T(2) by (auto simp: ready_def)
  from get_turns_safe [OF T(1) fl st1(2) k c] st1(1) show ?thesis by (auto simp: new_get_def)
qed

lemma new_get_live:
  assumes T: "transfer_ok T" "ready T d st" and fn: "length file < 64" "length (tr_file T) < TFTPBLOCK * 65535"
  shows "\<exists>inps st'. conforming (tr_file T) inps \<and> new_get (tr_env T) file (tr_sect T) inps st = Some (Inr (Return 0 st', []))"
proof -
  have fl: "length (read_request file) \<le> 2100" using fn by (simp add: read_request_def)
  obtain st1 where st1: "start_get (tr_env T) file (tr_sect T) st = Inr st1" "get_inv T (b_disk (g_cp st)) [] [] st1"
    using start_get_inv [OF T fl] by blast
  from get_turns_live [OF T(1) fn(2) st1(2), of "file"] st1(1) show ?thesis by (auto simp: new_get_def)
qed

text \<open>
  What the command has done with the disk \<open>d\<close>: in any case only used sectors were written, and all of them
  when it returns 0. \<open>Next\<close> means that it waits for more packets.
\<close>

definition copied :: "string \<Rightarrow> nat \<Rightarrow> bool list \<Rightarrow> string \<Rightarrow> nat \<Rightarrow> 'i outcome \<Rightarrow> bool" where
  "copied disk p0 bits d p r \<longleftrightarrow>
     (case r of
        Next st \<Rightarrow> length (b_disk (g_cp st)) = length d \<and> keeps d (b_disk (g_cp st)) (used_area p bits)
      | Restart st \<Rightarrow> False
      | Return ret st \<Rightarrow> length (b_disk (g_cp st)) = length d \<and>
          (ret = 0 \<and> restored disk p0 bits d p (b_disk (g_cp st)) \<or> ret = 1 \<and> keeps d (b_disk (g_cp st)) (used_area p bits)))"

lemma copied_append:
  assumes r: "restored disk p0 a d p d1" "length d1 = length d" and c: "copied disk (p0 + 512 * length a) b d1 (p + 512 * length a) x"
  shows "copied disk p0 (a @ b) d p x"
proof -
  have k: "keeps d y (used_area p (a @ b))" if "keeps d1 y (used_area (p + 512 * length a) b)" for y
    using keeps_trans that r(1) by (auto simp: restored_def used_area_append)
  show ?thesis using c r(2) k restored_append [OF r(1)] by (auto simp: copied_def split: outcome.splits)
qed

lemma copied_prefix:
  assumes x: "safe_outcome T d x" "\<And>st. x \<noteq> Return 0 st" and a: "tr_area T = used_area p a"
  shows "copied disk p0 (a @ b) d p x"
proof -
  have "keeps d y (used_area p (a @ b))" if "keeps d y (used_area p a)" for y using that by (auto simp: keeps_def used_area_append)
  then show ?thesis using x a by (auto simp: safe_outcome_def copied_def ready_def split: outcome.splits)
qed

lemma partcopy_loop_safe:
  assumes env: "zlib_exact (e_zlib env)" "bios_ok (e_bios env) (e_geom env)" and fs: "options_ok fs"
  shows "files_left env fs disk files i n first bm p0 sect st \<Longrightarrow> (\<And>j. j < n \<Longrightarrow> length (boot_name path (file_count (i + j))) < 64) \<Longrightarrow>
     (\<And>j. j < n \<Longrightarrow> conforming (files ! j) (inps (i + j))) \<Longrightarrow>
     \<exists>r. partcopy_loop env path i (file_count i) sect inps st = Some (Inr r) \<and>
       copied disk p0 (bits_of bm) (b_disk (g_cp st)) (512 * unat sect) r"
proof (induction n arbitrary: files i first bm p0 sect st)
  case 0
  then show ?case by (subst partcopy_loop.simps) (auto simp: files_left_def copied_def restored_def)
next
  case (Suc n files i first bm p0 sect st)
  obtain f files' where f: "files = f # files'" using files_left_Suc [OF Suc.prems(1)] by blast
  note L = Suc.prems(1) [unfolded f]
  define T where "T = first_transfer env fs disk f i (Suc n) first bm p0 sect st"
  note T = first_transfer_ok [OF env fs L, folded T_def]
  have sel: "tr_env T = env" "tr_file T = f" "tr_sect T = sect" by (simp_all add: T_def first_transfer_def)
  have a: "tr_area T = used_area (512 * unat sect) (bits_of (take ALLOCLG bm))" using area_of_file(1) [OF fs L] by (simp only: T_def)
  have nm: "length (boot_name path (file_count i)) < 64" using Suc.prems(2) [of 0] by simp
  have "conforming (tr_file T) (inps i)" using Suc.prems(3) [of 0] f sel(2) by simp
  from new_get_safe [OF T nm this] obtain r rest where r: "new_get env (boot_name path (file_count i)) sect (inps i) st = Some (Inr (r, rest))"
      "safe_outcome T (b_disk (g_cp st)) r" unfolding sel by blast
  have more: "int i < v_files (g_vars st)" using L by (simp add: files_left_def)
  show ?case
  proof (cases "\<exists>st'. r = Return 0 st'")
    case True
    then obtain st' where st': "r = Return 0 st'" by blast
    note nx = files_left_next [OF env fs L r(2) [unfolded T_def st']]
    have "\<exists>r. partcopy_loop env path (i + 1) (file_count (i + 1)) (g_save st') inps st' = Some (Inr r) \<and>
        copied disk (p0 + 4096 * length (take ALLOCLG bm)) (bits_of (drop ALLOCLG bm)) (b_disk (g_cp st')) (512 * unat (g_save st')) r"
      using Suc.prems(2) [of "Suc _"] Suc.prems(3) [of "Suc _"] f by (intro Suc.IH [OF nx(1)]) simp_all
    then obtain x where x: "partcopy_loop env path (i + 1) (file_count (i + 1)) (g_save st') inps st' = Some (Inr x)"
        "copied disk (p0 + 4096 * length (take ALLOCLG bm)) (bits_of (drop ALLOCLG bm)) (b_disk (g_cp st')) (512 * unat (g_save st')) x" by blast
    have "copied disk p0 (bits_of (take ALLOCLG bm) @ bits_of (drop ALLOCLG bm)) (b_disk (g_cp st)) (512 * unat sect) x"
    proof (cases "n = 0")
      case True
      then have "drop ALLOCLG bm = []" using L by (simp add: files_left_def)
      with x(2) show ?thesis by (intro copied_append [OF nx(2,3)]) (simp add: copied_def restored_def split: outcome.splits)
    next
      case False
      then have "512 * unat (g_save st') = 512 * unat sect + 512 * length (bits_of (take ALLOCLG bm))" using nx(4) by simp
      with x(2) show ?thesis by (intro copied_append [OF nx(2,3)]) simp
    qed
    moreover have "partcopy_loop env path i (file_count i) sect inps st = Some (Inr x)"
      using more nm r(1) st' x(1) by (subst partcopy_loop.simps) (simp add: next_count)
    ultimately show ?thesis unfolding split_bits [of bm] by blast
  next
    case False
    have "\<exists>x. partcopy_loop env path i (file_count i) sect inps st = Some (Inr x) \<and> (x = r)"
      using more nm r False by (subst partcopy_loop.simps) (auto simp: safe_outcome_def split: outcome.splits)
    then show ?thesis using copied_prefix [OF r(2) _ a] False unfolding split_bits [of bm] by blast
  qed
qed

text \<open>A server that answers at once: the inputs \<open>ins\<close> let every file end.\<close>

lemma partcopy_loop_live:
  assumes env: "zlib_exact (e_zlib env)" "bios_ok (e_bios env) (e_geom env)" and fs: "options_ok fs"
  shows "files_left env fs disk files i n first bm p0 sect st \<Longrightarrow> (\<And>j. j < n \<Longrightarrow> length (boot_name path (file_count (i + j))) < 64) \<Longrightarrow>
     \<forall>f \<in> set files. length f < TFTPBLOCK * 65535 \<Longrightarrow>
     \<exists>ins. (\<forall>j < n. conforming (files ! j) (ins j)) \<and>
       (\<forall>inps. (\<forall>j < n. inps (i + j) = ins j) \<longrightarrow> (\<exists>st'. partcopy_loop env path i (file_count i) sect inps st = Some (Inr (Return 0 st'))))"
proof (induction n arbitrary: files i first bm p0 sect st)
  case 0
  then show ?case by (subst partcopy_loop.simps) (auto simp: files_left_def)
next
  case (Suc n files i first bm p0 sect st)
  obtain f files' where f: "files = f # files'" using files_left_Suc [OF Suc.prems(1)] by blast
  note L = Suc.prems(1) [unfolded f]
  define T where "T = first_transfer env fs disk f i (Suc n) first bm p0 sect st"
  note T = first_transfer_ok [OF env fs L, folded T_def]
  have sel: "tr_env T = env" "tr_file T = f" "tr_sect T = sect" by (simp_all add: T_def first_transfer_def)
  have nm: "length (boot_name path (file_count i)) < 64" using Suc.prems(2) [of 0] by simp
  have "length (tr_file T) < TFTPBLOCK * 65535" using Suc.prems(3) f sel(2) by simp
  from new_get_live [OF T nm this] obtain i0 st' where i0: "conforming f i0" "new_get env (boot_name path (file_count i)) sect i0 st = Some (Inr (Return 0 st', []))"
    unfolding sel by blast
  have "safe_outcome T (b_disk (g_cp st)) (Return 0 st')" using new_get_safe [OF T nm, of i0] i0 unfolding sel by auto
  note nx = files_left_next(1) [OF env fs L this [unfolded T_def]]
  have "\<exists>ins. (\<forall>j < n. conforming (files' ! j) (ins j)) \<and> (\<forall>inps. (\<forall>j < n. inps (i + 1 + j) = ins j) \<longrightarrow>
      (\<exists>x. partcopy_loop env path (i + 1) (file_count (i + 1)) (g_save st') inps st' = Some (Inr (Return 0 x))))"
    using Suc.prems(2) [of "Suc _"] Suc.prems(3) f by (intro Suc.IH [OF nx]) simp_all
  then obtain ins where ins: "\<forall>j < n. conforming (files' ! j) (ins j)"
      "\<And>inps. \<forall>j < n. inps (i + 1 + j) = ins j \<Longrightarrow> \<exists>x. partcopy_loop env path (i + 1) (file_count (i + 1)) (g_save st') inps st' = Some (Inr (Return 0 x))" by blast
  have more: "int i < v_files (g_vars st)" using L by (simp add: files_left_def)
  let ?ins = "\<lambda>j. case j of 0 \<Rightarrow> i0 | Suc j \<Rightarrow> ins j"
  have "\<exists>x. partcopy_loop env path i (file_count i) sect inps st = Some (Inr (Return 0 x))" if "\<forall>j < Suc n. inps (i + j) = ?ins j" for inps
  proof -
    have h: "inps i = i0" using that [rule_format, of 0] by simp
    have "\<forall>j < n. inps (i + 1 + j) = ins j" using that [rule_format, of "Suc _"] by simp
    from ins(2) [OF this] show ?thesis using more nm h i0(2) by (subst partcopy_loop.simps) (simp add: next_count)
  qed
  moreover have "\<forall>j < Suc n. conforming (files ! j) (?ins j)" using i0(1) ins(1) f by (auto simp: nth_Cons split: nat.splits)
  ultimately show ?case by blast
qed

section \<open>The command\<close>

text \<open>\<^verbatim>\<open>partcopy (hd0,0) 63 /path/to/image/P1\<close>: the command line with the number of a sector.\<close>

definition copy_args :: "string \<Rightarrow> nat \<Rightarrow> string \<Rightarrow> string" where
  "copy_args dev s path = dev @ '' '' @ show_nat s @ '' '' @ path"

lemma blank_digit: "isdigit c \<Longrightarrow> \<not> blank c \<and> c \<noteq> CHR ''-''"
  by (auto simp: isdigit_def blank_def TAB_def)

lemma copy_args_parsed:
  assumes "\<forall>c \<in> set dev. \<not> blank c" "path = [] \<or> \<not> blank (hd path)" "s < 2 ^ 31"
  shows "new_start g entry mbr (skip_word (copy_args dev s path)) = Inr (Some (of_nat s, '' '' @ path))" "skip_word ('' '' @ path) = path"
proof -
  have sp: "blank (CHR '' '')" by (simp add: blank_def)
  obtain c r where c: "show_nat s = c # r" "isdigit c" using show_nat_nonempty show_nat_digits [of _ s] by (metis list.exhaust list.set_intros(1))
  have "dropWhile (\<lambda>c. \<not> blank c) (dev @ '' '' @ x) = '' '' @ x" for x using assms(1) sp by (induction dev) auto
  then have "skip_word (copy_args dev s path) = show_nat s @ '' '' @ path"
    unfolding skip_word_def copy_args_def using c blank_digit [of c] sp by simp
  moreover have "number_ends ('' '' @ path)" by (simp add: number_ends_def isdigit_def tolower_def isupper_def)
  ultimately show "new_start g entry mbr (skip_word (copy_args dev s path)) = Inr (Some (of_nat s, '' '' @ path))"
    using safe_parse_number [OF assms(3), of "'' '' @ path"] c blank_digit [of c] by (simp add: new_start_def)
  show "skip_word ('' '' @ path) = path" using sp assms(2) by (cases path) (simp_all add: skip_word_def)
qed

definition boot_holds :: "geometry \<Rightarrow> nat \<Rightarrow> string \<Rightarrow> bool" where
  "boot_holds g s bm \<longleftrightarrow> s + 8 * ((block_count bm - 1) * ALLOCLG) \<le> unat (total_sectors g) \<and>
     (\<forall>j < 8 * length bm. bits_of bm ! j \<longrightarrow> s + j < unat (total_sectors g))"

definition names_fit :: "string \<Rightarrow> nat \<Rightarrow> bool" where
  "names_fit path n \<longleftrightarrow> (\<exists>img. image_name path = Inr img) \<and> (\<exists>nm. size_name path = Inr nm) \<and> (\<forall>i < n. length (path @ pad0 3 (show_nat i)) < 64)"

text \<open>The state in which the files are fetched, and what the command makes of the result.\<close>

definition copy_start :: "('z, 'i) boot_env \<Rightarrow> string \<Rightarrow> 'i pstate \<Rightarrow> 'i gstate" where
  "copy_start env img ps =
     (let st = (p_get ps)\<lparr>g_vars := \<lparr>v_fat = False, v_ntfs = False, v_files = 1, v_new_len = - 1, v_new_type = - 1\<rparr>\<rparr>
      in if p_sendlog ps then send (restore_note (e_nic env) img) st else st)"

lemma copy_start_fields:
  "v_files (g_vars (copy_start env img ps)) = 1" "b_disk (g_cp (copy_start env img ps)) = b_disk (g_cp (p_get ps))"
  "buffers_ok (copy_start env img ps) = buffers_ok (p_get ps)"
  by (simp_all add: copy_start_def send_def Let_def buffers_ok_def)

lemma partcopy_func_runs:
  assumes "\<forall>c \<in> set dev. \<not> blank c" "path = [] \<or> \<not> blank (hd path)" "s < 2 ^ 31" "names_fit path n"
  obtains img where "\<And>inps r. partcopy_loop env path 0 (file_count 0) (of_nat s) inps (copy_start env img ps) = Some (Inr r) \<Longrightarrow>
    \<exists>ps'. partcopy_func env entry mbr sz (copy_args dev s path) inps ps = Some (Inr (r, ps'))"
proof -
  note a = copy_args_parsed [OF assms(1-3)]
  obtain img where img: "image_name path = Inr img" using assms(4) by (auto simp: names_fit_def)
  obtain kb where kb: "read_size path sz (p_total_kbytes ps) = Inr kb" using assms(4) by (cases "p_total_kbytes ps = 0") (auto simp: names_fit_def read_size_def)
  show ?thesis
  proof
    fix inps r assume l: "partcopy_loop env path 0 (file_count 0) (of_nat s) inps (copy_start env img ps) = Some (Inr r)"
    have z: "(0, 48, 48) = file_count 0" by (simp add: file_count_def)
    show "\<exists>ps'. partcopy_func env entry mbr sz (copy_args dev s path) inps ps = Some (Inr (r, ps'))"
      unfolding partcopy_func_def a(1) z using l [unfolded copy_start_def Let_def] by (simp add: a(2) [simplified] img kb Let_def) (simp add: ret_run_def)
  qed
qed

lemma image_files_left:
  assumes "options_clean opts info fs" "\<forall>i. strstr (fs i) ''BLOCKS='' = None" "firststring nb_sect (block_count bm) info = Inr first"
    and "sectors_ok disk 0 (bits_of bm)" "length bm < 2 ^ 32" "bm \<noteq> []" "boot_holds (e_geom env) s bm" "s < 2 ^ 31"
    and "buffers_ok st" "512 * unat (total_sectors (e_geom env)) \<le> length (b_disk (g_cp st))" "v_files (g_vars st) = 1"
    and files: "list_all2 (encodes (e_zlib env)) files (file_plain fs disk 0 (block_count bm) first bm 0)"
  shows "options_ok fs" "files_left env fs disk files 0 (block_count bm) first bm 0 (of_nat s) st" "0 < block_count bm"
proof -
  show "options_ok fs" using assms(1,2) filestring_length [of opts _ "fs _"] by (auto simp: options_clean_def options_ok_def)
  have enough: "length bm \<le> block_count bm * ALLOCLG" by (rule block_count_enough)
  then show n: "0 < block_count bm" using assms(6) by (cases "block_count bm") auto
  have first: "unmarked (first @ fs 0)" "length first < 200"
    using firststring_unmarked [OF assms(3), of "fs 0"] assms(1) by (auto simp: options_clean_def)
  have bv: "blocks_value (header_text first (fs 0) l) k (int (block_count bm))" for l k
    using strstr_blocks_present [OF assms(3), of "fs 0" l] block_count_small [OF assms(5)]
    by (auto simp: blocks_value_def number_ends_def isdigit_def tolower_def isupper_def
          intro!: exI [of _ "block_count bm"] exI [of _ "''|'' @ info @ fs 0 @ ''ALLOCTABLELG='' @ show_nat l @ [NL]"])
  have u: "unat (of_nat s :: u32) = s" using assms(8) by (simp add: unat_of_nat take_bit_nat_eq_self)
  show "files_left env fs disk files 0 (block_count bm) first bm 0 (of_nat s) st"
    using assms(4,7,9-11) files enough n first bv by (simp add: files_left_def u boot_holds_def)
qed

section \<open>Properties\<close>


text \<open>
  C5 (\<open>partcopy_func\<close>, \<open>new_get\<close>): and it can be done: when no file has more than 65534 full blocks, so that
  the 16 bits of the block numbers are enough, there are packets with which the command returns 0, and
  then the volume is restored.
\<close>

theorem partcopy_completes:
  assumes "zlib_exact (e_zlib env)" "bios_ok (e_bios env) (e_geom env)"
    and "options_clean opts info fs" "\<forall>i. strstr (fs i) ''BLOCKS='' = None" "firststring nb_sect (block_count bm) info = Inr first"
    and "sectors_ok disk 0 (bits_of bm)" "length bm < 2 ^ 32" "bm \<noteq> []"
    and "boot_holds (e_geom env) s bm" "s < 2 ^ 31" "buffers_ok (p_get ps)"
    and "512 * unat (total_sectors (e_geom env)) \<le> length (b_disk (g_cp (p_get ps)))"
    and "\<forall>c \<in> set dev. \<not> blank c" "path = [] \<or> \<not> blank (hd path)" "names_fit path (block_count bm)"
    and files: "list_all2 (encodes (e_zlib env)) files (file_plain fs disk 0 (block_count bm) first bm 0)" "\<forall>f \<in> set files. length f < TFTPBLOCK * 65535"
  shows "\<exists>inps st ps'. (\<forall>i < length files. conforming (files ! i) (inps i)) \<and>
     partcopy_func env entry mbr sz (copy_args dev s path) inps ps = Some (Inr (Return 0 st, ps')) \<and>
     restored disk 0 (bits_of bm) (b_disk (g_cp (p_get ps))) (512 * s) (b_disk (g_cp st))"
proof -
  obtain img where run: "\<And>inps r. partcopy_loop env path 0 (file_count 0) (of_nat s) inps (copy_start env img ps) = Some (Inr r) \<Longrightarrow>
      \<exists>ps'. partcopy_func env entry mbr sz (copy_args dev s path) inps ps = Some (Inr (r, ps'))"
    using partcopy_func_runs [OF assms(13,14,10,15)] by blast
  note start = image_files_left [OF assms(3-10) _ _ _ files(1), where st = "copy_start env img ps", unfolded copy_start_fields, OF assms(11,12) refl]
  have u: "unat (of_nat s :: u32) = s" using assms(10) by (intro unat_of_nat_small) simp
  have nm: "length (boot_name path (file_count (0 + j))) < 64" if "j < block_count bm" for j
    using assms(15) that by (simp add: boot_name_digits names_fit_def)
  have len: "length files = block_count bm" using list_all2_lengthD [OF files(1)] by simp
  obtain inps where inps: "\<forall>j < block_count bm. conforming (files ! j) (inps j)"
      "\<exists>st. partcopy_loop env path 0 (file_count 0) (of_nat s) inps (copy_start env img ps) = Some (Inr (Return 0 st))"
    using partcopy_loop_live [OF assms(1,2) start(1,2) nm files(2)] by auto
  then obtain st where st: "partcopy_loop env path 0 (file_count 0) (of_nat s) inps (copy_start env img ps) = Some (Inr (Return 0 st))" by blast
  have "restored disk 0 (bits_of bm) (b_disk (g_cp (p_get ps))) (512 * s) (b_disk (g_cp st))"
    using partcopy_loop_safe [OF assms(1,2) start(1,2) nm, where inps = inps] inps(1) st unfolding copy_start_fields u by (auto simp: copied_def)
  with run [OF st] inps(1) len show ?thesis by auto
qed

text \<open>
  C30 (\<open>partcopy_func\<close>): the names the boot loader makes with its own counter of a number and two digits
  are those of \<open>%s%03d\<close>, with which the image writer and the restore program name the files.
\<close>

theorem boot_names: "boot_name path ((next_count ^^ i) (0, 48, 48)) = path @ pad0 3 (show_nat i)"
proof -
  have "(next_count ^^ i) (0, 48, 48) = file_count i"
    by (induction i) (simp_all add: next_count, simp add: file_count_def)
  then show ?thesis by (simp add: boot_name_digits)
qed

text \<open>
  (\<open>save_file\<close>, \<open>new_get\<close>): the 16 bits of the block numbers are enough for every file of an image: with
  the bound that is documented for \<open>deflate\<close> (a thousandth and 12 bytes more than the input) what is
  saved for one bitmap has less than 65535 blocks.
\<close>

theorem image_blocks_suffice:
  assumes "length b \<le> ALLOCLG" "length tx \<le> HEADERLG" "sectors_ok disk p0 (bits_of b)" "n = length (image_header tx b @ used_data disk p0 (bits_of b))"
    "length f \<le> n + n div 1000 + 12"
  shows "length f < TFTPBLOCK * 65535"
proof -
  have "used_count (bits_of b) \<le> 8 * length b" using length_filter_le [of id "bits_of b"] by (simp add: used_count_def)
  then have "n \<le> TOTALLG + 512 * (8 * ALLOCLG)" using assms(1,4) length_used_data [OF assms(3)] length_image_header [OF assms(2,1)] by simp
  then have "n \<le> 90201600" by (simp add: TOTALLG_def ALLOCLG_def HEADERLG_def)
  moreover have "n div 1000 \<le> 90201600 div 1000" by (rule div_le_mono [OF calculation])
  ultimately show ?thesis using assms(5) by (simp add: TFTPBLOCK_def)
qed


section \<open>Witnesses\<close>

lemma stored_exact: "zlib_exact stored_zlib"
  unfolding zlib_exact_def inflate_exact_def
proof (intro allI impI)
  fix z ins outs full z' c p fin w
  assume "deflate_run stored_zlib z ins outs full Finished" and i: "inflate_run stored_zlib z' c p fin" and c: "c @ w = outs"
  from stored_run [OF this(1)] have "outs = stored_enc ins @ [NUL]" by auto
  with c have "c @ w = stored_enc ins @ [NUL]" by simp
  from stored_inflate_run [OF i this] show "fin = (w = [])" by (auto split: if_splits)
qed

definition sample_bios :: bios_calls where
  "sample_bios = \<lparr>int13_extensions = (\<lambda>s n buf disk. (write_at disk (512 * unat s) buf, 0)), int13_standard = (\<lambda>c h s n buf disk. (disk, 1))\<rparr>"

definition sample_boot :: "(string \<times> bool, nat) boot_env" where
  "sample_boot = \<lparr>e_zlib = stored_zlib, e_bios = sample_bios, e_geom = \<lparr>cylinders = 1, heads = 1, sectors = 10, total_sectors = 10, lba = True\<rparr>, e_nic = sample_nic\<rparr>"

definition sample_get :: "nat gstate" where
  "sample_get =
     \<lparr>g_z = 0, g_flush = Z_SYNC_FLUSH, g_in = [], g_out = replicate BUFSIZE NUL, g_fill = 0, g_full = False, g_size = 0, g_compressed = [], g_cfull = False,
      g_rx = rx_init (replicate NB_BUF \<lparr>t_mem = replicate SLOT NUL, t_length = 0, t_next = None\<rparr>), g_first = True, g_alloc = [],
      g_cp = \<lparr>b_sect = 0, b_ptr = 0, b_mask = 1, b_disk = replicate 5120 (CHR ''z''), b_sent = []\<rparr>, g_save = 0,
      g_vars = \<lparr>v_fat = False, v_ntfs = False, v_files = 1, v_new_len = - 1, v_new_type = - 1\<rparr>,
      g_tftpend = False, g_end = 0, g_lastblk = - 1, g_to = 69, g_timeout = 0, g_port = 8192\<rparr>"

definition sample_ps :: "nat pstate" where
  "sample_ps = \<lparr>p_get = sample_get, p_sendlog = True, p_total_kbytes = 0\<rparr>"

lemma sample_bios_ok: "bios_ok (e_bios sample_boot) (e_geom sample_boot)"
proof -
  have "unat (of_nat s :: u64) = s" if "s \<le> 10" for s using that by (simp add: unat_of_nat take_bit_nat_eq_self)
  then show ?thesis by (auto simp: bios_ok_def sample_boot_def sample_bios_def)
qed

lemma sample_boot_facts:
  "e_zlib sample_boot = stored_zlib" "boot_holds (e_geom sample_boot) 2 [CHR 0x05]" "buffers_ok (p_get sample_ps)"
  "512 * unat (total_sectors (e_geom sample_boot)) \<le> length (b_disk (g_cp (p_get sample_ps)))"
  by (simp_all add: sample_boot_def sample_ps_def sample_get_def boot_holds_def sample_blocks buffers_ok_def rx_init_def)

lemma sample_names: "names_fit ''/images/a/P1'' (block_count [CHR 0x05])"
proof -
  have "image_name ''/images/a/P1'' = Inr ''a''" "size_name ''/images/a/P1'' = Inr ''/images/a/size.txt''" by code_simp+
  then show ?thesis by (simp add: names_fit_def sample_blocks show_nat_digit pad0_def)
qed

lemma sample_drive: "\<forall>c \<in> set ''(hd0,0)''. \<not> blank c" "''/images/a/P1'' = [] \<or> \<not> blank (hd ''/images/a/P1'')"
  by (simp_all add: blank_def TAB_def)


theorem partcopy_completes_witness:
  "\<exists>files inps st ps'. (\<forall>i < length files. conforming (files ! i) (inps i)) \<and>
     partcopy_func sample_boot 0 [] None (copy_args ''(hd0,0)'' 2 ''/images/a/P1'') inps sample_ps = Some (Inr (Return 0 st, ps')) \<and>
     restored sample_disk 0 (bits_of [CHR 0x05]) (replicate 5120 (CHR ''z'')) 1024 (b_disk (g_cp st))"
proof -
  have f: "firststring 3 (block_count [CHR 0x05]) ''SWAP=1'' = Inr ''SECTORS=3|BLOCKS=1|SWAP=1''"
    unfolding sample_blocks by (rule sample_first)
  have c: "length (replicate TOTALLG NUL) = TOTALLG" "length [CHR 0x05] < 2 ^ 32" "\<forall>i :: nat. strstr [] ''BLOCKS='' = None" "[CHR 0x05] \<noteq> []" "(2 :: nat) < 2 ^ 31" by simp_all
  note b = sample_boot_facts
  have z: "zlib_ok (e_zlib sample_boot)" "zlib_exact (e_zlib sample_boot)" unfolding b(1) by (rule stored_zlib_ok stored_exact)+
  have d: "b_disk (g_cp (p_get sample_ps)) = replicate 5120 (CHR ''z'')" by (simp add: sample_ps_def sample_get_def)
  obtain files where files: "list_all2 (encodes stored_zlib) files (file_plain (\<lambda>_. []) sample_disk 0 (block_count [CHR 0x05]) ''SECTORS=3|BLOCKS=1|SWAP=1'' [CHR 0x05] 0)"
    using compress_volume_sat [OF stored_zlib_ok level_ok_None sample_options f sample_ok c(1)] by blast
  have small: "\<forall>f \<in> set files. length f < TFTPBLOCK * 65535"
  proof -
    let ?D = "image_header (header_text ''SECTORS=3|BLOCKS=1|SWAP=1'' [] 1) [CHR 0x05] @ used_data sample_disk 0 (bits_of [CHR 0x05])"
    have "file_plain (\<lambda>_. []) sample_disk 0 (block_count [CHR 0x05]) ''SECTORS=3|BLOCKS=1|SWAP=1'' [CHR 0x05] 0 = [?D]"
      unfolding sample_blocks One_nat_def file_plain.simps Let_def by (simp add: ALLOCLG_def TOTALLG_def HEADERLG_def)
    then obtain g where g: "files = [g]" "encodes stored_zlib g ?D" using files by (auto simp: list_all2_Cons2)
    then obtain y full where "deflate_run stored_zlib y ?D g full Finished" by (auto simp: encodes_def)
    from stored_run [OF this] have e: "g = stored_enc ?D @ [NUL]" by auto
    have enc: "length (stored_enc x) = 2 * length x" for x by (induction x) simp_all
    have fit: "length (header_text ''SECTORS=3|BLOCKS=1|SWAP=1'' [] (length [CHR 0x05])) < HEADERLG"
      by (intro header_fits) (simp_all add: ALLOCLG_def TOTALLG_def HEADERLG_def)
    then have "length ?D = TOTALLG + 1024"
      using length_image_header [of "header_text ''SECTORS=3|BLOCKS=1|SWAP=1'' [] 1" "[CHR 0x05]"] length_used_data [OF sample_ok]
      by (simp add: ALLOCLG_def TOTALLG_def HEADERLG_def byte_bits_def used_count_def)
    then show ?thesis unfolding g(1) e using enc [of ?D] by (simp add: TOTALLG_def TFTPBLOCK_def)
  qed
  from partcopy_completes [OF z(2) sample_bios_ok sample_options c(3) f sample_ok c(2,4) b(2) c(5) b(3,4) sample_drive sample_names files [folded b(1)] small, of 0 "[]" None, unfolded d]
  show ?thesis by auto
qed

theorem image_blocks_suffice_witness: "length (replicate 25000 NUL) < TFTPBLOCK * 65535"
proof -
  have l: "length [CHR 0x05] \<le> ALLOCLG" "length ''SWAP=1'' \<le> HEADERLG" by (simp_all add: ALLOCLG_def TOTALLG_def HEADERLG_def)
  have "length (image_header ''SWAP=1'' [CHR 0x05] @ used_data sample_disk 0 (bits_of [CHR 0x05])) = 25088"
    using length_image_header [OF l(2,1)] length_used_data [OF sample_ok] by (simp add: TOTALLG_def byte_bits_def used_count_def)
  then show ?thesis by (intro image_blocks_suffice [OF l sample_ok refl]) simp
qed


end
