(* ===== verification/Boot_Ptabs.thy ===== *)
theory Boot_Ptabs
  imports Boot_Image Ptabs
begin

text \<open>
  \<open>ptabs_func\<close> of \<^verbatim>\<open>client/src_revoboot/builtins_lbs.c\<close>: the boot loader writes the sectors around the partition
  tables back, from the same file as \<open>restore_raw\<close> of the restore program.
\<close>

section \<open>The command\<close>

text \<open>
  \<open>fp\<close> is what is left of the file and \<open>buf\<close> the buffer of 516 bytes, which keeps old bytes when a read is
  short. The result is the disk, what the command returns and the number of sectors it reports.
\<close>

function ptabs_loop :: "bios_calls \<Rightarrow> geometry \<Rightarrow> string \<Rightarrow> string \<Rightarrow> nat \<Rightarrow> string \<Rightarrow> (string \<times> int \<times> nat) res" where
  "ptabs_loop bs g fp buf nb disk =
     (if fp = [] then Inr (disk, 0, nb)
      else let r = take 516 fp; buf = r @ drop (length r) buf
           in bind_res (biosdisk bs g (of_nat (le_nat (take 4 buf))) 1 (take 512 (drop 4 buf)) disk) (\<lambda>(disk, err).
                if err \<noteq> 0 then Inr (disk, 1, nb) else ptabs_loop bs g (drop 516 fp) buf (nb + 1) disk))"
  by pat_completeness auto
termination by (relation "measure (\<lambda>(bs, g, fp, buf, nb, disk). length fp)") auto

declare ptabs_loop.simps [simp del]

definition ptabs_func :: "bios_calls \<Rightarrow> geometry \<Rightarrow> string option \<Rightarrow> string \<Rightarrow> string \<Rightarrow> (string \<times> int \<times> nat) res" where
  "ptabs_func bs g fp buf disk = (case fp of None \<Rightarrow> Inr (disk, 1, 0) | Some f \<Rightarrow> ptabs_loop bs g f buf 0 disk)"

section \<open>Records\<close>

definition on_disk :: "geometry \<Rightarrow> nat list \<Rightarrow> bool" where
  "on_disk g ss \<longleftrightarrow> (\<forall>s \<in> set ss. s < unat (total_sectors g))"

lemma biosdisk_one:
  assumes "bios_ok bs g" "s < unat (total_sectors g)" "512 * unat (total_sectors g) \<le> length disk" "length sec = 512"
  shows "biosdisk bs g (of_nat s) 1 sec disk = Inr (write_at disk (512 * s) sec, 0)"
proof -
  have t: "lba g" "unat (total_sectors g) < 2 ^ 31" using assms(1) by (simp_all add: bios_ok_def)
  then have u: "unat (of_nat s :: u32) = s" using assms(2) by (intro unat_of_nat_small) simp
  have sc: "(scast (of_nat s :: u32) :: u64) = of_nat s" using scast_small [of "of_nat s"] u t(2) assms(2) by simp
  have call: "\<forall>s n buf disk. length buf = 512 * n \<longrightarrow> 512 * n \<le> BUFSIZE \<longrightarrow> s + n \<le> unat (total_sectors g) \<longrightarrow> 512 * unat (total_sectors g) \<le> length disk \<longrightarrow>
      int13_extensions bs (of_nat s) n buf disk = (write_at disk (512 * s) buf, 0)" using assms(1) by (simp add: bios_ok_def)
  show ?thesis unfolding biosdisk_def sc using t(1) call [rule_format, of sec 1 s disk] assms(2-4) by (simp add: BUFSIZE_def)
qed

lemma ptabs_loop_ok:
  assumes bios: "bios_ok bs g"
  shows "has_sectors disk ss \<Longrightarrow> on_disk g ss \<Longrightarrow> 512 * unat (total_sectors g) \<le> length data \<Longrightarrow> length buf = 516 \<Longrightarrow>
   \<exists>data'. ptabs_loop bs g (records disk ss) buf nb data = Inr (data', 0, nb + length ss) \<and> sectors_restored disk ss data data'"
proof (induction ss arbitrary: data buf nb)
  case Nil
  then show ?case by (subst ptabs_loop.simps) (simp add: records_def sectors_restored_def)
next
  case (Cons s ss)
  have s: "s < 2 ^ 32" "512 * s + 512 \<le> length disk" "s < unat (total_sectors g)" "512 * s + 512 \<le> length data"
    using Cons.prems(1-3) by (auto simp: has_sectors_def on_disk_def)
  let ?sec = "sector_at disk (512 * s)"
  let ?r = "le_bytes 4 s @ ?sec"
  let ?d = "write_at data (512 * s) ?sec"
  have l: "length ?sec = 512" using s(2) by (simp add: sector_at_def)
  have rec: "records disk (s # ss) = ?r @ records disk ss" by (simp add: records_def)
  have one: "sectors_restored disk [s] data ?d" using s(2,4) by (intro restored_one)
  then have "512 * unat (total_sectors g) \<le> length ?d" using Cons.prems(3) by (simp add: sectors_restored_def)
  then obtain data' where IH: "ptabs_loop bs g (records disk ss) ?r (nb + 1) ?d = Inr (data', 0, nb + 1 + length ss)" "sectors_restored disk ss ?d data'"
    using Cons.IH [of ?d ?r "nb + 1"] Cons.prems(1,2) l by (auto simp: has_sectors_def on_disk_def)
  have "ptabs_loop bs g (records disk (s # ss)) buf nb data = Inr (data', 0, nb + length (s # ss))"
    unfolding rec using IH(1) l Cons.prems(4) s(1) biosdisk_one [OF bios s(3) Cons.prems(3) l]
    by (subst ptabs_loop.simps) (auto simp: Let_def le_nat_le_bytes)
  moreover have "has_sectors data [s]" using s by (simp add: has_sectors_def)
  then have "sectors_restored disk ([s] @ ss) data data'" by (rule restored_join [OF one IH(2)])
  ultimately show ?case by auto
qed

section \<open>Properties\<close>

text \<open>
  C9 (\<open>save_raw\<close>, \<open>ptabs_func\<close>): the boot loader writes back what the save program collected: whatever ranges
  of sectors were saved, as long as the disk has them, it returns 0, reports their number, makes them
  the same as on the saved disk and keeps every other byte.
\<close>

theorem boot_ptabs_roundtrip:
  assumes "bios_ok bs g" "\<forall>(a, b) \<in> set rs. b \<noteq> - 1" "has_sectors disk (range_sectors rs)" "on_disk g (range_sectors rs)"
    and "512 * unat (total_sectors g) \<le> length data" "length buf = 1024" "length buf' = 516"
  shows "\<exists>f out data'. save_ranges rs buf (disk, p) [] = Some (f, out) \<and>
     ptabs_func bs g (Some out) buf' data = Inr (data', 0, length (range_sectors rs)) \<and> sectors_restored disk (range_sectors rs) data data'"
proof -
  obtain p' where "save_ranges rs buf (disk, p) [] = Some ((disk, p'), records disk (range_sectors rs))"
    using save_ranges_ok [OF assms(2,3,6), of p "[]"] by auto
  with ptabs_loop_ok [OF assms(1,3-5,7), of 0] show ?thesis by (auto simp: ptabs_func_def)
qed

section \<open>Witnesses\<close>

theorem boot_ptabs_roundtrip_witness:
  "\<exists>f out data'. save_ranges [(0, 1), (1, 2)] (replicate 1024 NUL) (sample_disk, 0) [] = Some (f, out) \<and>
     ptabs_func (e_bios sample_boot) (e_geom sample_boot) (Some out) (replicate 516 NUL) (replicate 5120 (CHR ''z'')) = Inr (data', 0, 4) \<and>
     sectors_restored sample_disk [0, 1, 1, 2] (replicate 5120 (CHR ''z'')) data'"
proof -
  have r: "range_sectors [(0, 1), (1, 2)] = [0, 1, 1, 2]" by (simp add: range_sectors_def upt_rec)
  have h: "has_sectors sample_disk [0, 1, 1, 2]" "on_disk (e_geom sample_boot) [0, 1, 1, 2]" by (simp_all add: has_sectors_def sample_disk_def on_disk_def sample_boot_def)
  have l: "512 * unat (total_sectors (e_geom sample_boot)) \<le> length (replicate 5120 (CHR ''z''))" by (simp add: sample_boot_def)
  have c: "\<forall>(a, b) \<in> set [(0, 1), (1, 2 :: u32)]. b \<noteq> - 1" "length (replicate 1024 NUL) = 1024" "length (replicate 516 NUL) = 516" "length [0 :: nat, 1, 1, 2] = 4" by simp_all
  from boot_ptabs_roundtrip [OF sample_bios_ok c(1), unfolded r, OF h l c(2,3), of 0] show ?thesis unfolding c(4) .
qed

end
