(* ===== verification/Grub_Ascii.thy ===== *)
theory Grub_Ascii
  imports LRS_Prelude
begin

text \<open>
  \<open>convert_to_ascii\<close> of \<^verbatim>\<open>client/src_revoboot/char_io.c\<close>, with which all numbers of the boot loader are printed:
  the digits are made from the last to the first and then swapped in place.
\<close>

section \<open>The routine\<close>

definition ascii_digit :: "nat \<Rightarrow> char" where
  "ascii_digit dig = (if 9 < dig then char_of (dig + 97 - 10) else char_of (48 + dig))"

text \<open>The base is 10 or 16; the test of the base makes the recursion total.\<close>

function digits_up :: "nat \<Rightarrow> nat \<Rightarrow> string" where
  "digits_up mult num =
     (if num div mult = 0 \<or> mult < 2 then [ascii_digit (num mod mult)] else ascii_digit (num mod mult) # digits_up mult (num div mult))"
  by pat_completeness auto
termination by (relation "measure snd") (auto simp: div_eq_0_iff)

declare digits_up.simps [simp del]

text \<open>The pointers \<open>ptr2\<close> and \<open>ptr1\<close> move towards each other.\<close>

function reorder :: "string \<Rightarrow> nat \<Rightarrow> nat \<Rightarrow> string" where
  "reorder s p2 p1 = (if p2 < p1 then reorder (s[p1 := s ! p2, p2 := s ! p1]) (p2 + 1) (p1 - 1) else s)"
  by pat_completeness auto
termination by (relation "measure (\<lambda>(s, p2, p1). p1 - p2)") auto

declare reorder.simps [simp del]

definition convert_to_ascii :: "char \<Rightarrow> u32 \<Rightarrow> string" where
  "convert_to_ascii c num =
     (let mult = (if c = CHR ''x'' \<or> c = CHR ''X'' then 16 else 10);
          neg = (num AND 0x80000000 \<noteq> 0 \<and> c = CHR ''d'');
          s = digits_up mult (unat (if neg then NOT num + 1 else num))
      in (if neg then ''-'' else []) @ reorder s 0 (length s - 1))"

section \<open>The order\<close>

lemma reorder_rev:
  "p2 + p1 + 1 = length s \<Longrightarrow> p2 \<le> p1 + 1 \<Longrightarrow>
   reorder s p2 p1 = take p2 s @ rev (take (p1 + 1 - p2) (drop p2 s)) @ drop (p1 + 1) s"
proof (induction "p1 - p2" arbitrary: s p2 p1 rule: less_induct)
  case less
  show ?case
  proof (cases "p2 < p1")
    case True
    let ?t = "s[p1 := s ! p2, p2 := s ! p1]"
    have len: "p1 < length s" using less.prems(1) by simp
    define m where "m = take (p1 - p2 - 1) (drop (p2 + 1) s)"
    have lm: "length m = p1 - p2 - 1" using len True by (simp add: m_def)
    have s: "s = take p2 s @ s ! p2 # m @ s ! p1 # drop (p1 + 1) s"
    proof -
      have "drop (p2 + 1) s = m @ drop (p1 - p2 - 1) (drop (p2 + 1) s)" by (simp only: m_def append_take_drop_id)
      also have "drop (p1 - p2 - 1) (drop (p2 + 1) s) = drop p1 s" using True by simp
      also have "drop p1 s = s ! p1 # drop (p1 + 1) s" using len by (simp add: Cons_nth_drop_Suc)
      finally have "drop (p2 + 1) s = m @ s ! p1 # drop (p1 + 1) s" .
      moreover have "s = take p2 s @ s ! p2 # drop (p2 + 1) s" using True len by (simp add: id_take_nth_drop)
      ultimately show ?thesis by simp
    qed
    have l2: "length (take p2 s) = p2" using True len by simp
    have t: "?t = take p2 s @ s ! p1 # m @ s ! p2 # drop (p1 + 1) s"
    proof -
      have p1: "p2 + 1 + length m = p1" using True lm by simp
      have "(A @ x # m @ y # D)[length A + 1 + length m := x, length A := y] = A @ y # m @ x # D" for A D and x y :: char
        by (simp add: list_update_append)
      from this [of "take p2 s" "s ! p2" "s ! p1" "drop (p1 + 1) s"]
      show ?thesis using arg_cong [OF s, of "\<lambda>l. l[p1 := s ! p2, p2 := s ! p1]"] unfolding l2 p1 by (rule trans [rotated])
    qed
    have IH: "reorder ?t (p2 + 1) (p1 - 1) = take (p2 + 1) ?t @ rev (take (p1 - 1 + 1 - (p2 + 1)) (drop (p2 + 1) ?t)) @ drop (p1 - 1 + 1) ?t"
      using True less.prems by (intro less.hyps) simp_all
    have a: "take (p2 + 1) ?t = take p2 s @ [s ! p1]" "drop (p2 + 1) ?t = m @ s ! p2 # drop (p1 + 1) s" unfolding t using l2 by simp_all
    have b: "p1 - 1 + 1 - (p2 + 1) = length m" "p1 - 1 + 1 = p2 + 1 + length m" using True lm by simp_all
    have c: "drop (p1 - 1 + 1) ?t = s ! p2 # drop (p1 + 1) s"
    proof -
      have "drop (p1 - 1 + 1) ?t = drop (length m) (drop (p2 + 1) ?t)" unfolding drop_drop b(2) by (simp add: add.commute)
      then show ?thesis unfolding a(2) by simp
    qed
    have d: "take (p1 + 1 - p2) (drop p2 s) = s ! p2 # m @ [s ! p1]"
    proof -
      have "drop p2 s = s ! p2 # m @ s ! p1 # drop (p1 + 1) s" using s l2 by (metis append_eq_conv_conj)
      moreover have "p1 + 1 - p2 = Suc (length m + 1)" using True lm by simp
      ultimately show ?thesis by simp
    qed
    have "reorder s p2 p1 = reorder ?t (p2 + 1) (p1 - 1)" using True by (subst reorder.simps) simp
    also have "\<dots> = take p2 s @ rev (take (p1 + 1 - p2) (drop p2 s)) @ drop (p1 + 1) s" unfolding IH a(1) b(1) c a(2) d by simp
    finally show ?thesis .
  next
    case False
    then have "p1 = p2 \<or> p2 = p1 + 1" using less.prems(2) by linarith
    then have "take p2 s @ rev (take (p1 + 1 - p2) (drop p2 s)) @ drop (p1 + 1) s = s"
    proof
      assume p: "p1 = p2"
      then have "take 1 (drop p2 s) = [s ! p2]" using less.prems(1) by (simp add: take_Suc_conv_app_nth)
      then show ?thesis using p less.prems(1) by (simp add: id_take_nth_drop [symmetric])
    qed simp
    then show ?thesis using False by (subst reorder.simps) simp
  qed
qed

lemma reorder_all: "s \<noteq> [] \<Longrightarrow> reorder s 0 (length s - 1) = rev s"
  using reorder_rev [of 0 "length s - 1" s] by simp

lemma digits_up_nonempty: "digits_up mult num \<noteq> []"
  by (subst digits_up.simps) simp

lemma digits_up_decimal: "rev (digits_up 10 n) = show_nat n"
proof (induction n rule: show_nat.induct)
  case (1 n)
  have d: "ascii_digit (n mod 10) = digit_char (n mod 10)" by (simp add: ascii_digit_def digit_char_def)
  show ?case
  proof (cases "n < 10")
    case True
    then show ?thesis using d by (subst digits_up.simps, subst show_nat.simps) simp
  next
    case False
    then have "n div 10 \<noteq> 0" by (simp add: div_eq_0_iff)
    then show ?thesis using 1 False d by (subst digits_up.simps, subst show_nat.simps) simp
  qed
qed

section \<open>Properties\<close>

lemma sint_from_half: "sint (w :: u32) = int (unat w) - (if bit w 31 then 2 ^ 32 else 0)"
  unfolding sint_uint signed_take_bit_eq_take_bit_minus using unsigned_less [of w, where ?'a = int] by (simp add: bit_uint_iff take_bit_int_eq_self_iff)

lemma high_bit: "(w :: u32) AND 0x80000000 \<noteq> 0 \<longleftrightarrow> bit w 31"
proof -
  have e: "(0x80000000 :: u32) = 2 ^ 31" by simp
  show ?thesis unfolding e and_exp_eq_0_iff_not_bit by simp
qed

lemma show_negative: "bit (w :: u32) 31 \<Longrightarrow> show_int (sint w) = ''-'' @ show_nat (unat (- w))"
proof -
  assume b: "bit w 31"
  have u: "unat w < 2 ^ 32" using unsigned_less [of w] by simp
  have "w \<noteq> 0" using b by auto
  then have "0 < unat w" by (simp add: unat_gt_0)
  then have "unat (- w) = 2 ^ 32 - unat w" using unat_sub_if_size [of 0 w] by (simp add: word_size)
  moreover have "nat (- sint w) = 2 ^ 32 - unat w" 
  proof -
    have "- sint w = int (2 ^ 32 - unat w)" unfolding sint_from_half if_P [OF b] of_nat_diff [OF less_imp_le [OF u]] by simp
    then show ?thesis by (simp only: nat_int)
  qed
  ultimately have "nat (- sint w) = unat (- w)" by simp
  moreover have "sint w < 0" unfolding sint_from_half if_P [OF b] using of_nat_less_iff [of "unat w" "2 ^ 32", where ?'a = int] u by simp
  ultimately show ?thesis by (simp add: show_int_def)
qed

text \<open>
  C31 (\<open>convert_to_ascii\<close>): what the boot loader prints for \<open>%d\<close> is the signed decimal number, for every
  value of 32 bits, the smallest one included; for \<open>%u\<close> the unsigned number.
\<close>

theorem convert_decimal: "convert_to_ascii (CHR ''d'') w = show_int (sint w) \<and> convert_to_ascii (CHR ''u'') w = show_nat (unat w)"
proof
  have r: "reorder (digits_up 10 n) 0 (length (digits_up 10 n) - 1) = show_nat n" for n
    using reorder_all [OF digits_up_nonempty] digits_up_decimal by simp
  show "convert_to_ascii (CHR ''u'') w = show_nat (unat w)" using r by (simp add: convert_to_ascii_def Let_def)
  show "convert_to_ascii (CHR ''d'') w = show_int (sint w)"
  proof (cases "bit w 31")
    case True
    have "NOT w + 1 = - w" by (simp add: minus_eq_not_plus_1)
    then show ?thesis using True r [of "unat (- w)"] show_negative [OF True] by (simp add: convert_to_ascii_def high_bit Let_def)
  next
    case False
    then have "show_int (sint w) = show_nat (unat w)" by (simp add: sint_from_half show_int_def)
    then show ?thesis using False r by (simp add: convert_to_ascii_def high_bit Let_def)
  qed
qed

end
