(* ===== verification/Smbios.thy ===== *)
theory Smbios
  imports Grub_Ascii
begin

text \<open>
  The SMBIOS tables in \<^verbatim>\<open>client/src_revoboot/builtins_lbs.c\<close> and the part of the inventory that is made from
  them in \<open>init_bios_info\<close> of \<^verbatim>\<open>client/src_revoboot/common.c\<close>. The memory is a string that starts at the address
  of the tables; places in it are counted from there.
\<close>

section \<open>Memory\<close>

definition peek :: "string \<Rightarrow> nat \<Rightarrow> nat res" where
  "peek m i = (if i < length m then Inr (of_char (m ! i)) else Inl OutOfBounds)"

definition peek16 :: "string \<Rightarrow> nat \<Rightarrow> nat res" where
  "peek16 m i = bind_res (peek m i) (\<lambda>a. bind_res (peek m (i + 1)) (\<lambda>b. Inr (a + 256 * b)))"

section \<open>Finding the tables\<close>

text \<open>The length and the number of the structures, the version, and the cursor of \<open>smbios_get\<close>.\<close>

record smbios =
  sm_len :: nat
  sm_num :: nat
  sm_ver :: nat
  sm_i :: nat
  sm_ptr :: "nat option"

text \<open>\<open>area\<close> is the memory from \<open>0xf0000\<close> to \<open>0xfffff\<close>. The result has the address of the tables.\<close>

function smbios_scan :: "string \<Rightarrow> nat \<Rightarrow> (nat \<times> smbios) option" where
  "smbios_scan area check =
     (if 0xffe0 < check then None
      else if take 4 (drop check area) = ''_SM_'' \<and> take 5 (drop (check + 16) area) = ''_DMI_''
      then let len = le_nat (take 2 (drop (check + 0x16) area)); num = le_nat (take 2 (drop (check + 0x1C) area));
               base = le_nat (take 4 (drop (check + 0x18) area))
           in if base = 0 \<or> num = 0 \<or> len = 0 then smbios_scan area (check + 16)
              else Some (base, \<lparr>sm_len = len, sm_num = num,
                sm_ver = (of_char (area ! (check + 6)) * 10 + of_char (area ! (check + 7))) mod 256, sm_i = 0, sm_ptr = None\<rparr>)
      else smbios_scan area (check + 16))"
  by pat_completeness auto
termination by (relation "measure (\<lambda>(area, check). 0x10000 - check)") auto

definition smbios_init :: "string \<Rightarrow> (nat \<times> smbios) option" where
  "smbios_init area = smbios_scan area 0"

section \<open>Structures\<close>

text \<open>The end of the strings of a structure is the first place with two NUL bytes.\<close>

function skip_strings :: "string \<Rightarrow> nat \<Rightarrow> nat \<Rightarrow> nat res" where
  "skip_strings m len q =
     (if q + 1 < len
      then bind_res (peek m q) (\<lambda>a. bind_res (peek m (q + 1)) (\<lambda>b. if a \<noteq> 0 \<or> b \<noteq> 0 then skip_strings m len (q + 1) else Inr q))
      else Inr q)"
  by pat_completeness auto
termination by (relation "measure (\<lambda>(m, len, q). len - q)") auto

declare skip_strings.simps [simp del]

function smb_find :: "string \<Rightarrow> nat \<Rightarrow> smbios \<Rightarrow> nat \<Rightarrow> nat \<Rightarrow> (nat option \<times> smbios) res" where
  "smb_find m rtype st i p =
     (if i < sm_num st
      then bind_res (peek m p) (\<lambda>type. bind_res (peek m (p + 1)) (\<lambda>len. bind_res (skip_strings m (sm_len st) (p + len)) (\<lambda>nx.
             if type = rtype then Inr (Some p, st\<lparr>sm_i := i + 1, sm_ptr := Some (nx + 2)\<rparr>)
             else smb_find m rtype st (i + 1) (nx + 2))))
      else Inr (None, st\<lparr>sm_i := i, sm_ptr := None\<rparr>))"
  by pat_completeness auto
termination by (relation "measure (\<lambda>(m, rtype, st, i, p). sm_num st - i)") auto

declare smb_find.simps [simp del]

definition smbios_get :: "string \<Rightarrow> nat \<Rightarrow> smbios \<Rightarrow> (nat option \<times> smbios) res" where
  "smbios_get m rtype st =
     (case sm_ptr st of None \<Rightarrow> smb_find m rtype st 0 0 | Some p \<Rightarrow> smb_find m rtype st (sm_i st) p)"

text \<open>The call with the type -1.\<close>

definition smbios_reset :: "smbios \<Rightarrow> smbios" where
  "smbios_reset st = st\<lparr>sm_ptr := None\<rparr>"

section \<open>Strings\<close>

text \<open>A pointer to a string of the program or into the memory.\<close>

datatype smb_text = Lit string | At nat

definition text_of :: "string \<Rightarrow> smb_text \<Rightarrow> string" where
  "text_of m t = (case t of Lit s \<Rightarrow> s | At p \<Rightarrow> cstr (drop p m))"

fun str_walk :: "string \<Rightarrow> nat \<Rightarrow> nat \<Rightarrow> nat res" where
  "str_walk m 0 bp = Inr bp"
| "str_walk m (Suc s) bp =
     (if s = 0 then Inr bp
      else bind_res (peek m bp) (\<lambda>c.
             if c = 0 then Inr bp
             else let l = length (cstr (drop bp m)) in if length m \<le> bp + l then Inl OutOfBounds else str_walk m s (bp + l + 1)))"

text \<open>A \<open>char\<close> is signed, so bytes from 128 on count as less than 32.\<close>

definition dot :: "char \<Rightarrow> char" where
  "dot c = (let n = of_char c :: nat in if n < 32 \<or> 127 \<le> n then CHR ''.'' else c)"

definition smbios_string :: "string \<Rightarrow> nat \<Rightarrow> nat \<Rightarrow> (smb_text \<times> string) res" where
  "smbios_string m dm s =
     (if s = 0 then Inr (Lit ''-'', m)
      else bind_res (peek m (dm + 1)) (\<lambda>lg. bind_res (str_walk m s (dm + lg)) (\<lambda>bp. bind_res (peek m bp) (\<lambda>c.
             if c = 0 then Inr (Lit ''badindex'', m)
             else let t = cstr (drop bp m)
                  in if length m \<le> bp + length t then Inl OutOfBounds
                     else Inr (At bp, take bp m @ map dot t @ drop (bp + length t) m)))))"

section \<open>The inventory\<close>

text \<open>The strings whose numbers are at the places \<open>os\<close> of a structure.\<close>

fun get_strings :: "string \<Rightarrow> nat \<Rightarrow> nat list \<Rightarrow> (smb_text option list \<times> string) res" where
  "get_strings m ptr [] = Inr ([], m)"
| "get_strings m ptr (n # ns) =
     bind_res (peek m (ptr + n)) (\<lambda>s. bind_res (smbios_string m ptr s) (\<lambda>(t, m). bind_res (get_strings m ptr ns) (\<lambda>(ts, m). Inr (Some t # ts, m))))"

text \<open>A pointer that was never set is \<open>None\<close>; the routines leave the pointers alone when there is no structure.\<close>

definition smbios_get_biosinfo :: "string \<Rightarrow> smbios \<Rightarrow> smb_text option list \<Rightarrow> (smb_text option list \<times> string \<times> smbios) res" where
  "smbios_get_biosinfo m st ps =
     bind_res (smbios_get m 0 st) (\<lambda>(r, st).
       case r of None \<Rightarrow> Inr (ps, m, st) | Some ptr \<Rightarrow> bind_res (get_strings m ptr [4, 5, 8]) (\<lambda>(ts, m). Inr (ts, m, st)))"

definition smbios_get_sysinfo :: "string \<Rightarrow> smbios \<Rightarrow> smb_text option list \<Rightarrow> (smb_text option list \<times> nat option \<times> string \<times> smbios) res" where
  "smbios_get_sysinfo m st ps =
     bind_res (smbios_get m 1 st) (\<lambda>(r, st).
       case r of None \<Rightarrow> Inr (ps, None, m, st) | Some ptr \<Rightarrow> bind_res (get_strings m ptr [4, 5, 6, 7]) (\<lambda>(ts, m). Inr (ts, Some (ptr + 8), m, st)))"

definition smbios_get_enclosure :: "string \<Rightarrow> smbios \<Rightarrow> smb_text option list \<Rightarrow> (smb_text option list \<times> string \<times> smbios) res" where
  "smbios_get_enclosure m st ps =
     bind_res (smbios_get m 3 st) (\<lambda>(r, st).
       case r of None \<Rightarrow> Inr (ps, m, st) | Some ptr \<Rightarrow> bind_res (get_strings m ptr [4]) (\<lambda>(ts, m). Inr (ts @ [Some (At (ptr + 5))], m, st)))"

text \<open>Size, form, location, type and speed of a memory device.\<close>

definition smbios_get_memory :: "string \<Rightarrow> smbios \<Rightarrow> ((int \<times> nat \<times> smb_text option \<times> nat \<times> nat) option \<times> string \<times> smbios) res" where
  "smbios_get_memory m st =
     bind_res (smbios_get m 17 st) (\<lambda>(r, st).
       case r of
         None \<Rightarrow> Inr (None, m, st)
       | Some ptr \<Rightarrow>
           bind_res (peek16 m (ptr + 0xC)) (\<lambda>sz. bind_res (peek m (ptr + 0xE)) (\<lambda>form. bind_res (get_strings m ptr [0x10]) (\<lambda>(ts, m).
           bind_res (peek m (ptr + 0x12)) (\<lambda>a. bind_res (peek m (ptr + 0x14)) (\<lambda>b. bind_res (peek m (ptr + 0x13)) (\<lambda>c.
           bind_res (if 23 \<le> sm_ver st then peek16 m (ptr + 0x15) else Inr 0) (\<lambda>speed.
             Inr (Some (if 32768 \<le> sz then - int (sz - 32768) else int sz, form, hd ts, a + 256 * b + 65536 * c, speed), m, st)))))))))"

lemma smb_find_next: "smb_find m t st i p = Inr (Some q, st') \<Longrightarrow> i < sm_i st' \<and> sm_i st' \<le> sm_num st \<and> sm_num st' = sm_num st \<and> sm_ptr st' \<noteq> None"
proof (induction m t st i p rule: smb_find.induct)
  case (1 m t st i p)
  have i: "i < sm_num st" using "1.prems" by (subst (asm) smb_find.simps) (auto split: if_splits)
  then obtain a l nx where r: "peek m p = Inr a" "peek m (p + 1) = Inr l" "skip_strings m (sm_len st) (p + l) = Inr nx"
      "(if a = t then Inr (Some p, st\<lparr>sm_i := i + 1, sm_ptr := Some (nx + 2)\<rparr>) else smb_find m t st (i + 1) (nx + 2)) = Inr (Some q, st')"
    using "1.prems" by (subst (asm) smb_find.simps) (auto simp: bind_res_Inr_iff)
  show ?case
  proof (cases "a = t")
    case True
    then show ?thesis using r(4) i by auto
  next
    case False
    then show ?thesis using "1.IH" [OF i r(1-3) False] r(4) by auto
  qed
qed

definition smb_left :: "smbios \<Rightarrow> nat" where
  "smb_left st = (if sm_ptr st = None then sm_num st + 1 else sm_num st - sm_i st)"

lemma smbios_get_less: "smbios_get m t st = Inr (Some q, st') \<Longrightarrow> smb_left st' < smb_left st"
  using smb_find_next [of m t st] by (fastforce simp: smbios_get_def smb_left_def split: option.splits)

text \<open>\<open>smbios_get_numcpu\<close> starts again at the first structure.\<close>

function count_cpus :: "string \<Rightarrow> smbios \<Rightarrow> nat \<Rightarrow> (nat \<times> smbios) res" where
  "count_cpus m st num =
     bind_res (smbios_get m 4 st) (\<lambda>(r, st'). case r of None \<Rightarrow> Inr (num, st') | Some q \<Rightarrow> count_cpus m st' (num + 1))"
  by pat_completeness auto
termination by (relation "measure (\<lambda>(m, st, num). smb_left st)") (auto dest: smbios_get_less)

declare count_cpus.simps [simp del]

definition smbios_get_numcpu :: "string \<Rightarrow> smbios \<Rightarrow> (nat \<times> smbios) res" where
  "smbios_get_numcpu m st =
     bind_res (count_cpus m (smbios_reset st) 0) (\<lambda>(num, st). Inr (if num = 0 then 1 else num, st))"

text \<open>The lines of the inventory.\<close>

definition show_ptr :: "string \<Rightarrow> smb_text option \<Rightarrow> string res" where
  "show_ptr m p = (case p of None \<Rightarrow> Inl NullDeref | Some t \<Rightarrow> Inr (text_of m t))"

fun show_ptrs :: "string \<Rightarrow> smb_text option list \<Rightarrow> string res" where
  "show_ptrs m [] = Inr []"
| "show_ptrs m (p # ps) = bind_res (show_ptr m p) (\<lambda>a. bind_res (show_ptrs m ps) (\<lambda>b. Inr (a @ (if ps = [] then [] else ''|'') @ b)))"

definition upper_hex :: "nat \<Rightarrow> char" where
  "upper_hex n = ''0123456789ABCDEF'' ! n"

fun show_uuid :: "string \<Rightarrow> nat \<Rightarrow> nat \<Rightarrow> string res" where
  "show_uuid m p 0 = Inr []"
| "show_uuid m p (Suc n) =
     bind_res (peek m p) (\<lambda>c. bind_res (show_uuid m (p + 1) n) (\<lambda>s. Inr (upper_hex (c div 16) # upper_hex (c mod 16) # s)))"

text \<open>The byte a pointer points to.\<close>

definition deref :: "string \<Rightarrow> smb_text option \<Rightarrow> nat res" where
  "deref m p = (case p of None \<Rightarrow> Inl NullDeref | Some (Lit s) \<Rightarrow> Inr (case s of [] \<Rightarrow> 0 | c # _ \<Rightarrow> of_char c) | Some (At q) \<Rightarrow> peek m q)"

function memory_lines :: "string \<Rightarrow> smbios \<Rightarrow> (string \<times> string \<times> smbios) res" where
  "memory_lines m st =
     bind_res (smbios_get_memory m st) (\<lambda>(r, m', st').
       case r of
         None \<Rightarrow> Inr ([], m', st')
       | Some (i1, i2, p1, i3, i4) \<Rightarrow>
           bind_res (show_ptr m' p1) (\<lambda>t. bind_res (memory_lines m' st') (\<lambda>(s, m, st).
             Inr (''SM:'' @ convert_to_ascii (CHR ''d'') (of_int i1) @ '':'' @ convert_to_ascii (CHR ''x'') (of_nat i2) @ '':'' @ t @ '':'' @
                  convert_to_ascii (CHR ''x'') (of_nat i3) @ '':'' @ convert_to_ascii (CHR ''d'') (of_nat i4) @ [NL] @ s, m, st))))"
  by pat_completeness auto
termination
proof (relation "measure (\<lambda>(m, st). smb_left st)", simp)
  fix m st r x m' st' a y b z c w d e t
  assume "smbios_get_memory m st = Inr r" "(x, y) = r" "(m', st') = y" "x = Some z"
  then have "smbios_get_memory m st = Inr (Some z, m', st')" by simp
  then have "\<exists>q. smbios_get m 17 st = Inr (Some q, st')"
    by (auto simp: smbios_get_memory_def bind_res_Inr_iff split: option.splits)
  then have "smb_left st' < smb_left st" using smbios_get_less by blast
  then show "((m', st'), m, st) \<in> measure (\<lambda>(m, st). smb_left st)" by simp
qed

declare memory_lines.simps [simp del]

definition smbios_report :: "string \<Rightarrow> smbios \<Rightarrow> string res" where
  "smbios_report m st =
     bind_res (smbios_get_biosinfo m st [None, None, None]) (\<lambda>(ps, m, st).
     bind_res (show_ptrs m ps) (\<lambda>s0.
     bind_res (smbios_get_sysinfo m st (ps @ [None])) (\<lambda>(ps, uuid, m, st).
     bind_res (show_ptrs m ps) (\<lambda>s1.
     bind_res (case uuid of None \<Rightarrow> Inl NullDeref | Some p \<Rightarrow> show_uuid m p 16) (\<lambda>u.
     bind_res (smbios_get_enclosure m st (take 2 ps)) (\<lambda>(ps, m, st).
     bind_res (show_ptr m (ps ! 0)) (\<lambda>s3.
     bind_res (deref m (ps ! 1)) (\<lambda>b.
     bind_res (memory_lines m st) (\<lambda>(sm, m, st).
     bind_res (smbios_get_numcpu m st) (\<lambda>(n, st).
       Inr (''S0:'' @ s0 @ [NL] @ ''S1:'' @ s1 @ ''|'' @ u @ [NL] @ ''S3:'' @ s3 @ ''|'' @ convert_to_ascii (CHR ''d'') (of_nat (b mod 128)) @ [NL] @ sm @
            ''S4:'' @ convert_to_ascii (CHR ''d'') (of_nat n) @ [NL])))))))))))"

section \<open>A well-formed table\<close>

text \<open>A structure has a formatted part, with its type and its length at the start, and strings.\<close>

type_synonym smb_struct = "string \<times> string list"

definition enc_strings :: "string list \<Rightarrow> string" where
  "enc_strings strs = (if strs = [] then [NUL, NUL] else concat (map (\<lambda>s. s @ [NUL]) strs) @ [NUL])"

definition encode :: "smb_struct \<Rightarrow> string" where
  "encode x = fst x @ enc_strings (snd x)"

definition struct_type :: "smb_struct \<Rightarrow> nat" where
  "struct_type x = of_char (fst x ! 0)"

definition struct_ok :: "smb_struct \<Rightarrow> bool" where
  "struct_ok x \<longleftrightarrow> 4 \<le> length (fst x) \<and> of_char (fst x ! 1) = length (fst x) \<and> (\<forall>s \<in> set (snd x). s \<noteq> [] \<and> NUL \<notin> set s)"

definition table :: "smb_struct list \<Rightarrow> string" where
  "table xs = concat (map encode xs)"

definition table_in :: "smb_struct list \<Rightarrow> string \<Rightarrow> smbios \<Rightarrow> bool" where
  "table_in xs m st \<longleftrightarrow> (\<forall>x \<in> set xs. struct_ok x) \<and> sm_num st = length xs \<and> length (table xs) \<le> sm_len st \<and> (\<exists>r. m = table xs @ r)"

text \<open>The cursor stands in front of structure \<open>k\<close>.\<close>

definition cursor :: "smb_struct list \<Rightarrow> nat \<Rightarrow> smbios \<Rightarrow> bool" where
  "cursor xs k st \<longleftrightarrow> k = 0 \<and> sm_ptr st = None \<or> sm_i st = k \<and> sm_ptr st = Some (length (table (take k xs)))"

abbreviation no_double :: "string \<Rightarrow> bool" where
  "no_double \<equiv> successively (\<lambda>a b. a \<noteq> NUL \<or> b \<noteq> NUL)"

lemma of_char_0: "of_char c = (0 :: nat) \<longleftrightarrow> c = NUL"
  using of_char_eq_iff [of c NUL, where ?'a = nat] by simp

lemma peek_append: "peek (a @ c # r) (length a) = Inr (of_char c)"
  by (simp add: peek_def)

lemma skip_strings_ok:
  "no_double v \<Longrightarrow> v \<noteq> [] \<Longrightarrow> last v = NUL \<Longrightarrow> length a + length v + 1 \<le> len \<Longrightarrow>
   skip_strings (a @ v @ NUL # r) len (length a) = Inr (length a + length v - 1)"
proof (induction v arbitrary: a)
  case (Cons c v)
  show ?case
  proof (cases v)
    case Nil
    then have "c = NUL" using Cons.prems(3) by simp
    then show ?thesis using Nil Cons.prems(4) peek_append [of a NUL "NUL # r"] peek_append [of "a @ [NUL]" NUL r]
      by (subst skip_strings.simps) simp
  next
    case v: (Cons d v')
    have nz: "c \<noteq> NUL \<or> d \<noteq> NUL" "no_double v" using Cons.prems(1) v by auto
    have "skip_strings ((a @ [c]) @ v @ NUL # r) len (length (a @ [c])) = Inr (length (a @ [c]) + length v - 1)"
      using Cons.prems nz(2) v by (intro Cons.IH) auto
    then show ?thesis using nz(1) Cons.prems(4) v peek_append [of a c "v @ NUL # r"] peek_append [of "a @ [c]" d "v' @ NUL # r"]
      by (subst skip_strings.simps) (auto simp: of_char_0)
  qed
qed simp

lemma no_double_plain: "NUL \<notin> set s \<Longrightarrow> no_double (s @ [NUL])"
  by (induction s) (auto simp: successively_Cons)

lemma no_double_strings:
  "\<forall>s \<in> set strs. s \<noteq> [] \<and> NUL \<notin> set s \<Longrightarrow> strs \<noteq> [] \<Longrightarrow>
   no_double (concat (map (\<lambda>s. s @ [NUL]) strs)) \<and> last (concat (map (\<lambda>s. s @ [NUL]) strs)) = NUL \<and> hd (concat (map (\<lambda>s. s @ [NUL]) strs)) \<noteq> NUL"
proof (induction strs)
  case (Cons s strs)
  have s: "s \<noteq> []" "NUL \<notin> set s" "no_double (s @ [NUL])" using Cons.prems(1) no_double_plain by auto
  have h: "hd s \<noteq> NUL" using s(1,2) by (metis hd_in_set)
  show ?case
  proof (cases "strs = []")
    case True
    then show ?thesis using s h by simp
  next
    case False
    then have IH: "no_double (concat (map (\<lambda>s. s @ [NUL]) strs))" "last (concat (map (\<lambda>s. s @ [NUL]) strs)) = NUL" "hd (concat (map (\<lambda>s. s @ [NUL]) strs)) \<noteq> NUL"
      using Cons by auto
    have ne: "concat (map (\<lambda>s. s @ [NUL]) strs) \<noteq> []" using False by (cases strs) auto
    have "no_double ((s @ [NUL]) @ concat (map (\<lambda>s. s @ [NUL]) strs))"
      using s(3) IH(1,3) by (subst successively_append_iff) blast
    then show ?thesis using IH(2) ne s(1) h by simp
  qed
qed simp

lemma skip_structure:
  assumes "struct_ok x" "length a + length (encode x) \<le> len"
  shows "skip_strings (a @ encode x @ r) len (length a + length (fst x)) = Inr (length a + length (encode x) - 2)"
proof -
  obtain v where v: "enc_strings (snd x) = v @ [NUL]" "no_double v" "v \<noteq> []" "last v = NUL"
  proof (cases "snd x = []")
    case True
    then show ?thesis using that [of "[NUL]"] by (simp add: enc_strings_def)
  next
    case False
    then have "concat (map (\<lambda>s. s @ [NUL]) (snd x)) \<noteq> []" by (cases "snd x") auto
    then show ?thesis using that [of "concat (map (\<lambda>s. s @ [NUL]) (snd x))"] False no_double_strings [of "snd x"] assms(1)
      by (simp add: enc_strings_def struct_ok_def)
  qed
  have l: "length (encode x) = length (fst x) + length v + 1" by (simp add: encode_def v(1))
  have "skip_strings ((a @ fst x) @ v @ NUL # r) len (length (a @ fst x)) = Inr (length (a @ fst x) + length v - 1)"
    using v assms(2) l by (intro skip_strings_ok) simp_all
  then show ?thesis using l v(3) by (simp add: encode_def v(1))
qed

section \<open>Going through the table\<close>

lemma table_simps [simp]: "table [] = []" "table (x # xs) = encode x @ table xs" "table (xs @ ys) = table xs @ table ys"
  by (simp_all add: table_def)

lemma peek_structure:
  assumes "struct_ok x"
  shows "peek (a @ encode x @ r) (length a) = Inr (struct_type x)" "peek (a @ encode x @ r) (length a + 1) = Inr (length (fst x))"
proof -
  obtain t l f where f: "fst x = t # l # f" using assms by (cases "fst x"; cases "tl (fst x)") (auto simp: struct_ok_def)
  then have "of_char l = length (fst x)" using assms by (simp add: struct_ok_def)
  then show "peek (a @ encode x @ r) (length a) = Inr (struct_type x)" "peek (a @ encode x @ r) (length a + 1) = Inr (length (fst x))"
    using peek_append [of a t] peek_append [of "a @ [t]" l] f by (simp_all add: encode_def struct_type_def)
qed

lemma length_encode: "struct_ok x \<Longrightarrow> 2 \<le> length (encode x)"
  by (simp add: encode_def struct_ok_def)

lemma smb_find_ok:
  "m = table pre @ table suf @ r \<Longrightarrow> \<forall>x \<in> set suf. struct_ok x \<Longrightarrow> sm_num st = length pre + length suf \<Longrightarrow> length (table (pre @ suf)) \<le> sm_len st \<Longrightarrow>
   (\<exists>j < length suf. struct_type (suf ! j) = t \<and> (\<forall>i < j. struct_type (suf ! i) \<noteq> t) \<and>
      smb_find m t st (length pre) (length (table pre)) =
        Inr (Some (length (table (pre @ take j suf))), st\<lparr>sm_i := length pre + j + 1, sm_ptr := Some (length (table (pre @ take (j + 1) suf)))\<rparr>)) \<or>
   ((\<forall>x \<in> set suf. struct_type x \<noteq> t) \<and>
      smb_find m t st (length pre) (length (table pre)) = Inr (None, st\<lparr>sm_i := sm_num st, sm_ptr := None\<rparr>))"
proof (induction suf arbitrary: pre)
  case Nil
  then show ?case by (subst smb_find.simps) simp
next
  case (Cons x suf)
  have ok: "struct_ok x" using Cons.prems(2) by simp
  have m: "m = table pre @ encode x @ table suf @ r" using Cons.prems(1) by simp
  note pk = peek_structure [OF ok, of "table pre" "table suf @ r", folded m]
  have sk: "skip_strings m (sm_len st) (length (table pre) + length (fst x)) = Inr (length (table pre) + length (encode x) - 2)"
    unfolding m using Cons.prems(4) by (intro skip_structure [OF ok]) simp
  have nx: "length (table pre) + length (encode x) - 2 + 2 = length (table (pre @ [x]))" using length_encode [OF ok] by simp
  have step: "smb_find m t st (length pre) (length (table pre)) =
      (if struct_type x = t then Inr (Some (length (table pre)), st\<lparr>sm_i := length pre + 1, sm_ptr := Some (length (table (pre @ [x])))\<rparr>)
       else smb_find m t st (length (pre @ [x])) (length (table (pre @ [x]))))"
    using Cons.prems(3) pk(1,2) sk nx by (subst smb_find.simps) simp
  show ?case
  proof (cases "struct_type x = t")
    case True
    then show ?thesis using step by (intro disjI1 exI [of _ 0]) simp
  next
    case False
    have "(\<exists>j < length suf. struct_type (suf ! j) = t \<and> (\<forall>i < j. struct_type (suf ! i) \<noteq> t) \<and>
        smb_find m t st (length (pre @ [x])) (length (table (pre @ [x]))) =
          Inr (Some (length (table ((pre @ [x]) @ take j suf))), st\<lparr>sm_i := length (pre @ [x]) + j + 1, sm_ptr := Some (length (table ((pre @ [x]) @ take (j + 1) suf)))\<rparr>)) \<or>
      ((\<forall>x \<in> set suf. struct_type x \<noteq> t) \<and>
        smb_find m t st (length (pre @ [x])) (length (table (pre @ [x]))) = Inr (None, st\<lparr>sm_i := sm_num st, sm_ptr := None\<rparr>))"
      using Cons.prems by (intro Cons.IH) simp_all
    then show ?thesis
    proof
      assume "\<exists>j < length suf. struct_type (suf ! j) = t \<and> (\<forall>i < j. struct_type (suf ! i) \<noteq> t) \<and>
        smb_find m t st (length (pre @ [x])) (length (table (pre @ [x]))) =
          Inr (Some (length (table ((pre @ [x]) @ take j suf))), st\<lparr>sm_i := length (pre @ [x]) + j + 1, sm_ptr := Some (length (table ((pre @ [x]) @ take (j + 1) suf)))\<rparr>)"
      then obtain j where j: "j < length suf" "struct_type (suf ! j) = t" "\<forall>i < j. struct_type (suf ! i) \<noteq> t"
          "smb_find m t st (length (pre @ [x])) (length (table (pre @ [x]))) =
            Inr (Some (length (table ((pre @ [x]) @ take j suf))), st\<lparr>sm_i := length (pre @ [x]) + j + 1, sm_ptr := Some (length (table ((pre @ [x]) @ take (j + 1) suf)))\<rparr>)" by blast
      have "\<forall>i < Suc j. struct_type ((x # suf) ! i) \<noteq> t" using j(3) False by (auto simp: less_Suc_eq_0_disj)
      then show ?thesis using j step False by (intro disjI1 exI [of _ "Suc j"]) simp
    next
      assume "(\<forall>x \<in> set suf. struct_type x \<noteq> t) \<and> smb_find m t st (length (pre @ [x])) (length (table (pre @ [x]))) = Inr (None, st\<lparr>sm_i := sm_num st, sm_ptr := None\<rparr>)"
      then show ?thesis using step False by (intro disjI2) simp
    qed
  qed
qed

text \<open>The cursor in front of structure \<open>k\<close> goes to behind the next one of the type.\<close>

definition next_of :: "smb_struct list \<Rightarrow> nat \<Rightarrow> nat \<Rightarrow> nat \<Rightarrow> bool" where
  "next_of xs t k j \<longleftrightarrow> k \<le> j \<and> j < length xs \<and> struct_type (xs ! j) = t \<and> (\<forall>i. k \<le> i \<longrightarrow> i < j \<longrightarrow> struct_type (xs ! i) \<noteq> t)"

lemma smbios_get_cases:
  assumes T: "table_in xs m st" and c: "cursor xs k st" and k: "k \<le> length xs"
  shows "(\<exists>j st'. next_of xs t k j \<and> smbios_get m t st = Inr (Some (length (table (take j xs))), st') \<and> cursor xs (j + 1) st' \<and> table_in xs m st') \<or>
     ((\<forall>i. k \<le> i \<longrightarrow> i < length xs \<longrightarrow> struct_type (xs ! i) \<noteq> t) \<and> (\<exists>st'. smbios_get m t st = Inr (None, st') \<and> cursor xs 0 st' \<and> table_in xs m st'))"
proof -
  let ?pre = "take k xs" and ?suf = "drop k xs"
  obtain r where r: "m = table xs @ r" using T by (auto simp: table_in_def)
  have xs: "xs = ?pre @ ?suf" by simp
  have lp: "length ?pre = k" using k by simp
  have "table xs = table ?pre @ table ?suf" by (metis append_take_drop_id table_simps(3))
  then have m: "m = table ?pre @ table ?suf @ r" using r by simp
  have g: "smbios_get m t st = smb_find m t st (length ?pre) (length (table ?pre))"
    using c lp by (auto simp: smbios_get_def cursor_def)
  have ok: "\<forall>x \<in> set ?suf. struct_ok x" "sm_num st = length ?pre + length ?suf" "length (table (?pre @ ?suf)) \<le> sm_len st"
    using T k by (auto simp: table_in_def dest: in_set_dropD)
  from smb_find_ok [OF m ok, of t] show ?thesis
  proof
    assume "\<exists>j < length ?suf. struct_type (?suf ! j) = t \<and> (\<forall>i < j. struct_type (?suf ! i) \<noteq> t) \<and>
      smb_find m t st (length ?pre) (length (table ?pre)) =
        Inr (Some (length (table (?pre @ take j ?suf))), st\<lparr>sm_i := length ?pre + j + 1, sm_ptr := Some (length (table (?pre @ take (j + 1) ?suf)))\<rparr>)"
    then obtain j where j: "j < length ?suf" "struct_type (?suf ! j) = t" "\<forall>i < j. struct_type (?suf ! i) \<noteq> t"
        "smbios_get m t st = Inr (Some (length (table (?pre @ take j ?suf))), st\<lparr>sm_i := k + j + 1, sm_ptr := Some (length (table (?pre @ take (j + 1) ?suf)))\<rparr>)"
      using g lp by auto
    have tk: "?pre @ take n ?suf = take (k + n) xs" for n by (simp add: take_add)
    have "struct_type (xs ! i) \<noteq> t" if "k \<le> i" "i < k + j" for i using j(3) [rule_format, of "i - k"] that k by simp
    then have "next_of xs t k (k + j)" using j(1,2) k by (auto simp: next_of_def)
    then show ?thesis using j(4) T unfolding tk by (intro disjI1 exI [of _ "k + j"]) (simp add: cursor_def table_in_def add.assoc)
  next
    assume n: "(\<forall>x \<in> set ?suf. struct_type x \<noteq> t) \<and> smb_find m t st (length ?pre) (length (table ?pre)) = Inr (None, st\<lparr>sm_i := sm_num st, sm_ptr := None\<rparr>)"
    have "struct_type (xs ! i) \<noteq> t" if "k \<le> i" "i < length xs" for i
    proof -
      have "xs ! i = ?suf ! (i - k)" "i - k < length ?suf" using that by simp_all
      then show ?thesis using n by (metis nth_mem)
    qed
    then show ?thesis using n g T by (intro disjI2) (simp add: cursor_def table_in_def)
  qed
qed

lemma filter_from_next:
  assumes "next_of xs t k j"
  shows "filter (\<lambda>x. struct_type x = t) (drop k xs) = xs ! j # filter (\<lambda>x. struct_type x = t) (drop (j + 1) xs)"
proof -
  have j: "k \<le> j" "j < length xs" "struct_type (xs ! j) = t" "\<And>i. k \<le> i \<Longrightarrow> i < j \<Longrightarrow> struct_type (xs ! i) \<noteq> t" using assms by (auto simp: next_of_def)
  have "drop k xs = take (j - k) (drop k xs) @ drop (j - k) (drop k xs)" by (simp only: append_take_drop_id)
  also have "drop (j - k) (drop k xs) = xs ! j # drop (j + 1) xs" using j(1,2) by (simp add: Cons_nth_drop_Suc)
  finally have d: "drop k xs = take (j - k) (drop k xs) @ xs ! j # drop (j + 1) xs" .
  have "struct_type x \<noteq> t" if "x \<in> set (take (j - k) (drop k xs))" for x
  proof -
    obtain n where "n < j - k" "x = xs ! (k + n)" using \<open>x \<in> set (take (j - k) (drop k xs))\<close> j(1,2) by (auto simp: in_set_conv_nth)
    then show ?thesis using j(4) [of "k + n"] by simp
  qed
  then have "filter (\<lambda>x. struct_type x = t) (take (j - k) (drop k xs)) = []" by (simp add: filter_empty_conv)
  then show ?thesis using j(3) by (subst d) simp
qed

lemma count_cpus_ok:
  "table_in xs m st \<Longrightarrow> cursor xs k st \<Longrightarrow> k \<le> length xs \<Longrightarrow>
   \<exists>st'. count_cpus m st num = Inr (num + length (filter (\<lambda>x. struct_type x = 4) (drop k xs)), st') \<and> cursor xs 0 st'"
proof (induction "length xs - k" arbitrary: k st num rule: less_induct)
  case less
  from smbios_get_cases [OF less.prems, of 4] show ?case
  proof
    assume "\<exists>j st'. next_of xs 4 k j \<and> smbios_get m 4 st = Inr (Some (length (table (take j xs))), st') \<and> cursor xs (j + 1) st' \<and> table_in xs m st'"
    then obtain j st' where j: "next_of xs 4 k j" "smbios_get m 4 st = Inr (Some (length (table (take j xs))), st')" "cursor xs (j + 1) st'" "table_in xs m st'" by blast
    have b: "length xs - (j + 1) < length xs - k" "j + 1 \<le> length xs" using j(1) by (auto simp: next_of_def)
    from less.hyps [OF b(1) j(4,3) b(2), of "num + 1"] show ?thesis
      using j(2) filter_from_next [OF j(1)] by (subst count_cpus.simps) auto
  next
    assume n: "(\<forall>i. k \<le> i \<longrightarrow> i < length xs \<longrightarrow> struct_type (xs ! i) \<noteq> 4) \<and> (\<exists>st'. smbios_get m 4 st = Inr (None, st') \<and> cursor xs 0 st' \<and> table_in xs m st')"
    have "struct_type x \<noteq> 4" if "x \<in> set (drop k xs)" for x
    proof -
      obtain i where "i < length xs - k" "x = xs ! (k + i)" using \<open>x \<in> set (drop k xs)\<close> by (auto simp: in_set_conv_nth)
      then show ?thesis using n by simp
    qed
    then have "filter (\<lambda>x. struct_type x = 4) (drop k xs) = []" by (simp add: filter_empty_conv)
    then show ?thesis using n by (subst count_cpus.simps) auto
  qed
qed

lemma str_walk_ok:
  "\<forall>s \<in> set strs. s \<noteq> [] \<and> NUL \<notin> set s \<Longrightarrow>
   str_walk (a @ concat (map (\<lambda>s. s @ [NUL]) strs) @ NUL # r) (Suc n) (length a) =
     Inr (length (a @ concat (map (\<lambda>s. s @ [NUL]) (take n strs))))"
proof (induction n arbitrary: a strs)
  case (Suc n)
  show ?case
  proof (cases strs)
    case Nil
    then show ?thesis using peek_append [of a NUL r] by simp
  next
    case (Cons s ss)
    then have s: "s \<noteq> []" "NUL \<notin> set s" using Suc.prems by auto
    obtain c s' where cs: "s = c # s'" "c \<noteq> NUL" using s by (cases s) auto
    let ?m = "a @ concat (map (\<lambda>s. s @ [NUL]) strs) @ NUL # r"
    have m: "?m = (a @ s @ [NUL]) @ concat (map (\<lambda>s. s @ [NUL]) ss) @ NUL # r" by (simp add: Cons)
    have d: "cstr (drop (length a) ?m) = s" using s(2) cstr_append_NUL [of s] by (simp add: Cons)
    have "str_walk ((a @ s @ [NUL]) @ concat (map (\<lambda>s. s @ [NUL]) ss) @ NUL # r) (Suc n) (length (a @ s @ [NUL])) =
        Inr (length ((a @ s @ [NUL]) @ concat (map (\<lambda>s. s @ [NUL]) (take n ss))))"
      using Suc.prems Cons by (intro Suc.IH) simp
    then have IH: "str_walk ?m (Suc n) (length a + length s + 1) = Inr (length (a @ concat (map (\<lambda>s. s @ [NUL]) (take (Suc n) strs))))"
      unfolding m by (simp add: Cons)
    have pk: "peek ?m (length a) = Inr (of_char c)" using peek_append [of a c] cs(1) by (simp add: Cons)
    have ln: "\<not> length ?m \<le> length a + length s" by (simp add: Cons)
    show ?thesis using IH pk ln d cs(2) of_char_0 [of c] unfolding str_walk.simps(2) [of ?m "Suc n"] Let_def by (simp del: str_walk.simps)
  qed
qed simp

definition plain_strings :: "smb_struct \<Rightarrow> bool" where
  "plain_strings x \<longleftrightarrow> (\<forall>s \<in> set (snd x). map dot s = s)"

lemma smbios_string_cases:
  assumes "struct_ok x" "m = a @ encode x @ r"
  shows "\<exists>t m'. smbios_string m (length a) n = Inr (t, m') \<and>
     text_of m' t = (if n = 0 then ''-'' else if n \<le> length (snd x) then map dot (snd x ! (n - 1)) else ''badindex'') \<and>
     (plain_strings x \<longrightarrow> m' = m)"
proof (cases n)
  case 0
  then show ?thesis by (simp add: smbios_string_def text_of_def)
next
  case (Suc k)
  let ?a = "a @ fst x" and ?cat = "\<lambda>ss. concat (map (\<lambda>s. s @ [NUL]) ss)"
  have strs: "\<forall>s \<in> set (snd x). s \<noteq> [] \<and> NUL \<notin> set s" using assms(1) by (simp add: struct_ok_def)
  obtain r' where m: "m = ?a @ ?cat (snd x) @ NUL # r'" using assms(2) by (cases "snd x = []") (auto simp: encode_def enc_strings_def)
  have lg: "peek m (length a + 1) = Inr (length (fst x))" using peek_structure(2) [OF assms(1), of a r] assms(2) by simp
  define bp where "bp = length (?a @ ?cat (take k (snd x)))"
  have w: "str_walk m n (length a + length (fst x)) = Inr bp" using str_walk_ok [OF strs, of ?a r' k] Suc by (simp add: m bp_def)
  show ?thesis
  proof (cases "n \<le> length (snd x)")
    case True
    let ?s = "snd x ! k"
    have k: "k < length (snd x)" using True Suc by simp
    have s: "?s \<noteq> []" "NUL \<notin> set ?s" using strs k by auto
    have "?cat (snd x) = ?cat (take k (snd x)) @ ?s @ [NUL] @ ?cat (drop (Suc k) (snd x))"
      using k by (subst id_take_nth_drop [of k "snd x"]) simp_all
    then have m2: "m = (?a @ ?cat (take k (snd x))) @ ?s @ NUL # (?cat (drop (Suc k) (snd x)) @ NUL # r')" using m by simp
    obtain c s' where c: "?s = c # s'" "c \<noteq> NUL" using s by (cases ?s) auto
    have pk: "peek m bp = Inr (of_char c)" using peek_append [of "?a @ ?cat (take k (snd x))" c] unfolding m2 c(1) bp_def by simp
    have t: "cstr (drop bp m) = ?s" "\<not> length m \<le> bp + length ?s" "take bp m = ?a @ ?cat (take k (snd x))"
      "drop (bp + length ?s) m = NUL # (?cat (drop (Suc k) (snd x)) @ NUL # r')"
      using cstr_append_NUL [OF s(2)] unfolding m2 bp_def by simp_all
    have nd: "NUL \<notin> set (map dot ?s)" using s(2) by (auto simp: dot_def Let_def)
    have "smbios_string m (length a) n = Inr (At bp, take bp m @ map dot ?s @ drop (bp + length ?s) m)"
      using Suc lg w pk t(1,2) c(2) of_char_0 [of c] by (simp add: smbios_string_def Let_def)
    moreover have "text_of (take bp m @ map dot ?s @ drop (bp + length ?s) m) (At bp) = map dot ?s"
      using cstr_append_NUL [OF nd] unfolding t(3,4) by (simp add: text_of_def bp_def)
    moreover have "take bp m @ map dot ?s @ drop (bp + length ?s) m = m" if "plain_strings x"
    proof -
      have "map dot ?s = ?s" using that k by (simp add: plain_strings_def)
      then show ?thesis unfolding t(3,4) using m2 by simp
    qed
    ultimately show ?thesis using True Suc by auto
  next
    case False
    then have "m = (?a @ ?cat (take k (snd x))) @ NUL # r'" using m Suc by simp
    then have "peek m bp = Inr 0" using peek_append [of "?a @ ?cat (take k (snd x))" NUL r'] by (simp add: bp_def)
    then show ?thesis using False Suc lg w by (simp add: smbios_string_def text_of_def)
  qed
qed

lemma get_strings_plain:
  assumes "struct_ok x" "m = a @ encode x @ r" "plain_strings x" "\<forall>n \<in> set ns. n < length (fst x)"
  shows "\<exists>ts. get_strings m (length a) ns = Inr (map Some ts, m)"
  using assms(4)
proof (induction ns)
  case (Cons n ns)
  obtain s where s: "peek m (length a + n) = Inr s" using Cons.prems by (simp add: assms(2) peek_def encode_def nth_append)
  obtain t where "smbios_string m (length a) s = Inr (t, m)" using smbios_string_cases [OF assms(1,2), of s] assms(3) by auto
  with s Cons show ?case by (auto intro: exI [of _ "t # _"])
qed simp

lemma show_ptrs_Some: "\<exists>s. show_ptrs m (map Some ts) = Inr s"
  by (induction ts) (auto simp: show_ptr_def)

lemma show_ptrs_None: "show_ptrs m (map Some ts @ [None]) = Inl NullDeref"
  by (induction ts) (auto simp: show_ptr_def)

section \<open>Properties\<close>

text \<open>
  C26 (\<open>smbios_get\<close>): on a well-formed table, with the cursor in front of structure \<open>k\<close>, the routine gives the
  next structure of the type and moves the cursor behind it; when there is none it says so and goes back
  to the start. It never reads outside the table.
\<close>

theorem smbios_get_finds:
  assumes "table_in xs m st" "cursor xs k st" "k \<le> length xs"
  shows "\<exists>r st'. smbios_get m t st = Inr (r, st') \<and> table_in xs m st' \<and>
     (case r of
        None \<Rightarrow> (\<forall>i. k \<le> i \<longrightarrow> i < length xs \<longrightarrow> struct_type (xs ! i) \<noteq> t) \<and> cursor xs 0 st'
      | Some p \<Rightarrow> \<exists>j. next_of xs t k j \<and> p = length (table (take j xs)) \<and> cursor xs (j + 1) st')"
  using smbios_get_cases [OF assms, of t] by (auto split: option.splits)

text \<open>
  (\<open>smbios_string\<close>): string number \<open>n\<close> of a structure, counted from 1, with all control characters and
  all bytes from 127 on replaced by dots; a dash for number 0 and \<^verbatim>\<open>badindex\<close> for a number that is too large.
\<close>

theorem smbios_string_nth:
  assumes "struct_ok x" "m = a @ encode x @ r"
  shows "\<exists>t m'. smbios_string m (length a) n = Inr (t, m') \<and>
     text_of m' t = (if n = 0 then ''-'' else if n \<le> length (snd x) then map dot (snd x ! (n - 1)) else ''badindex'')"
  using smbios_string_cases [OF assms] by blast

text \<open>
  C27 (\<open>smbios_get_numcpu\<close>): the number of processors is the number of structures of type 4, wherever the
  cursor was, and at least 1.
\<close>

theorem numcpu_counts:
  assumes "table_in xs m st"
  shows "\<exists>st'. smbios_get_numcpu m st = Inr (max 1 (length (filter (\<lambda>x. struct_type x = 4) xs)), st')"
proof -
  have "table_in xs m (smbios_reset st)" "cursor xs 0 (smbios_reset st)" using assms by (simp_all add: smbios_reset_def table_in_def cursor_def)
  from count_cpus_ok [OF this, of 0] show ?thesis
    by (cases "filter (\<lambda>x. struct_type x = 4) xs") (auto simp: smbios_get_numcpu_def)
qed

text \<open>
  (\<open>init_bios_info\<close>, \<open>smbios_get_sysinfo\<close>): the inventory relies on an order of the structures that SMBIOS
  does not promise: when no system structure (type 1) comes after the first BIOS structure (type 0), the
  system structure is not found, even if there is one in front, and the pointer to the UUID, which
  was never set, is used. All reads before that are inside the table.
\<close>

theorem inventory_needs_order:
  assumes "table_in xs m st" "cursor xs 0 st" "next_of xs 0 0 j" "8 < length (fst (xs ! j))" "plain_strings (xs ! j)"
    and "\<forall>i. j < i \<longrightarrow> i < length xs \<longrightarrow> struct_type (xs ! i) \<noteq> 1"
  shows "smbios_report m st = Inl NullDeref"
proof -
  have j: "j < length xs" "struct_type (xs ! j) = 0" using assms(3) by (auto simp: next_of_def)
  obtain st1 where g: "smbios_get m 0 st = Inr (Some (length (table (take j xs))), st1)" "cursor xs (j + 1) st1" "table_in xs m st1"
  proof -
    from smbios_get_cases [OF assms(1,2), of 0] obtain i st' where i: "next_of xs 0 0 i" "smbios_get m 0 st = Inr (Some (length (table (take i xs))), st')"
        "cursor xs (i + 1) st'" "table_in xs m st'" using j by auto
    have "i = j" using i(1) assms(3) by (metis le0 linorder_neqE_nat next_of_def)
    with i that show ?thesis by blast
  qed
  obtain r where r: "m = table xs @ r" using assms(1) by (auto simp: table_in_def)
  have "table xs = table (take j xs) @ encode (xs ! j) @ table (drop (Suc j) xs)"
    using j(1) by (metis id_take_nth_drop table_simps(2,3))
  then have m: "m = table (take j xs) @ encode (xs ! j) @ (table (drop (Suc j) xs) @ r)" using r by simp
  have ok: "struct_ok (xs ! j)" using assms(1) j(1) by (simp add: table_in_def)
  have "\<forall>n \<in> set [4, 5, 8]. n < length (fst (xs ! j))" using assms(4) by simp
  from get_strings_plain [OF ok m assms(5) this] obtain ts where ts: "get_strings m (length (table (take j xs))) [4, 5, 8] = Inr (map Some ts, m)" by blast
  have b: "smbios_get_biosinfo m st [None, None, None] = Inr (map Some ts, m, st1)" using g(1) ts by (simp add: smbios_get_biosinfo_def)
  have "j + 1 \<le> length xs" using j(1) by simp
  from smbios_get_cases [OF g(3,2) this, of 1] obtain st2 where "smbios_get m 1 st1 = Inr (None, st2)" using assms(6) by (auto simp: next_of_def)
  then have "smbios_get_sysinfo m st1 (map Some ts @ [None]) = Inr (map Some ts @ [None], None, m, st2)" by (simp add: smbios_get_sysinfo_def)
  moreover obtain s0 where "show_ptrs m (map Some ts) = Inr s0" using show_ptrs_Some by blast
  ultimately show ?thesis using b show_ptrs_None [of m ts] by (simp add: smbios_report_def)
qed

section \<open>Witnesses\<close>

definition sample_struct :: "nat \<Rightarrow> smb_struct" where
  "sample_struct t = (char_of t # CHR 0x09 # replicate 7 NUL, [''Dell'', ''A'' @ [CHR 0x07]])"

definition sample_smbios :: smbios where
  "sample_smbios = \<lparr>sm_len = 100, sm_num = 3, sm_ver = 23, sm_i = 0, sm_ptr = None\<rparr>"

definition plain_struct :: "nat \<Rightarrow> smb_struct" where
  "plain_struct t = (char_of t # CHR 0x09 # replicate 7 NUL, [''Dell''])"

lemma sample_struct_ok: "t < 256 \<Longrightarrow> struct_ok (sample_struct t)" "t < 256 \<Longrightarrow> struct_type (sample_struct t) = t"
  "t < 256 \<Longrightarrow> struct_ok (plain_struct t)" "t < 256 \<Longrightarrow> struct_type (plain_struct t) = t"
  by (simp_all add: sample_struct_def plain_struct_def struct_ok_def struct_type_def)

lemma sample_table: "table_in [sample_struct 4, sample_struct 1, sample_struct 4] (table [sample_struct 4, sample_struct 1, sample_struct 4]) sample_smbios"
  "table_in [plain_struct 1, plain_struct 0, plain_struct 4] (table [plain_struct 1, plain_struct 0, plain_struct 4]) sample_smbios"
  by (simp_all add: table_in_def sample_struct_ok sample_smbios_def)
     (simp_all add: sample_struct_def plain_struct_def encode_def enc_strings_def)

theorem smbios_get_finds_witness:
  "\<exists>r st'. smbios_get (table [sample_struct 4, sample_struct 1, sample_struct 4]) 1 sample_smbios = Inr (r, st') \<and>
     (case r of None \<Rightarrow> False | Some p \<Rightarrow> cursor [sample_struct 4, sample_struct 1, sample_struct 4] 2 st')"
proof -
  let ?xs = "[sample_struct 4, sample_struct 1, sample_struct 4]"
  have c: "cursor ?xs 0 sample_smbios" by (simp add: cursor_def sample_smbios_def)
  obtain r st' where r: "smbios_get (table ?xs) 1 sample_smbios = Inr (r, st')"
      "case r of None \<Rightarrow> (\<forall>i. 0 \<le> i \<longrightarrow> i < length ?xs \<longrightarrow> struct_type (?xs ! i) \<noteq> 1) \<and> cursor ?xs 0 st'
       | Some p \<Rightarrow> \<exists>j. next_of ?xs 1 0 j \<and> p = length (table (take j ?xs)) \<and> cursor ?xs (j + 1) st'"
    using smbios_get_finds [OF sample_table(1) c, of 1] by auto
  have t: "struct_type (?xs ! 1) = 1" "struct_type (?xs ! 0) = 4" "struct_type (?xs ! 2) = 4" by (simp_all add: sample_struct_ok)
  show ?thesis
  proof (cases r)
    case None
    then show ?thesis using r(2) t(1) by (auto dest: spec [of _ 1])
  next
    case (Some p)
    then obtain j where j: "next_of ?xs 1 0 j" "cursor ?xs (j + 1) st'" using r(2) by auto
    have tj: "struct_type (?xs ! j) = 1" "j < 3" using j(1) by (simp_all add: next_of_def)
    have "struct_type (?xs ! 0) \<noteq> 1" "struct_type (?xs ! 2) \<noteq> 1" unfolding t by simp_all
    then have "j \<noteq> 0" "j \<noteq> 2" using tj(1) by metis+
    then have "j = 1" using tj(2) by linarith
    then show ?thesis using r(1) Some j(2) by (simp add: numeral_2_eq_2)
  qed
qed

theorem smbios_string_nth_witness:
  "\<exists>t m'. smbios_string (encode (sample_struct 1)) 0 2 = Inr (t, m') \<and> text_of m' t = ''A.''"
proof -
  have o: "struct_ok (sample_struct 1)" by (simp add: sample_struct_ok)
  have "map dot (snd (sample_struct 1) ! (2 - 1)) = ''A.''" by code_simp
  then show ?thesis using smbios_string_nth [OF o, of "encode (sample_struct 1)" "[]" "[]" 2] by (simp add: sample_struct_def)
qed

theorem numcpu_counts_witness:
  "\<exists>st'. smbios_get_numcpu (table [sample_struct 4, sample_struct 1, sample_struct 4]) sample_smbios = Inr (2, st')"
  using numcpu_counts [OF sample_table(1)] by (simp add: sample_struct_ok numeral_2_eq_2)

theorem inventory_needs_order_witness:
  "smbios_report (table [plain_struct 1, plain_struct 0, plain_struct 4]) sample_smbios = Inl NullDeref"
proof -
  let ?xs = "[plain_struct 1, plain_struct 0, plain_struct 4]"
  have c: "cursor ?xs 0 sample_smbios" by (simp add: cursor_def sample_smbios_def)
  have n: "next_of ?xs 0 0 1" by (auto simp: next_of_def sample_struct_ok)
  have l: "8 < length (fst (?xs ! 1))" by (simp add: plain_struct_def)
  have p: "plain_strings (?xs ! 1)" by (simp add: plain_strings_def plain_struct_def dot_def)
  have a: "\<forall>i. 1 < i \<longrightarrow> i < length ?xs \<longrightarrow> struct_type (?xs ! i) \<noteq> 1" by (auto simp: less_Suc_eq sample_struct_ok)
  from inventory_needs_order [OF sample_table(2) c n l p a] show ?thesis .
qed

end
