(* ===== verification/Pxe_Udp.thy ===== *)
theory Pxe_Udp
  imports Decompress
begin

text \<open>
  The UDP calls of \<open>pxe_oeb\<close> in \<^verbatim>\<open>client/src_revoboot/pxe.c\<close>, with which the boot loader talks to network cards
  without a PXE of their own: the IP and UDP headers with the checksum, the table of hardware addresses
  and the packets that are taken or answered. The machine is little endian: an address is the
  32-bit number that its four bytes make in memory.
\<close>

section \<open>Constants and headers\<close>

definition MAX_ARP :: nat where "MAX_ARP = 5"
definition ARP :: nat where "ARP = 0x0608"
definition ARP_REQ :: nat where "ARP_REQ = 0x0100"
definition ARP_REPLY :: nat where "ARP_REPLY = 0x0200"
definition IP :: nat where "IP = 0x0008"
definition UDP :: nat where "UDP = 0x11"

definition htons :: "u16 \<Rightarrow> u16" where
  "htons a = (drop_bit 8 (a AND 0xFF00) OR push_bit 8 (a AND 0x00FF))"

text \<open>The bytes of \<open>struct iphdr\<close> and \<open>struct udphdr\<close> as they are filled in for \<open>n\<close> bytes of data, which may be negative.\<close>

definition iphdr :: "u32 \<Rightarrow> u32 \<Rightarrow> int \<Rightarrow> nat \<Rightarrow> string" where
  "iphdr src dest n chksum =
     [CHR 0x45, NUL] @ le_bytes 2 (unat (htons (of_int (20 + 8 + n)))) @ [NUL, NUL] @ [NUL, NUL] @ [char_of (60 :: nat), char_of UDP] @
     le_bytes 2 chksum @ le_bytes 4 (unat src) @ le_bytes 4 (unat dest)"

definition udphdr :: "u16 \<Rightarrow> u16 \<Rightarrow> int \<Rightarrow> string" where
  "udphdr src dest n = le_bytes 2 (unat src) @ le_bytes 2 (unat dest) @ le_bytes 2 (unat (htons (of_int (n + 8)))) @ [NUL, NUL]"

text \<open>The sum never has more than 17 bits; a last odd byte is not counted.\<close>

fun sum16 :: "nat \<Rightarrow> string \<Rightarrow> nat" where
  "sum16 s (a # b # r) = (let s = s + le_nat [a, b] in sum16 (if 0xFFFF < s then s - 0xFFFF else s) r)"
| "sum16 s _ = s"

definition ipchksum :: "string \<Rightarrow> nat" where
  "ipchksum hdr = (2 ^ 32 - 1 - sum16 0 hdr) mod 2 ^ 16"

section \<open>Hardware addresses\<close>

type_synonym arptable = "(u32 \<times> string) list"

definition arp_lookup :: "arptable \<Rightarrow> u32 \<Rightarrow> string option" where
  "arp_lookup tab ip = map_of tab ip"

fun arp_update :: "u32 \<Rightarrow> string \<Rightarrow> arptable \<Rightarrow> arptable" where
  "arp_update ip mac [] = []"
| "arp_update ip mac ((i, n) # tab) = (if i = ip then (i, mac) # tab else (i, n) # arp_update ip mac tab)"

text \<open>The bytes of \<open>struct arprequest\<close> that are sent to all machines.\<close>

definition arprequest :: "u32 \<Rightarrow> string \<Rightarrow> u32 \<Rightarrow> string" where
  "arprequest client mac ip =
     le_bytes 2 0x0100 @ le_bytes 2 IP @ [CHR 0x06, CHR 0x04] @ le_bytes 2 ARP_REQ @
     mac @ le_bytes 4 (unat client) @ replicate 6 NUL @ le_bytes 4 (unat ip)"

definition pkt :: "nat \<Rightarrow> string \<Rightarrow> nat \<Rightarrow> nat" where
  "pkt n packet i = le_nat (take n (drop i packet))"

text \<open>The sender of an ARP packet, an answer or a request.\<close>

definition arp_sender :: "string \<Rightarrow> (u32 \<times> string) option" where
  "arp_sender packet =
     (if pkt 1 packet 12 = 0x08 \<and> pkt 1 packet 13 = 0x06 \<and> pkt 1 packet 20 = 0x00 \<and> (pkt 1 packet 21 = 0x02 \<or> pkt 1 packet 21 = 0x01)
      then Some (of_nat (pkt 4 packet 28), take 6 (drop 22 packet)) else None)"

definition MAX_ARP_RETRIES :: nat where "MAX_ARP_RETRIES = 6"

fun first_sender :: "string list \<Rightarrow> (u32 \<times> string) option" where
  "first_sender [] = None"
| "first_sender (p # ps) = (case arp_sender p of None \<Rightarrow> first_sender ps | Some a \<Rightarrow> Some a)"

text \<open>
  \<open>arp_request\<close>: element \<open>r\<close> of the list is what the card receives in the second after the request was sent
  for the \<open>r\<close>-th time. The first ARP packet ends the waiting.
\<close>

definition arp_request :: "string list list \<Rightarrow> arptable \<Rightarrow> arptable" where
  "arp_request rounds tab =
     (case first_sender (concat (take MAX_ARP_RETRIES rounds)) of None \<Rightarrow> tab | Some (ip, mac) \<Rightarrow> arp_update ip mac tab)"

text \<open>The loop at \<open>reget_arp\<close>: \<open>net k\<close> is what arrives while request number \<open>k\<close> is waited for.\<close>

partial_function (option) reget_arp :: "u32 \<Rightarrow> (nat \<Rightarrow> string list list) \<Rightarrow> nat \<Rightarrow> arptable \<Rightarrow> (string \<times> arptable) option" where
  "reget_arp gwip net k tab =
     (if arp_lookup tab gwip = None \<or> arp_lookup tab gwip = Some (replicate 6 NUL)
      then reget_arp gwip net (k + 1) (arp_request (net k) tab)
      else Some (the (arp_lookup tab gwip), tab))"

section \<open>Sending\<close>

text \<open>The size of the data is a signed number of 16 bits; \<open>mem\<close> is what the memory holds from the address of the data on.\<close>

definition udp_packet :: "u32 \<Rightarrow> u32 \<Rightarrow> u16 \<Rightarrow> u16 \<Rightarrow> u16 \<Rightarrow> string \<Rightarrow> string" where
  "udp_packet src dest sport dport buffer_size mem =
     (let n = sint buffer_size
      in iphdr src dest n (ipchksum (iphdr src dest n 0)) @ udphdr sport dport n @ take (nat n) mem)"

definition next_hop :: "u32 \<Rightarrow> u32 \<Rightarrow> u32 \<Rightarrow> u32 \<Rightarrow> u32" where
  "next_hop netmask client ip gw = (if ip AND netmask \<noteq> client AND netmask then gw else ip)"

text \<open>Call \<open>0x33\<close>: the hardware address the packet is sent to, the number of bytes handed to the card, and the packet.\<close>

definition pxe_udp_write ::
    "u32 \<Rightarrow> (nat \<Rightarrow> string list list) \<Rightarrow> arptable \<Rightarrow> u32 \<Rightarrow> u32 \<Rightarrow> u16 \<Rightarrow> u16 \<Rightarrow> u16 \<Rightarrow> string \<Rightarrow> (string \<times> u32 \<times> string \<times> arptable) option" where
  "pxe_udp_write netmask net tab ip gw sport dport buffer_size mem =
     (let client = fst (hd tab)
      in map_option (\<lambda>(mac, tab). (mac, of_int (sint buffer_size + 20 + 8), udp_packet client ip sport dport buffer_size mem, tab)) (reget_arp (next_hop netmask client ip gw) net 0 tab))"

section \<open>Receiving\<close>

text \<open>What a call gives: the size and the bytes with the sender, an answer that was sent, or nothing.\<close>

datatype udp_read = Got int string u32 u16 | Answered string string arptable | Nothing

text \<open>
  Call \<open>0x32\<close> with a packet of \<open>len\<close> bytes in the buffer of the card; \<open>nic_macaddr\<close> is the card's own address. The size
  is stored in a signed number of 16 bits.
\<close>

definition pxe_udp_read :: "string \<Rightarrow> arptable \<Rightarrow> u32 \<Rightarrow> u16 \<Rightarrow> string \<Rightarrow> nat \<Rightarrow> udp_read" where
  "pxe_udp_read nic_macaddr tab dst_ip dst_port packet len =
     (if pkt 2 packet 12 = IP \<and> pkt 1 packet 14 = 0x45 \<and> pkt 1 packet 23 = UDP \<and> pkt 4 packet 30 = unat dst_ip
      then if dst_port \<noteq> 0 \<and> unat dst_port \<noteq> pkt 2 packet 36 then Nothing
           else let n = sint (of_int (int len - 42) :: u16) in Got n (take (nat n) (drop 42 packet)) (of_nat (pkt 4 packet 26)) (of_nat (pkt 2 packet 34))
      else if pkt 2 packet 12 = ARP \<and> pkt 2 packet 20 = ARP_REQ \<and> pkt 4 packet 38 = unat dst_ip
      then let mac = take 6 (drop 22 packet); ip = take 4 (drop 28 packet);
               packet = write_at packet 32 mac; packet = write_at packet 38 ip;
               tab = arp_update (of_nat (le_nat ip)) mac tab;
               packet = write_at packet 28 (le_bytes 4 (unat dst_ip)); packet = write_at packet 22 nic_macaddr;
               packet = write_at packet 20 (le_bytes 2 ARP_REPLY)
           in Answered (take 6 (drop 32 packet)) (take 28 (drop 14 packet)) tab
      else Nothing)"

section \<open>The checksum\<close>

fun words :: "string \<Rightarrow> nat" where
  "words (a # b # r) = le_nat [a, b] + words r"
| "words _ = 0"

lemma le_nat_two: "le_nat [a, b] < 65536"
  using le_nat_less [of "[a, b]"] by simp

lemma sum16_spec:
  "s \<le> 65535 \<Longrightarrow> sum16 s x \<le> 65535 \<and> sum16 s x mod 65535 = (s + words x) mod 65535 \<and> (0 < s + words x \<longrightarrow> 0 < sum16 s x)"
proof (induction s x rule: sum16.induct)
  case (1 s a b r)
  define t where "t = s + le_nat [a, b]"
  define u where "u = (if 0xFFFF < t then t - 0xFFFF else t)"
  have t: "t \<le> 131070" using "1.prems" le_nat_two [of a b] by (simp add: t_def)
  then have u: "u \<le> 65535" "0 < t \<longrightarrow> 0 < u" by (auto simp: u_def)
  have m: "u mod 65535 = t mod 65535"
  proof (cases "0xFFFF < t")
    case True
    then have "t = u + 65535" by (simp add: u_def)
    then show ?thesis by simp
  qed (simp add: u_def)
  have IH: "sum16 u r \<le> 65535 \<and> sum16 u r mod 65535 = (u + words r) mod 65535 \<and> (0 < u + words r \<longrightarrow> 0 < sum16 u r)"
    by (rule "1.IH" [OF refl, folded t_def, folded u_def, OF u(1)])
  have e: "sum16 s (a # b # r) = sum16 u r" by (simp add: u_def t_def Let_def)
  have "(u + words r) mod 65535 = (t + words r) mod 65535" using m by (metis mod_add_left_eq)
  then have "sum16 u r mod 65535 = (s + words (a # b # r)) mod 65535" using IH by (simp add: t_def add.assoc)
  moreover have "0 < s + words (a # b # r) \<longrightarrow> 0 < u + words r" using u(2) by (auto simp: t_def)
  ultimately show ?case unfolding e using IH by metis
qed simp_all

lemma words_append: "even (length x) \<Longrightarrow> words (x @ y) = words x + words y"
proof (induction x rule: words.induct)
  case (1 a b r)
  then show ?case by simp
qed auto

lemma iphdr_words:
  "words (iphdr src dest n c) = words (iphdr src dest n 0) + c mod 65536" "0 < words (iphdr src dest n 0)" "length (iphdr src dest n c) = 20"
proof -
  let ?a = "[CHR 0x45, NUL] @ le_bytes 2 (unat (htons (of_int (20 + 8 + n)))) @ [NUL, NUL] @ [NUL, NUL] @ [char_of (60 :: nat), char_of UDP]"
  let ?b = "le_bytes 4 (unat src) @ le_bytes 4 (unat dest)"
  have split: "iphdr src dest n k = ?a @ le_bytes 2 k @ ?b" for k by (simp add: iphdr_def)
  have w2: "words (le_bytes 2 k) = k mod 65536" for k
  proof -
    have "le_bytes 2 k = [char_of k, char_of (k div 256)]" by (simp add: numeral_2_eq_2)
    then have "words (le_bytes 2 k) = le_nat (le_bytes 2 k)" by simp
    then show ?thesis by (simp add: le_nat_le_bytes)
  qed
  have w: "words (iphdr src dest n k) = words ?a + k mod 65536 + words ?b" for k
    unfolding split by (subst words_append, simp, subst words_append, simp) (simp only: w2)
  show "words (iphdr src dest n c) = words (iphdr src dest n 0) + c mod 65536" unfolding w by simp
  have "0 < words ?a" by simp
  then show "0 < words (iphdr src dest n 0)" unfolding w by simp
  show "length (iphdr src dest n c) = 20" by (simp add: split)
qed

lemma ipchksum_eq: "ipchksum h = 65535 - sum16 0 h"
proof -
  have "sum16 0 h \<le> 65535" using sum16_spec [of 0 h] by simp
  then have "(4294967295 - sum16 0 h) = (65535 - sum16 0 h) + 65536 * 65535" by simp
  then have "(4294967295 - sum16 0 h) mod 65536 = (65535 - sum16 0 h) mod 65536" by (simp only: mod_mult_self2)
  then show ?thesis by (simp add: ipchksum_def)
qed

section \<open>Fields of a packet\<close>

lemma word_bytes4: "le_nat (le_bytes 4 (unat w)) = unat w" for w :: u32
  using unsigned_less [of w, where ?'a = nat] by (simp add: le_nat_le_bytes)

lemma pkt_append: "length a = i \<Longrightarrow> n = length b \<Longrightarrow> pkt n (a @ b @ r) i = le_nat b"
  by (simp add: pkt_def)

lemma udp_fields:
  assumes "length ether = 12" "packet = ether @ [CHR 0x08, NUL] @ udp_packet src dest sport dport bs mem @ pad" "data = take (nat (sint bs)) mem"
  shows "pkt 2 packet 12 = IP" "pkt 1 packet 14 = 0x45" "pkt 1 packet 23 = UDP" "pkt 4 packet 30 = unat dest"
    "pkt 2 packet 36 = unat dport" "pkt 4 packet 26 = unat src" "pkt 2 packet 34 = unat sport" "drop 42 packet = data @ pad"
proof -
  define c where "c = ipchksum (iphdr src dest (sint bs) 0)"
  let ?l = "le_bytes 2 (unat (htons (of_int (20 + 8 + sint bs))))" and ?u = "le_bytes 2 (unat (htons (of_int (sint bs + 8))))"
  have w2: "le_nat (le_bytes 2 (unat w)) = unat w" for w :: u16 using unsigned_less [of w, where ?'a = nat] by (simp add: le_nat_le_bytes)
  have p: "packet = ether @ [CHR 0x08, NUL] @ [CHR 0x45] @ [NUL] @ ?l @ [NUL, NUL, NUL, NUL, char_of (60 :: nat)] @ [char_of UDP] @ le_bytes 2 c @
      le_bytes 4 (unat src) @ le_bytes 4 (unat dest) @ le_bytes 2 (unat sport) @ le_bytes 2 (unat dport) @ ?u @ [NUL, NUL] @ data @ pad"
    unfolding assms(2,3) udp_packet_def Let_def iphdr_def [of src dest "sint bs" "ipchksum _"] udphdr_def c_def by simp
  show "pkt 2 packet 12 = IP" unfolding p using pkt_append [of ether 12 2 "[CHR 0x08, NUL]"] assms(1) by (simp add: IP_def)
  show "pkt 1 packet 14 = 0x45" unfolding p using pkt_append [of "ether @ [CHR 0x08, NUL]" 14 1 "[CHR 0x45]"] assms(1) by simp
  show "pkt 1 packet 23 = UDP" unfolding p
    using pkt_append [of "ether @ [CHR 0x08, NUL] @ [CHR 0x45] @ [NUL] @ ?l @ [NUL, NUL, NUL, NUL, char_of (60 :: nat)]" 23 1 "[char_of UDP]"] assms(1) by (simp add: UDP_def)
  show "pkt 4 packet 26 = unat src" unfolding p
    using pkt_append [of "ether @ [CHR 0x08, NUL] @ [CHR 0x45] @ [NUL] @ ?l @ [NUL, NUL, NUL, NUL, char_of (60 :: nat)] @ [char_of UDP] @ le_bytes 2 c" 26 4 "le_bytes 4 (unat src)"] assms(1) word_bytes4 by simp
  show "pkt 4 packet 30 = unat dest" unfolding p
    using pkt_append [of "ether @ [CHR 0x08, NUL] @ [CHR 0x45] @ [NUL] @ ?l @ [NUL, NUL, NUL, NUL, char_of (60 :: nat)] @ [char_of UDP] @ le_bytes 2 c @ le_bytes 4 (unat src)" 30 4 "le_bytes 4 (unat dest)"] assms(1) word_bytes4 by simp
  show "pkt 2 packet 34 = unat sport" unfolding p
    using pkt_append [of "ether @ [CHR 0x08, NUL] @ [CHR 0x45] @ [NUL] @ ?l @ [NUL, NUL, NUL, NUL, char_of (60 :: nat)] @ [char_of UDP] @ le_bytes 2 c @ le_bytes 4 (unat src) @ le_bytes 4 (unat dest)" 34 2 "le_bytes 2 (unat sport)"] assms(1) w2 by simp
  show "pkt 2 packet 36 = unat dport" unfolding p
    using pkt_append [of "ether @ [CHR 0x08, NUL] @ [CHR 0x45] @ [NUL] @ ?l @ [NUL, NUL, NUL, NUL, char_of (60 :: nat)] @ [char_of UDP] @ le_bytes 2 c @ le_bytes 4 (unat src) @ le_bytes 4 (unat dest) @ le_bytes 2 (unat sport)" 36 2 "le_bytes 2 (unat dport)"] assms(1) w2 by simp
  show "drop 42 packet = data @ pad" unfolding p using assms(1) by simp
qed

section \<open>The loop for a hardware address\<close>

lemma arp_update_dom: "map fst (arp_update ip mac tab) = map fst tab"
  by (induction ip mac tab rule: arp_update.induct) auto

lemma arp_request_dom: "fst ` set (arp_request rounds tab) = fst ` set tab"
  using arp_update_dom by (auto simp: arp_request_def simp flip: set_map split: option.splits)

lemma reget_no_result:
  assumes "reget_arp gwip net k tab = Some y"
  shows "gwip \<in> fst ` set tab"
proof (rule reget_arp.raw_induct [OF _ assms, where P = "\<lambda>gwip net k tab _. gwip \<in> fst ` set tab"])
  fix loop :: "u32 \<Rightarrow> (nat \<Rightarrow> string list list) \<Rightarrow> nat \<Rightarrow> arptable \<Rightarrow> (string \<times> arptable) option" and gwip net k tab y
  assume IH: "\<And>gwip net k tab y. loop gwip net k tab = Some y \<Longrightarrow> gwip \<in> fst ` set tab"
    and step: "(if arp_lookup tab gwip = None \<or> arp_lookup tab gwip = Some (replicate 6 NUL)
      then loop gwip net (k + 1) (arp_request (net k) tab) else Some (the (arp_lookup tab gwip), tab)) = Some y"
  show "gwip \<in> fst ` set tab"
  proof (cases "arp_lookup tab gwip")
    case None
    with step have "loop gwip net (k + 1) (arp_request (net k) tab) = Some y" by simp
    from IH [OF this] show ?thesis by (simp only: arp_request_dom)
  next
    case (Some mac)
    then show ?thesis by (force simp: arp_lookup_def dest: map_of_SomeD)
  qed
qed

lemma arp_update_lookup: "ip \<in> fst ` set tab \<Longrightarrow> arp_lookup (arp_update ip mac tab) ip = Some mac"
  by (induction ip mac tab rule: arp_update.induct) (auto simp: arp_lookup_def)

lemma first_sender_skip: "first_sender pre = None \<Longrightarrow> first_sender (pre @ p # post) = first_sender (p # post)"
  by (induction pre) (auto split: option.splits)

lemma reget_answered:
  assumes "gwip \<in> fst ` set tab" "first_sender (concat (take MAX_ARP_RETRIES (net n))) = Some (gwip, mac)" "mac \<noteq> replicate 6 NUL" "k \<le> n"
  shows "\<exists>mac' tab'. reget_arp gwip net k tab = Some (mac', tab') \<and> mac' \<noteq> replicate 6 NUL"
  using assms(1,4)
proof (induction "Suc n - k" arbitrary: k tab)
  case (Suc d)
  show ?case
  proof (cases "arp_lookup tab gwip = None \<or> arp_lookup tab gwip = Some (replicate 6 NUL)")
    case False
    then show ?thesis by (subst reget_arp.simps) auto
  next
    case True
    let ?t = "arp_request (net k) tab"
    have step: "reget_arp gwip net k tab = reget_arp gwip net (k + 1) ?t" using True by (subst reget_arp.simps) simp
    show ?thesis
    proof (cases "k = n")
      case True
      then have "arp_lookup ?t gwip = Some mac" using assms(2) Suc.prems(1) arp_update_lookup by (simp add: arp_request_def)
      then show ?thesis unfolding step using assms(3) by (subst reget_arp.simps) simp
    next
      case False
      then have "d = Suc n - (k + 1)" "k + 1 \<le> n" using Suc.hyps(2) Suc.prems(2) by simp_all
      from Suc.hyps(1) [OF this(1) _ this(2), of ?t] show ?thesis unfolding step using arp_request_dom Suc.prems(1) by simp
    qed
  qed
qed simp

lemma arp_reply_sent:
  assumes "length ether = 12" "length kind = 6" "length mac = 6" "length target = 6" "length nic_macaddr = 6"
  shows "pxe_udp_read nic_macaddr tab me port (ether @ [CHR 0x08, CHR 0x06] @ kind @ [NUL, CHR 0x01] @ mac @ le_bytes 4 (unat ip) @ target @ le_bytes 4 (unat me) @ pad) len =
     Answered mac (kind @ [NUL, CHR 0x02] @ nic_macaddr @ le_bytes 4 (unat me) @ mac @ le_bytes 4 (unat ip)) (arp_update ip mac tab)"
proof -
  let ?e = "ether @ [CHR 0x08, CHR 0x06] @ kind"
  let ?p = "?e @ [NUL, CHR 0x01] @ mac @ le_bytes 4 (unat ip) @ target @ le_bytes 4 (unat me) @ pad"
  have l: "length ?e = 20" using assms(1,2) by simp
  have f: "pkt 2 ?p 12 = ARP" "pkt 2 ?p 20 = ARP_REQ" "pkt 4 ?p 38 = unat me" "take 6 (drop 22 ?p) = mac" "take 4 (drop 28 ?p) = le_bytes 4 (unat ip)"
    using assms(1-4) word_bytes4 [of me] by (simp_all add: pkt_def ARP_def ARP_REQ_def)
  have r: "le_bytes 2 ARP_REPLY = [NUL, CHR 0x02]" by code_simp
  have n: "\<not> (pkt 2 ?p 12 = IP \<and> pkt 1 ?p 14 = 0x45 \<and> pkt 1 ?p 23 = UDP \<and> pkt 4 ?p 30 = unat me)" unfolding f by (simp add: ARP_def IP_def)
  have u: "of_nat (le_nat (le_bytes 4 (unat ip))) = ip" unfolding word_bytes4 by simp
  have "pxe_udp_read nic_macaddr tab me port ?p len = Answered mac (kind @ [NUL, CHR 0x02] @ nic_macaddr @ le_bytes 4 (unat me) @ mac @ le_bytes 4 (unat ip)) (arp_update ip mac tab)"
    unfolding pxe_udp_read_def if_not_P [OF n] Let_def f u r using l assms by (simp add: write_at_def ARP_def IP_def)
  then show ?thesis by simp
qed

lemma arp_sender_reply:
  assumes "length ether = 12" "length kind = 6" "length mac = 6"
  shows "arp_sender (ether @ [CHR 0x08, CHR 0x06] @ kind @ [NUL, CHR 0x02] @ mac @ le_bytes 4 (unat ip) @ rest) = Some (ip, mac)"
  using assms word_bytes4 [of ip] by (simp add: arp_sender_def pkt_def)

section \<open>Properties\<close>

text \<open>
  The 16-bit numbers of a header in network order. A header is valid when their one's complement sum is \<open>0xFFFF\<close>,
  that is when their sum is a positive multiple of 65535.
\<close>

fun net_words :: "string \<Rightarrow> nat" where
  "net_words (a # b # r) = 256 * of_char a + of_char b + net_words r"
| "net_words _ = 0"

lemma net_words_mod: "net_words x mod 65535 = (256 * words x) mod 65535"
proof (induction x rule: net_words.induct)
  case (1 a b r)
  have "256 * words (a # b # r) = 256 * of_char a + of_char b + 256 * words r + 65535 * of_char b" by simp
  then have "(256 * words (a # b # r)) mod 65535 = (256 * of_char a + of_char b + 256 * words r) mod 65535" by (simp only: mod_mult_self2)
  moreover have "net_words (a # b # r) mod 65535 = (256 * of_char a + of_char b + 256 * words r) mod 65535"
    using 1 by (simp only: net_words.simps) (metis mod_add_right_eq)
  ultimately show ?case by simp
qed simp_all

lemma net_words_pos: "0 < net_words x \<longleftrightarrow> 0 < words x"
  by (induction x rule: net_words.induct) auto

text \<open>
  C22 (\<open>pxe_oeb\<close>, \<open>ipchksum\<close>): the header of every packet that is sent has a valid checksum: the sum of its ten
  16-bit numbers in network order, with the checksum, is a positive multiple of 65535.
\<close>

theorem checksum_valid:
  "net_words (take 20 (udp_packet src dest sport dport buffer_size mem)) mod 65535 = 0 \<and>
   0 < net_words (take 20 (udp_packet src dest sport dport buffer_size mem))"
proof -
  define n where "n = sint buffer_size"
  let ?h = "iphdr src dest n 0"
  define s where "s = sum16 0 ?h"
  have s: "s \<le> 65535" "s mod 65535 = words ?h mod 65535" "0 < s"
    using sum16_spec [of 0 ?h] iphdr_words(2) [of src dest n] by (simp_all add: s_def)
  have c: "ipchksum ?h = 65535 - s" by (simp add: ipchksum_eq s_def)
  let ?g = "iphdr src dest n (65535 - s)"
  have t: "take 20 (udp_packet src dest sport dport buffer_size mem) = ?g"
    using iphdr_words(3) [of src dest n "65535 - s"] by (simp add: udp_packet_def n_def [symmetric] c Let_def)
  have "(65535 - s) mod 65536 = 65535 - s" by simp
  then have w: "words ?g = words ?h + (65535 - s)" using iphdr_words(1) [of src dest n "65535 - s"] by simp
  have "words ?g mod 65535 = (s + (65535 - s)) mod 65535" unfolding w using s(2) by (metis mod_add_left_eq)
  then have "words ?g mod 65535 = 0" using s(1) by simp
  then have "net_words ?g mod 65535 = 0" unfolding net_words_mod by (metis mod_mult_right_eq mod_0 mult_0_right)
  moreover have "0 < net_words ?g" unfolding net_words_pos using w iphdr_words(2) [of src dest n] by simp
  ultimately show ?thesis unfolding t ..
qed

text \<open>
  C21 (\<open>pxe_oeb\<close>): what one machine sends with call \<open>0x33\<close> another one with the address of the destination gets
  with call \<open>0x32\<close>, when it asks for the port or for any: the same bytes with the address and
  the port of the sender, and whatever the network puts behind the packet. The length in the UDP header
  is not read: padding of a short frame is taken for data. Data and padding have less than 32768 bytes, the range of
  the signed 16-bit sizes of both calls.
\<close>

theorem udp_transmitted:
  assumes "length ether = 12" "port = dport \<or> port = 0" "length data + length pad < 2 ^ 15"
  shows "pxe_udp_read nic_macaddr tab dest port
       (ether @ [CHR 0x08, NUL] @ udp_packet src dest sport dport (of_nat (length data)) (data @ mem) @ pad) (42 + length data + length pad) =
     Got (int (length data + length pad)) (data @ pad) src sport"
proof -
  have sz: "sint (of_int (int k) :: u16) = int k" if "k < 2 ^ 15" for k
    using that by (simp add: sint_sbintrunc' signed_take_bit_int_eq_self del: of_int_of_nat_eq)
  then have sn: "sint (of_nat (length data) :: u16) = int (length data)" using sz [of "length data"] assms(3) by simp
  have d: "data = take (nat (sint (of_nat (length data) :: u16))) (data @ mem)" unfolding sn by simp
  note f = udp_fields [OF assms(1) refl d, of src dest sport dport pad]
  have "int (42 + length data + length pad) - 42 = int (length data + length pad)" by simp
  then show ?thesis unfolding pxe_udp_read_def f using assms(2) sz [OF assms(3)] by (auto simp: Let_def)
qed

text \<open>
  (\<open>pxe_oeb\<close>): a packet for another machine or for another port is not taken.
\<close>

theorem udp_filtered:
  assumes "length ether = 12" "dest \<noteq> ip \<or> port \<noteq> dport \<and> port \<noteq> 0"
  shows "pxe_udp_read nic_macaddr tab ip port (ether @ [CHR 0x08, NUL] @ udp_packet src dest sport dport bs mem) len = Nothing"
proof -
  note f = udp_fields [OF assms(1) refl refl, of src dest sport dport bs mem "[]", unfolded append_Nil2]
  show ?thesis unfolding pxe_udp_read_def f using assms(2) by (auto simp: IP_def ARP_def dest: unsigned_word_eqI)
qed

text \<open>
  C23 (\<open>arp_request\<close>, \<open>pxe_oeb\<close>): a machine that gets the request of another one for its hardware address answers it and
  notes the address of the one that asked, if it has an entry for it. When the one that asked has an entry for the machine that is still
  blank, and the answer is the first ARP packet that comes in after one of the six requests, then the loop that looks for the address ends, with
  the address of the machine, which is then in the table.
\<close>

theorem arp_resolved:
  assumes "length ether = 12" "length ether' = 12" "length mac = 6" "length nic_macaddr = 6" "nic_macaddr \<noteq> replicate 6 NUL"
    and "arp_lookup atab me = Some (replicate 6 NUL)" "first_sender pre = None"
  shows "\<exists>reply. pxe_udp_read nic_macaddr tab me port (ether @ [CHR 0x08, CHR 0x06] @ arprequest client mac me @ pad) len =
       Answered mac reply (arp_update client mac tab) \<and>
     (client \<in> fst ` set tab \<longrightarrow> arp_lookup (arp_update client mac tab) client = Some mac) \<and>
     (\<forall>net post pad'. concat (take MAX_ARP_RETRIES (net 0)) = pre @ (ether' @ [CHR 0x08, CHR 0x06] @ reply @ pad') # post \<longrightarrow>
        (\<exists>atab'. reget_arp me net 0 atab = Some (nic_macaddr, atab') \<and> arp_lookup atab' me = Some nic_macaddr))"
proof -
  have b: "le_bytes 2 0x0100 = [NUL, CHR 0x01]" "le_bytes 2 IP = [CHR 0x08, NUL]" "le_bytes 2 ARP_REQ = [NUL, CHR 0x01]" by code_simp+
  let ?kind = "[NUL, CHR 0x01, CHR 0x08, NUL, CHR 0x06, CHR 0x04]"
  define reply where "reply = ?kind @ [NUL, CHR 0x02] @ nic_macaddr @ le_bytes 4 (unat me) @ mac @ le_bytes 4 (unat client)"
  have "arprequest client mac me @ pad = ?kind @ [NUL, CHR 0x01] @ mac @ le_bytes 4 (unat client) @ replicate 6 NUL @ le_bytes 4 (unat me) @ pad"
    unfolding arprequest_def b by simp
  then have sent: "pxe_udp_read nic_macaddr tab me port (ether @ [CHR 0x08, CHR 0x06] @ arprequest client mac me @ pad) len =
      Answered mac reply (arp_update client mac tab)"
    using arp_reply_sent [of ether ?kind mac "replicate 6 NUL" nic_macaddr tab me port client pad len] assms(1,3,4) by (simp add: reply_def)
  have me: "me \<in> fst ` set atab" using assms(6) by (force simp: arp_lookup_def dest: map_of_SomeD)
  have "\<exists>atab'. reget_arp me net 0 atab = Some (nic_macaddr, atab') \<and> arp_lookup atab' me = Some nic_macaddr"
    if c: "concat (take MAX_ARP_RETRIES (net 0)) = pre @ (ether' @ [CHR 0x08, CHR 0x06] @ reply @ pad') # post" for net post pad'
  proof -
    have "arp_sender (ether' @ [CHR 0x08, CHR 0x06] @ reply @ pad') = Some (me, nic_macaddr)"
      using arp_sender_reply [of ether' ?kind nic_macaddr me "mac @ le_bytes 4 (unat client) @ pad'"] assms(2,4) by (simp add: reply_def)
    then have "arp_request (net 0) atab = arp_update me nic_macaddr atab"
      unfolding arp_request_def c first_sender_skip [OF assms(7)] by simp
    moreover note arp_update_lookup [OF me, of nic_macaddr]
    ultimately show ?thesis
      using assms(5,6) by (subst reget_arp.simps, simp) (subst reget_arp.simps, simp)
  qed
  with sent arp_update_lookup [of client tab mac] show ?thesis by blast
qed

text \<open>
  (\<open>pxe_oeb\<close>): when the address to send to is not in the table of hardware addresses, as the one of a gateway
  that was never announced, sending never ends, whatever answers come: an answer only changes entries
  that are there.
\<close>

theorem send_endless:
  assumes "next_hop netmask (fst (hd tab)) ip gw \<notin> fst ` set tab"
  shows "pxe_udp_write netmask net tab ip gw sport dport bs mem = None"
proof -
  have "reget_arp (next_hop netmask (fst (hd tab)) ip gw) net 0 tab = None" using reget_no_result assms by (metis not_Some_eq)
  then show ?thesis by (simp add: pxe_udp_write_def)
qed

text \<open>Otherwise it ends as soon as one of the requests is answered with the hardware address.\<close>

theorem send_answered:
  assumes "next_hop netmask (fst (hd tab)) ip gw \<in> fst ` set tab" "first_sender (concat (take MAX_ARP_RETRIES (net n))) = Some (next_hop netmask (fst (hd tab)) ip gw, mac)" "mac \<noteq> replicate 6 NUL"
  shows "\<exists>mac' tab'. pxe_udp_write netmask net tab ip gw sport dport bs mem =
      Some (mac', of_int (sint bs + 20 + 8), udp_packet (fst (hd tab)) ip sport dport bs mem, tab')"
  using reget_answered [where net = net and n = n, OF assms le0] by (auto simp: pxe_udp_write_def Let_def)

section \<open>Witnesses\<close>

definition sample_arp :: arptable where
  "sample_arp = [(0x0A00000A, replicate 6 (CHR 0x11)), (0x0100000A, replicate 6 (CHR 0x22)), (0xFE00000A, replicate 6 NUL)]"

theorem udp_transmitted_witness:
  "pxe_udp_read (replicate 6 (CHR 0x11)) sample_arp 0x0100000A 0 (replicate 12 (CHR 0x22) @ [CHR 0x08, NUL] @ udp_packet 0x0A00000A 0x0100000A 7 9 5 ''hello, world'' @ [NUL]) 48 =
     Got 6 (''hello'' @ [NUL]) 0x0A00000A 7"
  using udp_transmitted [of "replicate 12 (CHR 0x22)" 0 9 "''hello''" "[NUL]" "replicate 6 (CHR 0x11)" sample_arp "0x0100000A" "0x0A00000A" 7 "'', world''"] by simp

theorem udp_filtered_witness:
  "pxe_udp_read (replicate 6 (CHR 0x11)) sample_arp 0x0100000A 8 (replicate 12 (CHR 0x22) @ [CHR 0x08, NUL] @ udp_packet 0x0A00000A 0x0100000A 7 9 5 ''hello'') 47 = Nothing"
  by (rule udp_filtered) simp_all

theorem arp_resolved_witness:
  "\<exists>reply. pxe_udp_read (replicate 6 (CHR 0x33)) sample_arp 0xFE00000A 8 (replicate 12 (CHR 0x22) @ [CHR 0x08, CHR 0x06] @ arprequest 0x0A00000A (replicate 6 (CHR 0x11)) 0xFE00000A @ []) 42 =
       Answered (replicate 6 (CHR 0x11)) reply (arp_update 0x0A00000A (replicate 6 (CHR 0x11)) sample_arp) \<and>
     (\<exists>atab'. reget_arp 0xFE00000A (\<lambda>_. [[''noise''], [replicate 12 (CHR 0x44) @ [CHR 0x08, CHR 0x06] @ reply]]) 0 sample_arp = Some (replicate 6 (CHR 0x33), atab') \<and>
        arp_lookup atab' 0xFE00000A = Some (replicate 6 (CHR 0x33)))"
proof -
  have l: "length (replicate 12 (CHR 0x22)) = 12" "length (replicate 12 (CHR 0x44)) = 12" "length (replicate 6 (CHR 0x11)) = 6" "length (replicate 6 (CHR 0x33)) = 6"
    "replicate 6 (CHR 0x33) \<noteq> replicate 6 NUL" "arp_lookup sample_arp 0xFE00000A = Some (replicate 6 NUL)" "first_sender [''noise''] = None"
    by (simp_all add: arp_lookup_def sample_arp_def arp_sender_def pkt_def)
  have c: "concat (take MAX_ARP_RETRIES ((\<lambda>_ :: nat. [[''noise''], [replicate 12 (CHR 0x44) @ [CHR 0x08, CHR 0x06] @ reply]]) 0)) =
      [''noise''] @ (replicate 12 (CHR 0x44) @ [CHR 0x08, CHR 0x06] @ reply @ []) # []" for reply
    by (simp add: MAX_ARP_RETRIES_def)
  let ?net = "\<lambda>reply _. [[''noise''], [replicate 12 (CHR 0x44) @ [CHR 0x08, CHR 0x06] @ reply]]"
  from arp_resolved [OF l, of sample_arp 8 "0x0A00000A" "[]" 42] obtain reply where
      "pxe_udp_read (replicate 6 (CHR 0x33)) sample_arp 0xFE00000A 8 (replicate 12 (CHR 0x22) @ [CHR 0x08, CHR 0x06] @ arprequest 0x0A00000A (replicate 6 (CHR 0x11)) 0xFE00000A @ []) 42 =
       Answered (replicate 6 (CHR 0x11)) reply (arp_update 0x0A00000A (replicate 6 (CHR 0x11)) sample_arp)"
    and r: "\<And>net post pad'. concat (take MAX_ARP_RETRIES (net 0)) = [''noise''] @ (replicate 12 (CHR 0x44) @ [CHR 0x08, CHR 0x06] @ reply @ pad') # post \<Longrightarrow>
        \<exists>atab'. reget_arp 0xFE00000A net 0 sample_arp = Some (replicate 6 (CHR 0x33), atab') \<and> arp_lookup atab' 0xFE00000A = Some (replicate 6 (CHR 0x33))"
    by blast
  with r [of "?net reply" "[]" "[]", OF c] show ?thesis by blast
qed

theorem send_endless_witness: "pxe_udp_write 0xFFFFFF (\<lambda>_. []) sample_arp 0x01010A0A 0x7700000A 7 9 5 ''hello'' = None"
proof -
  have "next_hop 0xFFFFFF (fst (hd sample_arp)) 0x01010A0A 0x7700000A \<notin> fst ` set sample_arp" by (simp add: next_hop_def sample_arp_def)
  then show ?thesis by (rule send_endless)
qed

end
