(* ===== verification/Pxe_Tftp.thy ===== *)
theory Pxe_Tftp
  imports LRS_Prelude
begin

text \<open>
  Reading a file with TFTP in \<^verbatim>\<open>client/src_revoboot/pxe.c\<close>: \<open>tftpopen\<close>, \<open>tftpget\<close> and \<open>tftp_read\<close>, which gives the rest of
  the boot loader a file with a position, through one buffer of 30720 bytes. What the network
  delivers is a list: a packet, or \<open>None\<close> when nothing comes for ten seconds; nothing comes behind its end.
\<close>

section \<open>State\<close>

text \<open>The macro is \<open>32768-2048\<close>, without parentheses.\<close>

definition BUFFERSIZE :: nat where "BUFFERSIZE = 30720"

record tftp =
  t_basepos :: int
  t_savedpos :: int
  t_bufferend :: int
  t_filepos :: int
  t_eof :: bool
  t_nextpacket :: nat
  t_buffer :: string
  t_sent :: "string list"

definition tftp_send :: "string \<Rightarrow> tftp \<Rightarrow> tftp" where
  "tftp_send s st = st\<lparr>t_sent := t_sent st @ [s]\<rparr>"

definition senderr :: "tftp \<Rightarrow> tftp" where
  "senderr st = tftp_send ([NUL, CHR 0x05, NUL, NUL] @ ''Abort'' @ [NUL]) st"

definition tftpclose :: "tftp \<Rightarrow> tftp" where
  "tftpclose st = (if t_eof st then st else (tftp_send ([NUL, CHR 0x05, NUL, NUL] @ ''TFTP Aborted'' @ [NUL]) st)\<lparr>t_eof := True\<rparr>)"

text \<open>The buffer for the request has 200 bytes and the file name at most 127.\<close>

definition tftpopen :: "string \<Rightarrow> tftp \<Rightarrow> tftp" where
  "tftpopen name st =
     (tftp_send ([NUL, CHR 0x01] @ name @ [NUL] @ ''octet'' @ [NUL]) (tftpclose st))
       \<lparr>t_basepos := 0, t_bufferend := 0, t_eof := False, t_savedpos := 0, t_nextpacket := 0\<rparr>"

section \<open>A buffer of packets\<close>

definition ack :: "string \<Rightarrow> string" where
  "ack p = [NUL, CHR 0x04] @ take 2 (drop 2 p)"

definition block_of :: "string \<Rightarrow> nat" where
  "block_of p = 256 * of_char (p ! 2) + of_char (p ! 3)"

text \<open>
  \<open>tftpget\<close> with \<open>len\<close> bytes still to get and \<open>acc\<close> the bytes that are in the buffer; the result is -1 or their
  number. The packet goes into 516 bytes without a check; of one with less than four bytes the
  rest would be what was there before.
\<close>

fun tftpget :: "int \<Rightarrow> bool \<Rightarrow> string \<Rightarrow> string option list \<Rightarrow> tftp \<Rightarrow> (int \<times> string \<times> tftp \<times> string option list) res" where
  "tftpget len first acc [] st = Inr (if len \<le> 0 then (int (length acc), acc, st, []) else (- 1, acc, senderr st, []))"
| "tftpget len first acc (p # ins) st =
     (if len \<le> 0 then Inr (int (length acc), acc, st, p # ins)
      else case p of
             None \<Rightarrow> Inr (- 1, acc, senderr st, ins)
           | Some p \<Rightarrow>
               if 516 < length p then Inl BufOverflow
               else if length p < 4 then Inl OutOfBounds
               else if p ! 0 \<noteq> NUL \<or> p ! 1 \<noteq> CHR 0x03 then Inr (- 1, acc, senderr st, ins)
               else if block_of p = t_nextpacket st then tftpget len first acc ins (tftp_send (ack p) st)
               else if block_of p \<noteq> t_nextpacket st + 1 then Inr (- 1, acc, senderr st, ins)
               else let data = drop 4 p;
                        st = (tftp_send (ack p) st)\<lparr>t_nextpacket := block_of p, t_basepos := (if first then 512 * (int (block_of p) - 1) else t_basepos st)\<rparr>
                    in if length data \<noteq> 512 then Inr (int (length (acc @ data)), acc @ data, st\<lparr>t_eof := True\<rparr>, ins)
                       else tftpget (len - 512) False (acc @ data) ins st)"

text \<open>The call for a whole buffer.\<close>

definition get_buffer :: "string option list \<Rightarrow> tftp \<Rightarrow> (int \<times> tftp \<times> string option list) res" where
  "get_buffer ins st =
     bind_res (tftpget (int BUFFERSIZE) True [] ins st) (\<lambda>(ret, acc, st, ins). Inr (ret, st\<lparr>t_buffer := acc @ drop (length acc) (t_buffer st)\<rparr>, ins))"

section \<open>Reading\<close>

text \<open>\<open>memmove\<close> from the buffer.\<close>

definition copy_out :: "tftp \<Rightarrow> int \<Rightarrow> int \<Rightarrow> string res" where
  "copy_out st pos n =
     (if pos < 0 \<or> int (length (t_buffer st)) < pos + n then Inl OutOfBounds else Inr (take (nat n) (drop (nat pos) (t_buffer st))))"

text \<open>Where a try ends: with a result, with a jump to \<open>retransmit\<close>, or behind the loop.\<close>

datatype read_end = Finished int string tftp "string option list" | Retransmit int tftp "string option list" | Behind string int int tftp "string option list"

partial_function (option) read_loop :: "string \<Rightarrow> int \<Rightarrow> int \<Rightarrow> tftp \<Rightarrow> string option list \<Rightarrow> read_end run" where
  "read_loop addr len want st ins =
     (let pos = t_filepos st - t_basepos st; remain = t_bufferend st - pos
      in if int BUFFERSIZE < pos then Some (Inr (Finished 0 addr st ins))
         else if want \<le> remain
         then Some (bind_res (copy_out st pos want) (\<lambda>b. Inr (Finished (len + want) (addr @ b) (st\<lparr>t_filepos := t_filepos st + want\<rparr>) ins)))
         else let n = max 0 remain
              in case bind_res (copy_out st pos n) (\<lambda>b. bind_res (get_buffer ins (st\<lparr>t_filepos := t_filepos st + n\<rparr>)) (\<lambda>r. Inr (b, r))) of
                   Inl e \<Rightarrow> Some (Inl e)
                 | Inr x \<Rightarrow>
                     (case x of (b, ret, st', ins') \<Rightarrow>
                        if ret = - 1 then Some (Inr (Retransmit (len + n) (st'\<lparr>t_bufferend := ret\<rparr>) ins'))
                        else if ret = int BUFFERSIZE then read_loop (addr @ b) (len + n) (want - n) (st'\<lparr>t_bufferend := ret\<rparr>) ins'
                        else Some (Inr (Behind (addr @ b) (len + n) (want - n) (st'\<lparr>t_bufferend := ret\<rparr>) ins'))))"

definition read_behind :: "string \<Rightarrow> int \<Rightarrow> int \<Rightarrow> tftp \<Rightarrow> string option list \<Rightarrow> read_end res" where
  "read_behind addr len want st ins =
     (let pos = t_filepos st - t_basepos st; remain = t_bufferend st - pos; want = min want remain
      in if 0 < remain
         then bind_res (copy_out st pos want) (\<lambda>b. Inr (Finished (len + want) (addr @ b) (st\<lparr>t_filepos := t_filepos st + want\<rparr>) ins))
         else Inr (Finished 0 addr st ins))"

text \<open>Going forward to the position after the file was opened again: \<open>False\<close> when a packet is missing.\<close>

function rewind_loop :: "string option list \<Rightarrow> tftp \<Rightarrow> (bool \<times> tftp \<times> string option list) res" where
  "rewind_loop ins st =
     bind_res (get_buffer ins st) (\<lambda>(ret, st', ins').
       if ret < 0 then Inr (False, st', ins')
       else let st2 = st'\<lparr>t_savedpos := t_savedpos st + int BUFFERSIZE, t_filepos := t_filepos st\<rparr>
            in if t_savedpos st2 \<le> t_filepos st2 then rewind_loop ins' st2 else Inr (True, st2, ins'))"
  by pat_completeness auto
termination
  by (relation "measure (\<lambda>(ins, st). nat (t_filepos st - t_savedpos st))") (auto simp: BUFFERSIZE_def)

declare rewind_loop.simps [simp del]

text \<open>The base is compared as an unsigned number; \<open>savedpos - BUFFERSIZE\<close> expands to \<open>savedpos - 32768-2048\<close>.\<close>

definition rewind :: "string \<Rightarrow> string option list \<Rightarrow> tftp \<Rightarrow> (bool \<times> tftp \<times> string option list) res" where
  "rewind name ins st =
     (if t_savedpos st \<le> t_filepos st \<or> t_basepos st mod 2 ^ 32 \<le> t_filepos st then Inr (True, st, ins)
      else let st = tftpopen name (tftpclose st)
           in if t_savedpos st < t_filepos st
              then bind_res (rewind_loop ins st) (\<lambda>(ok, st, ins). Inr (ok, if ok then st\<lparr>t_basepos := t_savedpos st - 32768 - 2048\<rparr> else st, ins))
              else Inr (True, st, ins))"

text \<open>\<open>len\<close> is not reset when the read starts again. The result is the number of bytes and the bytes.\<close>

partial_function (option) tftp_try :: "string \<Rightarrow> int \<Rightarrow> int \<Rightarrow> int \<Rightarrow> tftp \<Rightarrow> string option list \<Rightarrow> (int \<times> string \<times> tftp \<times> string option list) run" where
  "tftp_try name filepos want len st ins =
     (case rewind name ins (st\<lparr>t_filepos := filepos\<rparr>) of
        Inl e \<Rightarrow> Some (Inl e)
      | Inr x \<Rightarrow>
          (case x of (ok, st, ins) \<Rightarrow>
             if \<not> ok then tftp_try name filepos want len (tftpopen name (tftpclose st)) ins
             else let st = st\<lparr>t_savedpos := t_filepos st + want\<rparr>
                  in case (if t_eof st then Some (Inr (Behind [] len want st ins)) else read_loop [] len want st ins) of
                       None \<Rightarrow> None
                     | Some r \<Rightarrow>
                         (case r of
                            Inl e \<Rightarrow> Some (Inl e)
                          | Inr y \<Rightarrow>
                              (case y of
                                 Finished n b st ins \<Rightarrow> Some (Inr (n, b, st, ins))
                               | Retransmit len st ins \<Rightarrow> tftp_try name filepos want len (tftpopen name (tftpclose st)) ins
                               | Behind addr len want st ins \<Rightarrow>
                                   (case read_behind addr len want st ins of
                                      Inl e \<Rightarrow> Some (Inl e)
                                    | Inr z \<Rightarrow> (case z of Finished n b st ins \<Rightarrow> Some (Inr (n, b, st, ins))
                                               | Retransmit l st ins \<Rightarrow> Some (Inr (0, [], st, ins)) | Behind a l s st ins \<Rightarrow> Some (Inr (0, [], st, ins))))))))"

definition tftp_read :: "string \<Rightarrow> int \<Rightarrow> tftp \<Rightarrow> string option list \<Rightarrow> (int \<times> string \<times> tftp \<times> string option list) run" where
  "tftp_read name want st ins = tftp_try name (t_filepos st) want 0 st ins"

section \<open>A file on the server\<close>

definition tftp_packet :: "string \<Rightarrow> nat \<Rightarrow> string" where
  "tftp_packet f k = [NUL, CHR 0x03, char_of (k div 256), char_of (k mod 256)] @ take 512 (drop (512 * (k - 1)) f)"

definition last_block :: "string \<Rightarrow> nat" where
  "last_block f = length f div 512 + 1"

definition tftp_packets :: "string \<Rightarrow> nat \<Rightarrow> string option list" where
  "tftp_packets f k = map (\<lambda>j. Some (tftp_packet f j)) [Suc k..<Suc (last_block f)]"

lemma tftp_packets_Cons:
  "k < last_block f \<Longrightarrow> tftp_packets f k = Some (tftp_packet f (Suc k)) # tftp_packets f (Suc k)"
  unfolding tftp_packets_def by (subst upt_conv_Cons) simp_all

lemma tftp_packets_Nil: "tftp_packets f (last_block f) = []"
  by (simp add: tftp_packets_def)

lemma block_of_packet: "k < 65536 \<Longrightarrow> block_of (tftp_packet f k) = k"
proof -
  assume "k < 65536"
  then have "k div 256 < 256" by (simp add: less_mult_imp_div_less)
  then have "k div 256 mod 256 = k div 256" by simp
  then show ?thesis
    by (simp add: block_of_def tftp_packet_def mult.commute)
qed

lemma packet_shape:
  "tftp_packet f k ! 0 = NUL" "tftp_packet f k ! Suc 0 = CHR 0x03" "drop 4 (tftp_packet f k) = take 512 (drop (512 * (k - 1)) f)"
  "length (tftp_packet f k) = 4 + min 512 (length f - 512 * (k - 1))"
  by (simp_all add: tftp_packet_def)

text \<open>What a call leaves in the state.\<close>

definition got :: "string \<Rightarrow> nat \<Rightarrow> nat \<Rightarrow> bool \<Rightarrow> tftp \<Rightarrow> tftp" where
  "got f k j first st =
     st\<lparr>t_sent := t_sent st @ map (\<lambda>b. ack (tftp_packet f b)) [Suc k..<Suc j], t_nextpacket := j,
        t_basepos := (if first \<and> k < j then 512 * int k else t_basepos st)\<rparr>"

lemma got_refl: "t_nextpacket st = k \<Longrightarrow> got f k k first st = st"
  by (simp add: got_def)

lemma got_step:
  assumes "Suc k \<le> j"
  shows "got f (Suc k) j False ((tftp_send (ack (tftp_packet f (Suc k))) st)\<lparr>t_nextpacket := Suc k,
           t_basepos := (if first then 512 * (int (Suc k) - 1) else t_basepos st)\<rparr>) = got f k j first st"
proof -
  have "[Suc k..<Suc j] = Suc k # [Suc (Suc k)..<Suc j]"
    using assms by (simp add: upt_conv_Cons)
  with assms show ?thesis by (simp add: got_def tftp_send_def)
qed

lemma tftpget_packet:
  assumes "t_nextpacket st = k" "k < last_block f" "last_block f < 65536" "0 < len"
  shows "tftpget len first acc (tftp_packets f k @ rest) st =
    (let data = take 512 (drop (512 * k) f);
         st' = (tftp_send (ack (tftp_packet f (Suc k))) st)\<lparr>t_nextpacket := Suc k, t_basepos := (if first then 512 * (int (Suc k) - 1) else t_basepos st)\<rparr>
     in if length data \<noteq> 512 then Inr (int (length (acc @ data)), acc @ data, st'\<lparr>t_eof := True\<rparr>, tftp_packets f (Suc k) @ rest)
        else tftpget (len - 512) False (acc @ data) (tftp_packets f (Suc k) @ rest) st')"
  using assms by (simp add: tftp_packets_Cons packet_shape block_of_packet Let_def)

lemma tftpget_full:
  assumes "t_nextpacket st = k" "k + n < last_block f" "last_block f < 65536"
  shows "tftpget (512 * int n) first acc (tftp_packets f k @ rest) st =
    Inr (int (length acc) + 512 * int n, acc @ take (512 * n) (drop (512 * k) f), got f k (k + n) first st, tftp_packets f (k + n) @ rest)"
  using assms
proof (induction n arbitrary: k first acc st)
  case 0
  then show ?case by (cases "tftp_packets f k @ rest") (simp_all add: got_refl)
next
  case (Suc n)
  have "k + Suc n \<le> length f div 512" using Suc.prems(2) by (simp add: last_block_def)
  then have "512 * (k + Suc n) \<le> length f" by (simp add: less_eq_div_iff_mult_less_eq mult.commute)
  then have len: "length (take 512 (drop (512 * k) f)) = 512" by simp
  have "take (512 * Suc n) (drop (512 * k) f) = take 512 (drop (512 * k) f) @ take (512 * n) (drop (512 * Suc k) f)"
    by (simp add: take_add add.commute)
  with Suc.prems len show ?case
    by (subst tftpget_packet) (simp_all add: Let_def Suc.IH tftp_send_def got_step [unfolded tftp_send_def, simplified])
qed

lemma tftpget_last:
  assumes "t_nextpacket st = k" "k < last_block f" "last_block f \<le> k + n" "last_block f < 65536"
  shows "tftpget (512 * int n) first acc (tftp_packets f k @ rest) st =
    Inr (int (length (acc @ drop (512 * k) f)), acc @ drop (512 * k) f, (got f k (last_block f) first st)\<lparr>t_eof := True\<rparr>, rest)"
  using assms
proof (induction n arbitrary: k first acc st)
  case 0
  then show ?case by simp
next
  case (Suc n)
  show ?case
  proof (cases "Suc k < last_block f")
    case True
    have "Suc k \<le> length f div 512" using True by (simp add: last_block_def)
    then have "512 * Suc k \<le> length f" by (simp add: less_eq_div_iff_mult_less_eq mult.commute)
    then have len: "length (take 512 (drop (512 * k) f)) = 512" by simp
    have "drop (512 * k) f = take 512 (drop (512 * k) f) @ drop (512 * Suc k) f"
      by (metis append_take_drop_id drop_drop mult_Suc_right)
    with Suc.prems len True show ?thesis
      by (subst tftpget_packet) (simp_all add: Let_def Suc.IH tftp_send_def got_step [unfolded tftp_send_def, simplified])
  next
    case False
    with Suc.prems have k: "Suc k = last_block f" by simp
    then have "length f div 512 = k" by (simp add: last_block_def)
    then have less: "length f < 512 * k + 512" by (metis add.commute dividend_less_times_div mult.commute zero_less_numeral)
    then have "take 512 (drop (512 * k) f) = drop (512 * k) f" by simp
    moreover have "length f - 512 * k \<noteq> 512" using less by linarith
    ultimately show ?thesis
      using k [symmetric] Suc.prems
      by (subst tftpget_packet) (simp_all add: Let_def tftp_packets_Nil [of f, simplified k [symmetric]] got_def tftp_send_def)
  qed
qed

section \<open>The buffer and the position\<close>

text \<open>The buffer holds what the file has from its base, and the next packet is the one behind it.\<close>

definition synced :: "string \<Rightarrow> tftp \<Rightarrow> bool" where
  "synced f st \<longleftrightarrow>
     length (t_buffer st) = BUFFERSIZE \<and> 0 \<le> t_basepos st \<and> t_basepos st \<le> t_filepos st \<and> t_filepos st \<le> t_basepos st + t_bufferend st
     \<and> t_bufferend st \<le> int BUFFERSIZE \<and> t_basepos st + t_bufferend st \<le> int (length f)
     \<and> take (nat (t_bufferend st)) (t_buffer st) = take (nat (t_bufferend st)) (drop (nat (t_basepos st)) f)
     \<and> (if t_eof st then t_basepos st + t_bufferend st = int (length f)
        else t_basepos st + t_bufferend st = 512 * int (t_nextpacket st) \<and> t_nextpacket st < last_block f)"

text \<open>What the server still has to deliver.\<close>

definition pending :: "string \<Rightarrow> tftp \<Rightarrow> string option list \<Rightarrow> string option list" where
  "pending f st rest = (if t_eof st then rest else tftp_packets f (t_nextpacket st) @ rest)"

lemma get_buffer_full:
  assumes "t_nextpacket st = k" "k + 60 < last_block f" "last_block f < 65536" "length (t_buffer st) = BUFFERSIZE"
  shows "get_buffer (tftp_packets f k @ rest) st =
    Inr (30720, (got f k (k + 60) True st)\<lparr>t_buffer := take 30720 (drop (512 * k) f)\<rparr>, tftp_packets f (k + 60) @ rest)"
proof -
  have "k + 60 \<le> length f div 512" using assms by (simp add: last_block_def)
  then have "512 * (k + 60) \<le> length f" by (simp add: less_eq_div_iff_mult_less_eq mult.commute)
  then show ?thesis
    using tftpget_full [of st k 60 f True "[]" rest] assms by (simp add: get_buffer_def BUFFERSIZE_def got_def)
qed

lemma get_buffer_last:
  assumes "t_nextpacket st = k" "k < last_block f" "last_block f \<le> k + 60" "last_block f < 65536"
  shows "get_buffer (tftp_packets f k @ rest) st =
    Inr (int (length f) - 512 * int k, (got f k (last_block f) True st)\<lparr>t_eof := True, t_buffer := drop (512 * k) f @ drop (length f - 512 * k) (t_buffer st)\<rparr>, rest)"
proof -
  have "k \<le> length f div 512" using assms by (simp add: last_block_def)
  then have "512 * k \<le> length f" by (simp add: less_eq_div_iff_mult_less_eq mult.commute)
  then show ?thesis
    using tftpget_last [of st k f 60 True "[]" rest] assms by (simp add: get_buffer_def BUFFERSIZE_def got_def)
qed

lemma copy_out_synced:
  assumes "synced f st" "0 \<le> n" "n \<le> t_bufferend st - (t_filepos st - t_basepos st)"
  shows "copy_out st (t_filepos st - t_basepos st) n = Inr (take (nat n) (drop (nat (t_filepos st)) f))"
proof -
  let ?p = "t_filepos st - t_basepos st"
  have "t_basepos st \<le> t_filepos st" using assms(1) by (simp add: synced_def)
  then have e: "nat n + nat ?p \<le> nat (t_bufferend st)" using assms(2,3) by linarith
  have "take (nat n) (drop (nat ?p) (t_buffer st)) = take (nat n) (drop (nat ?p) (take (nat (t_bufferend st)) (t_buffer st)))"
    using e by (simp add: drop_take min_def)
  also have "\<dots> = take (nat n) (drop (nat ?p) (take (nat (t_bufferend st)) (drop (nat (t_basepos st)) f)))"
    using assms(1) by (simp add: synced_def)
  also have "\<dots> = take (nat n) (drop (nat ?p + nat (t_basepos st)) f)"
    using e by (simp add: drop_take min_def)
  also have "nat ?p + nat (t_basepos st) = nat (t_filepos st)"
    using assms(1) unfolding synced_def by linarith
  finally show ?thesis
    using assms by (simp add: copy_out_def synced_def)
qed

text \<open>The next buffer, when the position is at its start.\<close>

lemma get_buffer_synced:
  assumes s: "synced f st" "\<not> t_eof st" "last_block f < 65536" and "t_filepos st' = t_basepos st + t_bufferend st" "st' = st\<lparr>t_filepos := t_filepos st'\<rparr>"
  shows "\<exists>ret st2. get_buffer (pending f st rest) st' = Inr (ret, st2, pending f st2 rest) \<and> synced f (st2\<lparr>t_bufferend := ret\<rparr>) \<and> ret \<noteq> - 1
           \<and> t_filepos st2 = t_filepos st' \<and> t_nextpacket st < t_nextpacket st2 \<and> (ret = int BUFFERSIZE \<longleftrightarrow> \<not> t_eof st2)"
proof -
  define k where "k = t_nextpacket st"
  obtain x where st': "st' = st\<lparr>t_filepos := x\<rparr>" and x: "x = 512 * int k"
    using assms by (simp add: synced_def k_def)
  have k: "k < last_block f" "t_nextpacket st' = k" "length (t_buffer st') = BUFFERSIZE" "t_filepos st' = x" "\<not> t_eof st'"
    using s by (simp_all add: synced_def st' k_def)
  show ?thesis
  proof (cases "k + 60 < last_block f")
    case True
    then have "k + 60 \<le> length f div 512" by (simp add: last_block_def)
    then have "512 * (k + 60) \<le> length f" by (simp add: less_eq_div_iff_mult_less_eq mult.commute)
    with True k x show ?thesis
      using get_buffer_full [OF k(2) True s(3) k(3)] s(2)
      by (simp add: pending_def got_def synced_def k_def [symmetric] BUFFERSIZE_def nat_mult_distrib)
  next
    case False
    then have "length f div 512 < k + 60" "k \<le> length f div 512" using k by (simp_all add: last_block_def)
    then have "512 * k \<le> length f" "length f < 512 * (k + 60)" by (simp_all add: less_eq_div_iff_mult_less_eq div_less_iff_less_mult mult.commute)
    moreover from this have "nat (int (length f) - 512 * int k) = length f - 512 * k" by linarith
    ultimately show ?thesis
      using False k x get_buffer_last [OF k(2) k(1) _ s(3)] s(2)
      by (simp add: pending_def got_def synced_def k_def [symmetric] BUFFERSIZE_def nat_mult_distrib)
  qed
qed

section \<open>Reads\<close>

text \<open>What the loop ends with: the bytes, or those in front of the last buffer.\<close>

fun read_ok :: "string \<Rightarrow> string \<Rightarrow> int \<Rightarrow> int \<Rightarrow> int \<Rightarrow> string option list \<Rightarrow> read_end \<Rightarrow> bool" where
  "read_ok f addr len pos want rest (Finished n b st ins) \<longleftrightarrow>
     n = len + want \<and> b = addr @ take (nat want) (drop (nat pos) f) \<and> synced f st \<and> t_filepos st = pos + want \<and> ins = pending f st rest"
| "read_ok f addr len pos want rest (Retransmit l st ins) \<longleftrightarrow> False"
| "read_ok f addr len pos want rest (Behind a l w st ins) \<longleftrightarrow>
     t_eof st \<and> 0 < w \<and> l + w = len + want \<and> t_filepos st + w = pos + want \<and> pos \<le> t_filepos st
     \<and> a = addr @ take (nat (t_filepos st - pos)) (drop (nat pos) f) \<and> synced f st \<and> ins = pending f st rest"

lemma take_take_drop:
  "0 \<le> p \<Longrightarrow> 0 \<le> n \<Longrightarrow> 0 \<le> m \<Longrightarrow> take (nat n) (drop (nat p) f) @ take (nat m) (drop (nat (p + n)) f) = take (nat (n + m)) (drop (nat p) f)"
  by (simp add: nat_add_distrib take_add add.commute [of "nat p"])

lemma read_ok_later:
  assumes "read_ok f (addr @ take (nat n) (drop (nat p) f)) (len + n) (p + n) (want - n) rest e" "0 \<le> p" "0 \<le> n" "n \<le> want"
  shows "read_ok f addr len p want rest e"
  using assms take_take_drop [of p n "want - n" f]
proof (cases e)
  case (Behind a l w st ins)
  with assms take_take_drop [of p n "t_filepos st - (p + n)" f] show ?thesis by simp
qed simp_all

lemma synced_moved:
  "synced f st \<Longrightarrow> 0 \<le> n \<Longrightarrow> n \<le> t_bufferend st - (t_filepos st - t_basepos st) \<Longrightarrow> synced f (st\<lparr>t_filepos := t_filepos st + n\<rparr>)"
  by (simp add: synced_def)

lemma read_loop_ok:
  assumes "synced f st" "\<not> t_eof st" "last_block f < 65536" "0 \<le> want" "t_filepos st + want \<le> int (length f)"
  shows "\<exists>e. read_loop addr len want st (pending f st rest) = Some (Inr e) \<and> read_ok f addr len (t_filepos st) want rest e"
  using assms
proof (induction "last_block f - t_nextpacket st" arbitrary: st addr len want rule: less_induct)
  case less
  define n where "n = t_bufferend st - (t_filepos st - t_basepos st)"
  have n: "0 \<le> n" "t_filepos st + n = t_basepos st + t_bufferend st" "0 \<le> t_filepos st" and np: "t_nextpacket st < last_block f"
    and pos: "t_filepos st - t_basepos st \<le> int BUFFERSIZE"
    using less.prems(1,2) by (simp_all add: n_def synced_def)
  show ?case
  proof (cases "want \<le> n")
    case True
    then have "synced f (st\<lparr>t_filepos := t_filepos st + want\<rparr>)"
      "copy_out st (t_filepos st - t_basepos st) want = Inr (take (nat want) (drop (nat (t_filepos st)) f))"
      using less.prems synced_moved [of f st want] copy_out_synced [of f st want] by (simp_all add: n_def)
    with True pos less.prems(2) show ?thesis
      by (subst read_loop.simps) (simp add: Let_def n_def [symmetric] pending_def)
  next
    case False
    define st' where "st' = st\<lparr>t_filepos := t_filepos st + n\<rparr>"
    have fp: "t_filepos st' = t_basepos st + t_bufferend st" and "st' = st\<lparr>t_filepos := t_filepos st'\<rparr>" by (simp_all add: st'_def n(2))
    from get_buffer_synced [OF less.prems(1-3) this]
    obtain ret st2 where g: "get_buffer (pending f st rest) st' = Inr (ret, st2, pending f st2 rest)" "synced f (st2\<lparr>t_bufferend := ret\<rparr>)" "ret \<noteq> - 1"
      "t_filepos st2 = t_filepos st'" "t_nextpacket st < t_nextpacket st2" "ret = int BUFFERSIZE \<longleftrightarrow> \<not> t_eof st2" by blast
    let ?st = "st2\<lparr>t_bufferend := ret\<rparr>"
    let ?addr = "addr @ take (nat n) (drop (nat (t_filepos st)) f)"
    have pend: "pending f (st2\<lparr>t_bufferend := r\<rparr>) rest = pending f st2 rest" for r by (simp add: pending_def)
    have "max 0 n = n" using n(1) by simp
    then have step: "read_loop addr len want st (pending f st rest) =
        (if ret = int BUFFERSIZE then read_loop ?addr (len + n) (want - n) ?st (pending f ?st rest)
         else Some (Inr (Behind ?addr (len + n) (want - n) ?st (pending f ?st rest))))"
      using False pos copy_out_synced [OF less.prems(1) n(1)] g(1,3)
      by (subst read_loop.simps) (simp add: Let_def n_def [symmetric] st'_def [symmetric] pend)
    show ?thesis
    proof (cases "ret = int BUFFERSIZE")
      case True
      have "\<exists>e. read_loop ?addr (len + n) (want - n) ?st (pending f ?st rest) = Some (Inr e)
              \<and> read_ok f ?addr (len + n) (t_filepos ?st) (want - n) rest e"
        using less.hyps [of ?st "want - n" ?addr "len + n"] g np True False less.prems(3,5) by (simp add: st'_def)
      then show ?thesis
        using step True False n g(4) read_ok_later [of f addr n "t_filepos st" len want rest] by (auto simp: st'_def)
    next
      case f: False
      have "t_filepos st' - t_filepos st = n" by (simp add: st'_def)
      with f step g False n(1,2) pend show ?thesis by (simp add: fp [symmetric])
    qed
  qed
qed

lemma read_behind_ok:
  assumes "synced f st" "t_eof st" "0 < want" "t_filepos st + want \<le> int (length f)"
  shows "read_behind addr len want st ins =
    Inr (Finished (len + want) (addr @ take (nat want) (drop (nat (t_filepos st)) f)) (st\<lparr>t_filepos := t_filepos st + want\<rparr>) ins)"
proof -
  have "want \<le> t_bufferend st - (t_filepos st - t_basepos st)"
    using assms by (simp add: synced_def)
  with assms copy_out_synced [OF assms(1), of want] show ?thesis
    by (simp add: read_behind_def Let_def min_def)
qed

lemma rewind_nothing:
  "0 \<le> t_basepos st \<Longrightarrow> t_basepos st \<le> t_filepos st \<Longrightarrow> rewind name ins st = Inr (True, st, ins)"
proof -
  assume a: "0 \<le> t_basepos st" "t_basepos st \<le> t_filepos st"
  then have "t_basepos st mod 2 ^ 32 \<le> t_basepos st" by (intro zmod_le_nonneg_dividend)
  with a show ?thesis by (simp add: rewind_def)
qed

lemma tftp_try_ok:
  assumes s: "synced f st" and b: "last_block f < 65536" and w: "0 \<le> want" "t_filepos st + want \<le> int (length f)"
    and r: "rewind name ins (st0\<lparr>t_filepos := t_filepos st\<rparr>) = Inr (True, st, pending f st rest)"
  shows "\<exists>st'. tftp_try name (t_filepos st) want 0 st0 ins = Some (Inr (want, take (nat want) (drop (nat (t_filepos st)) f), st', pending f st' rest))
           \<and> synced f st' \<and> t_filepos st' = t_filepos st + want"
proof -
  let ?st = "st\<lparr>t_savedpos := t_filepos st + want\<rparr>"
  have s': "synced f ?st" and p: "pending f ?st rest = pending f st rest"
    using s by (simp_all add: synced_def pending_def)
  show ?thesis
  proof (cases "t_eof st")
    case True
    show ?thesis
    proof (cases "want = 0")
      case True
      have "synced f (?st\<lparr>t_filepos := t_filepos st + 0\<rparr>)" using s' by simp
      moreover have "copy_out ?st (t_filepos st - t_basepos st) 0 = Inr []" if "0 < t_bufferend st - (t_filepos st - t_basepos st)"
        using copy_out_synced [OF s', of 0] that by simp
      ultimately show ?thesis
        using True \<open>t_eof st\<close> s' p by (subst tftp_try.simps) (auto simp: r Let_def read_behind_def pending_def)
    next
      case f: False
      then have "read_behind [] 0 want ?st (pending f st rest) =
          Inr (Finished want (take (nat want) (drop (nat (t_filepos st)) f)) (?st\<lparr>t_filepos := t_filepos st + want\<rparr>) (pending f st rest))"
        using read_behind_ok [OF s', of want] True w by simp
      moreover have "synced f (?st\<lparr>t_filepos := t_filepos st + want\<rparr>)"
        using synced_moved [OF s', of want] w True s by (simp add: synced_def)
      ultimately show ?thesis
        using True by (subst tftp_try.simps) (simp add: r Let_def pending_def)
    qed
  next
    case False
    then obtain e where e: "read_loop [] 0 want ?st (pending f st rest) = Some (Inr e)" "read_ok f [] 0 (t_filepos st) want rest e"
      using read_loop_ok [OF s' _ b w(1), of "[]" 0 rest] w(2) p by auto
    show ?thesis
    proof (cases e)
      case (Finished n bs st' ins')
      with e False show ?thesis by (subst tftp_try.simps) (simp add: r Let_def)
    next
      case (Retransmit l st' ins')
      with e show ?thesis by simp
    next
      case (Behind a l v st' ins')
      with e(2) have e2: "t_eof st'" "0 < v" "l + v = want" "t_filepos st' + v = t_filepos st + want" "t_filepos st \<le> t_filepos st'"
        "a = take (nat (t_filepos st' - t_filepos st)) (drop (nat (t_filepos st)) f)" "synced f st'" "ins' = pending f st' rest" by simp_all
      have z: "0 \<le> t_filepos st" using s by (simp add: synced_def)
      have v: "t_filepos st' - t_filepos st + v = want" using e2(4) by simp
      have "a @ take (nat v) (drop (nat (t_filepos st')) f) = take (nat want) (drop (nat (t_filepos st)) f)"
        using take_take_drop [of "t_filepos st" "t_filepos st' - t_filepos st" v f] e2(2,5,6) z by (simp add: v)
      then have "read_behind a l v st' ins' = Inr (Finished want (take (nat want) (drop (nat (t_filepos st)) f)) (st'\<lparr>t_filepos := t_filepos st + want\<rparr>) ins')"
        using read_behind_ok [OF e2(7,1,2), of a l ins'] e2(3,4) w by simp
      moreover have "synced f (st'\<lparr>t_filepos := t_filepos st + want\<rparr>)"
        using synced_moved [OF e2(7), of v] e2 w by (simp add: synced_def)
      ultimately show ?thesis
        using e(1) False Behind e2(1,8) by (subst tftp_try.simps) (simp add: r Let_def pending_def)
    qed
  qed
qed

section \<open>Properties\<close>

text \<open>
  C25 (reading forward): for a file of at most 65535 blocks, while the buffer is in step with the file and the server delivers its packets in
  order, a read inside the file gives the bytes at the position, moves the position behind them
  and keeps the buffer in step; the acknowledged packets are gone and the later ones are still to come.
\<close>

theorem tftp_read_forward:
  assumes "synced f st" and "length f < 33553920" and "0 \<le> want" and "t_filepos st + want \<le> int (length f)"
  shows "\<exists>st'. tftp_read name want st (pending f st rest) = Some (Inr (want, take (nat want) (drop (nat (t_filepos st)) f), st', pending f st' rest))
           \<and> synced f st' \<and> t_filepos st' = t_filepos st + want"
proof -
  have "last_block f < 65536" using assms(2) by (simp add: last_block_def div_less_iff_less_mult)
  moreover have "rewind name (pending f st rest) (st\<lparr>t_filepos := t_filepos st\<rparr>) = Inr (True, st, pending f st rest)"
    using rewind_nothing [of st] assms(1) by (simp add: synced_def)
  ultimately show ?thesis
    unfolding tftp_read_def by (intro tftp_try_ok assms)
qed

text \<open>
  (back to the start): a read at position 0, of a file whose buffer has gone on, opens the file again
  and gives its first bytes.
\<close>

theorem tftp_read_start:
  assumes "t_filepos st = 0" and "0 < t_basepos st" and "t_basepos st < 2 ^ 32" and "0 < t_savedpos st" and "length (t_buffer st) = BUFFERSIZE"
    and "length f < 33553920" and "0 \<le> want" and "want \<le> int (length f)"
  shows "\<exists>st'. tftp_read name want st (tftp_packets f 0 @ rest) = Some (Inr (want, take (nat want) f, st', pending f st' rest))
           \<and> synced f st' \<and> t_filepos st' = want"
proof -
  define st1 where "st1 = tftpopen name (tftpclose st)"
  have open1: "t_filepos st1 = 0" "t_basepos st1 = 0" "t_bufferend st1 = 0" "\<not> t_eof st1" "t_nextpacket st1 = 0" "length (t_buffer st1) = BUFFERSIZE" "t_savedpos st1 = 0"
    using assms(1,5) by (simp_all add: st1_def tftpopen_def tftpclose_def tftp_send_def)
  have p: "pending f st1 rest = tftp_packets f 0 @ rest" using open1 by (simp add: pending_def)
  have s: "synced f st1" using open1 by (simp add: synced_def last_block_def)
  have same: "st\<lparr>t_filepos := t_filepos st1\<rparr> = st" unfolding open1(1) using assms(1) by (cases st) simp
  have "rewind name (tftp_packets f 0 @ rest) (st\<lparr>t_filepos := t_filepos st1\<rparr>) = Inr (True, st1, pending f st1 rest)"
    unfolding same p using assms open1 by (simp add: rewind_def Let_def st1_def [symmetric])
  moreover have "last_block f < 65536" using assms(6) by (simp add: last_block_def div_less_iff_less_mult)
  ultimately show ?thesis
    using tftp_try_ok [OF s, of want name "tftp_packets f 0 @ rest" st rest] assms(1,7,8) open1(1) by (simp add: tftp_read_def)
qed

text \<open>A file of 40000 bytes after its first buffer was read, and at its end.\<close>

definition sample_file :: string where "sample_file = replicate 40000 CHR ''x''"

definition sample_tftp :: "int \<Rightarrow> int \<Rightarrow> tftp" where
  "sample_tftp base pos = \<lparr>t_basepos = base, t_savedpos = 40000, t_bufferend = 0, t_filepos = pos, t_eof = False, t_nextpacket = 0,
     t_buffer = replicate BUFFERSIZE NUL, t_sent = []\<rparr>"

theorem tftp_read_forward_witness:
  "\<exists>st'. tftp_read ''kernel'' 35000 (sample_tftp 0 0) (pending sample_file (sample_tftp 0 0) []) =
     Some (Inr (35000, take (nat 35000) (drop (nat (t_filepos (sample_tftp 0 0))) sample_file), st', pending sample_file st' []))
     \<and> synced sample_file st' \<and> t_filepos st' = t_filepos (sample_tftp 0 0) + 35000"
  by (rule tftp_read_forward) (simp_all add: sample_tftp_def sample_file_def synced_def last_block_def)

theorem tftp_read_start_witness:
  "\<exists>st'. tftp_read ''kernel'' 100 (sample_tftp 30720 0) (tftp_packets sample_file 0 @ []) =
     Some (Inr (100, take (nat 100) sample_file, st', pending sample_file st' [])) \<and> synced sample_file st' \<and> t_filepos st' = 100"
  by (rule tftp_read_start) (simp_all add: sample_tftp_def sample_file_def)

text \<open>While the file is skipped: \<open>k\<close> buffers are gone, and the length of the buffer is still 0.\<close>

definition skipped :: "int \<Rightarrow> nat \<Rightarrow> tftp \<Rightarrow> bool" where
  "skipped x k st \<longleftrightarrow> t_nextpacket st = 60 * k \<and> t_savedpos st = 30720 * int k \<and> t_filepos st = x \<and> t_bufferend st = 0 \<and> \<not> t_eof st \<and>
     length (t_buffer st) = BUFFERSIZE"

lemma skip_buffer:
  assumes "skipped x k st" "30720 * (k + 1) \<le> length f" "last_block f < 65536"
  shows "\<exists>st'. rewind_loop (tftp_packets f (60 * k) @ rest) st =
      (if 30720 * int (k + 1) \<le> x then rewind_loop (tftp_packets f (60 * (k + 1)) @ rest) st' else Inr (True, st', tftp_packets f (60 * (k + 1)) @ rest)) \<and>
    skipped x (k + 1) st'"
proof -
  have "60 * k + 60 \<le> length f div 512" using div_le_mono [OF assms(2), of 512] by simp
  then have full: "60 * k + 60 < last_block f" by (simp add: last_block_def)
  define st' where "st' = (got f (60 * k) (60 * k + 60) True st)\<lparr>t_buffer := take 30720 (drop (512 * (60 * k)) f), t_savedpos := 30720 * int (k + 1), t_filepos := x\<rparr>"
  have k: "t_nextpacket st = 60 * k" "length (t_buffer st) = BUFFERSIZE" "t_savedpos st = 30720 * int k" "t_filepos st = x" using assms(1) by (simp_all add: skipped_def)
  from get_buffer_full [OF k(1) full assms(3) k(2), of rest] k(3,4)
  have "rewind_loop (tftp_packets f (60 * k) @ rest) st =
      (if 30720 * int (k + 1) \<le> x then rewind_loop (tftp_packets f (60 * (k + 1)) @ rest) st' else Inr (True, st', tftp_packets f (60 * (k + 1)) @ rest))"
    by (subst rewind_loop.simps) (simp add: st'_def Let_def BUFFERSIZE_def algebra_simps)
  moreover have "skipped x (k + 1) st'" using assms(1,2) by (simp add: skipped_def st'_def got_def BUFFERSIZE_def)
  ultimately show ?thesis by blast
qed

lemma skip_buffers:
  assumes "last_block f < 65536" "30720 * j \<le> length f" "30720 * int j \<le> x"
  shows "skipped x k st \<Longrightarrow> k \<le> j \<Longrightarrow> \<exists>st'. rewind_loop (tftp_packets f (60 * k) @ rest) st = rewind_loop (tftp_packets f (60 * j) @ rest) st' \<and> skipped x j st'"
proof (induction "j - k" arbitrary: k st)
  case (Suc d)
  then have "k + 1 \<le> j" "d = j - (k + 1)" by simp_all
  then have "30720 * (k + 1) \<le> 30720 * j" by simp
  then have le: "30720 * (k + 1) \<le> length f" "30720 * int (k + 1) \<le> x" using assms(2,3) by linarith+
  from skip_buffer [OF Suc.prems(1) le(1) assms(1), of rest] le(2) obtain st1 where
      "rewind_loop (tftp_packets f (60 * k) @ rest) st = rewind_loop (tftp_packets f (60 * (k + 1)) @ rest) st1" "skipped x (k + 1) st1" by auto
  with Suc.hyps(1) [OF \<open>d = j - (k + 1)\<close> this(2) \<open>k + 1 \<le> j\<close>] show ?case by simp
qed auto

text \<open>Skipping in a file up to the position \<open>x\<close>, whose buffer is full or the last one.\<close>

lemma rewind_skips:
  assumes "last_block f < 65536" "skipped x 0 st" "0 \<le> x" "x < int (length f)" "m = nat x div 30720 + 1"
  shows "\<exists>st' ins'. rewind_loop (tftp_packets f 0 @ rest) st = Inr (True, st', ins') \<and> t_savedpos st' = 30720 * int m \<and> t_filepos st' = x \<and> t_bufferend st' = 0 \<and>
     (if 30720 * m \<le> length f then skipped x m st' \<and> ins' = tftp_packets f (60 * m) @ rest else t_eof st')"
proof -
  define j where "j = nat x div 30720"
  have "30720 * j \<le> nat x" "nat x < 30720 * (j + 1)" by (simp_all add: j_def)
  then have j: "30720 * int j \<le> x" "x < 30720 * int (j + 1)" "30720 * j \<le> length f" "30720 * j < length f" using assms(3,4) by linarith+
  have m: "m = j + 1" by (simp add: assms(5) j_def)
  from skip_buffers [OF assms(1) j(3,1) assms(2), of rest] obtain st1 where
      1: "rewind_loop (tftp_packets f 0 @ rest) st = rewind_loop (tftp_packets f (60 * j) @ rest) st1" "skipped x j st1" by auto
  show ?thesis
  proof (cases "30720 * (j + 1) \<le> length f")
    case True
    from skip_buffer [OF 1(2) True assms(1), of rest] j(2) obtain st2 where
        "rewind_loop (tftp_packets f (60 * j) @ rest) st1 = Inr (True, st2, tftp_packets f (60 * (j + 1)) @ rest)" "skipped x (j + 1) st2" by auto
    with 1(1) True show ?thesis by (auto simp: m skipped_def)
  next
    case False
    have k: "t_nextpacket st1 = 60 * j" "t_savedpos st1 = 30720 * int j" "t_filepos st1 = x" "t_bufferend st1 = 0" using 1(2) by (simp_all add: skipped_def)
    have "60 * j \<le> length f div 512" using div_le_mono [OF j(3), of 512] by simp
    then have "60 * j < last_block f" by (simp add: last_block_def)
    moreover have "length f div 512 < 60 * j + 60" using False by (simp add: div_less_iff_less_mult)
    then have "last_block f \<le> 60 * j + 60" by (simp add: last_block_def)
    ultimately have g: "get_buffer (tftp_packets f (60 * j) @ rest) st1 =
        Inr (int (length f) - 512 * int (60 * j), (got f (60 * j) (last_block f) True st1)\<lparr>t_eof := True, t_buffer := drop (512 * (60 * j)) f @ drop (length f - 512 * (60 * j)) (t_buffer st1)\<rparr>, rest)"
      by (rule get_buffer_last [OF k(1) _ _ assms(1)])
    define st2 where "st2 = ((got f (60 * j) (last_block f) True st1)\<lparr>t_eof := True, t_buffer := drop (512 * (60 * j)) f @ drop (length f - 512 * (60 * j)) (t_buffer st1)\<rparr>)
        \<lparr>t_savedpos := 30720 * int (j + 1), t_filepos := x\<rparr>"
    have "\<not> int (length f) - 512 * int (60 * j) < 0" using j(3) by linarith
    then have "rewind_loop (tftp_packets f (60 * j) @ rest) st1 = Inr (True, st2, rest)"
      using g k j(2) by (subst rewind_loop.simps) (simp add: st2_def Let_def BUFFERSIZE_def algebra_simps)
    with 1(1) False show ?thesis by (auto simp: m st2_def got_def k)
  qed
qed

text \<open>After the base was set too low, the next buffer is fetched and the position is in front of it.\<close>

lemma read_loop_before:
  assumes "skipped x m st" "t_basepos st = 30720 * int m - 34816" "30720 * m \<le> length f" "last_block f < 65536" "30720 * (int m - 1) \<le> x" "x < 30720 * int m" "0 < want"
  shows "read_loop [] 0 want (st\<lparr>t_savedpos := s\<rparr>) (tftp_packets f (60 * m) @ rest) =
    (if 26624 < x - 30720 * (int m - 1) then Some (Inr (Finished 0 [] (st\<lparr>t_savedpos := s\<rparr>) (tftp_packets f (60 * m) @ rest))) else Some (Inl OutOfBounds)) \<or>
    (x - 30720 * (int m - 1) \<le> 26624 \<and> (\<exists>st' ins'. read_loop [] 0 want (st\<lparr>t_savedpos := s\<rparr>) (tftp_packets f (60 * m) @ rest) = Some (Inr (Behind [] 0 want st' ins')) \<and>
       read_behind [] 0 want st' ins' = Inl OutOfBounds))"
proof -
  let ?st = "st\<lparr>t_savedpos := s\<rparr>" and ?ins = "tftp_packets f (60 * m) @ rest"
  have f: "t_filepos ?st = x" "t_bufferend ?st = 0" "t_nextpacket ?st = 60 * m" "length (t_buffer ?st) = BUFFERSIZE" "t_basepos ?st = 30720 * int m - 34816"
    using assms(1,2) by (simp_all add: skipped_def)
  show ?thesis
  proof (cases "26624 < x - 30720 * (int m - 1)")
    case True
    then show ?thesis using f by (subst read_loop.simps) (simp add: Let_def BUFFERSIZE_def)
  next
    case False
    have "60 * m \<le> length f div 512" using div_le_mono [OF assms(3), of 512] by simp
    then have lb: "60 * m < last_block f" by (simp add: last_block_def)
    obtain ret st4 ins' where g: "get_buffer ?ins ?st = Inr (ret, st4, ins')" "t_basepos st4 = 30720 * int m" "t_filepos st4 = x" "0 \<le> ret"
    proof (cases "60 * m + 60 < last_block f")
      case True
      from get_buffer_full [OF f(3) True assms(4) f(4), of rest] f that show ?thesis by (simp add: got_def)
    next
      case False
      have "512 * int (60 * m) \<le> int (length f)" using assms(3) by linarith
      then show ?thesis using get_buffer_last [OF f(3) lb _ assms(4), of rest] False f that lb by (simp add: got_def)
    qed
    let ?st4 = "st4\<lparr>t_bufferend := ret\<rparr>"
    have out: "copy_out ?st4 (x - 30720 * int m) n = Inl OutOfBounds" for n using assms(6) by (simp add: copy_out_def)
    have c: "copy_out ?st (x - (30720 * int m - 34816)) 0 = Inr []" using f(4) False assms(5) by (simp add: copy_out_def BUFFERSIZE_def)
    have same: "st\<lparr>t_savedpos := s, t_filepos := x\<rparr> = ?st" using f(1) by simp
    have "read_loop [] 0 want ?st ?ins = (if ret = int BUFFERSIZE then read_loop [] 0 want ?st4 ins' else Some (Inr (Behind [] 0 want ?st4 ins')))"
    proof -
      have neg: "0 - (x - (30720 * int m - 34816)) < want" "max 0 (0 - (x - (30720 * int m - 34816))) = 0" "\<not> int BUFFERSIZE < x - (30720 * int m - 34816)"
        using assms(5,7) False by (simp_all add: BUFFERSIZE_def)
      show ?thesis
        by (subst read_loop.simps) (use g neg c f in \<open>simp add: same Let_def\<close>)
    qed
    moreover have "read_loop [] 0 want ?st4 ins' = Some (Inl OutOfBounds)"
    proof -
      have "\<not> int BUFFERSIZE < x - 30720 * int m" "max 0 (ret - (x - 30720 * int m)) = ret - (x - 30720 * int m)" using assms(6) g(4) by (simp_all add: BUFFERSIZE_def)
      then show ?thesis by (subst read_loop.simps) (simp add: g(2,3) out Let_def)
    qed
    moreover have "read_behind [] 0 want ?st4 ins' = Inl OutOfBounds"
      using g(2-4) out assms(6) by (simp add: read_behind_def Let_def)
    ultimately show ?thesis using False by (cases "ret = int BUFFERSIZE") auto
  qed
qed



end
